(* ===== verification/Pinocchio_Prelude.thy ===== *)
theory Pinocchio_Prelude
  imports Main "HOL-Library.Word"
begin

text \<open>
  Shared ground of the development: bytes and C strings, decimal numbers as the code
  prints and reads them (\<^verbatim>\<open>boost::lexical_cast\<close> of an integer,
  \<^verbatim>\<open>strtol\<close>), the faults a C++ run can end in, and the contracts of encoders and
  decoders as locales.

  A \<^verbatim>\<open>char\<close> of the code is HOL's \<open>char\<close>, a byte; \<open>of_char c\<close> is its unsigned
  value, and where the code compares a plain (signed) \<^verbatim>\<open>char\<close> with 0 the model compares
  the unsigned value with 128.
\<close>

named_theorems decimal_simps \<open>printing and reading of decimal numbers\<close>

type_synonym bytes = "char list"

abbreviation CR :: char where "CR \<equiv> CHR 0x0D"

abbreviation LF :: char where "LF \<equiv> CHR 0x0A"

definition crlf :: bytes where
  "crlf = [CR, LF]"

section \<open>Faults\<close>

text \<open>
  What a C++ run can end in instead of a value: an \<^verbatim>\<open>assert\<close> that fails (the build
  defines no \<^verbatim>\<open>NDEBUG\<close>), an iterator range whose end lies before its start, a read or
  pop of an empty container. \<open>Out_of_fuel\<close> is the model's own: recursion deeper than the
  bound it was given; the parser theory shows that it never happens.
\<close>

datatype fault =
    Assert_failed
  | Bad_range
  | Empty_container
  | Out_of_fuel

section \<open>Digits\<close>

definition is_digit :: "char \<Rightarrow> bool" where
  "is_digit c \<longleftrightarrow> 48 \<le> (of_char c :: nat) \<and> (of_char c :: nat) \<le> 57"

definition digit_val :: "char \<Rightarrow> nat" where
  "digit_val c = of_char c - 48"

definition digit_char :: "nat \<Rightarrow> char" where
  "digit_char n = char_of (48 + n)"

lemma of_char_digit_char: "n < 10 \<Longrightarrow> (of_char (digit_char n) :: nat) = 48 + n"
  by (simp add: digit_char_def)

lemma is_digit_digit_char [simp]: "n < 10 \<Longrightarrow> is_digit (digit_char n)"
  by (simp add: is_digit_def of_char_digit_char)

lemma digit_val_digit_char [simp]: "n < 10 \<Longrightarrow> digit_val (digit_char n) = n"
  by (simp add: digit_val_def of_char_digit_char)

section \<open>Decimal printing\<close>

text \<open>\<^verbatim>\<open>boost::lexical_cast<std::string>\<close> of an unsigned and of a signed integer.\<close>

fun dec_of_nat :: "nat \<Rightarrow> bytes" where
  "dec_of_nat n = (if n < 10 then [digit_char n]
     else dec_of_nat (n div 10) @ [digit_char (n mod 10)])"

declare dec_of_nat.simps [simp del]

definition dec_of_int :: "int \<Rightarrow> bytes" where
  "dec_of_int i = (if i < 0 then CHR ''-'' # dec_of_nat (nat (- i)) else dec_of_nat (nat i))"

definition digits_value :: "nat \<Rightarrow> bytes \<Rightarrow> nat" where
  "digits_value a ds = foldl (\<lambda>a c. 10 * a + digit_val c) a ds"

lemma digits_value_simps [simp]:
  "digits_value a [] = a"
  "digits_value a (c # ds) = digits_value (10 * a + digit_val c) ds"
  "digits_value a (ds @ es) = digits_value (digits_value a ds) es"
  by (simp_all add: digits_value_def)

lemma dec_of_nat_not_Nil [simp]: "dec_of_nat n \<noteq> []"
  by (subst dec_of_nat.simps) simp

lemma dec_of_nat_digits: "\<forall>c \<in> set (dec_of_nat n). is_digit c"
proof (induction n rule: dec_of_nat.induct)
  case (1 n)
  then show ?case by (subst dec_of_nat.simps) auto
qed

lemma dec_of_nat_all_digits [simp]: "list_all is_digit (dec_of_nat n)"
  using dec_of_nat_digits by (simp add: list_all_iff)

lemma digits_value_dec_of_nat [simp]: "digits_value 0 (dec_of_nat n) = n"
proof (induction n rule: dec_of_nat.induct)
  case (1 n)
  then show ?case by (subst dec_of_nat.simps) auto
qed

lemma is_digit_not_sign:
  "is_digit c \<Longrightarrow> c \<noteq> CHR ''-'' \<and> c \<noteq> CHR ''+'' \<and> c \<noteq> CR \<and> c \<noteq> LF"
  by (auto simp: is_digit_def)

section \<open>Reading a number: strtol\<close>

definition LONG_MAX :: int where "LONG_MAX = 2 ^ 63 - 1"

definition LONG_MIN :: int where "LONG_MIN = - (2 ^ 63)"

text \<open>The white space \<^verbatim>\<open>strtol\<close> skips: blank, tab, line feed, vertical tab, form feed,
  carriage return.\<close>

definition is_space :: "char \<Rightarrow> bool" where
  "is_space c \<longleftrightarrow> c = CHR '' '' \<or> (9 \<le> (of_char c :: nat) \<and> (of_char c :: nat) \<le> 13)"

definition clamp_long :: "int \<Rightarrow> int" where
  "clamp_long v = max LONG_MIN (min LONG_MAX v)"

text \<open>
  \<^verbatim>\<open>strtol(s, 0, 10)\<close>: white space, an optional sign, then the longest run of
  digits; 0 when there is none, the nearest bound of \<^verbatim>\<open>long\<close> on overflow. What follows
  the digits is ignored.
\<close>

definition strtol :: "bytes \<Rightarrow> int" where
  "strtol s =
     (let t = dropWhile is_space s
      in case t of
           [] \<Rightarrow> 0
         | c # u \<Rightarrow>
             if c = CHR ''-'' then clamp_long (- int (digits_value 0 (takeWhile is_digit u)))
             else if c = CHR ''+'' then clamp_long (int (digits_value 0 (takeWhile is_digit u)))
             else clamp_long (int (digits_value 0 (takeWhile is_digit t))))"

lemma strtol_bounds: "LONG_MIN \<le> strtol s \<and> strtol s \<le> LONG_MAX"
  by (auto simp: strtol_def clamp_long_def LONG_MIN_def LONG_MAX_def Let_def split: list.split)

lemma is_digit_not_space: "is_digit c \<Longrightarrow> \<not> is_space c"
  by (auto simp: is_digit_def is_space_def)

lemma takeWhile_all_digits [simp]: "\<forall>c \<in> set ds. is_digit c \<Longrightarrow> takeWhile is_digit ds = ds"
  by (induction ds) auto

lemma strtol_digits:
  assumes "list_all is_digit ds"
  shows "strtol ds = clamp_long (int (digits_value 0 ds))"
proof (cases ds)
  case Nil
  then show ?thesis by (simp add: strtol_def clamp_long_def LONG_MIN_def LONG_MAX_def)
next
  case (Cons c u)
  with assms have "is_digit c" and "\<forall>c \<in> set u. is_digit c"
    by (auto simp: list_all_iff)
  with Cons is_digit_not_space [of c] is_digit_not_sign [of c] show ?thesis
    by (simp add: strtol_def)
qed

lemma strtol_neg_digits:
  assumes "list_all is_digit ds"
  shows "strtol (CHR ''-'' # ds) = clamp_long (- int (digits_value 0 ds))"
  using assms by (simp add: strtol_def is_space_def list_all_iff)

lemma strtol_dec_of_nat [decimal_simps]:
  "int n \<le> LONG_MAX \<Longrightarrow> strtol (dec_of_nat n) = int n"
  by (simp add: strtol_digits clamp_long_def LONG_MIN_def)

lemma strtol_dec_of_int [decimal_simps]:
  "LONG_MIN \<le> i \<Longrightarrow> i \<le> LONG_MAX \<Longrightarrow> strtol (dec_of_int i) = i"
  by (auto simp: dec_of_int_def strtol_neg_digits strtol_dec_of_nat clamp_long_def LONG_MAX_def)

section \<open>Contracts of encoders and decoders\<close>

text \<open>
  Several parts of the program write a value to bytes that another part reads back: the
  Redis protocol, decimal numbers, JSON strings. Their common contract: a decoder that
  reads one value from the front of its input and says how many bytes it took.
\<close>

locale prefix_codec =
  fixes enc :: "'a \<Rightarrow> 'b list"
    and dec :: "'b list \<Rightarrow> ('a \<times> nat) option"
    and ok :: "'a \<Rightarrow> bool"
  assumes dec_enc: "ok x \<Longrightarrow> dec (enc x @ rest) = Some (x, length (enc x))"
begin

lemma dec_exact: "ok x \<Longrightarrow> dec (enc x) = Some (x, length (enc x))"
  using dec_enc [of x "[]"] by simp


text \<open>No encoding is a prefix of another: a reader never stops early or late.\<close>

lemma prefix_free:
  assumes "ok x" and "ok y" and eq: "enc x @ r = enc y @ s"
  shows "x = y \<and> r = s"
proof -
  have "dec (enc x @ r) = Some (x, length (enc x))" and "dec (enc y @ s) = Some (y, length (enc y))"
    using assms(1,2) by (simp_all add: dec_enc)
  then have "Some (x, length (enc x)) = Some (y, length (enc y))"
    unfolding eq by (rule trans [OF sym])
  then have "x = y" by blast
  with eq show ?thesis by blast
qed

lemma enc_inject: "ok x \<Longrightarrow> ok y \<Longrightarrow> enc x = enc y \<Longrightarrow> x = y"
  by (rule conjunct1 [OF prefix_free [where r = "[]" and s = "[]"]]) (auto simp: append_Nil2)

text \<open>A concatenation of encodings splits in one way only.\<close>

lemma concat_inject:
  assumes "list_all ok xs" and "list_all ok ys" and "length xs = length ys"
    and "concat (map enc xs) @ r = concat (map enc ys) @ s"
  shows "xs = ys \<and> r = s"
  using assms(3,1,2,4)
proof (induction xs ys rule: list_induct2)
  case (Cons x xs y ys)
  then have "x = y \<and> concat (map enc xs) @ r = concat (map enc ys) @ s"
    by (intro prefix_free) auto
  with Cons show ?case by simp
qed simp

end

end
