(* ===== verification/Redis_Value.thy ===== *)
theory Redis_Value
  imports Pinocchio_Prelude
begin

text \<open>
  \<^verbatim>\<open>src/redis_value.cpp\<close>, \<^verbatim>\<open>include/redis/redis_value.h\<close>: a reply of the Redis server, a
  variant of nothing, an \<^verbatim>\<open>int\<close>, a byte vector and a vector of replies, with a flag
  that marks error replies. The \<^verbatim>\<open>int\<close> is a 32 bit word read with \<^term>\<open>sint\<close>.
\<close>

section \<open>The value and its constructors\<close>

datatype redis_value = RV (rv_value: redis_data) (rv_error: bool)
  and redis_data = NullTag | IntD "32 word" | BytesD bytes | ArrayD "redis_value list"

definition rv_null :: redis_value where
  "rv_null = RV NullTag False"

definition rv_int :: "32 word \<Rightarrow> redis_value" where
  "rv_int i = RV (IntD i) False"

definition rv_bytes :: "bytes \<Rightarrow> redis_value" where
  "rv_bytes b = RV (BytesD b) False"

definition rv_error_bytes :: "bytes \<Rightarrow> redis_value" where
  "rv_error_bytes b = RV (BytesD b) True"

definition rv_array :: "redis_value list \<Rightarrow> redis_value" where
  "rv_array vs = RV (ArrayD vs) False"

lemmas rv_defs = rv_null_def rv_int_def rv_bytes_def rv_error_bytes_def rv_array_def

section \<open>Reading a value\<close>

text \<open>\<^verbatim>\<open>castTo<T>\<close> gives the content when the variant holds a \<^verbatim>\<open>T\<close> and \<^verbatim>\<open>T()\<close> otherwise.\<close>

definition toArray :: "redis_value \<Rightarrow> redis_value list" where
  "toArray v = (case rv_value v of ArrayD vs \<Rightarrow> vs | _ \<Rightarrow> [])"

definition toByteArray :: "redis_value \<Rightarrow> bytes" where
  "toByteArray v = (case rv_value v of BytesD b \<Rightarrow> b | _ \<Rightarrow> [])"

definition toString :: "redis_value \<Rightarrow> bytes" where
  "toString v = toByteArray v"

definition toInt :: "redis_value \<Rightarrow> 32 word" where
  "toInt v = (case rv_value v of IntD i \<Rightarrow> i | _ \<Rightarrow> 0)"

definition isError :: "redis_value \<Rightarrow> bool" where
  "isError v = rv_error v"

definition isOk :: "redis_value \<Rightarrow> bool" where
  "isOk v \<longleftrightarrow> \<not> isError v"

definition isNull :: "redis_value \<Rightarrow> bool" where
  "isNull v = (case rv_value v of NullTag \<Rightarrow> True | _ \<Rightarrow> False)"

definition isInt :: "redis_value \<Rightarrow> bool" where
  "isInt v = (case rv_value v of IntD _ \<Rightarrow> True | _ \<Rightarrow> False)"

definition isString :: "redis_value \<Rightarrow> bool" where
  "isString v = (case rv_value v of BytesD _ \<Rightarrow> True | _ \<Rightarrow> False)"

definition isByteArray :: "redis_value \<Rightarrow> bool" where
  "isByteArray v = (case rv_value v of BytesD _ \<Rightarrow> True | _ \<Rightarrow> False)"

definition isArray :: "redis_value \<Rightarrow> bool" where
  "isArray v = (case rv_value v of ArrayD _ \<Rightarrow> True | _ \<Rightarrow> False)"

lemmas rv_read_defs = toArray_def toByteArray_def toString_def toInt_def isError_def isOk_def
  isNull_def isInt_def isString_def isByteArray_def isArray_def

lemma toArray_rv_array [simp]: "toArray (rv_array vs) = vs"
  by (simp add: toArray_def rv_array_def)

lemma isOk_simps [simp]:
  "isOk rv_null" "isOk (rv_int i)" "isOk (rv_bytes b)" "isOk (rv_array vs)"
  "\<not> isOk (rv_error_bytes b)"
  by (simp_all add: rv_defs isOk_def isError_def)

text \<open>Of the four kinds exactly one is reported, whatever the error flag.\<close>

lemma kind_exclusive:
  "length (filter (\<lambda>b. b) [isNull v, isInt v, isString v, isArray v]) = 1"
  by (simp add: isNull_def isInt_def isString_def isArray_def split: redis_data.split)

section \<open>Equality\<close>

text \<open>
  \<^verbatim>\<open>operator ==\<close> compares the variants, so vectors element by element with the same
  operator; the error flag takes no part in it.
\<close>

fun rv_eq :: "redis_value \<Rightarrow> redis_value \<Rightarrow> bool"
  and data_eq :: "redis_data \<Rightarrow> redis_data \<Rightarrow> bool"
  and rvs_eq :: "redis_value list \<Rightarrow> redis_value list \<Rightarrow> bool"
where
  "rv_eq (RV d e) (RV d' e') = data_eq d d'"
| "data_eq NullTag NullTag = True"
| "data_eq (IntD i) (IntD j) = (i = j)"
| "data_eq (BytesD a) (BytesD b) = (a = b)"
| "data_eq (ArrayD vs) (ArrayD ws) = rvs_eq vs ws"
| "data_eq _ _ = False"
| "rvs_eq [] [] = True"
| "rvs_eq (v # vs) (w # ws) = (rv_eq v w \<and> rvs_eq vs ws)"
| "rvs_eq _ _ = False"

definition rv_neq :: "redis_value \<Rightarrow> redis_value \<Rightarrow> bool" where
  "rv_neq v w \<longleftrightarrow> \<not> rv_eq v w"

text \<open>What equality keeps of a value: everything but the error flags.\<close>

fun strip :: "redis_value \<Rightarrow> redis_value"
  and strip_data :: "redis_data \<Rightarrow> redis_data"
where
  "strip (RV d e) = RV (strip_data d) False"
| "strip_data (ArrayD vs) = ArrayD (map strip vs)"
| "strip_data d = d"

lemma rv_eq_strip:
  "rv_eq v w \<longleftrightarrow> strip v = strip w"
  "data_eq d d' \<longleftrightarrow> strip_data d = strip_data d'"
  "rvs_eq vs ws \<longleftrightarrow> map strip vs = map strip ws"
  by (induction v w and d d' and vs ws rule: rv_eq_data_eq_rvs_eq.induct) auto

section \<open>Printing for the log\<close>

text \<open>
  \<^verbatim>\<open>inspect\<close>. The loop of the array branch appends every element and \<open>, \<close>; the last
  blank is then cut off and the last comma overwritten with the closing bracket.
\<close>

fun inspect :: "redis_value \<Rightarrow> bytes"
  and inspect_data :: "redis_data \<Rightarrow> bytes"
  and inspect_loop :: "redis_value list \<Rightarrow> bytes \<Rightarrow> bytes"
where
  "inspect (RV d e) = (if e then ''error: '' @ toString (RV d e) else inspect_data d)"
| "inspect_data NullTag = ''(null)''"
| "inspect_data (IntD i) = dec_of_int (sint i)"
| "inspect_data (BytesD b) = b"
| "inspect_data (ArrayD vs) =
     (if vs \<noteq> []
      then let result = inspect_loop vs ''['';
               cut = take (length result - 1) result
           in cut[length cut - 1 := CHR '']'']
      else ''['' @ '']'')"
| "inspect_loop [] result = result"
| "inspect_loop (v # vs) result = inspect_loop vs (result @ inspect v @ '', '')"

lemma inspect_loop_eq:
  "inspect_loop vs result = result @ concat (map (\<lambda>v. inspect v @ '', '') vs)"
  by (induction vs arbitrary: result) auto

fun join :: "bytes \<Rightarrow> bytes list \<Rightarrow> bytes" where
  "join sep [] = []"
| "join sep [x] = x"
| "join sep (x # y # xs) = x @ sep @ join sep (y # xs)"

lemma concat_sep_join:
  "xs \<noteq> [] \<Longrightarrow> concat (map (\<lambda>x. x @ sep) xs) = join sep xs @ sep"
  by (induction sep xs rule: join.induct) auto

text \<open>The cut and the overwritten comma leave the elements between single separators.\<close>

lemma inspect_array:
  "inspect (rv_array vs) = ''['' @ join '', '' (map inspect vs) @ '']''"
proof (cases "vs = []")
  case True
  then show ?thesis by (simp add: rv_array_def)
next
  case False
  let ?j = "join '', '' (map inspect vs)"
  have "inspect_loop vs ''['' = ''['' @ ?j @ '', ''"
    using concat_sep_join [of "map inspect vs" "'', ''"] False
    by (simp add: inspect_loop_eq o_def)
  with False show ?thesis
    by (simp add: rv_array_def list_update_append)
qed

section \<open>Comparison and printing\<close>

text \<open>Two replies are equal for \<^verbatim>\<open>operator ==\<close> exactly when they agree once all error flags,
  at every depth, are erased; the operator is an equivalence, and an error reply is equal to the
  plain string with the same text.\<close>

lemma equality_ignores_error_flags:
  "(rv_eq v w \<longleftrightarrow> strip v = strip w) \<and> (rv_neq v w \<longleftrightarrow> strip v \<noteq> strip w) \<and>
   rv_eq v v \<and> (rv_eq v w = rv_eq w v) \<and>
   rv_eq (rv_error_bytes b) (rv_bytes b)"
  by (auto simp: rv_eq_strip rv_neq_def rv_error_bytes_def rv_bytes_def)

text \<open>\<^verbatim>\<open>inspect\<close> of an array is the elements' texts between brackets, separated by comma and
  blank: the cut of the last separator and the overwritten last character never touch an
  element, also in an empty array.\<close>

lemma inspect_array_separators:
  "inspect (rv_array vs) = CHR ''['' # join '', '' (map inspect vs) @ [CHR '']'']"
  using inspect_array [of vs] by simp

end
