(* ===== verification/Redis_Parser.thy ===== *)
theory Redis_Parser
  imports Redis_Value
begin

text \<open>
  \<^verbatim>\<open>src/redis_parser.cpp\<close>, \<^verbatim>\<open>include/redis/redis_parser.h\<close>: the resumable parser of the
  Redis protocol. \<^verbatim>\<open>parse(ptr, size)\<close> reads as much of a buffer as belongs to one
  reply and says how many bytes it took; when the buffer ends first, the object keeps
  where it stopped: the state of the switch, the bytes read so far, and for every array
  under way the number of elements missing and the elements read.

  The buffer is the list \<open>ptr\<close>, its size the length of the list. The two stacks are lists
  with the top first. This theory holds the code as it is written; what it computes is
  stated in the theories about the automaton it implements.
\<close>

section \<open>State\<close>

datatype parse_result = Completed | Incompleted | Error

datatype parse_state =
    Start
  | StringS | StringLF
  | ErrorString | ErrorLF
  | IntegerS | IntegerLF
  | BulkSize | BulkSizeLF | BulkS | BulkCR | BulkLF
  | ArraySize | ArraySizeLF

record redis_parser =
  pstate :: parse_state
  bulk_size :: int
  buf :: bytes
  array_stack :: "int list"
  value_stack :: "redis_value list"

definition new_parser :: redis_parser where
  "new_parser = \<lparr>pstate = Start, bulk_size = 0, buf = [], array_stack = [], value_stack = []\<rparr>"

text \<open>The characters that announce the five kinds of reply.\<close>

definition stringReply :: char where "stringReply = CHR ''+''"
definition errorReply :: char where "errorReply = CHR ''-''"
definition integerReply :: char where "integerReply = CHR '':''"
definition bulkReply :: char where "bulkReply = CHR ''$''"
definition arrayReply :: char where "arrayReply = CHR ''*''"

lemmas reply_defs = stringReply_def errorReply_def integerReply_def bulkReply_def arrayReply_def

text \<open>\<^verbatim>\<open>isChar\<close> and \<^verbatim>\<open>isControl\<close> of a signed \<^verbatim>\<open>char\<close> promoted to \<^verbatim>\<open>int\<close>.\<close>

definition isChar :: "char \<Rightarrow> bool" where
  "isChar c \<longleftrightarrow> (of_char c :: nat) \<le> 127"

definition isControl :: "char \<Rightarrow> bool" where
  "isControl c \<longleftrightarrow> (of_char c :: nat) \<le> 31 \<or> (of_char c :: nat) = 127"

section \<open>One round of the switch\<close>

text \<open>
  A round ends by leaving the switch (\<open>Continue j\<close>: the loop goes on at \<open>j + 1\<close>), by a
  \<^verbatim>\<open>return\<close>, by the call of \<^verbatim>\<open>parseArray\<close> on what follows the first \<open>n\<close> bytes, whose
  result is returned with \<open>n\<close> added, or by a fault.
\<close>

datatype chunk_step =
    Continue nat redis_parser
  | Return nat parse_result redis_parser
  | Enter_array nat redis_parser
  | Fault fault

definition case_start :: "char \<Rightarrow> nat \<Rightarrow> redis_parser \<Rightarrow> chunk_step" where
  "case_start c i p0 =
     (let p = p0\<lparr>buf := []\<rparr> in
      if c = stringReply then Continue i (p\<lparr>pstate := StringS\<rparr>)
      else if c = errorReply then Continue i (p\<lparr>pstate := ErrorString\<rparr>)
      else if c = integerReply then Continue i (p\<lparr>pstate := IntegerS\<rparr>)
      else if c = bulkReply then Continue i (p\<lparr>pstate := BulkSize, bulk_size := 0\<rparr>)
      else if c = arrayReply then Continue i (p\<lparr>pstate := ArraySize\<rparr>)
      else Return (i + 1) Error (p\<lparr>pstate := Start\<rparr>))"

definition case_string :: "char \<Rightarrow> nat \<Rightarrow> redis_parser \<Rightarrow> chunk_step" where
  "case_string c i p =
     (if c = CR then Continue i (p\<lparr>pstate := StringLF\<rparr>)
      else if isChar c \<and> \<not> isControl c then Continue i (p\<lparr>buf := buf p @ [c]\<rparr>)
      else Return (i + 1) Error (p\<lparr>pstate := Start\<rparr>))"

definition case_error_string :: "char \<Rightarrow> nat \<Rightarrow> redis_parser \<Rightarrow> chunk_step" where
  "case_error_string c i p =
     (if c = CR then Continue i (p\<lparr>pstate := ErrorLF\<rparr>)
      else if isChar c \<and> \<not> isControl c then Continue i (p\<lparr>buf := buf p @ [c]\<rparr>)
      else Return (i + 1) Error (p\<lparr>pstate := Start\<rparr>))"

definition case_bulk_size :: "char \<Rightarrow> nat \<Rightarrow> redis_parser \<Rightarrow> chunk_step" where
  "case_bulk_size c i p =
     (if c = CR then
        (if buf p = [] then Return (i + 1) Error (p\<lparr>pstate := Start\<rparr>)
         else Continue i (p\<lparr>pstate := BulkSizeLF\<rparr>))
      else if is_digit c \<or> c = CHR ''-'' then Continue i (p\<lparr>buf := buf p @ [c]\<rparr>)
      else Return (i + 1) Error (p\<lparr>pstate := Start\<rparr>))"

definition case_string_lf :: "char \<Rightarrow> nat \<Rightarrow> redis_parser \<Rightarrow> chunk_step" where
  "case_string_lf c i p =
     (if c = LF
      then Return (i + 1) Completed
             (p\<lparr>pstate := Start, value_stack := rv_bytes (buf p) # value_stack p\<rparr>)
      else Return (i + 1) Error (p\<lparr>pstate := Start\<rparr>))"

definition case_error_lf :: "char \<Rightarrow> nat \<Rightarrow> redis_parser \<Rightarrow> chunk_step" where
  "case_error_lf c i p =
     (if c = LF
      then Return (i + 1) Completed
             (p\<lparr>pstate := Start, value_stack := rv_error_bytes (buf p) # value_stack p\<rparr>)
      else Return (i + 1) Error (p\<lparr>pstate := Start\<rparr>))"

text \<open>
  \<open>available\<close> is what the buffer holds behind the line feed. In the last branch the bulk
  is only as long as the rest of the buffer allows: \<^verbatim>\<open>buf.assign\<close> copies that much.
\<close>

definition case_bulk_size_lf :: "bytes \<Rightarrow> char \<Rightarrow> nat \<Rightarrow> redis_parser \<Rightarrow> chunk_step" where
  "case_bulk_size_lf ptr c i p =
     (if c = LF then
        let size = strtol (buf p); p1 = p\<lparr>bulk_size := size, buf := []\<rparr> in
        if size = -1 then
          Return (i + 1) Completed (p1\<lparr>pstate := Start, value_stack := rv_null # value_stack p\<rparr>)
        else if size = 0 then Continue i (p1\<lparr>pstate := BulkCR\<rparr>)
        else if size < 0 then Return (i + 1) Error (p1\<lparr>pstate := Start\<rparr>)
        else
          let available = int (length ptr) - int i - 1;
              canRead = min size available;
              p2 = (if canRead > 0
                    then p1\<lparr>buf := take (nat canRead) (drop (i + 1) ptr)\<rparr> else p1);
              j = i + nat canRead in
          if size > available
          then Return (j + 1) Incompleted (p2\<lparr>bulk_size := size - canRead, pstate := BulkS\<rparr>)
          else Continue j (p2\<lparr>pstate := BulkCR\<rparr>)
      else Return (i + 1) Error (p\<lparr>pstate := Start\<rparr>))"

text \<open>
  The range that is inserted runs from \<^verbatim>\<open>ptr + i\<close> to \<^verbatim>\<open>ptr + canRead\<close>, not to
  \<^verbatim>\<open>ptr + i + canRead\<close>: it is the intended one only at \<open>i = 0\<close>, and no range at all when
  \<open>canRead < i\<close>.
\<close>

definition case_bulk :: "bytes \<Rightarrow> nat \<Rightarrow> redis_parser \<Rightarrow> chunk_step" where
  "case_bulk ptr i p =
     (if \<not> bulk_size p > 0 then Fault Assert_failed
      else
        let available = int (length ptr) - int i;
            canRead = min available (bulk_size p) in
        if canRead < int i then Fault Bad_range
        else
          let p1 = p\<lparr>buf := buf p @ take (nat canRead - i) (drop i ptr),
                     bulk_size := bulk_size p - canRead\<rparr>;
              j = i + nat canRead - 1 in
          if bulk_size p1 > 0 then Return (j + 1) Incompleted p1
          else if length ptr = j + 1 then Return (j + 1) Incompleted (p1\<lparr>pstate := BulkCR\<rparr>)
          else Continue j (p1\<lparr>pstate := BulkCR\<rparr>))"

definition case_bulk_cr :: "char \<Rightarrow> nat \<Rightarrow> redis_parser \<Rightarrow> chunk_step" where
  "case_bulk_cr c i p =
     (if c = CR then Continue i (p\<lparr>pstate := BulkLF\<rparr>)
      else Return (i + 1) Error (p\<lparr>pstate := Start\<rparr>))"

definition case_bulk_lf :: "char \<Rightarrow> nat \<Rightarrow> redis_parser \<Rightarrow> chunk_step" where
  "case_bulk_lf c i p =
     (if c = LF
      then Return (i + 1) Completed
             (p\<lparr>pstate := Start, value_stack := rv_bytes (buf p) # value_stack p\<rparr>)
      else Return (i + 1) Error (p\<lparr>pstate := Start\<rparr>))"

definition case_array_size :: "char \<Rightarrow> nat \<Rightarrow> redis_parser \<Rightarrow> chunk_step" where
  "case_array_size c i p =
     (if c = CR then
        (if buf p = [] then Return (i + 1) Error (p\<lparr>pstate := Start\<rparr>)
         else Continue i (p\<lparr>pstate := ArraySizeLF\<rparr>))
      else if is_digit c \<or> c = CHR ''-'' then Continue i (p\<lparr>buf := buf p @ [c]\<rparr>)
      else Return (i + 1) Error (p\<lparr>pstate := Start\<rparr>))"

definition case_array_size_lf :: "bytes \<Rightarrow> char \<Rightarrow> nat \<Rightarrow> redis_parser \<Rightarrow> chunk_step" where
  "case_array_size_lf ptr c i p =
     (if c = LF then
        let arraySize = strtol (buf p); p1 = p\<lparr>buf := []\<rparr> in
        if arraySize = -1 \<or> arraySize = 0 then
          Return (i + 1) Completed
            (p1\<lparr>pstate := Start, value_stack := rv_array [] # value_stack p\<rparr>)
        else if arraySize < 0 then Return (i + 1) Error (p1\<lparr>pstate := Start\<rparr>)
        else
          let p2 = p1\<lparr>array_stack := arraySize # array_stack p,
                      value_stack := rv_array [] # value_stack p, pstate := Start\<rparr> in
          if i + 1 \<noteq> length ptr then Enter_array (i + 1) p2
          else Return (i + 1) Incompleted p2
      else Return (i + 1) Error (p\<lparr>pstate := Start\<rparr>))"

definition case_integer :: "char \<Rightarrow> nat \<Rightarrow> redis_parser \<Rightarrow> chunk_step" where
  "case_integer c i p =
     (if c = CR then
        (if buf p = [] then Return (i + 1) Error (p\<lparr>pstate := Start\<rparr>)
         else Continue i (p\<lparr>pstate := IntegerLF\<rparr>))
      else if is_digit c \<or> c = CHR ''-'' then Continue i (p\<lparr>buf := buf p @ [c]\<rparr>)
      else Return (i + 1) Error (p\<lparr>pstate := Start\<rparr>))"

text \<open>The \<^verbatim>\<open>long\<close> that \<^verbatim>\<open>strtol\<close> read becomes the \<^verbatim>\<open>int\<close> of a \<^verbatim>\<open>RedisValue\<close>: its low
  32 bits.\<close>

definition case_integer_lf :: "char \<Rightarrow> nat \<Rightarrow> redis_parser \<Rightarrow> chunk_step" where
  "case_integer_lf c i p =
     (if c = LF
      then Return (i + 1) Completed
             (p\<lparr>pstate := Start, buf := [],
                value_stack := rv_int (word_of_int (strtol (buf p))) # value_stack p\<rparr>)
      else Return (i + 1) Error (p\<lparr>pstate := Start\<rparr>))"

definition chunk_switch :: "bytes \<Rightarrow> nat \<Rightarrow> redis_parser \<Rightarrow> chunk_step" where
  "chunk_switch ptr i p =
     (let c = ptr ! i in
      case pstate p of
        Start \<Rightarrow> case_start c i p
      | StringS \<Rightarrow> case_string c i p
      | ErrorString \<Rightarrow> case_error_string c i p
      | BulkSize \<Rightarrow> case_bulk_size c i p
      | StringLF \<Rightarrow> case_string_lf c i p
      | ErrorLF \<Rightarrow> case_error_lf c i p
      | BulkSizeLF \<Rightarrow> case_bulk_size_lf ptr c i p
      | BulkS \<Rightarrow> case_bulk ptr i p
      | BulkCR \<Rightarrow> case_bulk_cr c i p
      | BulkLF \<Rightarrow> case_bulk_lf c i p
      | ArraySize \<Rightarrow> case_array_size c i p
      | ArraySizeLF \<Rightarrow> case_array_size_lf ptr c i p
      | IntegerS \<Rightarrow> case_integer c i p
      | IntegerLF \<Rightarrow> case_integer_lf c i p)"

lemmas chunk_case_defs = case_start_def case_string_def case_error_string_def case_bulk_size_def
  case_string_lf_def case_error_lf_def case_bulk_size_lf_def case_bulk_def case_bulk_cr_def
  case_bulk_lf_def case_array_size_def case_array_size_lf_def case_integer_def case_integer_lf_def

section \<open>The loop of parseChunk\<close>

text \<open>A round never moves the index back, so the loop ends at the end of the buffer.\<close>

lemma chunk_switch_forward:
  assumes "chunk_switch ptr i p = Continue j q"
  shows "i \<le> j"
proof (cases "pstate p = BulkS")
  case True
  then have "case_bulk ptr i p = Continue j q"
    using assms by (simp add: chunk_switch_def)
  then show ?thesis
    by (auto simp: case_bulk_def Let_def split: if_splits)
next
  case False
  with assms show ?thesis
    by (cases "pstate p")
       (auto simp: chunk_switch_def chunk_case_defs Let_def split: if_splits)
qed

function chunk_loop :: "bytes \<Rightarrow> nat \<Rightarrow> redis_parser \<Rightarrow> chunk_step" where
  "chunk_loop ptr i p =
     (if i < length ptr
      then case chunk_switch ptr i p of
             Continue j q \<Rightarrow> chunk_loop ptr (j + 1) q
           | step \<Rightarrow> step
      else Return i Incompleted p)"
  by pat_completeness auto
termination
  by (relation "measure (\<lambda>(ptr, i, p). length ptr - i)") (auto dest: chunk_switch_forward)

declare chunk_loop.simps [simp del]

section \<open>Arrays\<close>

text \<open>
  \<^verbatim>\<open>parse\<close>, \<^verbatim>\<open>parseChunk\<close> and \<^verbatim>\<open>parseArray\<close> call one another: an array header found by
  \<^verbatim>\<open>parseChunk\<close> enters \<^verbatim>\<open>parseArray\<close>, whose loop calls \<^verbatim>\<open>parse\<close> for every element. Each of
  the definitions below is one function body with the calls of \<^verbatim>\<open>parseArray\<close> as its
  argument \<open>pa\<close>; \<open>parse_array\<close> ties the knot, its first argument bounding how deep
  \<^verbatim>\<open>parseArray\<close> calls nest. \<open>parse\<close> supplies a bound that is enough for its input.
\<close>

type_synonym parse_outcome = "fault + nat \<times> parse_result \<times> redis_parser"

type_synonym parse_fun = "bytes \<Rightarrow> redis_parser \<Rightarrow> parse_outcome"

definition parse_chunk :: "parse_fun \<Rightarrow> parse_fun" where
  "parse_chunk pa ptr p =
     (case chunk_loop ptr 0 p of
        Return n r q \<Rightarrow> Inr (n, r, q)
      | Enter_array n q \<Rightarrow>
          (case pa (drop n ptr) q of
             Inl e \<Rightarrow> Inl e
           | Inr (k, r, q') \<Rightarrow> Inr (k + n, r, q'))
      | Fault e \<Rightarrow> Inl e
      | Continue _ _ \<Rightarrow> Inl Assert_failed)"

definition parse_with :: "parse_fun \<Rightarrow> parse_fun" where
  "parse_with pa ptr p = (if array_stack p \<noteq> [] then pa ptr p else parse_chunk pa ptr p)"

text \<open>The \<^verbatim>\<open>for\<close> loop over the missing elements, then the code behind it.\<close>

function array_loop ::
  "parse_fun \<Rightarrow> bytes \<Rightarrow> nat \<Rightarrow> int \<Rightarrow> int \<Rightarrow> redis_value list \<Rightarrow> redis_parser \<Rightarrow> parse_outcome"
where
  "array_loop pa ptr i x arraySize arrayValue p =
     (if x < arraySize then
        (case parse_with pa (drop i ptr) p of
           Inl e \<Rightarrow> Inl e
         | Inr (n, r, q) \<Rightarrow>
             (case r of
                Error \<Rightarrow> Inr (i + n, Error, q)
              | Incompleted \<Rightarrow>
                  Inr (i + n, Incompleted,
                       q\<lparr>value_stack := rv_array arrayValue # value_stack q,
                         array_stack := (arraySize - x) # array_stack q\<rparr>)
              | Completed \<Rightarrow>
                  (case value_stack q of
                     [] \<Rightarrow> Inl Assert_failed
                   | v # vs \<Rightarrow>
                       array_loop pa ptr (i + n) (x + 1) arraySize (arrayValue @ [v])
                         (q\<lparr>value_stack := vs\<rparr>))))
      else if x \<noteq> arraySize then Inl Assert_failed
      else Inr (i, Completed, p\<lparr>value_stack := rv_array arrayValue # value_stack p\<rparr>))"
  by pat_completeness auto
termination
  by (relation "measure (\<lambda>(pa, ptr, i, x, arraySize, arrayValue, p). nat (arraySize - x))") auto

declare array_loop.simps [simp del]

text \<open>\<^verbatim>\<open>parseArray\<close> from its test \<^verbatim>\<open>i == size\<close> on.\<close>

definition resume_array ::
  "parse_fun \<Rightarrow> bytes \<Rightarrow> nat \<Rightarrow> int \<Rightarrow> redis_value list \<Rightarrow> redis_parser \<Rightarrow> parse_outcome"
where
  "resume_array pa ptr i arraySize arrayValue p =
     (if i = length ptr then
        let p1 = p\<lparr>value_stack := rv_array arrayValue # value_stack p\<rparr> in
        if arraySize = 0 then Inr (i, Completed, p1)
        else Inr (i, Incompleted, p1\<lparr>array_stack := arraySize # array_stack p\<rparr>)
      else array_loop pa ptr i 0 arraySize arrayValue p)"

definition parse_array_with :: "parse_fun \<Rightarrow> parse_fun" where
  "parse_array_with pa ptr p =
     (case (array_stack p, value_stack p) of
        (arraySize # as, av # vs) \<Rightarrow>
          let arrayValue = toArray av; p1 = p\<lparr>array_stack := as, value_stack := vs\<rparr> in
          if as \<noteq> [] then
            (case pa ptr p1 of
               Inl e \<Rightarrow> Inl e
             | Inr (n, r, p2) \<Rightarrow>
                 if r \<noteq> Completed then
                   Inr (n, r, p2\<lparr>value_stack := rv_array arrayValue # value_stack p2,
                                 array_stack := arraySize # array_stack p2\<rparr>)
                 else
                   (case value_stack p2 of
                      [] \<Rightarrow> Inl Empty_container
                    | v # vs2 \<Rightarrow>
                        resume_array pa ptr n (arraySize - 1) (arrayValue @ [v])
                          (p2\<lparr>value_stack := vs2\<rparr>)))
          else resume_array pa ptr 0 arraySize arrayValue p1
      | _ \<Rightarrow> Inl Assert_failed)"

primrec parse_array :: "nat \<Rightarrow> parse_fun" where
  "parse_array 0 = (\<lambda>ptr p. Inl Out_of_fuel)"
| "parse_array (Suc depth) = parse_array_with (parse_array depth)"

section \<open>The two entry points\<close>

definition enough_depth :: "bytes \<Rightarrow> redis_parser \<Rightarrow> nat" where
  "enough_depth ptr p = length ptr + length (array_stack p) + 1"

definition parse :: parse_fun where
  "parse ptr p = parse_with (parse_array (enough_depth ptr p)) ptr p"

definition result :: "redis_parser \<Rightarrow> fault + redis_value \<times> redis_parser" where
  "result p =
     (case value_stack p of
        [] \<Rightarrow> Inl Assert_failed
      | v # vs \<Rightarrow> Inr (v, p\<lparr>value_stack := vs\<rparr>))"

end
