(* ===== verification/Resp_Automaton.thy ===== *)
theory Resp_Automaton
  imports Redis_Parser
begin

text \<open>
  What the parser promises, stated without buffers, indices and recursion: an automaton
  that is fed one byte at a time. A \<open>phase\<close> says where in a reply the next byte falls, a
  stack of frames which arrays are under way, innermost first. The theory then shows that
  one call of \<^verbatim>\<open>parse\<close> on a buffer is a run of the automaton over it.
\<close>

section \<open>The phases of a reply that is no array\<close>

datatype phase =
    AtStart
  | InString bytes | AtStringLF bytes
  | InError bytes | AtErrorLF bytes
  | InInteger bytes | AtIntegerLF bytes
  | InBulkSize bytes | AtBulkSizeLF bytes
  | InBulk nat bytes | AtBulkCR bytes | AtBulkLF bytes
  | InArraySize bytes | AtArraySizeLF bytes

text \<open>A byte leads to the next phase, ends a value, ends the header of a non-empty array,
  or is refused.\<close>

datatype token = More phase | Value redis_value | Header nat | Bad

definition size_step :: "(bytes \<Rightarrow> phase) \<Rightarrow> (bytes \<Rightarrow> phase) \<Rightarrow> bytes \<Rightarrow> char \<Rightarrow> token" where
  "size_step stay leave b c =
     (if c = CR then (if b = [] then Bad else More (leave b))
      else if is_digit c \<or> c = CHR ''-'' then More (stay (b @ [c])) else Bad)"

definition line_step :: "(bytes \<Rightarrow> phase) \<Rightarrow> (bytes \<Rightarrow> phase) \<Rightarrow> bytes \<Rightarrow> char \<Rightarrow> token" where
  "line_step stay leave b c =
     (if c = CR then More (leave b)
      else if isChar c \<and> \<not> isControl c then More (stay (b @ [c])) else Bad)"

definition start_step :: "char \<Rightarrow> token" where
  "start_step c =
     (if c = stringReply then More (InString []) else if c = errorReply then More (InError [])
      else if c = integerReply then More (InInteger [])
      else if c = bulkReply then More (InBulkSize [])
      else if c = arrayReply then More (InArraySize []) else Bad)"

definition bulk_size_token :: "bytes \<Rightarrow> token" where
  "bulk_size_token b =
     (let n = strtol b in
      if n = -1 then Value rv_null else if n = 0 then More (AtBulkCR [])
      else if n < 0 then Bad else More (InBulk (nat n) []))"

definition array_size_token :: "bytes \<Rightarrow> token" where
  "array_size_token b =
     (let n = strtol b in
      if n = -1 \<or> n = 0 then Value (rv_array []) else if n < 0 then Bad else Header (nat n))"

fun phase_step :: "phase \<Rightarrow> char \<Rightarrow> token" where
  "phase_step AtStart c = start_step c"
| "phase_step (InString b) c = line_step InString AtStringLF b c"
| "phase_step (AtStringLF b) c = (if c = LF then Value (rv_bytes b) else Bad)"
| "phase_step (InError b) c = line_step InError AtErrorLF b c"
| "phase_step (AtErrorLF b) c = (if c = LF then Value (rv_error_bytes b) else Bad)"
| "phase_step (InInteger b) c = size_step InInteger AtIntegerLF b c"
| "phase_step (AtIntegerLF b) c =
     (if c = LF then Value (rv_int (word_of_int (strtol b))) else Bad)"
| "phase_step (InBulkSize b) c = size_step InBulkSize AtBulkSizeLF b c"
| "phase_step (AtBulkSizeLF b) c = (if c = LF then bulk_size_token b else Bad)"
| "phase_step (InBulk n b) c =
     More (if n \<le> 1 then AtBulkCR (b @ [c]) else InBulk (n - 1) (b @ [c]))"
| "phase_step (AtBulkCR b) c = (if c = CR then More (AtBulkLF b) else Bad)"
| "phase_step (AtBulkLF b) c = (if c = LF then Value (rv_bytes b) else Bad)"
| "phase_step (InArraySize b) c = size_step InArraySize AtArraySizeLF b c"
| "phase_step (AtArraySizeLF b) c = (if c = LF then array_size_token b else Bad)"

text \<open>Reading on until something other than a phase comes out, with the number of bytes
  taken.\<close>

fun scan :: "phase \<Rightarrow> bytes \<Rightarrow> token \<times> nat" where
  "scan ph [] = (More ph, 0)"
| "scan ph (c # cs) =
     (case phase_step ph c of
        More ph' \<Rightarrow> (case scan ph' cs of (t, k) \<Rightarrow> (t, Suc k))
      | t \<Rightarrow> (t, 1))"

lemma scan_length: "snd (scan ph cs) \<le> length cs"
  by (induction cs arbitrary: ph) (auto split: token.splits prod.splits simp: prod_eq_iff)

lemma scan_More_length: "scan ph cs = (More ph', k) \<Longrightarrow> k = length cs"
  by (induction cs arbitrary: ph k) (auto split: token.splits prod.splits)

lemma scan_positive: "scan ph cs = (t, k) \<Longrightarrow> (\<forall>ph'. t \<noteq> More ph') \<Longrightarrow> 0 < k"
  by (cases cs) (auto split: token.splits prod.splits)

lemma scan_bulk:
  "1 \<le> n \<Longrightarrow> scan (InBulk n b) cs =
     (if length cs < n then (More (InBulk (n - length cs) (b @ cs)), length cs)
      else case scan (AtBulkCR (b @ take n cs)) (drop n cs) of (t, k) \<Rightarrow> (t, n + k))"
proof (induction cs arbitrary: n b)
  case (Cons c cs)
  show ?case
  proof (cases "n = 1")
    case True
    then show ?thesis by (simp split: prod.split)
  next
    case False
    with Cons.prems have "1 \<le> n - 1" by simp
    from Cons.IH [OF this] False Cons.prems show ?thesis
      by (auto simp: take_Cons' drop_Cons' split: prod.split)
  qed
qed simp

section \<open>The phase of a parser object\<close>

definition phase_of :: "redis_parser \<Rightarrow> phase" where
  "phase_of p =
     (case pstate p of
        Start \<Rightarrow> AtStart
      | StringS \<Rightarrow> InString (buf p) | StringLF \<Rightarrow> AtStringLF (buf p)
      | ErrorString \<Rightarrow> InError (buf p) | ErrorLF \<Rightarrow> AtErrorLF (buf p)
      | IntegerS \<Rightarrow> InInteger (buf p) | IntegerLF \<Rightarrow> AtIntegerLF (buf p)
      | BulkSize \<Rightarrow> InBulkSize (buf p) | BulkSizeLF \<Rightarrow> AtBulkSizeLF (buf p)
      | BulkS \<Rightarrow> InBulk (nat (bulk_size p)) (buf p)
      | BulkCR \<Rightarrow> AtBulkCR (buf p) | BulkLF \<Rightarrow> AtBulkLF (buf p)
      | ArraySize \<Rightarrow> InArraySize (buf p) | ArraySizeLF \<Rightarrow> AtArraySizeLF (buf p))"

definition chunk_ok :: "redis_parser \<Rightarrow> bool" where
  "chunk_ok p \<longleftrightarrow> (pstate p = BulkS \<longrightarrow> 0 < bulk_size p)"

definition same_stacks :: "redis_parser \<Rightarrow> redis_parser \<Rightarrow> bool" where
  "same_stacks p q \<longleftrightarrow> array_stack q = array_stack p \<and> value_stack q = value_stack p"

text \<open>What a run of the chunk loop from index \<open>i\<close> gives for what the scan of the rest of
  the buffer gives.\<close>

definition chunk_agrees ::
  "redis_parser \<Rightarrow> bytes \<Rightarrow> nat \<Rightarrow> token \<times> nat \<Rightarrow> chunk_step \<Rightarrow> bool"
where
  "chunk_agrees p ptr i r step =
     (case r of (t, k) \<Rightarrow>
       (case t of
          More ph \<Rightarrow>
            (\<exists>q. step = Return (i + k) Incompleted q \<and> i + k = length ptr \<and>
                 phase_of q = ph \<and> chunk_ok q \<and> same_stacks p q)
        | Value v \<Rightarrow>
            (\<exists>q. step = Return (i + k) Completed q \<and> pstate q = Start \<and>
                 array_stack q = array_stack p \<and> value_stack q = v # value_stack p)
        | Header n \<Rightarrow>
            (\<exists>q. step = (if i + k \<noteq> length ptr then Enter_array (i + k) q
                         else Return (i + k) Incompleted q) \<and> pstate q = Start \<and>
                 array_stack q = int n # array_stack p \<and>
                 value_stack q = rv_array [] # value_stack p)
        | Bad \<Rightarrow>
            (\<exists>q. step = Return (i + k) Error q \<and> pstate q = Start \<and> same_stacks p q)))"

text \<open>A round that leaves the switch at \<open>j\<close> hands its agreement on to the next one.\<close>

lemma chunk_agrees_shift:
  assumes "chunk_agrees q ptr (i + d) (t, k) step" and "same_stacks p q"
  shows "chunk_agrees p ptr i (t, d + k) step"
  using assms by (auto simp: chunk_agrees_def same_stacks_def add.assoc split: token.splits)

text \<open>Outside of bulk data every round takes one byte, as the automaton does.\<close>

definition round_agrees :: "redis_parser \<Rightarrow> bytes \<Rightarrow> nat \<Rightarrow> token \<Rightarrow> chunk_step \<Rightarrow> bool" where
  "round_agrees p ptr i t step =
     (case t of
        More ph \<Rightarrow>
          (\<exists>q. step = Continue i q \<and> phase_of q = ph \<and> chunk_ok q \<and> pstate q \<noteq> BulkS \<and>
               same_stacks p q)
      | _ \<Rightarrow> chunk_agrees p ptr i (t, 1) step)"

lemmas agree_defs = phase_of_def round_agrees_def chunk_agrees_def same_stacks_def chunk_ok_def

lemma chunk_switch_round:
  assumes "pstate p \<noteq> BulkS" and "pstate p \<noteq> BulkSizeLF" and "i < length ptr"
  shows "round_agrees p ptr i (phase_step (phase_of p) (ptr ! i)) (chunk_switch ptr i p)"
proof (cases "pstate p")
  case ArraySizeLF
  then show ?thesis
    by (auto simp: agree_defs chunk_switch_def case_array_size_lf_def array_size_token_def
        Let_def)
qed (use assms in \<open>auto simp: agree_defs chunk_switch_def chunk_case_defs start_step_def
       line_step_def size_step_def reply_defs\<close>)

text \<open>Two steps of the scan: a byte that leads on, and one that does not.\<close>

lemma scan_Cons_More:
  "phase_step ph c = More ph' \<Longrightarrow> scan ph' cs = (t, k) \<Longrightarrow> scan ph (c # cs) = (t, 1 + k)"
  by simp

lemma scan_Cons_other:
  "phase_step ph c = t \<Longrightarrow> (\<forall>ph'. t \<noteq> More ph') \<Longrightarrow> scan ph (c # cs) = (t, 1)"
  by (auto split: token.splits)

lemma chunk_loop_Continue:
  "i < length ptr \<Longrightarrow> chunk_switch ptr i p = Continue j q \<Longrightarrow>
   chunk_loop ptr i p = chunk_loop ptr (j + 1) q"
  by (subst chunk_loop.simps) simp

lemma chunk_loop_stop:
  "i < length ptr \<Longrightarrow> chunk_switch ptr i p = step \<Longrightarrow> (\<forall>j q. step \<noteq> Continue j q) \<Longrightarrow>
   chunk_loop ptr i p = step"
  by (subst chunk_loop.simps) (auto split: chunk_step.splits)

lemma chunk_loop_end: "chunk_loop ptr (length ptr) p = Return (length ptr) Incompleted p"
  by (subst chunk_loop.simps) simp

lemma chunk_agrees_not_Continue:
  "chunk_agrees p ptr i (t, k) step \<Longrightarrow> step \<noteq> Continue j q"
  by (auto simp: chunk_agrees_def split: token.splits if_splits)

text \<open>The line feed behind the size of a bulk: the one round that takes as much of the bulk
  as the buffer holds.\<close>

definition bulk_size_round ::
  "redis_parser \<Rightarrow> bytes \<Rightarrow> nat \<Rightarrow> int \<Rightarrow> chunk_step"
where
  "bulk_size_round p ptr i n =
     (let rest = drop (i + 1) ptr in
      if int (length rest) < n
      then Return (length ptr) Incompleted
             (p\<lparr>bulk_size := n - int (length rest), buf := rest, pstate := BulkS\<rparr>)
      else Continue (i + nat n)
             (p\<lparr>bulk_size := n, buf := take (nat n) rest, pstate := BulkCR\<rparr>))"

lemma case_bulk_size_lf_positive:
  assumes "i < length ptr" and "0 < strtol (buf p)"
  shows "case_bulk_size_lf ptr LF i p = bulk_size_round p ptr i (strtol (buf p))"
proof -
  let ?n = "strtol (buf p)" and ?rest = "drop (i + 1) ptr"
  have len: "int (length ?rest) = int (length ptr) - int i - 1"
    using assms(1) by auto
  consider "int (length ?rest) < ?n" "?rest = []" | "int (length ?rest) < ?n" "?rest \<noteq> []"
    | "?n \<le> int (length ?rest)"
    by linarith
  then show ?thesis
  proof cases
    case 1
    with len assms show ?thesis
      by (auto simp: case_bulk_size_lf_def bulk_size_round_def Let_def)
  next
    case 2
    then have "0 < length ?rest" by simp
    with 2 len assms show ?thesis
      by (auto simp: case_bulk_size_lf_def bulk_size_round_def Let_def min_def)
  next
    case 3
    with len assms show ?thesis
      by (auto simp: case_bulk_size_lf_def bulk_size_round_def Let_def min_def)
  qed
qed

lemma chunk_switch_round_size:
  assumes "pstate p = BulkSizeLF" and "ptr ! i \<noteq> LF \<or> strtol (buf p) \<le> 0"
  shows "round_agrees p ptr i (phase_step (phase_of p) (ptr ! i)) (chunk_switch ptr i p)"
  using assms
  by (auto simp: agree_defs chunk_switch_def case_bulk_size_lf_def bulk_size_token_def Let_def)

text \<open>A round that agrees carries the loop on, given the agreement of what follows it.\<close>

lemma round_agrees_loop:
  assumes i: "i < length ptr"
    and round: "round_agrees p ptr i (phase_step (phase_of p) (ptr ! i)) (chunk_switch ptr i p)"
    and IH: "\<And>q. chunk_switch ptr i p = Continue i q \<Longrightarrow> chunk_ok q \<Longrightarrow> pstate q \<noteq> BulkS \<Longrightarrow>
      chunk_agrees q ptr (i + 1) (scan (phase_of q) (drop (i + 1) ptr)) (chunk_loop ptr (i + 1) q)"
  shows "chunk_agrees p ptr i (scan (phase_of p) (drop i ptr)) (chunk_loop ptr i p)"
proof -
  have drop: "drop i ptr = ptr ! i # drop (i + 1) ptr"
    using i by (simp add: Cons_nth_drop_Suc)
  show ?thesis
  proof (cases "phase_step (phase_of p) (ptr ! i)")
    case (More ph)
    with round obtain q where q: "chunk_switch ptr i p = Continue i q" "phase_of q = ph"
      "chunk_ok q" "pstate q \<noteq> BulkS" and same: "same_stacks p q"
      by (auto simp: round_agrees_def)
    obtain t k where tk: "scan ph (drop (i + 1) ptr) = (t, k)" by force
    have "chunk_agrees q ptr (i + 1) (t, k) (chunk_loop ptr (i + 1) q)"
      using IH [OF q(1,3,4)] q(2) tk by simp
    then have "chunk_agrees p ptr i (t, 1 + k) (chunk_loop ptr (i + 1) q)"
      using same by (rule chunk_agrees_shift)
    moreover have "scan (phase_of p) (drop i ptr) = (t, 1 + k)"
      unfolding drop using More tk by (rule scan_Cons_More)
    ultimately show ?thesis
      using chunk_loop_Continue [OF i q(1)] by simp
  next
    case other: (Value v)
    then have "chunk_agrees p ptr i (Value v, 1) (chunk_switch ptr i p)"
      using round by (simp add: round_agrees_def)
    with chunk_loop_stop [OF i refl] other show ?thesis
      using chunk_agrees_not_Continue by (simp add: drop)
  next
    case other: (Header n)
    then have "chunk_agrees p ptr i (Header n, 1) (chunk_switch ptr i p)"
      using round by (simp add: round_agrees_def)
    with chunk_loop_stop [OF i refl] other show ?thesis
      using chunk_agrees_not_Continue by (simp add: drop)
  next
    case other: Bad
    then have "chunk_agrees p ptr i (Bad, 1) (chunk_switch ptr i p)"
      using round by (simp add: round_agrees_def)
    with chunk_loop_stop [OF i refl] other show ?thesis
      using chunk_agrees_not_Continue by (simp add: drop)
  qed
qed

text \<open>Bulk data are only ever resumed at the start of a buffer, so the inserted range is the
  intended one.\<close>

lemma case_bulk_at_start:
  assumes "ptr \<noteq> []" and "0 < bulk_size p"
  shows "case_bulk ptr 0 p =
    (let n = nat (bulk_size p) in
     if length ptr < n
     then Return (length ptr) Incompleted
            (p\<lparr>buf := buf p @ ptr, bulk_size := bulk_size p - int (length ptr)\<rparr>)
     else let q = p\<lparr>buf := buf p @ take n ptr, bulk_size := 0, pstate := BulkCR\<rparr> in
       if length ptr = n then Return (length ptr) Incompleted q else Continue (n - 1) q)"
proof -
  have "0 < length ptr" using assms(1) by simp
  then show ?thesis
    using assms(2) by (auto simp: case_bulk_def Let_def min_def Suc_diff_Suc nat_less_iff)
qed

lemma chunk_loop_bulk:
  assumes p: "pstate p = BulkS" "0 < bulk_size p" and ne: "ptr \<noteq> []"
    and IH: "\<And>j q. chunk_switch ptr 0 p = Continue j q \<Longrightarrow> j + 1 \<le> length ptr \<Longrightarrow> chunk_ok q \<Longrightarrow>
      pstate q \<noteq> BulkS \<Longrightarrow>
      chunk_agrees q ptr (j + 1) (scan (phase_of q) (drop (j + 1) ptr)) (chunk_loop ptr (j + 1) q)"
  shows "chunk_agrees p ptr 0 (scan (phase_of p) ptr) (chunk_loop ptr 0 p)"
proof -
  let ?n = "nat (bulk_size p)"
  let ?q = "p\<lparr>buf := buf p @ take ?n ptr, bulk_size := 0, pstate := BulkCR\<rparr>"
  have n: "1 \<le> ?n" using p(2) by simp
  have len: "0 < length ptr" using ne by simp
  have switch: "chunk_switch ptr 0 p = case_bulk ptr 0 p"
    using p(1) by (simp add: chunk_switch_def)
  note bulk = case_bulk_at_start [OF ne p(2)] and scan = scan_bulk [OF n, of "buf p" ptr]
  consider "length ptr < ?n" | "length ptr = ?n" | "?n < length ptr" by linarith
  then show ?thesis
  proof cases
    case 1
    then have "chunk_loop ptr 0 p = case_bulk ptr 0 p"
      using bulk by (intro chunk_loop_stop [OF len switch]) (simp add: Let_def)
    with 1 bulk scan p show ?thesis
      by (simp add: agree_defs Let_def nat_diff_distrib nat_less_eq_zless)
  next
    case 2
    then have "chunk_loop ptr 0 p = case_bulk ptr 0 p"
      using bulk by (intro chunk_loop_stop [OF len switch]) (simp add: Let_def)
    with 2 bulk scan p show ?thesis
      by (simp add: agree_defs Let_def)
  next
    case 3
    then have sw: "chunk_switch ptr 0 p = Continue (?n - 1) ?q"
      using switch bulk by (simp add: Let_def)
    obtain t k where tk: "scan (phase_of ?q) (drop ?n ptr) = (t, k)" by force
    have "chunk_agrees ?q ptr ?n (t, k) (chunk_loop ptr ?n ?q)"
      using IH [OF sw] 3 n tk by (simp add: chunk_ok_def)
    then have "chunk_agrees p ptr 0 (t, ?n + k) (chunk_loop ptr ?n ?q)"
      by (intro chunk_agrees_shift [where q = ?q]) (simp_all add: same_stacks_def)
    moreover have "scan (phase_of p) ptr = (t, ?n + k)"
      using scan 3 tk p(1) by (simp add: phase_of_def)
    ultimately show ?thesis
      using chunk_loop_Continue [OF len sw] n by simp
  qed
qed

lemma chunk_loop_bulk_size:
  assumes p: "pstate p = BulkSizeLF" "0 < strtol (buf p)" and i: "i < length ptr" "ptr ! i = LF"
    and IH: "\<And>j q. chunk_switch ptr i p = Continue j q \<Longrightarrow> j + 1 \<le> length ptr \<Longrightarrow> chunk_ok q \<Longrightarrow>
      pstate q \<noteq> BulkS \<Longrightarrow>
      chunk_agrees q ptr (j + 1) (scan (phase_of q) (drop (j + 1) ptr)) (chunk_loop ptr (j + 1) q)"
  shows "chunk_agrees p ptr i (scan (phase_of p) (drop i ptr)) (chunk_loop ptr i p)"
proof -
  let ?n = "nat (strtol (buf p))" and ?rest = "drop (i + 1) ptr"
  let ?q = "p\<lparr>bulk_size := strtol (buf p), buf := take ?n ?rest, pstate := BulkCR\<rparr>"
  have n: "1 \<le> ?n" using p(2) by simp
  have switch: "chunk_switch ptr i p = bulk_size_round p ptr i (strtol (buf p))"
    using p i case_bulk_size_lf_positive [OF i(1) p(2)] by (simp add: chunk_switch_def)
  have "phase_step (phase_of p) (ptr ! i) = More (InBulk ?n [])"
    using p i by (auto simp: phase_of_def bulk_size_token_def Let_def)
  moreover have drop: "drop i ptr = ptr ! i # ?rest"
    using i(1) by (simp add: Cons_nth_drop_Suc)
  moreover note scan = scan_bulk [OF n, of "[]" ?rest]
  ultimately have scanp: "scan (phase_of p) (drop i ptr) =
      (case scan (InBulk ?n []) ?rest of (t, k) \<Rightarrow> (t, Suc k))"
    by simp
  show ?thesis
  proof (cases "length ?rest < ?n")
    case True
    then have "chunk_loop ptr i p = bulk_size_round p ptr i (strtol (buf p))"
      using switch by (intro chunk_loop_stop [OF i(1)]) (simp_all add: bulk_size_round_def Let_def)
    with True scan scanp p i show ?thesis
      by (auto simp: agree_defs bulk_size_round_def Let_def nat_diff_distrib)
  next
    case False
    then have sw: "chunk_switch ptr i p = Continue (i + ?n) ?q"
      using switch by (auto simp: bulk_size_round_def Let_def)
    obtain t k where tk: "scan (phase_of ?q) (drop ?n ?rest) = (t, k)" by force
    have "chunk_agrees ?q ptr (i + ?n + 1) (t, k) (chunk_loop ptr (i + ?n + 1) ?q)"
      using IH [OF sw] False n i tk by (simp add: chunk_ok_def add.commute)
    then have "chunk_agrees p ptr i (t, (?n + 1) + k) (chunk_loop ptr (i + ?n + 1) ?q)"
      by (intro chunk_agrees_shift [where q = ?q]) (simp_all add: same_stacks_def add.assoc)
    moreover have "scan (phase_of p) (drop i ptr) = (t, (?n + 1) + k)"
      using scanp scan False tk by (simp add: phase_of_def)
    ultimately show ?thesis
      using chunk_loop_Continue [OF i(1) sw] by simp
  qed
qed

lemma chunk_loop_scan:
  assumes "i \<le> length ptr" and "chunk_ok p" and "pstate p = BulkS \<Longrightarrow> i = 0"
  shows "chunk_agrees p ptr i (scan (phase_of p) (drop i ptr)) (chunk_loop ptr i p)"
  using assms
proof (induction ptr i p rule: chunk_loop.induct)
  case (1 ptr i p)
  show ?case
  proof (cases "i < length ptr")
    case False
    with "1.prems" have "i = length ptr" by simp
    with "1.prems"(2) show ?thesis
      by (simp add: chunk_loop_end chunk_agrees_def same_stacks_def)
  next
    case True
    have IH: "chunk_agrees q ptr (j + 1) (scan (phase_of q) (drop (j + 1) ptr))
        (chunk_loop ptr (j + 1) q)"
      if "chunk_switch ptr i p = Continue j q" "j + 1 \<le> length ptr" "chunk_ok q" "pstate q \<noteq> BulkS"
      for j q
      using that by (intro "1.IH" [OF True]) auto
    consider "pstate p = BulkS" | "pstate p = BulkSizeLF" "ptr ! i = LF" "0 < strtol (buf p)"
      | "pstate p = BulkSizeLF" "ptr ! i \<noteq> LF \<or> strtol (buf p) \<le> 0"
      | "pstate p \<noteq> BulkS" "pstate p \<noteq> BulkSizeLF"
      by force
    then show ?thesis
    proof cases
      case 1
      with "1.prems" have i: "i = 0" and size: "0 < bulk_size p" and ne: "ptr \<noteq> []"
        using True by (auto simp: chunk_ok_def)
      have "chunk_agrees p ptr 0 (scan (phase_of p) ptr) (chunk_loop ptr 0 p)"
        by (rule chunk_loop_bulk [OF 1 size ne]) (rule IH [unfolded i])
      then show ?thesis by (simp only: i drop_0)
    next
      case 2
      show ?thesis by (rule chunk_loop_bulk_size [OF 2(1,3) True 2(2)]) (rule IH)
    next
      case 3
      show ?thesis
        by (rule round_agrees_loop [OF True chunk_switch_round_size [OF 3]]) (rule IH; use True in simp)
    next
      case 4
      show ?thesis
        by (rule round_agrees_loop [OF True chunk_switch_round [OF 4 True]]) (rule IH; use True in simp)
    qed
  qed
qed

end
