(* ===== verification/Resp_Refinement.thy ===== *)
theory Resp_Refinement
  imports Resp_Automaton
begin

text \<open>
  The automaton with arrays, and the theorem that \<^verbatim>\<open>RedisParser::parse\<close> implements it:
  whatever the buffer boundaries, a call of \<^verbatim>\<open>parse\<close> takes the bytes the automaton takes,
  leaves the object in the configuration the automaton reaches, and never runs into a
  failing assertion, a bad range or an empty stack.
\<close>

section \<open>Arrays under way\<close>

text \<open>A frame is an array under way: how many elements are missing and those read.\<close>

type_synonym frame = "nat \<times> redis_value list"

datatype machine = Running phase "frame list" | Finished redis_value | Failed

fun deliver :: "redis_value \<Rightarrow> frame list \<Rightarrow> machine" where
  "deliver v [] = Finished v"
| "deliver v ((n, vs) # fs) =
     (if n \<le> 1 then deliver (rv_array (vs @ [v])) fs else Running AtStart ((n - 1, vs @ [v]) # fs))"

definition machine_step :: "phase \<Rightarrow> frame list \<Rightarrow> char \<Rightarrow> machine" where
  "machine_step ph fs c =
     (case phase_step ph c of
        More ph' \<Rightarrow> Running ph' fs
      | Value v \<Rightarrow> deliver v fs
      | Header n \<Rightarrow> Running AtStart ((n, []) # fs)
      | Bad \<Rightarrow> Failed)"

text \<open>A run ends with the reply, with the first refused byte, or with the input; it
  counts the bytes it took.\<close>

fun run :: "phase \<Rightarrow> frame list \<Rightarrow> bytes \<Rightarrow> machine \<times> nat" where
  "run ph fs [] = (Running ph fs, 0)"
| "run ph fs (c # cs) =
     (case machine_step ph fs c of
        Running ph' fs' \<Rightarrow> (case run ph' fs' cs of (m, k) \<Rightarrow> (m, Suc k))
      | m \<Rightarrow> (m, 1))"

definition carry :: "nat \<Rightarrow> machine \<Rightarrow> bytes \<Rightarrow> machine \<times> nat" where
  "carry j m cs =
     (case m of Running ph fs \<Rightarrow> (case run ph fs cs of (m', k) \<Rightarrow> (m', j + k)) | _ \<Rightarrow> (m, j))"

lemma carry_simps [simp]:
  "carry j (Finished v) cs = (Finished v, j)"
  "carry j Failed cs = (Failed, j)"
  "carry j (Running ph fs) cs = (case run ph fs cs of (m', k) \<Rightarrow> (m', j + k))"
  by (simp_all add: carry_def)

lemma run_Cons_carry: "run ph fs (c # cs) = carry 1 (machine_step ph fs c) cs"
  by (simp add: carry_def split: machine.split prod.split)

lemma carry_Suc: "carry (Suc j) m cs = (case carry j m cs of (m', k) \<Rightarrow> (m', Suc k))"
  by (simp add: carry_def split: machine.split prod.split)

lemma run_length: "snd (run ph fs cs) \<le> length cs"
proof (induction cs arbitrary: ph fs)
  case (Cons c cs)
  then show ?case
    by (auto split: machine.split prod.split) (metis snd_conv)
qed simp

lemma run_Running_length: "run ph fs cs = (Running ph' fs', k) \<Longrightarrow> k = length cs"
  by (induction cs arbitrary: ph fs k) (auto split: machine.splits prod.splits)

text \<open>Feeding a buffer in two pieces is feeding it at once.\<close>

lemma run_append:
  "run ph fs (as @ bs) =
     (case run ph fs as of
        (Running ph' fs', k) \<Rightarrow> carry k (Running ph' fs') bs
      | r \<Rightarrow> r)"
  by (induction as arbitrary: ph fs)
     (auto simp: machine_step_def split: machine.splits prod.splits)

text \<open>Outer frames wait until the inner ones are done.\<close>

lemma deliver_append:
  "deliver v (fs @ gs) =
     (case deliver v fs of
        Running ph fs' \<Rightarrow> Running ph (fs' @ gs)
      | Finished w \<Rightarrow> deliver w gs
      | Failed \<Rightarrow> Failed)"
  by (induction v fs rule: deliver.induct) auto

lemma machine_step_append:
  "machine_step ph (fs @ gs) c =
     (case machine_step ph fs c of
        Running ph' fs' \<Rightarrow> Running ph' (fs' @ gs)
      | Finished w \<Rightarrow> deliver w gs
      | Failed \<Rightarrow> Failed)"
  by (simp add: machine_step_def deliver_append split: token.split)

lemma run_frames:
  "run ph (fs @ gs) cs =
     (case run ph fs cs of
        (Running ph' fs', k) \<Rightarrow> (Running ph' (fs' @ gs), k)
      | (Finished w, k) \<Rightarrow> carry k (deliver w gs) (drop k cs)
      | (Failed, k) \<Rightarrow> (Failed, k))"
proof (induction cs arbitrary: ph fs)
  case (Cons c cs)
  show ?case
  proof (cases "machine_step ph fs c")
    case (Running ph' fs')
    with Cons.IH [of ph' fs'] show ?thesis
      by (auto simp: machine_step_append carry_Suc split: machine.split prod.split)
  next
    case (Finished w)
    then show ?thesis
      by (simp add: machine_step_append carry_def split: machine.split prod.split)
  qed (simp add: machine_step_append)
qed simp

lemma run_outer_frame:
  "run ph [f] cs =
     (case run ph [] cs of
        (Running ph' fs', k) \<Rightarrow> (Running ph' (fs' @ [f]), k)
      | (Finished w, k) \<Rightarrow> carry k (deliver w [f]) (drop k cs)
      | (Failed, k) \<Rightarrow> (Failed, k))"
  using run_frames [of ph "[]" "[f]" cs] by simp

text \<open>A run reads one token after the other.\<close>

lemma run_scan:
  "run ph fs cs =
     (case scan ph cs of
        (More ph', k) \<Rightarrow> (Running ph' fs, k)
      | (Value v, k) \<Rightarrow> carry k (deliver v fs) (drop k cs)
      | (Header n, k) \<Rightarrow> carry k (Running AtStart ((n, []) # fs)) (drop k cs)
      | (Bad, k) \<Rightarrow> (Failed, k))"
proof (induction cs arbitrary: ph)
  case (Cons c cs)
  show ?case
  proof (cases "phase_step ph c")
    case (More ph')
    with Cons.IH [of ph'] show ?thesis
      by (auto simp: machine_step_def carry_Suc split: token.split machine.split prod.split)
  qed (simp_all add: machine_step_def carry_def split: machine.split prod.split)
qed simp

lemma deliver_not_Failed [simp]: "deliver v fs \<noteq> Failed"
  by (induction v fs rule: deliver.induct) auto

section \<open>The frames of a parser object\<close>

text \<open>The two stacks of the object, outermost array on top, above the values \<open>base\<close>.\<close>

definition holds_frames :: "frame list \<Rightarrow> redis_value list \<Rightarrow> redis_parser \<Rightarrow> bool" where
  "holds_frames fs base p \<longleftrightarrow>
     array_stack p = map (int \<circ> fst) (rev fs) \<and>
     value_stack p = map (rv_array \<circ> snd) (rev fs) @ base \<and>
     (\<forall>f \<in> set fs. 1 \<le> fst f)"

definition parse_agrees :: "redis_value list \<Rightarrow> nat \<Rightarrow> machine \<times> nat \<Rightarrow> parse_outcome \<Rightarrow> bool" where
  "parse_agrees base len r outcome =
     (case r of (m, k) \<Rightarrow>
       (case m of
          Finished v \<Rightarrow>
            (\<exists>q. outcome = Inr (k, Completed, q) \<and> pstate q = Start \<and>
                 array_stack q = [] \<and> value_stack q = v # base)
        | Running ph fs \<Rightarrow>
            (\<exists>q. outcome = Inr (k, Incompleted, q) \<and> k = len \<and>
                 phase_of q = ph \<and> chunk_ok q \<and> holds_frames fs base q)
        | Failed \<Rightarrow> (\<exists>q. outcome = Inr (k, Error, q))))"

lemma parse_agrees_shift:
  assumes "parse_agrees base (len - j) (m, k) outcome" and "j \<le> len"
    and "outcome' = (case outcome of Inl e \<Rightarrow> Inl e | Inr (n, r, q) \<Rightarrow> Inr (n + j, r, q))"
  shows "parse_agrees base len (m, j + k) outcome'"
  using assms by (auto simp: parse_agrees_def split: machine.splits)

text \<open>What is assumed of the calls of \<^verbatim>\<open>parseArray\<close> in a body, for inputs up to a
  depth.\<close>

definition array_correct :: "nat \<Rightarrow> parse_fun \<Rightarrow> bool" where
  "array_correct d pa \<longleftrightarrow>
     (\<forall>fs base p ptr. fs \<noteq> [] \<longrightarrow> holds_frames fs base p \<longrightarrow> chunk_ok p \<longrightarrow>
        length ptr + length fs \<le> d \<longrightarrow>
        parse_agrees base (length ptr) (run (phase_of p) fs ptr) (pa ptr p))"

lemma array_correctD:
  "array_correct d pa \<Longrightarrow> fs \<noteq> [] \<Longrightarrow> holds_frames fs base p \<Longrightarrow> chunk_ok p \<Longrightarrow>
   length ptr + length fs \<le> d \<Longrightarrow>
   parse_agrees base (length ptr) (run (phase_of p) fs ptr) (pa ptr p)"
  by (simp add: array_correct_def)

section \<open>parseChunk\<close>

lemma phase_of_Start: "pstate p = Start \<Longrightarrow> phase_of p = AtStart"
  by (simp add: phase_of_def)

lemma phase_step_Header: "phase_step ph c = Header n \<Longrightarrow> 1 \<le> n"
  by (cases ph) (auto simp: start_step_def line_step_def size_step_def bulk_size_token_def
    array_size_token_def Let_def split: if_splits)

lemma scan_Header: "scan ph cs = (Header n, k) \<Longrightarrow> 1 \<le> n"
  by (induction cs arbitrary: ph k)
     (auto split: token.splits prod.splits dest: phase_step_Header)

lemma parse_chunk_agrees:
  assumes pa: "array_correct d pa" and p: "array_stack p = []" "value_stack p = base" "chunk_ok p"
    and len: "length ptr \<le> d"
  shows "parse_agrees base (length ptr) (run (phase_of p) [] ptr) (parse_chunk pa ptr p)"
proof -
  obtain t k where tk: "scan (phase_of p) ptr = (t, k)" by force
  have agrees: "chunk_agrees p ptr 0 (t, k) (chunk_loop ptr 0 p)"
    using chunk_loop_scan [of 0 ptr p] p(3) tk by simp
  show ?thesis
  proof (cases t)
    case (Header n)
    have k: "0 < k" "k \<le> length ptr"
      using scan_positive [OF tk] scan_length [of "phase_of p" ptr] tk Header by auto
    obtain q where step: "chunk_loop ptr 0 p =
        (if k \<noteq> length ptr then Enter_array k q else Return k Incompleted q)"
      and q: "pstate q = Start" "array_stack q = [int n]" "value_stack q = rv_array [] # base"
      using agrees Header p unfolding chunk_agrees_def add_0 by auto
    have ok: "chunk_ok q" using q by (simp add: chunk_ok_def)
    have n: "1 \<le> n" using tk unfolding Header by (rule scan_Header)
    have frames: "holds_frames [(n, [])] base q" using q n by (simp add: holds_frames_def)
    show ?thesis
    proof (cases "k = length ptr")
      case True
      with step tk Header q frames ok show ?thesis
        by (simp add: run_scan [of "phase_of p"] parse_chunk_def parse_agrees_def phase_of_Start)
    next
      case False
      then have "length (drop k ptr) + length [(n, [] :: redis_value list)] \<le> d"
        using k len by simp
      from array_correctD [OF pa _ frames ok this] q
      have "parse_agrees base (length ptr - k) (run AtStart [(n, [])] (drop k ptr)) (pa (drop k ptr) q)"
        by (simp add: phase_of_Start)
      with False step tk Header k show ?thesis
        by (cases "run AtStart [(n, [])] (drop k ptr)")
           (simp add: run_scan [of "phase_of p"] parse_chunk_def parse_agrees_shift)
    qed
  qed (use agrees tk p in \<open>auto simp: run_scan [of "phase_of p"] parse_chunk_def chunk_agrees_def
         parse_agrees_def same_stacks_def holds_frames_def\<close>)
qed

section \<open>The element loop\<close>

lemma array_loop_step:
  "x < arraySize \<Longrightarrow> array_stack p = [] \<Longrightarrow>
   array_loop pa ptr i x arraySize av p =
     (case parse_chunk pa (drop i ptr) p of
        Inl e \<Rightarrow> Inl e
      | Inr (n, r, q) \<Rightarrow>
          (case r of
             Error \<Rightarrow> Inr (i + n, Error, q)
           | Incompleted \<Rightarrow>
               Inr (i + n, Incompleted,
                    q\<lparr>value_stack := rv_array av # value_stack q,
                      array_stack := (arraySize - x) # array_stack q\<rparr>)
           | Completed \<Rightarrow>
               (case value_stack q of
                  [] \<Rightarrow> Inl Assert_failed
                | v # vs \<Rightarrow>
                    array_loop pa ptr (i + n) (x + 1) arraySize (av @ [v])
                      (q\<lparr>value_stack := vs\<rparr>))))"
  by (subst array_loop.simps) (simp add: parse_with_def)

lemma array_loop_done:
  "array_loop pa ptr i x x av p =
     Inr (i, Completed, p\<lparr>value_stack := rv_array av # value_stack p\<rparr>)"
  by (subst array_loop.simps) simp

lemma carry_add: "carry (i + j) m cs = (case carry j m cs of (m', k) \<Rightarrow> (m', i + k))"
  by (simp add: carry_def split: machine.split prod.split)

lemma holds_frames_push:
  assumes "holds_frames fs base q" and "1 \<le> n"
  shows "holds_frames (fs @ [(n, vs)]) base
    (q\<lparr>value_stack := rv_array vs # value_stack q, array_stack := int n # array_stack q\<rparr>)"
  using assms by (auto simp: holds_frames_def)

lemma phase_of_value_stack [simp]: "phase_of (p\<lparr>value_stack := vs\<rparr>) = phase_of p"
  by (cases "pstate p") (simp_all add: phase_of_def)

lemma phase_of_array_stack [simp]: "phase_of (p\<lparr>array_stack := as\<rparr>) = phase_of p"
  by (cases "pstate p") (simp_all add: phase_of_def)

lemma chunk_ok_stacks [simp]:
  "chunk_ok (p\<lparr>value_stack := vs\<rparr>) = chunk_ok p" "chunk_ok (p\<lparr>array_stack := as\<rparr>) = chunk_ok p"
  by (simp_all add: chunk_ok_def)

lemma chunk_ok_Start: "pstate p = Start \<Longrightarrow> chunk_ok p"
  by (simp add: chunk_ok_def)

lemma array_loop_agrees:
  assumes pa: "array_correct d pa"
  shows "array_stack p = [] \<Longrightarrow> value_stack p = base \<Longrightarrow> chunk_ok p \<Longrightarrow> i \<le> length ptr \<Longrightarrow>
    length ptr \<le> d + i \<Longrightarrow> 1 \<le> m \<Longrightarrow> arraySize - x = int m \<Longrightarrow>
    parse_agrees base (length ptr) (carry i (Running (phase_of p) [(m, av)]) (drop i ptr))
      (array_loop pa ptr i x arraySize av p)"
proof (induction m arbitrary: p i x av)
  case (Suc m)
  let ?rest = "drop i ptr"
  obtain w k where wk: "run (phase_of p) [] ?rest = (w, k)" by force
  have chunk: "parse_agrees base (length ?rest) (w, k) (parse_chunk pa ?rest p)"
    using parse_chunk_agrees [OF pa Suc.prems(1-3), of ?rest] Suc.prems(5) wk by simp
  have k: "k \<le> length ?rest" using run_length [of "phase_of p" "[]" ?rest] wk by simp
  have x: "x < arraySize" using Suc.prems by simp
  note step = array_loop_step [OF x Suc.prems(1)]
  show ?case
  proof (cases w)
    case (Running ph fs)
    with chunk obtain q where q: "parse_chunk pa ?rest p = Inr (k, Incompleted, q)"
      "k = length ?rest" "phase_of q = ph" "chunk_ok q" and fr: "holds_frames fs base q"
      by (auto simp: parse_agrees_def)
    have "holds_frames (fs @ [(Suc m, av)]) base
        (q\<lparr>value_stack := rv_array av # value_stack q, array_stack := int (Suc m) # array_stack q\<rparr>)"
      by (rule holds_frames_push [OF fr]) simp
    with Running wk q Suc.prems show ?thesis
      by (simp add: step run_outer_frame parse_agrees_def)
  next
    case Failed
    with chunk wk show ?thesis
      by (auto simp: step run_outer_frame parse_agrees_def)
  next
    case (Finished v)
    with chunk obtain q where q: "parse_chunk pa ?rest p = Inr (k, Completed, q)"
      "pstate q = Start" "array_stack q = []" "value_stack q = v # base"
      by (auto simp: parse_agrees_def)
    let ?q = "q\<lparr>value_stack := base\<rparr>"
    have loop: "array_loop pa ptr i x arraySize av p =
        array_loop pa ptr (i + k) (x + 1) arraySize (av @ [v]) ?q"
      using q by (simp add: step)
    have lhs: "carry i (Running (phase_of p) [(Suc m, av)]) ?rest =
        carry (i + k) (deliver v [(Suc m, av)]) (drop (i + k) ptr)"
      using wk Finished by (simp add: run_outer_frame carry_add add.commute split: prod.split)
    show ?thesis
    proof (cases m)
      case 0
      with q Suc.prems(7) have "arraySize = x + 1" by simp
      with 0 q show ?thesis
        unfolding loop lhs by (simp add: array_loop_done parse_agrees_def)
    next
      case (Suc m')
      have "parse_agrees base (length ptr)
          (carry (i + k) (Running (phase_of ?q) [(m, av @ [v])]) (drop (i + k) ptr))
          (array_loop pa ptr (i + k) (x + 1) arraySize (av @ [v]) ?q)"
        using Suc.IH [of ?q "i + k" "x + 1" "av @ [v]"] q Suc Suc.prems k
        by (simp add: chunk_ok_Start)
      with Suc q show ?thesis
        unfolding loop lhs by (simp add: phase_of_Start)
    qed
  qed
qed simp

lemma resume_array_agrees:
  assumes pa: "array_correct d pa" and p: "array_stack p = []" "value_stack p = base" "chunk_ok p"
    and i: "i \<le> length ptr" "length ptr \<le> d + i" and m: "1 \<le> m"
  shows "parse_agrees base (length ptr) (carry i (Running (phase_of p) [(m, av)]) (drop i ptr))
      (resume_array pa ptr i (int m) av p)"
proof (cases "i = length ptr")
  case True
  have "holds_frames ([] @ [(m, av)]) base
      (p\<lparr>value_stack := rv_array av # value_stack p, array_stack := int m # array_stack p\<rparr>)"
    using p m by (intro holds_frames_push) (simp_all add: holds_frames_def)
  with True p m show ?thesis
    by (simp add: resume_array_def parse_agrees_def Let_def)
next
  case False
  with array_loop_agrees [OF pa p i m, of "int m" 0 av] show ?thesis
    by (simp add: resume_array_def)
qed

lemma resume_array_zero:
  "resume_array pa ptr i 0 av p =
     Inr (i, Completed, p\<lparr>value_stack := rv_array av # value_stack p\<rparr>)"
  by (simp add: resume_array_def array_loop_done Let_def)

section \<open>parseArray\<close>

lemma parse_array_with_eq:
  "array_stack p = int n # as \<Longrightarrow> value_stack p = rv_array av # vs \<Longrightarrow>
   parse_array_with pa ptr p =
     (let p1 = p\<lparr>array_stack := as, value_stack := vs\<rparr> in
      if as \<noteq> [] then
        (case pa ptr p1 of
           Inl e \<Rightarrow> Inl e
         | Inr (k, r, p2) \<Rightarrow>
             if r \<noteq> Completed then
               Inr (k, r, p2\<lparr>value_stack := rv_array av # value_stack p2,
                             array_stack := int n # array_stack p2\<rparr>)
             else
               (case value_stack p2 of
                  [] \<Rightarrow> Inl Empty_container
                | v # vs2 \<Rightarrow>
                    resume_array pa ptr k (int n - 1) (av @ [v]) (p2\<lparr>value_stack := vs2\<rparr>)))
      else resume_array pa ptr 0 (int n) av p1)"
  by (simp add: parse_array_with_def Let_def)

text \<open>An inner array that is complete is one more element of the outer one.\<close>

lemma resume_outer_agrees:
  assumes pa: "array_correct d pa" and q: "pstate q = Start" "array_stack q = []"
    "value_stack q = base" and k: "k \<le> length ptr" "length ptr \<le> d + k" and n: "1 \<le> n"
  shows "parse_agrees base (length ptr) (carry k (deliver v [(n, av)]) (drop k ptr))
    (resume_array pa ptr k (int n - 1) (av @ [v]) q)"
proof (cases "n = 1")
  case True
  with q show ?thesis by (simp add: resume_array_zero parse_agrees_def)
next
  case False
  then have n': "1 \<le> n - 1" and eq: "int n - 1 = int (n - 1)" using n by auto
  have "deliver v [(n, av)] = Running (phase_of q) [(n - 1, av @ [v])]"
    using False n q(1) by (simp add: phase_of_Start)
  then show ?thesis
    unfolding eq using resume_array_agrees [OF pa q(2,3) chunk_ok_Start [OF q(1)] k n']
    by (simp only:)
qed

lemma parse_array_step:
  assumes pa: "array_correct d pa"
  shows "array_correct (Suc d) (parse_array_with pa)"
  unfolding array_correct_def
proof (intro allI impI)
  fix fs base p and ptr :: bytes
  assume "fs \<noteq> []" and frames: "holds_frames fs base p" and ok: "chunk_ok p"
    and len: "length ptr + length fs \<le> Suc d"
  then obtain inner n av where fs: "fs = inner @ [(n, av)]" by (cases fs rule: rev_cases) auto
  let ?as = "map (int \<circ> fst) (rev inner)" and ?vs = "map (rv_array \<circ> snd) (rev inner) @ base"
  let ?p1 = "p\<lparr>array_stack := ?as, value_stack := ?vs\<rparr>"
  have n: "1 \<le> n" and inner: "holds_frames inner base ?p1" and
    stacks: "array_stack p = int n # ?as" "value_stack p = rv_array av # ?vs"
    using frames fs by (auto simp: holds_frames_def)
  note eq = parse_array_with_eq [OF stacks, of pa ptr]
  have ok1: "chunk_ok ?p1" using ok by simp
  show "parse_agrees base (length ptr) (run (phase_of p) fs ptr) (parse_array_with pa ptr p)"
  proof (cases "inner = []")
    case True
    with resume_array_agrees [OF pa _ _ ok1, where i = 0 and ptr = ptr and m = n and av = av] len fs n
    have "parse_agrees base (length ptr) (run (phase_of p) [(n, av)] ptr)
        (resume_array pa ptr 0 (int n) av ?p1)"
      by simp
    with True fs eq show ?thesis by (simp add: Let_def)
  next
    case False
    obtain w k where wk: "run (phase_of p) inner ptr = (w, k)" by force
    have k: "k \<le> length ptr" using run_length [of "phase_of p" inner ptr] wk by simp
    have nested: "parse_agrees base (length ptr) (w, k) (pa ptr ?p1)"
      using array_correctD [OF pa False inner ok1, of ptr] len fs wk by simp
    show ?thesis
    proof (cases w)
      case (Running ph fs')
      with nested obtain q where q: "pa ptr ?p1 = Inr (k, Incompleted, q)" "k = length ptr"
        "phase_of q = ph" "chunk_ok q" and fr: "holds_frames fs' base q"
        by (auto simp: parse_agrees_def)
      from Running q wk fs eq False holds_frames_push [OF fr n, of av] show ?thesis
        by (simp add: run_frames parse_agrees_def Let_def)
    next
      case Failed
      with nested wk fs eq False show ?thesis
        by (auto simp: run_frames parse_agrees_def Let_def)
    next
      case (Finished v)
      with nested obtain q where q: "pa ptr ?p1 = Inr (k, Completed, q)" "pstate q = Start"
        "array_stack q = []" "value_stack q = v # base"
        by (auto simp: parse_agrees_def)
      have "parse_agrees base (length ptr) (carry k (deliver v [(n, av)]) (drop k ptr))
          (resume_array pa ptr k (int n - 1) (av @ [v]) (q\<lparr>value_stack := base\<rparr>))"
        by (rule resume_outer_agrees [OF pa]) (use q k len fs n in auto)
      with Finished q wk fs eq False show ?thesis
        by (simp add: run_frames Let_def del: deliver.simps)
    qed
  qed
qed

lemma parse_array_correct: "array_correct d (parse_array d)"
proof (induction d)
  case 0
  then show ?case by (simp add: array_correct_def)
next
  case (Suc d)
  then show ?case by (simp add: parse_array_step)
qed

section \<open>parse\<close>

definition frames_of :: "redis_parser \<Rightarrow> frame list" where
  "frames_of p = rev (zip (map nat (array_stack p)) (map toArray (value_stack p)))"

text \<open>
  The objects between two calls of \<^verbatim>\<open>parse\<close>: the two stacks are equally high, every array
  under way misses an element, and bulk data under way miss a byte.
\<close>

definition parser_ok :: "redis_parser \<Rightarrow> bool" where
  "parser_ok p \<longleftrightarrow>
     chunk_ok p \<and> length (array_stack p) = length (value_stack p) \<and>
     list_all (\<lambda>n. 0 < n) (array_stack p) \<and>
     list_all (\<lambda>v. v = rv_array (toArray v)) (value_stack p)"

text \<open>An object at the start of a reply.\<close>

definition idle :: "redis_parser \<Rightarrow> bool" where
  "idle p \<longleftrightarrow> pstate p = Start \<and> array_stack p = [] \<and> value_stack p = []"

lemma idle_new_parser [simp]: "idle new_parser"
  by (simp add: idle_def new_parser_def)

lemma idle_ok: "idle p \<Longrightarrow> parser_ok p"
  by (simp add: idle_def parser_ok_def chunk_ok_def)

lemma idle_configuration:
  "idle p \<Longrightarrow> phase_of p = AtStart" "idle p \<Longrightarrow> frames_of p = []"
  by (simp_all add: idle_def frames_of_def phase_of_Start)

lemma stacks_zip:
  assumes "length as = length vs" and "list_all (\<lambda>n. 0 < n) as"
    and "list_all (\<lambda>v. v = rv_array (toArray v)) vs"
  shows "map (int \<circ> fst) (zip (map nat as) (map toArray vs)) = as \<and>
    map (rv_array \<circ> snd) (zip (map nat as) (map toArray vs)) = vs \<and>
    (\<forall>f \<in> set (zip (map nat as) (map toArray vs)). 1 \<le> fst f)"
  using assms by (induction as vs rule: list_induct2) auto

lemma holds_frames_of: "parser_ok p \<Longrightarrow> holds_frames (frames_of p) [] p"
  using stacks_zip [of "array_stack p" "value_stack p"]
  by (simp add: parser_ok_def holds_frames_def frames_of_def)

lemma frames_of_holds: "holds_frames fs [] p \<Longrightarrow> frames_of p = fs"
  by (simp add: holds_frames_def frames_of_def zip_map_map zip_same_conv_map o_def)

lemma parser_ok_holds: "holds_frames fs [] p \<Longrightarrow> chunk_ok p \<Longrightarrow> parser_ok p"
  by (auto simp: holds_frames_def parser_ok_def list_all_iff)

text \<open>The refinement, in the form the clients of the parser use.\<close>

definition parse_outcome_ok :: "machine \<times> nat \<Rightarrow> nat \<Rightarrow> parse_outcome \<Rightarrow> bool" where
  "parse_outcome_ok r len outcome =
     (case r of
        (Running ph fs, k) \<Rightarrow>
          (\<exists>q. outcome = Inr (k, Incompleted, q) \<and> k = len \<and> parser_ok q \<and>
               phase_of q = ph \<and> frames_of q = fs)
      | (Finished v, k) \<Rightarrow>
          (\<exists>q q'. outcome = Inr (k, Completed, q) \<and> result q = Inr (v, q') \<and> idle q')
      | (Failed, k) \<Rightarrow> (\<exists>q. outcome = Inr (k, Error, q)))"

lemma parse_agrees_outcome_ok:
  "parse_agrees [] len r outcome \<Longrightarrow> parse_outcome_ok r len outcome"
  by (auto simp: parse_agrees_def parse_outcome_ok_def result_def idle_def parser_ok_holds
      frames_of_holds split: machine.splits prod.splits)

lemma parse_runs_automaton:
  fixes ptr :: bytes
  assumes ok: "parser_ok p"
  shows "parse_outcome_ok (run (phase_of p) (frames_of p) ptr) (length ptr) (parse ptr p)"
proof (rule parse_agrees_outcome_ok)
  note pa = parse_array_correct [of "enough_depth ptr p"]
  have chunk: "chunk_ok p" using ok by (simp add: parser_ok_def)
  have frames: "holds_frames (frames_of p) [] p" using ok by (rule holds_frames_of)
  have len: "length (frames_of p) = length (array_stack p)"
    using ok by (simp add: frames_of_def parser_ok_def)
  show "parse_agrees [] (length ptr) (run (phase_of p) (frames_of p) ptr) (parse ptr p)"
  proof (cases "array_stack p = []")
    case True
    with ok have "value_stack p = []" and "frames_of p = []"
      by (auto simp: parser_ok_def frames_of_def)
    with parse_chunk_agrees [OF pa True _ chunk, of "[]" ptr] True show ?thesis
      by (simp add: parse_def parse_with_def enough_depth_def)
  next
    case False
    with len have "frames_of p \<noteq> []" by auto
    from array_correctD [OF pa this frames chunk, of ptr] False len show ?thesis
      by (simp add: parse_def parse_with_def enough_depth_def)
  qed
qed

text \<open>The three ways a call ends; a fault is none of them.\<close>

lemma parse_cases:
  fixes ptr :: bytes
  assumes "parser_ok p"
  obtains (incompleted) q where "parse ptr p = Inr (length ptr, Incompleted, q)" "parser_ok q"
  | (completed) n q v q' where "parse ptr p = Inr (n, Completed, q)" "0 < n" "n \<le> length ptr"
      "result q = Inr (v, q')" "idle q'"
  | (refused) n q where "parse ptr p = Inr (n, Error, q)" "0 < n" "n \<le> length ptr"
proof -
  obtain m k where mk: "run (phase_of p) (frames_of p) ptr = (m, k)" by force
  have k: "k \<le> length ptr" using run_length [of "phase_of p" "frames_of p" ptr] mk by simp
  have pos: "0 < k" if "\<forall>ph fs. m \<noteq> Running ph fs"
    using mk that by (cases ptr) (auto split: machine.splits prod.splits)
  from parse_runs_automaton [OF assms, of ptr] mk k pos show thesis
    by (cases m) (auto simp: parse_outcome_ok_def intro: that)
qed

section \<open>Properties\<close>





text \<open>What a caller can see of the object after a call: the configuration when it is incomplete,
  the reply when it is complete.\<close>

definition same_view :: "parse_result \<Rightarrow> redis_parser \<Rightarrow> redis_parser \<Rightarrow> bool" where
  "same_view r q1 q2 =
     (case r of
        Incompleted \<Rightarrow> phase_of q1 = phase_of q2 \<and> frames_of q1 = frames_of q2
      | Completed \<Rightarrow> map_sum id fst (result q1) = map_sum id fst (result q2)
      | Error \<Rightarrow> True)"

text \<open>Buffer boundaries do not matter. When a first buffer leaves the object incomplete, then
  feeding it a second buffer gives what feeding the two joined to the original object gives:
  the same verdict, the same reply or the same configuration, and byte counts that add up.\<close>

lemma parse_split_buffers:
  assumes "parser_ok p" and "parse as p = Inr (k, Incompleted, q)"
  shows "\<exists>n r q1 q2. parse bs q = Inr (n, r, q1) \<and> parse (as @ bs) p = Inr (k + n, r, q2) \<and>
    same_view r q1 q2"
proof -
  obtain ph fs where at: "run (phase_of p) (frames_of p) as = (Running ph fs, k)"
    and q: "parser_ok q" "phase_of q = ph" "frames_of q = fs"
    using parse_runs_automaton [OF assms(1), of as] assms(2)
    by (auto simp: parse_outcome_ok_def split: prod.splits machine.splits)
  obtain m n where mn: "run ph fs bs = (m, n)" by force
  have "run (phase_of p) (frames_of p) (as @ bs) = (m, k + n)"
    using at mn by (simp add: run_append)
  with parse_runs_automaton [OF assms(1), of "as @ bs"] parse_runs_automaton [OF q(1), of bs] q mn
  show ?thesis
    by (cases m) (force simp: parse_outcome_ok_def same_view_def)+
qed

lemma parse_split_buffers_witness:
  "\<exists>q n r q1 q2. parse ''$5'' new_parser = Inr (2, Incompleted, q) \<and>
     parse (crlf @ ''hello'' @ crlf) q = Inr (n, r, q1) \<and>
     parse (''$5'' @ crlf @ ''hello'' @ crlf) new_parser = Inr (2 + n, r, q2) \<and> same_view r q1 q2"
proof -
  obtain q where q: "parse ''$5'' new_parser = Inr (2, Incompleted, q)"
    by (simp add: parse_def parse_with_def parse_chunk_def new_parser_def chunk_loop.simps
        chunk_switch_def chunk_case_defs reply_defs is_digit_def)
  from parse_split_buffers [OF idle_ok [OF idle_new_parser] q, of "crlf @ ''hello'' @ crlf"] q
  show ?thesis by metis
qed

end
