(* ===== verification/Resp_Codec.thy ===== *)
theory Resp_Codec
  imports Resp_Refinement
begin

text \<open>
  The wire format of the replies as an encoder, and the theorem that the automaton, and
  with it \<^verbatim>\<open>RedisParser\<close>, reads back what it writes. The encoder is the specification a
  Redis server follows; the program itself only encodes commands, which are arrays of
  bulk strings (\<^verbatim>\<open>makeCommand\<close>, in the client theory).
\<close>

section \<open>The encoder\<close>

definition bulk_enc :: "bytes \<Rightarrow> bytes" where
  "bulk_enc b = bulkReply # dec_of_nat (length b) @ crlf @ b @ crlf"

fun enc :: "redis_value \<Rightarrow> bytes"
  and enc_data :: "bool \<Rightarrow> redis_data \<Rightarrow> bytes"
where
  "enc (RV d e) = enc_data e d"
| "enc_data e NullTag = bulkReply # ''-1'' @ crlf"
| "enc_data e (IntD i) = integerReply # dec_of_int (sint i) @ crlf"
| "enc_data e (BytesD b) = (if e then errorReply # b @ crlf else bulk_enc b)"
| "enc_data e (ArrayD vs) = arrayReply # dec_of_nat (length vs) @ crlf @ concat (map enc vs)"

text \<open>
  Values the format can carry: the error flag only on byte strings, and then on printable
  ones; lengths within \<^verbatim>\<open>long\<close>.
\<close>

definition printable :: "char \<Rightarrow> bool" where
  "printable c \<longleftrightarrow> isChar c \<and> \<not> isControl c"

fun encodable :: "redis_value \<Rightarrow> bool"
  and encodable_data :: "bool \<Rightarrow> redis_data \<Rightarrow> bool"
where
  "encodable (RV d e) = encodable_data e d"
| "encodable_data e NullTag = (\<not> e)"
| "encodable_data e (IntD i) = (\<not> e)"
| "encodable_data e (BytesD b) =
     (if e then list_all printable b else int (length b) \<le> LONG_MAX)"
| "encodable_data e (ArrayD vs) =
     (\<not> e \<and> int (length vs) \<le> LONG_MAX \<and> list_all encodable vs)"

definition status_enc :: "bytes \<Rightarrow> bytes" where
  "status_enc b = stringReply # b @ crlf"

section \<open>Runs over the parts of an encoding\<close>

lemma carry_0 [simp]: "carry 0 m cs = (case m of Running ph fs \<Rightarrow> run ph fs cs | _ \<Rightarrow> (m, 0))"
  by (simp add: carry_def split: machine.split prod.split)

lemma carry_chain:
  assumes "run ph fs cs = carry k m ds"
  shows "carry j (Running ph fs) cs = carry (j + k) m ds"
  using assms by (simp add: carry_add)

lemma run_Cons: "machine_step ph fs c = m \<Longrightarrow> run ph fs (c # cs) = carry 1 m cs"
  by (simp only: run_Cons_carry)

definition size_char :: "char \<Rightarrow> bool" where
  "size_char c \<longleftrightarrow> is_digit c \<or> c = CHR ''-''"

lemma size_char_not_CR: "size_char c \<Longrightarrow> c \<noteq> CR"
  by (auto simp: size_char_def dest: is_digit_not_sign)

lemma run_size:
  assumes step: "\<And>b c. phase_step (stay b) c = size_step stay leave b c"
  shows "list_all size_char ds \<Longrightarrow> b @ ds \<noteq> [] \<Longrightarrow>
    run (stay b) fs (ds @ CR # cs) = carry (length ds + 1) (Running (leave (b @ ds)) fs) cs"
proof (induction ds arbitrary: b)
  case Nil
  then show ?case
    by (simp add: run_Cons machine_step_def step size_step_def del: run.simps)
next
  case (Cons d ds)
  then have "machine_step (stay b) fs d = Running (stay (b @ [d])) fs"
    by (auto simp: machine_step_def step size_step_def size_char_def dest: is_digit_not_sign)
  moreover have "run (stay (b @ [d])) fs (ds @ CR # cs) =
      carry (length ds + 1) (Running (leave ((b @ [d]) @ ds)) fs) cs"
    using Cons by simp
  ultimately show ?case
    using carry_chain [of "stay (b @ [d])" fs "ds @ CR # cs" "length ds + 1" _ cs 1]
    by (simp add: run_Cons del: run.simps carry_simps)
qed

lemma printable_not_CR: "printable c \<Longrightarrow> c \<noteq> CR"
  by (auto simp: printable_def isControl_def)

lemma run_line:
  assumes step: "\<And>b c. phase_step (stay b) c = line_step stay leave b c"
  shows "list_all printable ds \<Longrightarrow>
    run (stay b) fs (ds @ CR # cs) = carry (length ds + 1) (Running (leave (b @ ds)) fs) cs"
proof (induction ds arbitrary: b)
  case Nil
  then show ?case
    by (simp add: run_Cons machine_step_def step line_step_def del: run.simps)
next
  case (Cons d ds)
  then have "machine_step (stay b) fs d = Running (stay (b @ [d])) fs"
    by (auto simp: machine_step_def step line_step_def printable_def isControl_def)
  moreover have "run (stay (b @ [d])) fs (ds @ CR # cs) =
      carry (length ds + 1) (Running (leave ((b @ [d]) @ ds)) fs) cs"
    using Cons by simp
  ultimately show ?case
    using carry_chain [of "stay (b @ [d])" fs "ds @ CR # cs" "length ds + 1" _ cs 1]
    by (simp add: run_Cons del: run.simps carry_simps)
qed

lemma run_bulk:
  "b \<noteq> [] \<Longrightarrow> run (InBulk (length b) acc) fs (b @ cs) =
     carry (length b) (Running (AtBulkCR (acc @ b)) fs) cs"
proof (induction b arbitrary: acc)
  case (Cons d b)
  show ?case
  proof (cases "b = []")
    case True
    then show ?thesis by (simp add: run_Cons machine_step_def del: run.simps)
  next
    case False
    then have "1 < length (d # b)" by simp
    then have "machine_step (InBulk (length (d # b)) acc) fs d =
        Running (InBulk (length b) (acc @ [d])) fs"
      by (simp add: machine_step_def)
    with Cons.IH [OF False, of "acc @ [d]"]
      carry_chain [of "InBulk (length b) (acc @ [d])" fs "b @ cs" "length b" _ cs 1]
    show ?thesis
      by (simp add: run_Cons del: run.simps carry_simps)
  qed
qed simp

lemma run_trans:
  assumes "run ph fs cs = carry j (Running ph' fs') ds" and "run ph' fs' ds = carry k m es"
    and "n = j + k"
  shows "run ph fs cs = carry n m es"
  using assms carry_chain [OF assms(2), of j] by simp

lemma run_size_reply:
  assumes "start_step c = More (stay [])"
    and "\<And>b c. phase_step (stay b) c = size_step stay leave b c"
    and "list_all size_char ds" and "ds \<noteq> []"
  shows "run AtStart fs (c # ds @ crlf @ cs) =
    carry (length ds + 3) (machine_step (leave ds) fs LF) cs"
proof -
  have "run AtStart fs (c # ds @ crlf @ cs) = carry 1 (Running (stay []) fs) (ds @ CR # LF # cs)"
    using assms(1) by (simp add: run_Cons_carry machine_step_def crlf_def del: run.simps)
  moreover have "run (stay []) fs (ds @ CR # LF # cs) =
      carry (length ds + 1) (Running (leave ds) fs) (LF # cs)"
    using run_size [OF assms(2,3), of "[]"] assms(4) by simp
  ultimately have "run AtStart fs (c # ds @ crlf @ cs) =
      carry (length ds + 2) (Running (leave ds) fs) (LF # cs)"
    by (rule run_trans) simp
  moreover have "run (leave ds) fs (LF # cs) = carry 1 (machine_step (leave ds) fs LF) cs"
    by (rule run_Cons_carry)
  ultimately show ?thesis by (rule run_trans) simp
qed

lemma run_line_reply:
  assumes "start_step c = More (stay [])"
    and "\<And>b c. phase_step (stay b) c = line_step stay leave b c"
    and "list_all printable ds"
  shows "run AtStart fs (c # ds @ crlf @ cs) =
    carry (length ds + 3) (machine_step (leave ds) fs LF) cs"
proof -
  have "run AtStart fs (c # ds @ crlf @ cs) = carry 1 (Running (stay []) fs) (ds @ CR # LF # cs)"
    using assms(1) by (simp add: run_Cons_carry machine_step_def crlf_def del: run.simps)
  moreover have "run (stay []) fs (ds @ CR # LF # cs) =
      carry (length ds + 1) (Running (leave ds) fs) (LF # cs)"
    using run_line [OF assms(2,3), of "[]"] by simp
  ultimately have "run AtStart fs (c # ds @ crlf @ cs) =
      carry (length ds + 2) (Running (leave ds) fs) (LF # cs)"
    by (rule run_trans) simp
  moreover have "run (leave ds) fs (LF # cs) = carry 1 (machine_step (leave ds) fs LF) cs"
    by (rule run_Cons_carry)
  ultimately show ?thesis by (rule run_trans) simp
qed

lemma size_char_digits: "list_all is_digit ds \<Longrightarrow> list_all size_char ds"
  by (simp add: list_all_iff size_char_def)

lemma size_char_dec_of_nat [simp]: "list_all size_char (dec_of_nat n)"
  by (simp add: size_char_digits)

lemma size_char_dec_of_int [simp]: "list_all size_char (dec_of_int i)"
  by (simp add: dec_of_int_def size_char_def)

lemma dec_of_int_not_Nil [simp]: "dec_of_int i \<noteq> []"
  by (simp add: dec_of_int_def)

section \<open>Runs over an encoding\<close>

lemma run_null: "run AtStart fs (bulkReply # ''-1'' @ crlf @ cs) = carry 5 (deliver rv_null fs) cs"
proof -
  have one: "strtol ''-1'' = -1"
    using strtol_neg_digits [of "''1''"]
    by (simp add: is_digit_def digit_val_def clamp_long_def LONG_MIN_def LONG_MAX_def)
  have "run AtStart fs (bulkReply # ''-1'' @ crlf @ cs) =
      carry (length ''-1'' + 3) (machine_step (AtBulkSizeLF ''-1'') fs LF) cs"
    by (rule run_size_reply [where stay = InBulkSize])
      (simp_all add: start_step_def reply_defs size_char_def is_digit_def)
  with one show ?thesis
    by (simp add: machine_step_def bulk_size_token_def)
qed

lemma sint_long: "LONG_MIN \<le> sint (i :: 32 word) \<and> sint i \<le> LONG_MAX"
  using sint_greater_eq [of i] sint_less [of i] by (simp add: LONG_MIN_def LONG_MAX_def)

lemma run_int:
  "run AtStart fs (integerReply # dec_of_int (sint i) @ crlf @ cs) =
     carry (length (dec_of_int (sint i)) + 3) (deliver (rv_int i) fs) cs"
  using run_size_reply [of integerReply InInteger AtIntegerLF "dec_of_int (sint i)" fs cs]
    sint_long [of i]
  by (simp add: start_step_def reply_defs machine_step_def strtol_dec_of_int)

lemma run_error:
  "list_all printable b \<Longrightarrow> run AtStart fs (errorReply # b @ crlf @ cs) =
     carry (length b + 3) (deliver (rv_error_bytes b) fs) cs"
  using run_line_reply [of errorReply InError AtErrorLF b fs cs]
  by (simp add: start_step_def reply_defs machine_step_def)

lemma run_status:
  "list_all printable b \<Longrightarrow> run AtStart fs (status_enc b @ cs) =
     carry (length (status_enc b)) (deliver (rv_bytes b) fs) cs"
  using run_line_reply [of stringReply InString AtStringLF b fs cs]
  by (simp add: start_step_def reply_defs machine_step_def status_enc_def crlf_def numeral_3_eq_3
      del: run.simps)

lemma run_bulk_end:
  "run (AtBulkCR b) fs (crlf @ cs) = carry 2 (deliver (rv_bytes b) fs) cs"
  by (simp add: crlf_def run_Cons_carry machine_step_def carry_def del: run.simps
      split: machine.split prod.split)

lemma run_bulk_reply:
  assumes "int (length b) \<le> LONG_MAX"
  shows "run AtStart fs (bulk_enc b @ cs) = carry (length (bulk_enc b)) (deliver (rv_bytes b) fs) cs"
proof -
  let ?ds = "dec_of_nat (length b)" and ?rest = "b @ crlf @ cs"
  have head: "run AtStart fs (bulkReply # ?ds @ crlf @ ?rest) =
      carry (length ?ds + 3) (machine_step (AtBulkSizeLF ?ds) fs LF) ?rest"
    by (rule run_size_reply [where stay = InBulkSize]) (simp_all add: start_step_def reply_defs)
  have size: "strtol ?ds = int (length b)" using assms by (rule strtol_dec_of_nat)
  have body: "run AtStart fs (bulkReply # ?ds @ crlf @ ?rest) =
      carry (length ?ds + 3 + length b) (Running (AtBulkCR b) fs) (crlf @ cs)"
  proof (cases "b = []")
    case True
    with head size show ?thesis
      by (simp add: machine_step_def bulk_size_token_def)
  next
    case False
    then have "machine_step (AtBulkSizeLF ?ds) fs LF = Running (InBulk (length b) []) fs"
      using size by (simp add: machine_step_def bulk_size_token_def)
    with head have "run AtStart fs (bulkReply # ?ds @ crlf @ ?rest) =
        carry (length ?ds + 3) (Running (InBulk (length b) []) fs) ?rest"
      by simp
    then show ?thesis
      using run_bulk [OF False, of "[]" fs "crlf @ cs"] unfolding append_Nil
      by (rule run_trans) simp
  qed
  have "run AtStart fs (bulkReply # ?ds @ crlf @ ?rest) =
      carry (length ?ds + 3 + length b + 2) (deliver (rv_bytes b) fs) cs"
    by (rule run_trans [OF body run_bulk_end]) simp
  then show ?thesis by (simp add: bulk_enc_def crlf_def eval_nat_numeral del: run.simps)
qed

text \<open>The header of an array leaves a frame, an empty array none.\<close>

lemma run_array_header:
  assumes "int n \<le> LONG_MAX"
  shows "run AtStart fs (arrayReply # dec_of_nat n @ crlf @ cs) =
    carry (length (dec_of_nat n) + 3)
      (if n = 0 then deliver (rv_array []) fs else Running AtStart ((n, []) # fs)) cs"
  using run_size_reply [of arrayReply InArraySize AtArraySizeLF "dec_of_nat n" fs cs]
    strtol_dec_of_nat [OF assms]
  by (simp add: start_step_def reply_defs machine_step_def array_size_token_def
      del: run.simps)

text \<open>The elements fill the frame, given that each of them is read.\<close>

lemma run_elements:
  assumes "\<And>v fs cs. v \<in> set vs \<Longrightarrow>
    run AtStart fs (enc v @ cs) = carry (length (enc v)) (deliver v fs) cs"
  shows "vs \<noteq> [] \<Longrightarrow> run AtStart ((length vs, acc) # fs) (concat (map enc vs) @ cs) =
    carry (length (concat (map enc vs))) (deliver (rv_array (acc @ vs)) fs) cs"
  using assms
proof (induction vs arbitrary: acc)
  case (Cons v vs)
  let ?rest = "concat (map enc vs) @ cs"
  have first: "run AtStart ((length (v # vs), acc) # fs) (enc v @ ?rest) =
      carry (length (enc v)) (deliver v ((length (v # vs), acc) # fs)) ?rest"
    by (rule Cons.prems(2)) simp
  show ?case
  proof (cases "vs = []")
    case True
    with first show ?thesis by simp
  next
    case False
    then have "deliver v ((length (v # vs), acc) # fs) =
        Running AtStart ((length vs, acc @ [v]) # fs)"
      by (cases vs) simp_all
    with first have "run AtStart ((length (v # vs), acc) # fs) (enc v @ ?rest) =
        carry (length (enc v)) (Running AtStart ((length vs, acc @ [v]) # fs)) ?rest"
      by (simp only:)
    moreover have "run AtStart ((length vs, acc @ [v]) # fs) ?rest =
        carry (length (concat (map enc vs))) (deliver (rv_array ((acc @ [v]) @ vs)) fs) cs"
      by (rule Cons.IH [OF False]) (simp add: Cons.prems)
    ultimately have "run AtStart ((length (v # vs), acc) # fs) (enc v @ ?rest) =
        carry (length (concat (map enc (v # vs)))) (deliver (rv_array ((acc @ [v]) @ vs)) fs) cs"
      by (rule run_trans) simp
    then show ?thesis by simp
  qed
qed simp

lemma run_array:
  assumes IH: "\<And>v fs cs. v \<in> set vs \<Longrightarrow>
      run AtStart fs (enc v @ cs) = carry (length (enc v)) (deliver v fs) cs"
    and len: "int (length vs) \<le> LONG_MAX"
  shows "run AtStart fs (enc (rv_array vs) @ cs) =
    carry (length (enc (rv_array vs))) (deliver (rv_array vs) fs) cs"
proof -
  let ?ds = "dec_of_nat (length vs)" and ?es = "concat (map enc vs)"
  note header = run_array_header [OF len, of fs "?es @ cs"]
  have enc: "enc (rv_array vs) @ cs = arrayReply # ?ds @ crlf @ ?es @ cs"
    and n: "length (enc (rv_array vs)) = length ?ds + 3 + length ?es"
    by (simp_all add: rv_array_def crlf_def)
  show ?thesis
  proof (cases "vs = []")
    case True
    with header show ?thesis unfolding enc n by (simp del: run.simps)
  next
    case False
    with header have "run AtStart fs (arrayReply # ?ds @ crlf @ ?es @ cs) =
        carry (length ?ds + 3) (Running AtStart ((length vs, []) # fs)) (?es @ cs)"
      by (simp del: run.simps)
    moreover have "run AtStart ((length vs, []) # fs) (?es @ cs) =
        carry (length ?es) (deliver (rv_array vs) fs) cs"
      using run_elements [OF IH False, of "[]" fs cs] by (simp del: run.simps)
    ultimately show ?thesis unfolding enc n by (rule run_trans) simp
  qed
qed

lemma run_enc_both:
  "encodable v \<longrightarrow> (\<forall>fs cs. run AtStart fs (enc v @ cs) =
     carry (length (enc v)) (deliver v fs) cs)"
  "encodable_data e d \<longrightarrow> (\<forall>fs cs. run AtStart fs (enc (RV d e) @ cs) =
     carry (length (enc (RV d e))) (deliver (RV d e) fs) cs)"
proof (induction v and e d rule: encodable_encodable_data.induct)
  case (2 e)
  then show ?case
    using run_null by (simp add: rv_null_def crlf_def eval_nat_numeral del: run.simps)
next
  case (3 e i)
  then show ?case
    using run_int [of _ i] by (simp add: rv_int_def crlf_def eval_nat_numeral del: run.simps)
next
  case (4 e b)
  then show ?case
    using run_error [of b] run_bulk_reply [of b]
    by (auto simp: rv_error_bytes_def rv_bytes_def crlf_def eval_nat_numeral simp del: run.simps)
next
  case (5 e vs)
  show ?case
  proof (intro impI allI)
    fix fs cs
    assume ok: "encodable_data e (ArrayD vs)"
    then have "run AtStart fs (enc v @ cs) = carry (length (enc v)) (deliver v fs) cs"
      if "v \<in> set vs" for v fs cs
      using 5 that by (auto simp: list_all_iff)
    with ok run_array [of vs fs cs]
    show "run AtStart fs (enc (RV (ArrayD vs) e) @ cs) =
        carry (length (enc (RV (ArrayD vs) e))) (deliver (RV (ArrayD vs) e) fs) cs"
      by (simp add: rv_array_def del: run.simps)
  qed
qed simp

lemmas run_enc = run_enc_both(1) [rule_format]

text \<open>Before the last byte of an encoding the automaton is still running.\<close>

lemma run_prefix:
  assumes v: "encodable v" and split: "enc v = as @ bs" "bs \<noteq> []"
  obtains ph fs where "run AtStart [] as = (Running ph fs, length as)"
    "run ph fs (bs @ cs) = (Finished v, length bs)"
proof -
  have whole: "run AtStart [] (as @ bs @ cs) = (Finished v, length as + length bs)"
    using run_enc [OF v, of "[]" cs] split(1) by simp
  obtain m k where mk: "run AtStart [] as = (m, k)" by force
  have "k \<le> length as" using run_length [of AtStart "[]" as] mk by simp
  moreover have "0 < length bs" using split(2) by simp
  ultimately obtain ph fs where m: "m = Running ph fs"
    using whole mk by (auto simp: run_append split: machine.splits)
  with mk have "k = length as" using run_Running_length by simp
  moreover obtain m' k' where "run ph fs (bs @ cs) = (m', k')" by force
  ultimately show ?thesis
    using that whole mk m by (simp add: run_append)
qed

section \<open>The parser reads what the encoder writes\<close>

lemma parse_enc:
  assumes "idle p" and "encodable v"
  shows "\<exists>q q'. parse (enc v @ rest) p = Inr (length (enc v), Completed, q) \<and>
    result q = Inr (v, q') \<and> idle q'"
  using parse_runs_automaton [OF idle_ok [OF assms(1)], of "enc v @ rest"] assms
    run_enc [OF assms(2), of "[]" rest]
  by (simp add: idle_configuration parse_outcome_ok_def)

text \<open>One reply read from the front of a buffer by a new parser.\<close>

definition read_reply :: "bytes \<Rightarrow> (redis_value \<times> nat) option" where
  "read_reply bs =
     (case parse bs new_parser of
        Inr (n, Completed, q) \<Rightarrow> (case result q of Inr (v, _) \<Rightarrow> Some (v, n) | Inl _ \<Rightarrow> None)
      | _ \<Rightarrow> None)"

lemma read_reply_enc: "encodable v \<Longrightarrow> read_reply (enc v @ rest) = Some (v, length (enc v))"
  using parse_enc [OF idle_new_parser, of v rest] by (auto simp: read_reply_def)

interpretation resp: prefix_codec enc read_reply encodable
  by unfold_locales (rule read_reply_enc)

section \<open>Properties\<close>

text \<open>C2: the parser reads every reply that the protocol can carry, arrays of any nesting
  included, exactly: it takes the bytes of the encoding and none of what follows, delivers the
  value that was encoded, and is left ready for the next reply.\<close>

theorem parse_encoded_reply:
  assumes "idle p" and "encodable v"
  shows "\<exists>q q'. parse (enc v @ rest) p = Inr (length (enc v), Completed, q) \<and>
    result q = Inr (v, q') \<and> idle q'"
  using assms by (rule parse_enc)

theorem parse_encoded_reply_witness:
  "\<exists>q q'. parse (enc (rv_array [rv_int 7, rv_null, rv_array [rv_bytes ''ab'']]) @ ''+x'') new_parser =
      Inr (length (enc (rv_array [rv_int 7, rv_null, rv_array [rv_bytes ''ab'']])), Completed, q) \<and>
    result q = Inr (rv_array [rv_int 7, rv_null, rv_array [rv_bytes ''ab'']], q') \<and> idle q'"
  by (rule parse_encoded_reply) (simp_all add: rv_defs LONG_MAX_def)

text \<open>No reply's encoding is a prefix of another's, so a stream of replies can be cut in one
  way only.\<close>

lemma encoding_prefix_free:
  assumes "encodable v" and "encodable w" and "enc v @ r = enc w @ s"
  shows "v = w \<and> r = s"
  using assms by (rule resp.prefix_free)

end
