(* ===== verification/Redis_Client.thy ===== *)
theory Redis_Client
  imports Resp_Codec
begin

text \<open>
  \<^verbatim>\<open>src/redis_client_impl.cpp\<close>, \<^verbatim>\<open>include/redis/redis_client_impl.h\<close>,
  \<^verbatim>\<open>include/redis/redis_buffer.h\<close>: what the synchronous and the asynchronous client
  share. This theory holds the object with its connection state, the construction of
  commands and the error handlers, and states as a locale what both clients rely on when
  they feed the parser with what the socket delivers.
\<close>

section \<open>Buffers\<close>

text \<open>
  A \<^verbatim>\<open>RedisBuffer\<close> is a pointer and a size; the model keeps the bytes. From a C string it
  takes the bytes before the first NUL (none for a null pointer), from a \<^verbatim>\<open>std::string\<close> or
  a vector all of them.
\<close>

definition buffer_of_cstr :: "bytes option \<Rightarrow> bytes" where
  "buffer_of_cstr s = (case s of None \<Rightarrow> [] | Some b \<Rightarrow> takeWhile (\<lambda>c. c \<noteq> CHR 0x00) b)"

definition buffer_of_string :: "bytes \<Rightarrow> bytes" where
  "buffer_of_string s = s"

section \<open>Commands\<close>

definition append_string :: "bytes \<Rightarrow> bytes \<Rightarrow> bytes" where
  "append_string vec s = vec @ s"

definition append_cstr :: "bytes \<Rightarrow> bytes \<Rightarrow> bytes" where
  "append_cstr vec s = vec @ takeWhile (\<lambda>c. c \<noteq> CHR 0x00) s"

definition append_char :: "bytes \<Rightarrow> char \<Rightarrow> bytes" where
  "append_char vec c = (let v = vec @ [CHR 0x00] in v[length v - 1 := c])"

definition append_item :: "bytes \<Rightarrow> bytes \<Rightarrow> bytes" where
  "append_item res item =
     (let r1 = append_char res (CHR ''$'');
          r2 = append_string r1 (dec_of_nat (length item));
          r3 = append_string r2 crlf;
          r4 = append_string r3 item
      in append_string r4 crlf)"

fun append_items :: "bytes \<Rightarrow> bytes list \<Rightarrow> bytes" where
  "append_items res [] = res"
| "append_items res (it # its) = append_items (append_item res it) its"

definition makeCommand :: "bytes list \<Rightarrow> bytes" where
  "makeCommand items =
     (let r1 = append_char [] (CHR ''*'');
          r2 = append_string r1 (dec_of_nat (length items));
          r3 = append_string r2 crlf
      in append_items r3 items)"

lemma append_char_eq [simp]: "append_char vec c = vec @ [c]"
  by (simp add: append_char_def list_update_append)

lemma append_items_eq: "append_items res its = res @ concat (map bulk_enc its)"
  by (induction its arbitrary: res)
     (simp_all add: append_item_def append_string_def bulk_enc_def bulkReply_def)

lemma makeCommand_enc: "makeCommand items = enc (rv_array (map rv_bytes items))"
  by (simp add: makeCommand_def append_items_eq append_string_def rv_array_def rv_bytes_def
      arrayReply_def o_def)

text \<open>Items and counts a command can hold.\<close>

definition command_ok :: "bytes list \<Rightarrow> bool" where
  "command_ok items \<longleftrightarrow>
     int (length items) \<le> LONG_MAX \<and> list_all (\<lambda>b. int (length b) \<le> LONG_MAX) items"

lemma command_ok_encodable: "command_ok items \<Longrightarrow> encodable (rv_array (map rv_bytes items))"
  by (auto simp: command_ok_def rv_array_def rv_bytes_def list_all_iff)

section \<open>The client object\<close>

datatype conn_state = NotConnected | Connected | Subscribed | Closed

text \<open>The number an \<^verbatim>\<open>enum\<close> value prints as in the message of an invalid state.\<close>

fun conn_state_num :: "conn_state \<Rightarrow> nat" where
  "conn_state_num NotConnected = 0"
| "conn_state_num Connected = 1"
| "conn_state_num Subscribed = 2"
| "conn_state_num Closed = 3"

text \<open>
  An error handler is given a message and throws (\<open>Some\<close> the message of the exception) or
  returns (\<open>None\<close>). \<open>'h\<close> are the handlers of replies, \<open>'m\<close> those of messages of a channel.
\<close>

type_synonym error_handler = "bytes \<Rightarrow> bytes option"

definition defaulErrorHandler :: error_handler where
  "defaulErrorHandler s = Some s"

definition ignoreErrorHandler :: error_handler where
  "ignoreErrorHandler s = None"

text \<open>
  The two multimaps are lists in the order of insertion: entries of one key stay in that
  order, and the order between keys is never observed.
\<close>

record ('h, 'm) redis_client =
  cl_state :: conn_state
  redisParser :: redis_parser
  subscribeSeq :: "64 word"
  handlers :: "'h list"
  msgHandlers :: "(bytes \<times> 64 word \<times> 'm) list"
  singleShotMsgHandlers :: "(bytes \<times> 'm) list"
  write_queue :: "('h \<times> bytes) list"
  errorHandler :: error_handler

text \<open>The object as the constructors of both clients leave it.\<close>

definition new_client :: "('h, 'm) redis_client" where
  "new_client =
     \<lparr>cl_state = NotConnected, redisParser = new_parser, subscribeSeq = 0, handlers = [],
      msgHandlers = [], singleShotMsgHandlers = [], write_queue = [],
      errorHandler = defaulErrorHandler\<rparr>"

definition installErrorHandler ::
  "error_handler \<Rightarrow> ('h, 'm) redis_client \<Rightarrow> ('h, 'm) redis_client"
where
  "installErrorHandler h c = c\<lparr>errorHandler := h\<rparr>"

definition close_client :: "('h, 'm) redis_client \<Rightarrow> ('h, 'm) redis_client" where
  "close_client c =
     (if cl_state c \<noteq> Closed then c\<lparr>errorHandler := ignoreErrorHandler, cl_state := Closed\<rparr>
      else c)"

text \<open>
  \<^verbatim>\<open>stateValid\<close> of both clients. With assertions compiled in (\<open>ndebug\<close> false, as the
  build files leave it) a wrong state aborts; without them the error handler is called.
\<close>

datatype validity = Valid | Invalid | Invalid_throws bytes | Invalid_aborts

definition invalid_state_message :: "bytes \<Rightarrow> conn_state \<Rightarrow> bytes" where
  "invalid_state_message who s =
     who @ ''::command called with invalid state '' @ dec_of_nat (conn_state_num s)"

definition stateValid :: "bool \<Rightarrow> bytes \<Rightarrow> ('h, 'm) redis_client \<Rightarrow> validity" where
  "stateValid ndebug who c =
     (if \<not> ndebug \<and> cl_state c \<noteq> Connected then Invalid_aborts
      else if cl_state c \<noteq> Connected then
        (case errorHandler c (invalid_state_message who (cl_state c)) of
           Some e \<Rightarrow> Invalid_throws e
         | None \<Rightarrow> Invalid)
      else Valid)"

lemma stateValid_iff: "stateValid ndebug who c = Valid \<longleftrightarrow> cl_state c = Connected"
  by (simp add: stateValid_def split: option.split)

section \<open>What the clients rely on\<close>

text \<open>
  The bytes \<open>as\<close> of a reply have been fed to the parser and more are due.
\<close>

definition pending :: "redis_parser \<Rightarrow> bytes \<Rightarrow> bool" where
  "pending p as \<longleftrightarrow>
     parser_ok p \<and> run AtStart [] as = (Running (phase_of p) (frames_of p), length as)"

lemma idle_pending: "idle p \<Longrightarrow> pending p []"
  by (simp add: pending_def idle_ok idle_configuration)

text \<open>
  The interface: feeding bytes until a reply is complete, and taking it. \<open>ready\<close> is the
  object at the start of a reply, \<open>part p as\<close> the object in the middle of one.
\<close>

locale reply_parser =
  fixes feed :: "bytes \<Rightarrow> 'p \<Rightarrow> fault + nat \<times> parse_result \<times> 'p"
    and take_result :: "'p \<Rightarrow> fault + redis_value \<times> 'p"
    and ready :: "'p \<Rightarrow> bool"
    and part :: "'p \<Rightarrow> bytes \<Rightarrow> bool"
  assumes ready_part: "ready p \<Longrightarrow> part p []"
    and feed_more: "part p as \<Longrightarrow> encodable v \<Longrightarrow> enc v = as @ bs @ cs \<Longrightarrow> cs \<noteq> [] \<Longrightarrow>
      \<exists>q. feed bs p = Inr (length bs, Incompleted, q) \<and> part q (as @ bs)"
    and feed_last: "part p as \<Longrightarrow> encodable v \<Longrightarrow> enc v = as @ bs \<Longrightarrow> bs \<noteq> [] \<Longrightarrow>
      \<exists>q q'. feed (bs @ rest) p = Inr (length bs, Completed, q) \<and>
        take_result q = Inr (v, q') \<and> ready q'"
begin

text \<open>
  A buffer that goes on with a stream starting in the middle of the reply \<open>v\<close>: either it
  ends inside \<open>v\<close>, or \<open>v\<close> is delivered and the rest of the buffer starts what follows.
\<close>

lemma feed_stream:
  assumes "part p as" and "encodable v" and stream: "as @ bs @ later = enc v @ tail"
    and open_reply: "length as < length (enc v)"
  obtains (inside) q where "feed bs p = Inr (length bs, Incompleted, q)" "part q (as @ bs)"
      "length (as @ bs) < length (enc v)"
  | (complete) q q' bs' rest where "bs = bs' @ rest" "enc v = as @ bs'" "bs' \<noteq> []"
      "feed bs p = Inr (length bs', Completed, q)" "take_result q = Inr (v, q')" "ready q'"
      "rest @ later = tail"
proof (cases "length (as @ bs) < length (enc v)")
  case True
  from stream have "enc v @ tail = (as @ bs) @ later" by simp
  with True obtain cs where "enc v = (as @ bs) @ cs"
    by (auto simp: append_eq_append_conv2)
  with True have cs: "enc v = as @ bs @ cs" "cs \<noteq> []" by auto
  from feed_more [OF assms(1,2) cs] True inside show thesis by blast
next
  case False
  from stream open_reply have "\<exists>us. as @ us = enc v"
    by (auto simp: append_eq_append_conv2)
  then obtain bs' where as: "enc v = as @ bs'" by metis
  with stream have rest: "bs @ later = bs' @ tail" by simp
  have ne: "bs' \<noteq> []" using open_reply as by auto
  have "length bs' \<le> length bs" using False as by simp
  with rest obtain r where r: "bs = bs' @ r" "r @ later = tail"
    by (auto simp: append_eq_append_conv2)
  from feed_last [OF assms(1,2) as ne, of r] r ne as complete show thesis by blast
qed

end

text \<open>\<^verbatim>\<open>RedisParser\<close> provides it.\<close>

lemma parse_pending_more:
  assumes p: "pending p as" and v: "encodable v" "enc v = as @ bs @ cs" "cs \<noteq> []"
  shows "\<exists>q. parse bs p = Inr (length bs, Incompleted, q) \<and> pending q (as @ bs)"
proof -
  have ok: "parser_ok p" and at: "run AtStart [] as = (Running (phase_of p) (frames_of p), length as)"
    using p by (auto simp: pending_def)
  from v have "enc v = (as @ bs) @ cs" by simp
  then obtain ph fs where "run AtStart [] (as @ bs) = (Running ph fs, length (as @ bs))"
    using run_prefix [OF v(1) _ v(3)] by blast
  with at have "run (phase_of p) (frames_of p) bs = (Running ph fs, length bs)"
    by (auto simp: run_append split: prod.splits)
  with parse_runs_automaton [OF ok, of bs] show ?thesis
    using \<open>run AtStart [] (as @ bs) = _\<close> by (auto simp: parse_outcome_ok_def pending_def)
qed

lemma parse_pending_last:
  assumes p: "pending p as" and v: "encodable v" "enc v = as @ bs" "bs \<noteq> []"
  shows "\<exists>q q'. parse (bs @ rest) p = Inr (length bs, Completed, q) \<and>
    result q = Inr (v, q') \<and> idle q'"
proof -
  have ok: "parser_ok p" and at: "run AtStart [] as = (Running (phase_of p) (frames_of p), length as)"
    using p by (auto simp: pending_def)
  obtain ph fs where "run AtStart [] as = (Running ph fs, length as)"
    "run ph fs (bs @ rest) = (Finished v, length bs)"
    using run_prefix [OF v] by blast
  with at parse_runs_automaton [OF ok, of "bs @ rest"] show ?thesis
    by (simp add: parse_outcome_ok_def)
qed

interpretation rp: reply_parser parse result idle pending
  by unfold_locales (fact idle_pending parse_pending_more parse_pending_last)+

section \<open>Properties\<close>

text \<open>C22: the bytes of a command are the protocol's array of bulk strings with the items as they
  are, whatever bytes they hold (blanks, line ends, NUL): the parser reads them back as exactly
  those items, so no item can smuggle in another command.\<close>

theorem makeCommand_roundtrip:
  assumes "command_ok items" and "idle p"
  shows "\<exists>q q'. parse (makeCommand items @ rest) p = Inr (length (makeCommand items), Completed, q) \<and>
    result q = Inr (rv_array (map rv_bytes items), q') \<and> idle q'"
  unfolding makeCommand_enc using assms command_ok_encodable by (intro parse_enc) auto

theorem makeCommand_roundtrip_witness:
  "\<exists>q q'. parse (makeCommand [''SADD'', ''a'' @ crlf @ ''b''] @ ''*'') new_parser =
      Inr (length (makeCommand [''SADD'', ''a'' @ crlf @ ''b'']), Completed, q) \<and>
    result q = Inr (rv_array (map rv_bytes [''SADD'', ''a'' @ crlf @ ''b'']), q') \<and> idle q'"
  by (rule makeCommand_roundtrip) (simp_all add: command_ok_def LONG_MAX_def crlf_def)

end
