(* ===== verification/Redis_Sync.thy ===== *)
theory Redis_Sync
  imports Redis_Client
begin

text \<open>
  \<^verbatim>\<open>src/redis_sync_client.cpp\<close> and \<^verbatim>\<open>RedisClientImpl::doSyncCommand\<close>: send a command,
  then read until the parser has a reply. What the socket does is an argument: the error
  of the write, if any, and the results of \<^verbatim>\<open>read_some\<close> in order, a chunk of bytes or a
  failure, which \<^verbatim>\<open>read_some\<close> throws as an exception.
\<close>

datatype read_event = Received bytes | Read_failed bytes

text \<open>
  How a call ends: with a value, with an exception, with an abort of the process, or not
  yet (the events given are used up and \<^verbatim>\<open>read_some\<close> still waits). The object and the
  events left over come with it.
\<close>

datatype 'c sync_outcome =
    Returned redis_value 'c "read_event list"
  | Threw bytes 'c "read_event list"
  | Aborted fault
  | Waiting 'c

section \<open>The loop over one buffer\<close>

datatype scan_end =
    Reply_ready redis_parser
  | Reply_refused redis_parser
  | Buffer_used redis_parser
  | Scan_fault fault

text \<open>\<open>None\<close> is the endless loop over a parser that is incomplete without taking a byte.\<close>

partial_function (option) sync_scan :: "bytes \<Rightarrow> nat \<Rightarrow> redis_parser \<Rightarrow> scan_end option" where
  "sync_scan inbuff pos p =
     (if pos < length inbuff then
        (case parse (drop pos inbuff) p of
           Inl e \<Rightarrow> Some (Scan_fault e)
         | Inr nrq \<Rightarrow>
             (case nrq of (n, r, q) \<Rightarrow>
               (if r = Completed then Some (Reply_ready q)
                else if r = Incompleted then sync_scan inbuff (pos + n) q
                else Some (Reply_refused q))))
      else Some (Buffer_used p))"

section \<open>The loop over the reads\<close>

text \<open>
  \<^verbatim>\<open>"[RedisClient] Parser error"\<close> goes to the error handler; when that returns, so does the
  call, with a null value. What follows a complete reply in its buffer is dropped: the
  buffer is local to the call.
\<close>

definition parser_error_message :: bytes where
  "parser_error_message = ''[RedisClient] Parser error''"

fun sync_read ::
  "read_event list \<Rightarrow> ('h, 'm) redis_client \<Rightarrow> ('h, 'm) redis_client sync_outcome option"
where
  "sync_read [] c = Some (Waiting c)"
| "sync_read (Read_failed msg # evs) c = Some (Threw msg c evs)"
| "sync_read (Received inbuff # evs) c =
     (case sync_scan inbuff 0 (redisParser c) of
        None \<Rightarrow> None
      | Some (Reply_ready q) \<Rightarrow>
          (case result q of
             Inl e \<Rightarrow> Some (Aborted e)
           | Inr (v, q') \<Rightarrow> Some (Returned v (c\<lparr>redisParser := q'\<rparr>) evs))
      | Some (Reply_refused q) \<Rightarrow>
          (case errorHandler c parser_error_message of
             Some e \<Rightarrow> Some (Threw e (c\<lparr>redisParser := q\<rparr>) evs)
           | None \<Rightarrow> Some (Returned rv_null (c\<lparr>redisParser := q\<rparr>) evs))
      | Some (Buffer_used q) \<Rightarrow> sync_read evs (c\<lparr>redisParser := q\<rparr>)
      | Some (Scan_fault e) \<Rightarrow> Some (Aborted e))"

text \<open>The bytes written come with the outcome.\<close>

definition doSyncCommand ::
  "bytes list \<Rightarrow> bytes option \<Rightarrow> read_event list \<Rightarrow> ('h, 'm) redis_client \<Rightarrow>
   bytes \<times> ('h, 'm) redis_client sync_outcome option"
where
  "doSyncCommand items write_ec evs c =
     (if write_queue c \<noteq> [] then ([], Some (Aborted Assert_failed))
      else
        (makeCommand items,
         case write_ec of
           Some msg \<Rightarrow>
             (case errorHandler c msg of
                Some e \<Rightarrow> Some (Threw e c evs)
              | None \<Rightarrow> Some (Returned rv_null c evs))
         | None \<Rightarrow> sync_read evs c))"

section \<open>The public operations\<close>

definition sync_stateValid :: "bool \<Rightarrow> ('h, 'm) redis_client \<Rightarrow> validity" where
  "sync_stateValid ndebug c = stateValid ndebug ''RedisClient'' c"

text \<open>The overloads of \<^verbatim>\<open>command\<close> differ in how they are given the arguments only.\<close>

definition sync_command ::
  "bool \<Rightarrow> bytes \<Rightarrow> bytes list \<Rightarrow> bytes option \<Rightarrow> read_event list \<Rightarrow> ('h, 'm) redis_client \<Rightarrow>
   bytes \<times> ('h, 'm) redis_client sync_outcome option"
where
  "sync_command ndebug cmd args write_ec evs c =
     (case sync_stateValid ndebug c of
        Valid \<Rightarrow> doSyncCommand (cmd # args) write_ec evs c
      | Invalid \<Rightarrow> ([], Some (Returned rv_null c evs))
      | Invalid_throws e \<Rightarrow> ([], Some (Threw e c evs))
      | Invalid_aborts \<Rightarrow> ([], Some (Aborted Assert_failed)))"

definition sync_command_list ::
  "bool \<Rightarrow> bytes \<Rightarrow> bytes list \<Rightarrow> bytes option \<Rightarrow> read_event list \<Rightarrow> ('h, 'm) redis_client \<Rightarrow>
   bytes \<times> ('h, 'm) redis_client sync_outcome option"
where
  "sync_command_list ndebug cmd args write_ec evs c =
     (case sync_stateValid ndebug c of
        Valid \<Rightarrow> doSyncCommand ([cmd] @ map buffer_of_string args) write_ec evs c
      | Invalid \<Rightarrow> ([], Some (Returned rv_null c evs))
      | Invalid_throws e \<Rightarrow> ([], Some (Threw e c evs))
      | Invalid_aborts \<Rightarrow> ([], Some (Aborted Assert_failed)))"

text \<open>The three steps of \<^verbatim>\<open>connect\<close> and the error each of them may give.\<close>

definition sync_connect ::
  "bytes option \<Rightarrow> bytes option \<Rightarrow> bytes option \<Rightarrow> ('h, 'm) redis_client \<Rightarrow>
   bool \<times> bytes \<times> ('h, 'm) redis_client"
where
  "sync_connect open_ec option_ec connect_ec c =
     (let ec = (if open_ec = None then (if option_ec = None then connect_ec else option_ec)
                else open_ec)
      in case ec of
           None \<Rightarrow> (True, [], c\<lparr>cl_state := Connected\<rparr>)
         | Some msg \<Rightarrow> (False, msg, c))"

section \<open>Correctness\<close>

lemma sync_scan_end: "sync_scan inbuff (length inbuff) p = Some (Buffer_used p)"
  by (subst sync_scan.simps) simp

lemma sync_scan_more:
  assumes "parse inbuff p = Inr (length inbuff, Incompleted, q)"
  shows "sync_scan inbuff 0 p = Some (Buffer_used (if inbuff = [] then p else q))"
proof (cases "inbuff = []")
  case True
  with sync_scan_end [of inbuff p] show ?thesis by simp
next
  case False
  with assms sync_scan_end [of inbuff q] show ?thesis by (subst sync_scan.simps) simp
qed

lemma sync_scan_reply:
  assumes "parse inbuff p = Inr (n, Completed, q)" and "inbuff \<noteq> []"
  shows "sync_scan inbuff 0 p = Some (Reply_ready q)"
  using assms by (subst sync_scan.simps) simp

text \<open>One buffer never keeps the loop from ending.\<close>

lemma sync_scan_total:
  assumes "parser_ok p"
  shows "\<exists>e. sync_scan inbuff 0 p = Some e \<and> (\<forall>f. e \<noteq> Scan_fault f)"
proof (cases "inbuff = []")
  case True
  with sync_scan_end [of inbuff p] show ?thesis by simp
next
  case False
  from assms show ?thesis
  proof (cases rule: parse_cases [where ptr = inbuff])
    case (incompleted q)
    then show ?thesis by (simp add: sync_scan_more)
  next
    case (completed n q v q')
    with False show ?thesis by (simp add: sync_scan_reply)
  next
    case (refused n q)
    with False show ?thesis by (subst sync_scan.simps) simp
  qed
qed

text \<open>
  However the network cuts the reply into chunks, the call returns exactly that reply and
  leaves the parser ready for the next one.
\<close>

lemma sync_read_chunks:
  assumes v: "encodable v"
  shows "pending (redisParser c) as \<Longrightarrow> length as < length (enc v) \<Longrightarrow>
    as @ concat chunks = enc v @ tail \<Longrightarrow>
    \<exists>q used. idle q \<and> used \<le> length chunks \<and>
      sync_read (map Received chunks @ evs) c =
        Some (Returned v (c\<lparr>redisParser := q\<rparr>) (map Received (drop used chunks) @ evs))"
proof (induction chunks arbitrary: c as)
  case Nil
  then show ?case by (auto dest: arg_cong [where f = length])
next
  case (Cons b chunks)
  have stream: "as @ b @ concat chunks = enc v @ tail" using Cons.prems(3) by simp
  show ?case
  proof (rule rp.feed_stream [OF Cons.prems(1) v stream Cons.prems(2)])
    fix q
    assume q: "parse b (redisParser c) = Inr (length b, Incompleted, q)" "pending q (as @ b)"
      "length (as @ b) < length (enc v)"
    let ?q = "if b = [] then redisParser c else q"
    have "pending ?q (as @ b)" using q(2) Cons.prems(1) by simp
    then obtain q' used where "idle q'" "used \<le> length chunks"
      "sync_read (map Received chunks @ evs) (c\<lparr>redisParser := ?q\<rparr>) =
        Some (Returned v (c\<lparr>redisParser := q'\<rparr>) (map Received (drop used chunks) @ evs))"
      using Cons.IH [of "c\<lparr>redisParser := ?q\<rparr>" "as @ b"] q(3) stream by auto
    then show ?thesis
      using sync_scan_more [OF q(1)] by (intro exI [of _ q'] exI [of _ "Suc used"]) simp
  next
    fix q q' bs' rest
    assume "b = bs' @ rest" "bs' \<noteq> []" "parse b (redisParser c) = Inr (length bs', Completed, q)"
      and q: "result q = Inr (v, q')" "idle q'"
    then have "sync_scan b 0 (redisParser c) = Some (Reply_ready q)"
      by (intro sync_scan_reply) auto
    with q show ?thesis by (intro exI [of _ q'] exI [of _ "Suc 0"]) simp
  qed
qed

lemma sync_read_reply:
  assumes "idle (redisParser c)" and "encodable v" and "concat chunks = enc v @ tail"
  shows "\<exists>q used. idle q \<and> used \<le> length chunks \<and>
    sync_read (map Received chunks @ evs) c =
      Some (Returned v (c\<lparr>redisParser := q\<rparr>) (map Received (drop used chunks) @ evs))"
proof -
  have "0 < length (enc v)"
    using parse_enc [OF assms(1,2), of "[]"] parse_cases [OF idle_ok [OF assms(1)], of "enc v"]
    by fastforce
  then show ?thesis
    using sync_read_chunks [OF assms(2), of c "[]" chunks tail evs] assms by (simp add: idle_pending)
qed

section \<open>Properties\<close>

text \<open>C12: a command on a connected synchronous client whose reply arrives returns that reply,
  however the network cuts it into chunks (empty chunks included) and whatever follows it; the
  command is sent whole, the parser is ready for the next reply, and nothing else of the client
  changes.\<close>

theorem sync_command_returns_reply:
  assumes "cl_state c = Connected" and "write_queue c = []" and "idle (redisParser c)"
    and "encodable v" and "concat chunks = enc v @ tail"
  shows "\<exists>q used. idle q \<and> used \<le> length chunks \<and>
    sync_command ndebug cmd args None (map Received chunks @ evs) c =
      (makeCommand (cmd # args),
       Some (Returned v (c\<lparr>redisParser := q\<rparr>) (map Received (drop used chunks) @ evs)))"
  using sync_read_reply [OF assms(3-5), of evs] assms(1,2)
  by (simp add: sync_command_def doSyncCommand_def sync_stateValid_def stateValid_def)

theorem sync_command_returns_reply_witness:
  "\<exists>q used. idle q \<and> used \<le> length ['':'', ''42'' @ [CR], [], LF # ''+''] \<and>
    sync_command False ''SADD'' [''t'', ''u''] None
        (map Received ['':'', ''42'' @ [CR], [], LF # ''+''] @ [])
        ((new_client :: (nat, nat) redis_client)\<lparr>cl_state := Connected\<rparr>) =
      (makeCommand (''SADD'' # [''t'', ''u'']),
       Some (Returned (rv_int 42)
         ((new_client :: (nat, nat) redis_client)\<lparr>cl_state := Connected, redisParser := q\<rparr>)
         (map Received (drop used ['':'', ''42'' @ [CR], [], LF # ''+'']) @ [])))"
proof (rule sync_command_returns_reply [where tail = "''+''"])
  show "concat ['':'', ''42'' @ [CR], [], LF # ''+''] = enc (rv_int 42) @ ''+''"
    by code_simp
qed (simp_all add: new_client_def rv_int_def)

end
