(* ===== verification/Redis_Async.thy ===== *)
theory Redis_Async
  imports Redis_Client
begin

text \<open>
  \<^verbatim>\<open>src/redis_async_client.cpp\<close> and the asynchronous half of
  \<^verbatim>\<open>src/redis_client_impl.cpp\<close>: commands are posted to a strand, written one at a time, and
  every reply is handed to the handler of the oldest command that waits for one; published
  messages go to the handlers of their channel.

  An operation returns the new object and what it did, in order, as a list of effects. An
  exception ends the list: what would have followed it is not done. Handlers of replies and
  messages are opaque: what a handler does to the client is an operation that comes after.
\<close>

section \<open>Effects\<close>

datatype ('h, 'm) effect =
    Call_handler 'h redis_value
  | Post_message 'm bytes
  | Post_command bytes 'h
  | Start_read
  | Start_write bytes
  | Connect_result bool bytes
  | Handled_error bytes
  | Thrown bytes
  | Abort

type_synonym ('h, 'm) async_result = "('h, 'm) redis_client \<times> ('h, 'm) effect list"

definition call_error :: "bytes \<Rightarrow> ('h, 'm) redis_client \<Rightarrow> ('h, 'm) effect list" where
  "call_error msg c = (case errorHandler c msg of Some e \<Rightarrow> [Thrown e] | None \<Rightarrow> [Handled_error msg])"

fun leaves :: "('h, 'm) effect \<Rightarrow> bool" where
  "leaves (Thrown e) = True"
| "leaves Abort = True"
| "leaves _ = False"

definition leaves_by_exception :: "('h, 'm) effect list \<Rightarrow> bool" where
  "leaves_by_exception es \<longleftrightarrow> list_ex leaves es"

section \<open>Connecting and reading\<close>

definition processMessage :: "('h, 'm) redis_client \<Rightarrow> ('h, 'm) async_result" where
  "processMessage c = (c, [Start_read])"

definition handleAsyncConnect ::
  "bytes option \<Rightarrow> ('h, 'm) redis_client \<Rightarrow> ('h, 'm) async_result"
where
  "handleAsyncConnect ec c =
     (case ec of
        None \<Rightarrow> (c\<lparr>cl_state := Connected\<rparr>, [Connect_result True [], Start_read])
      | Some msg \<Rightarrow> (c, [Connect_result False msg]))"

text \<open>Of the one-shot handlers the first one of the channel is called and erased.\<close>

fun take_single_shot :: "bytes \<Rightarrow> (bytes \<times> 'm) list \<Rightarrow> ('m \<times> (bytes \<times> 'm) list) option" where
  "take_single_shot ch [] = None"
| "take_single_shot ch ((k, m) # ms) =
     (if k = ch then Some (m, ms)
      else case take_single_shot ch ms of None \<Rightarrow> None | Some (m', ms') \<Rightarrow> Some (m', (k, m) # ms'))"

definition channel_handlers :: "bytes \<Rightarrow> (bytes \<times> 64 word \<times> 'm) list \<Rightarrow> 'm list" where
  "channel_handlers ch ms = map (\<lambda>(k, i, m). m) (filter (\<lambda>(k, i, m). k = ch) ms)"

definition pop_handler :: "redis_value \<Rightarrow> ('h, 'm) redis_client \<Rightarrow> ('h, 'm) async_result" where
  "pop_handler v c =
     (c\<lparr>handlers := tl (handlers c)\<rparr>, [Call_handler (hd (handlers c)) v])"

definition doProcessMessage :: "redis_value \<Rightarrow> ('h, 'm) redis_client \<Rightarrow> ('h, 'm) async_result" where
  "doProcessMessage v c =
     (if cl_state c = Subscribed then
        (case toArray v of
           [command, queueName, val] \<Rightarrow>
             let cmd = toString command; ch = toString queueName; msg = toByteArray val in
             if cmd = ''message'' then
               (case take_single_shot ch (singleShotMsgHandlers c) of
                  Some (m, ms) \<Rightarrow>
                    (c\<lparr>singleShotMsgHandlers := ms\<rparr>,
                     Post_message m msg #
                     map (\<lambda>m. Post_message m msg) (channel_handlers ch (msgHandlers c)))
                | None \<Rightarrow> (c, map (\<lambda>m. Post_message m msg) (channel_handlers ch (msgHandlers c))))
             else if cmd = ''subscribe'' \<and> handlers c \<noteq> [] then pop_handler v c
             else if cmd = ''unsubscribe'' \<and> handlers c \<noteq> [] then pop_handler v c
             else (c, call_error (''[RedisClient] invalid command: '' @ cmd) c)
         | _ \<Rightarrow> (c, call_error ''[RedisClient] Protocol error'' c))
      else if handlers c \<noteq> [] then pop_handler v c
      else (c, call_error (''[RedisClient] unexpected message: '' @ inspect v) c))"

text \<open>
  The loop of \<^verbatim>\<open>asyncRead\<close> over a buffer. A reply that is refused ends it without a new
  read, and so does an exception from a handler of errors. \<open>None\<close> is a loop that does not
  end.
\<close>

definition parse_error_message :: bytes where
  "parse_error_message = ''[RedisClient] Parser error''"

partial_function (option) read_loop ::
  "bytes \<Rightarrow> nat \<Rightarrow> ('h, 'm) redis_client \<Rightarrow> ('h, 'm) effect list \<Rightarrow> ('h, 'm) async_result option"
where
  "read_loop inbuf pos c es =
     (if pos < length inbuf then
        (case parse (drop pos inbuf) (redisParser c) of
           Inl e \<Rightarrow> Some (c, es @ [Abort])
         | Inr nrq \<Rightarrow>
             (case nrq of (n, r, q) \<Rightarrow>
               (if r = Completed then
                  (case result q of
                     Inl e \<Rightarrow> Some (c\<lparr>redisParser := q\<rparr>, es @ [Abort])
                   | Inr vq \<Rightarrow>
                       (case vq of (v, q') \<Rightarrow>
                         (case doProcessMessage v (c\<lparr>redisParser := q'\<rparr>) of (c', es') \<Rightarrow>
                            (if leaves_by_exception es' then Some (c', es @ es')
                             else read_loop inbuf (pos + n) c' (es @ es')))))
                else if r = Incompleted then Some (c\<lparr>redisParser := q\<rparr>, es @ [Start_read])
                else Some (c\<lparr>redisParser := q\<rparr>, es @ call_error parse_error_message c))))
      else Some (c, es @ [Start_read]))"

text \<open>\<^verbatim>\<open>asyncRead\<close>: the result of a read is an error message or the bytes read.\<close>

definition asyncRead ::
  "bytes option \<Rightarrow> bytes \<Rightarrow> ('h, 'm) redis_client \<Rightarrow> ('h, 'm) async_result option"
where
  "asyncRead ec inbuf c =
     (if ec \<noteq> None \<or> inbuf = []
      then Some (c, call_error (case ec of Some msg \<Rightarrow> msg | None \<Rightarrow> ''Success'') c)
      else read_loop inbuf 0 c [])"

section \<open>Writing\<close>

definition doAsyncCommand ::
  "bytes \<Rightarrow> 'h \<Rightarrow> ('h, 'm) redis_client \<Rightarrow> ('h, 'm) async_result"
where
  "doAsyncCommand buff h c =
     (let c' = c\<lparr>write_queue := write_queue c @ [(h, buff)], handlers := handlers c @ [h]\<rparr>
      in (c', if length (write_queue c') = 1 then [Start_write buff] else []))"

text \<open>After an error the entry stays in the queue and no further write is started.\<close>

definition asyncWrite :: "bytes option \<Rightarrow> ('h, 'm) redis_client \<Rightarrow> ('h, 'm) async_result" where
  "asyncWrite ec c =
     (case ec of
        Some msg \<Rightarrow> (c, call_error msg c)
      | None \<Rightarrow>
          (case write_queue c of
             [] \<Rightarrow> (c, [Abort])
           | _ # rest \<Rightarrow>
               (c\<lparr>write_queue := rest\<rparr>,
                if rest \<noteq> [] then [Start_write (snd (hd rest))] else [])))"

definition onRedisError :: "redis_value \<Rightarrow> ('h, 'm) redis_client \<Rightarrow> ('h, 'm) async_result" where
  "onRedisError v c = (c, call_error (toString v) c)"


section \<open>The public operations\<close>

record sub_handle =
  handle_id :: "64 word"
  handle_channel :: bytes

definition async_stateValid :: "bool \<Rightarrow> ('h, 'm) redis_client \<Rightarrow> validity" where
  "async_stateValid ndebug c = stateValid ndebug ''RedisAsyncClient'' c"

text \<open>
  The overloads of \<^verbatim>\<open>command\<close> build the items from their arguments and post the command to
  the strand, where \<^verbatim>\<open>doAsyncCommand\<close> runs later.
\<close>

definition guarded_post ::
  "bool \<Rightarrow> bytes list \<Rightarrow> 'h \<Rightarrow> ('h, 'm) redis_client \<Rightarrow> ('h, 'm) async_result"
where
  "guarded_post ndebug items h c =
     (case async_stateValid ndebug c of
        Valid \<Rightarrow> (c, [Post_command (makeCommand items) h])
      | Invalid \<Rightarrow> (c, [Handled_error (invalid_state_message ''RedisAsyncClient'' (cl_state c))])
      | Invalid_throws e \<Rightarrow> (c, [Thrown e])
      | Invalid_aborts \<Rightarrow> (c, [Abort]))"

definition async_command ::
  "bool \<Rightarrow> bytes \<Rightarrow> bytes list \<Rightarrow> 'h \<Rightarrow> ('h, 'm) redis_client \<Rightarrow> ('h, 'm) async_result"
where
  "async_command ndebug cmd args h c = guarded_post ndebug (cmd # args) h c"

definition async_command_list ::
  "bool \<Rightarrow> bytes \<Rightarrow> bytes list \<Rightarrow> 'h \<Rightarrow> ('h, 'm) redis_client \<Rightarrow> ('h, 'm) async_result"
where
  "async_command_list ndebug cmd args h c =
     guarded_post ndebug ([cmd] @ map buffer_of_string args) h c"

text \<open>
  The branch of a wrong state of the operations on channels: the assertion when it is compiled
  in, the error handler otherwise.
\<close>

definition wrong_state :: "bool \<Rightarrow> ('h, 'm) redis_client \<Rightarrow> ('h, 'm) effect list" where
  "wrong_state ndebug c =
     (if ndebug then call_error (invalid_state_message ''RedisAsyncClient'' (cl_state c)) c
      else [Abort])"

definition subscribe ::
  "bool \<Rightarrow> bytes \<Rightarrow> 'm \<Rightarrow> 'h \<Rightarrow> ('h, 'm) redis_client \<Rightarrow>
   sub_handle option \<times> ('h, 'm) async_result"
where
  "subscribe ndebug channel m h c =
     (if cl_state c = Connected \<or> cl_state c = Subscribed then
        (Some \<lparr>handle_id = subscribeSeq c, handle_channel = channel\<rparr>,
         c\<lparr>subscribeSeq := subscribeSeq c + 1,
           msgHandlers := msgHandlers c @ [(channel, subscribeSeq c, m)],
           cl_state := Subscribed\<rparr>,
         [Post_command (makeCommand [''SUBSCRIBE'', channel]) h])
      else
        (let es = wrong_state ndebug c
         in (if leaves_by_exception es then None
             else Some \<lparr>handle_id = 0, handle_channel = []\<rparr>, c, es)))"

text \<open>The loop of \<^verbatim>\<open>unsubscribe\<close> over the entries of the channel.\<close>

fun erase_handler ::
  "sub_handle \<Rightarrow> (bytes \<times> 64 word \<times> 'm) list \<Rightarrow> (bytes \<times> 64 word \<times> 'm) list"
where
  "erase_handler sh [] = []"
| "erase_handler sh ((k, i, m) # ms) =
     (if k = handle_channel sh \<and> i = handle_id sh then erase_handler sh ms
      else (k, i, m) # erase_handler sh ms)"

definition unsubscribe ::
  "bool \<Rightarrow> 'h \<Rightarrow> sub_handle \<Rightarrow> ('h, 'm) redis_client \<Rightarrow> ('h, 'm) async_result"
where
  "unsubscribe ndebug dummyHandler sh c =
     (if cl_state c = Connected \<or> cl_state c = Subscribed then
        (c\<lparr>msgHandlers := erase_handler sh (msgHandlers c)\<rparr>,
         [Post_command (makeCommand [''UNSUBSCRIBE'', handle_channel sh]) dummyHandler])
      else (c, wrong_state ndebug c))"

definition singleShotSubscribe ::
  "bool \<Rightarrow> bytes \<Rightarrow> 'm \<Rightarrow> 'h \<Rightarrow> ('h, 'm) redis_client \<Rightarrow> ('h, 'm) async_result"
where
  "singleShotSubscribe ndebug channel m h c =
     (if cl_state c = Connected \<or> cl_state c = Subscribed then
        (c\<lparr>singleShotMsgHandlers := singleShotMsgHandlers c @ [(channel, m)],
           cl_state := Subscribed\<rparr>,
         [Post_command (makeCommand [''SUBSCRIBE'', channel]) h])
      else (c, wrong_state ndebug c))"

definition publish ::
  "bool \<Rightarrow> bytes \<Rightarrow> bytes \<Rightarrow> 'h \<Rightarrow> ('h, 'm) redis_client \<Rightarrow> ('h, 'm) async_result"
where
  "publish ndebug channel msg h c =
     (if cl_state c = Connected then
        (c, [Post_command (makeCommand [''PUBLISH'', channel, msg]) h])
      else (c, wrong_state ndebug c))"

section \<open>Reading a stream\<close>

text \<open>Replies in the order they come, without the parser between.\<close>

fun process_all :: "redis_value list \<Rightarrow> ('h, 'm) redis_client \<Rightarrow> ('h, 'm) async_result" where
  "process_all [] c = (c, [])"
| "process_all (v # vs) c =
     (case doProcessMessage v c of (c', es) \<Rightarrow>
        (case process_all vs c' of (c'', es') \<Rightarrow> (c'', es @ es')))"

text \<open>Reads that end one after the other, each with a chunk of bytes.\<close>

fun async_reads :: "bytes list \<Rightarrow> ('h, 'm) redis_client \<Rightarrow> ('h, 'm) async_result option" where
  "async_reads [] c = Some (c, [])"
| "async_reads (b # bs) c =
     (case asyncRead None b c of
        None \<Rightarrow> None
      | Some (c', es) \<Rightarrow>
          (case async_reads bs c' of
             None \<Rightarrow> None
           | Some (c'', es') \<Rightarrow> Some (c'', es @ es')))"

text \<open>The effects that are not the start of the next read.\<close>

definition visible :: "('h, 'm) effect list \<Rightarrow> ('h, 'm) effect list" where
  "visible es = filter (\<lambda>e. e \<noteq> Start_read) es"

lemma visible_simps [simp]:
  "visible [] = []" "visible (es @ es') = visible es @ visible es'" "visible [Start_read] = []"
  by (simp_all add: visible_def)

lemma leaves_append [simp]:
  "leaves_by_exception (es @ es') \<longleftrightarrow> leaves_by_exception es \<or> leaves_by_exception es'"
  "\<not> leaves_by_exception []"
  by (simp_all add: leaves_by_exception_def)

lemmas process_defs = doProcessMessage_def pop_handler_def call_error_def Let_def

lemma doProcessMessage_parser:
  "doProcessMessage v (c\<lparr>redisParser := q\<rparr>) =
     (case doProcessMessage v c of (c', es) \<Rightarrow> (c'\<lparr>redisParser := q\<rparr>, es))"
  by (simp add: process_defs split: list.split option.split prod.split)

lemma process_all_parser:
  "process_all vs (c\<lparr>redisParser := q\<rparr>) =
     (case process_all vs c of (c', es) \<Rightarrow> (c'\<lparr>redisParser := q\<rparr>, es))"
  by (induction vs arbitrary: c) (simp_all add: doProcessMessage_parser split: prod.split)

lemma doProcessMessage_visible: "doProcessMessage v c = (c', es) \<Longrightarrow> visible es = es"
  by (auto simp: process_defs visible_def filter_id_conv split: list.splits option.splits if_splits)

lemma doProcessMessage_keeps_parser: "doProcessMessage v c = (c', es) \<Longrightarrow> redisParser c' = redisParser c"
  by (auto simp: process_defs split: list.splits option.splits if_splits)


text \<open>
  What is left to read while a stream of replies is delivered: \<open>as\<close> of the first of them is
  in the parser.
\<close>

definition mid_stream :: "bytes \<Rightarrow> redis_value list \<Rightarrow> bool" where
  "mid_stream as vs \<longleftrightarrow> (case vs of [] \<Rightarrow> as = [] | v # _ \<Rightarrow> length as < length (enc v))"

lemma enc_nonempty: "encodable v \<Longrightarrow> enc v \<noteq> []"
  using parse_enc [of new_parser v "[]"] parse_cases [OF idle_ok [OF idle_new_parser], of "enc v"]
  by fastforce

lemma mid_stream_start: "list_all encodable vs \<Longrightarrow> mid_stream [] vs"
  by (cases vs) (auto simp: mid_stream_def enc_nonempty)

lemma pending_idle: "pending p [] \<Longrightarrow> idle p"
  by (auto simp: pending_def idle_def phase_of_def frames_of_def parser_ok_def
      split: parse_state.splits)

text \<open>One buffer delivers the replies that end in it.\<close>

lemma read_loop_stream:
  assumes "pending (redisParser c) as" and "list_all encodable vs" and "mid_stream as vs"
    and "as @ drop pos inbuf @ later = concat (map enc vs)"
    and "process_all vs c = (c2, es2)" and "\<not> leaves_by_exception es2"
  shows "\<exists>done todo q as' c1 es1 es. vs = done @ todo \<and> process_all done c = (c1, es1) \<and>
    read_loop inbuf pos c es0 = Some (c1\<lparr>redisParser := q\<rparr>, es0 @ es) \<and> visible es = es1 \<and>
    pending q as' \<and> mid_stream as' todo \<and> as' @ later = concat (map enc todo)"
  using assms
proof (induction vs arbitrary: pos c as es0 c2 es2)
  case Nil
  then have "as = []" "pos \<ge> length inbuf" "later = []" by (auto simp: mid_stream_def)
  with Nil.prems show ?case
    by (subst read_loop.simps)
       (force simp: mid_stream_def intro!: exI [of _ "redisParser c"] exI [of _ "[Start_read]"])
next
  case (Cons v vs)
  let ?bs = "drop pos inbuf"
  have v: "encodable v" and vs: "list_all encodable vs" using Cons.prems(2) by auto
  show ?case
  proof (cases "pos < length inbuf")
    case False
    with Cons.prems show ?thesis
      by (subst read_loop.simps)
         (rule exI [of _ "[]"], force intro!: exI [of _ "redisParser c"] exI [of _ "[Start_read]"])
  next
    case pos: True
    have stream: "as @ ?bs @ later = enc v @ concat (map enc vs)"
      and len: "length as < length (enc v)"
      using Cons.prems by (auto simp: mid_stream_def)
    show ?thesis
    proof (rule rp.feed_stream [OF Cons.prems(1) v stream len])
      fix q
      assume q: "parse ?bs (redisParser c) = Inr (length ?bs, Incompleted, q)"
        "pending q (as @ ?bs)" "length (as @ ?bs) < length (enc v)"
      with pos Cons.prems(4) show ?thesis
        by (subst read_loop.simps)
           (rule exI [of _ "[]"], force simp: mid_stream_def
             intro!: exI [of _ q] exI [of _ "[Start_read]"] exI [of _ "as @ ?bs"])
    next
      fix q q' bs' rest
      assume bs: "?bs = bs' @ rest" "parse ?bs (redisParser c) = Inr (length bs', Completed, q)"
        and q: "result q = Inr (v, q')" "idle q'" and rest: "rest @ later = concat (map enc vs)"
      obtain c' es' where step: "doProcessMessage v c = (c', es')" by fastforce
      obtain c3 es3 where all: "process_all vs c' = (c3, es3)" by fastforce
      have es2: "es2 = es' @ es3" using Cons.prems(5) step all by simp
      then have quiet: "\<not> leaves_by_exception es'" "\<not> leaves_by_exception es3"
        using Cons.prems(6) by auto
      have drop: "drop (pos + length bs') inbuf = rest"
        using bs(1) by (metis add.commute append_eq_conv_conj drop_drop)
      have "pending (redisParser (c'\<lparr>redisParser := q'\<rparr>)) []"
        using q(2) by (simp add: idle_pending)
      moreover have after: "process_all vs (c'\<lparr>redisParser := q'\<rparr>) = (c3\<lparr>redisParser := q'\<rparr>, es3)"
        using all by (simp add: process_all_parser)
      ultimately obtain ds todo q2 as' c1 es1 es where ds: "vs = ds @ todo"
        "process_all ds (c'\<lparr>redisParser := q'\<rparr>) = (c1, es1)"
        "read_loop inbuf (pos + length bs') (c'\<lparr>redisParser := q'\<rparr>) (es0 @ es') =
          Some (c1\<lparr>redisParser := q2\<rparr>, (es0 @ es') @ es)" "visible es = es1"
        "pending q2 as'" "mid_stream as' todo" "as' @ later = concat (map enc todo)"
        using Cons.IH [OF _ vs mid_stream_start [OF vs] _ after quiet(2), of "pos + length bs'" "es0 @ es'"]
          rest drop by auto
      have "read_loop inbuf pos c es0 = Some (c1\<lparr>redisParser := q2\<rparr>, es0 @ (es' @ es))"
        using pos bs q(1) step quiet(1) ds(3)
        by (subst read_loop.simps) (simp add: doProcessMessage_parser)
      moreover obtain c4 where "process_all (v # ds) c = (c4, es' @ es1)"
        "c1 = c4\<lparr>redisParser := q'\<rparr>"
        using ds(2) step by (auto simp: process_all_parser split: prod.splits)
      ultimately show ?thesis
        using ds doProcessMessage_visible [OF step]
        by (intro exI [of _ "v # ds"] exI [of _ todo] exI [of _ q2] exI [of _ as'] exI [of _ c4]
              exI [of _ "es' @ es1"] exI [of _ "es' @ es"]) simp
    qed
  qed
qed


lemma process_all_append:
  "process_all (vs @ ws) c =
     (case process_all vs c of (c', es) \<Rightarrow>
        (case process_all ws c' of (c'', es') \<Rightarrow> (c'', es @ es')))"
  by (induction vs arbitrary: c) (simp_all split: prod.split)

lemma async_reads_stream:
  assumes "pending (redisParser c) as" and "list_all encodable vs" and "mid_stream as vs"
    and "as @ concat chunks = concat (map enc vs)" and "[] \<notin> set chunks"
    and "process_all vs c = (c2, es2)" and "\<not> leaves_by_exception es2"
  shows "\<exists>q es. async_reads chunks c = Some (c2\<lparr>redisParser := q\<rparr>, es) \<and> visible es = es2 \<and>
    idle q"
  using assms
proof (induction chunks arbitrary: c as vs c2 es2)
  case Nil
  then have "as = []" "vs = []" by (auto simp: mid_stream_def split: list.splits)
  with Nil.prems show ?case by (auto simp: pending_idle intro!: exI [of _ "redisParser c"])
next
  case (Cons b chunks)
  have "as @ drop 0 b @ concat chunks = concat (map enc vs)" using Cons.prems(4) by simp
  from read_loop_stream [OF Cons.prems(1-3) this Cons.prems(6,7), of "[]"]
  obtain ds todo q as' c1 es1 es where ds: "vs = ds @ todo" "process_all ds c = (c1, es1)"
    "read_loop b 0 c [] = Some (c1\<lparr>redisParser := q\<rparr>, es)" "visible es = es1"
    "pending q as'" "mid_stream as' todo" "as' @ concat chunks = concat (map enc todo)"
    by auto
  obtain c3 es3 where todo: "process_all todo c1 = (c3, es3)" by fastforce
  with ds Cons.prems(6) have all: "c3 = c2" "es2 = es1 @ es3"
    by (auto simp: process_all_append)
  have "list_all encodable todo" "[] \<notin> set chunks" "b \<noteq> []" "\<not> leaves_by_exception es3"
    using Cons.prems ds all by auto
  then obtain q' es' where
    "async_reads chunks (c1\<lparr>redisParser := q\<rparr>) = Some (c2\<lparr>redisParser := q'\<rparr>, es')"
    "visible es' = es3" "idle q'"
    using Cons.IH [of "c1\<lparr>redisParser := q\<rparr>" as' todo "c3\<lparr>redisParser := q\<rparr>" es3] ds todo all
    by (auto simp: process_all_parser)
  with ds all show ?case
    by (intro exI [of _ q'] exI [of _ "es @ es'"]) (simp add: asyncRead_def \<open>b \<noteq> []\<close>)
qed

text \<open>Replies of a client that is not subscribed go to the handlers in order.\<close>

lemma process_replies:
  assumes "cl_state c \<noteq> Subscribed" and "length vs \<le> length (handlers c)"
  shows "process_all vs c =
    (c\<lparr>handlers := drop (length vs) (handlers c)\<rparr>, map2 Call_handler (handlers c) vs)"
  using assms
proof (induction vs arbitrary: c)
  case (Cons v vs)
  then obtain h hs where hs: "handlers c = h # hs" by (cases "handlers c") auto
  with Cons show ?case by (simp add: doProcessMessage_def pop_handler_def)
qed simp

lemma handlers_quiet: "\<not> leaves_by_exception (map2 Call_handler hs vs)"
  by (auto simp: leaves_by_exception_def list_ex_iff)

section \<open>Channels\<close>

definition single_handlers :: "bytes \<Rightarrow> (bytes \<times> 'm) list \<Rightarrow> 'm list" where
  "single_handlers ch ms = map snd (filter (\<lambda>(k, m). k = ch) ms)"

lemma take_single_shot_None: "take_single_shot ch ms = None \<longleftrightarrow> single_handlers ch ms = []"
  by (induction ch ms rule: take_single_shot.induct) (auto simp: single_handlers_def split: option.splits)

lemma take_single_shot_Some:
  "take_single_shot ch ms = Some (m, ms') \<Longrightarrow>
   single_handlers ch ms = m # single_handlers ch ms' \<and>
   (\<forall>k. k \<noteq> ch \<longrightarrow> single_handlers k ms' = single_handlers k ms)"
  by (induction ch ms arbitrary: m ms' rule: take_single_shot.induct)
     (auto simp: single_handlers_def split: option.splits if_splits)

text \<open>
  What a sequence of published messages must do: every message goes to the oldest one-shot
  handler of its channel that is left, then to the subscribers of the channel in the order in
  which they subscribed.
\<close>

definition message_value :: "bytes \<times> bytes \<Rightarrow> redis_value" where
  "message_value m = rv_array [rv_bytes ''message'', rv_bytes (fst m), rv_bytes (snd m)]"

fun dispatch ::
  "(bytes \<Rightarrow> 'm list) \<Rightarrow> (bytes \<Rightarrow> 'm list) \<Rightarrow> (bytes \<times> bytes) list \<Rightarrow> ('h, 'm) effect list"
where
  "dispatch once subs [] = []"
| "dispatch once subs ((ch, b) # ms) =
     map (\<lambda>m. Post_message m b) (take 1 (once ch) @ subs ch) @
     dispatch (once(ch := drop 1 (once ch))) subs ms"

definition once_of :: "('h, 'm) redis_client \<Rightarrow> bytes \<Rightarrow> 'm list" where
  "once_of c ch = single_handlers ch (singleShotMsgHandlers c)"

definition subs_of :: "('h, 'm) redis_client \<Rightarrow> bytes \<Rightarrow> 'm list" where
  "subs_of c ch = channel_handlers ch (msgHandlers c)"

lemma message_step:
  assumes "cl_state c = Subscribed"
  shows "\<exists>ss. doProcessMessage (message_value (ch, b)) c =
      (c\<lparr>singleShotMsgHandlers := ss\<rparr>,
       map (\<lambda>m. Post_message m b) (take 1 (once_of c ch) @ subs_of c ch)) \<and>
    (\<lambda>k. single_handlers k ss) = (once_of c)(ch := drop 1 (once_of c ch))"
proof (cases "take_single_shot ch (singleShotMsgHandlers c)")
  case None
  with take_single_shot_None [of ch "singleShotMsgHandlers c"] assms show ?thesis
    by (intro exI [of _ "singleShotMsgHandlers c"])
       (auto simp: doProcessMessage_def message_value_def rv_defs
         toArray_def toString_def toByteArray_def once_of_def subs_of_def)
next
  case (Some mms)
  then obtain m ms where "take_single_shot ch (singleShotMsgHandlers c) = Some (m, ms)"
    by (cases mms) auto
  with take_single_shot_Some [OF this] assms show ?thesis
    by (intro exI [of _ ms])
       (auto simp: doProcessMessage_def message_value_def rv_defs
         toArray_def toString_def toByteArray_def once_of_def subs_of_def)
qed

lemma process_messages:
  assumes "cl_state c = Subscribed"
  shows "\<exists>ss. process_all (map message_value ms) c =
    (c\<lparr>singleShotMsgHandlers := ss\<rparr>, dispatch (once_of c) (subs_of c) ms)"
  using assms
proof (induction ms arbitrary: c)
  case Nil
  show ?case by (auto intro: exI [of _ "singleShotMsgHandlers c"])
next
  case (Cons m ms)
  obtain ch b where m: "m = (ch, b)" by (cases m)
  from message_step [OF Cons.prems, of ch b] obtain ss where ss:
    "doProcessMessage (message_value m) c = (c\<lparr>singleShotMsgHandlers := ss\<rparr>,
       map (\<lambda>m. Post_message m b) (take 1 (once_of c ch) @ subs_of c ch))"
    "(\<lambda>k. single_handlers k ss) = (once_of c)(ch := drop 1 (once_of c ch))"
    using m by blast
  let ?c = "c\<lparr>singleShotMsgHandlers := ss\<rparr>"
  have "once_of ?c = (once_of c)(ch := drop 1 (once_of c ch))" "subs_of ?c = subs_of c"
    using ss(2) by (simp_all add: once_of_def [abs_def] subs_of_def [abs_def])
  moreover obtain ss' where "process_all (map message_value ms) ?c =
      (?c\<lparr>singleShotMsgHandlers := ss'\<rparr>, dispatch (once_of ?c) (subs_of ?c) ms)"
    using Cons.IH [of ?c] Cons.prems by auto
  ultimately show ?case using ss(1) m by (intro exI [of _ ss']) simp
qed

lemma dispatch_quiet: "\<not> leaves_by_exception (dispatch once subs ms)"
  by (induction once subs ms rule: dispatch.induct) (auto simp: leaves_by_exception_def list_ex_iff simp del: fun_upd_apply)

lemma message_encodable:
  assumes "int (length (fst m)) \<le> LONG_MAX" and "int (length (snd m)) \<le> LONG_MAX"
  shows "encodable (message_value m)"
  using assms by (simp add: message_value_def rv_defs LONG_MAX_def)

text \<open>Subscriptions carry different numbers, all of them below the next one.\<close>

definition sub_ids_ok :: "('h, 'm) redis_client \<Rightarrow> bool" where
  "sub_ids_ok c \<longleftrightarrow> list_all (\<lambda>(k, i, m). i < subscribeSeq c) (msgHandlers c) \<and>
     distinct (map (\<lambda>(k, i, m). i) (msgHandlers c))"

lemma word_less_succ: "x < - 1 \<Longrightarrow> x < x + 1" for x :: "64 word"
  by (simp add: word_less_nat_alt unsigned_minus_1_eq_mask mask_eq_exp_minus_1 unat_word_ariths)

lemma erase_handler_append [simp]:
  "erase_handler sh (ms @ ms') = erase_handler sh ms @ erase_handler sh ms'"
  by (induction sh ms rule: erase_handler.induct) auto

lemma erase_handler_filter:
  "erase_handler sh ms = filter (\<lambda>(k, i, m). \<not> (k = handle_channel sh \<and> i = handle_id sh)) ms"
  by (induction sh ms rule: erase_handler.induct) auto

section \<open>Properties\<close>

text \<open>C13: when the replies of a connected client arrive, however the network cuts their bytes
  into reads, the reading loop ends on every read, no error is raised, and the replies are handed
  to the waiting handlers first come first served: the i-th reply to the i-th handler, each once
  and in order; the remaining handlers stay queued and nothing else of the client changes.\<close>

theorem replies_reach_handlers_in_order:
  assumes "cl_state c = Connected" and "idle (redisParser c)" and "list_all encodable vs"
    and "length vs \<le> length (handlers c)"
    and "concat chunks = concat (map enc vs)" and "[] \<notin> set chunks"
  shows "\<exists>q es. async_reads chunks c =
      Some (c\<lparr>handlers := drop (length vs) (handlers c), redisParser := q\<rparr>, es) \<and>
    visible es = map2 Call_handler (handlers c) vs \<and> idle q"
  using async_reads_stream [OF idle_pending [OF assms(2)] assms(3) mid_stream_start [OF assms(3)]
      _ assms(6) process_replies handlers_quiet] assms by simp

text \<open>A client as a successful connect leaves it, with handlers that wait.\<close>

definition waiting_client :: "'h list \<Rightarrow> ('h, 'm) redis_client" where
  "waiting_client hs = new_client\<lparr>cl_state := Connected, handlers := hs\<rparr>"

lemma waiting_client_simps [simp]:
  "cl_state (waiting_client hs) = Connected" "handlers (waiting_client hs) = hs"
  "redisParser (waiting_client hs) = new_parser" "idle (redisParser (waiting_client hs))"
  "write_queue (waiting_client hs) = []" "msgHandlers (waiting_client hs) = []"
  "singleShotMsgHandlers (waiting_client hs) = []"
  by (simp_all add: waiting_client_def new_client_def)

theorem replies_reach_handlers_in_order_witness:
  "\<exists>q es. async_reads ['':4'' @ [CR], LF # ''$-'', ''1'' @ crlf]
        (waiting_client [7, 8, 9] :: (nat, nat) redis_client) =
      Some ((waiting_client [7, 8, 9])\<lparr>handlers := [9], redisParser := q\<rparr>, es) \<and>
    visible es = [Call_handler 7 (rv_int 4), Call_handler 8 rv_null] \<and> idle q"
proof -
  let ?bs = "['':4'' @ [CR], LF # ''$-'', ''1'' @ crlf]"
  have "concat ?bs = concat (map enc [rv_int 4, rv_null])" by code_simp
  moreover have "[] \<notin> set ?bs" "list_all encodable [rv_int 4, rv_null]" by (simp_all add: rv_defs)
  ultimately have "\<exists>q es. async_reads ?bs (waiting_client [7, 8, 9] :: (nat, nat) redis_client) =
      Some ((waiting_client [7, 8, 9])\<lparr>handlers := drop (length [rv_int 4, rv_null])
        (handlers (waiting_client [7, 8, 9] :: (nat, nat) redis_client)), redisParser := q\<rparr>, es) \<and>
    visible es = map2 Call_handler (handlers (waiting_client [7, 8, 9] :: (nat, nat) redis_client))
      [rv_int 4, rv_null] \<and> idle q"
    by (intro replies_reach_handlers_in_order) simp_all
  then show ?thesis by (simp del: async_reads.simps)
qed


text \<open>C14: a subscribed client hands the messages of its stream to the right handlers, however
  the network cuts it: every message goes once to the oldest one-shot handler left on its
  channel and then to every subscriber of exactly that channel in the order of subscription,
  with its bytes unchanged; the subscriptions stay, and no error is raised.\<close>

theorem messages_reach_subscribers:
  assumes "cl_state c = Subscribed" and "idle (redisParser c)"
    and "list_all (\<lambda>m. int (length (fst m)) \<le> LONG_MAX \<and> int (length (snd m)) \<le> LONG_MAX) ms"
    and "concat chunks = concat (map (enc \<circ> message_value) ms)" and "[] \<notin> set chunks"
  shows "\<exists>q ss es. async_reads chunks c =
      Some (c\<lparr>singleShotMsgHandlers := ss, redisParser := q\<rparr>, es) \<and>
    visible es = dispatch (once_of c) (subs_of c) ms \<and> idle q"
proof -
  have vs: "list_all encodable (map message_value ms)"
    using assms(3) by (auto simp: list_all_iff message_encodable)
  obtain ss where "process_all (map message_value ms) c =
      (c\<lparr>singleShotMsgHandlers := ss\<rparr>, dispatch (once_of c) (subs_of c) ms)"
    using process_messages [OF assms(1)] by blast
  from async_reads_stream [OF idle_pending [OF assms(2)] vs mid_stream_start [OF vs] _ assms(5)
      this dispatch_quiet] assms(4)
  show ?thesis by auto
qed

theorem messages_reach_subscribers_witness:
  "\<exists>(c :: (nat, nat) redis_client) q ss es.
    async_reads [enc (message_value (''a'', ''x'')) @ ''*'', tl (enc (message_value (''a'', ''y'')))] c =
      Some (c\<lparr>singleShotMsgHandlers := ss, redisParser := q\<rparr>, es) \<and>
    visible es = [Post_message 9 ''x'', Post_message 5 ''x'', Post_message 5 ''y''] \<and> idle q"
proof -
  let ?c = "(waiting_client [] :: (nat, nat) redis_client)\<lparr>cl_state := Subscribed,
    msgHandlers := [(''a'', 0, 5), (''b'', 1, 6)], singleShotMsgHandlers := [(''a'', 9)]\<rparr>"
  let ?ms = "[(''a'', ''x''), (''a'', ''y'')]"
  let ?bs = "[enc (message_value (''a'', ''x'')) @ ''*'', tl (enc (message_value (''a'', ''y'')))]"
  have "concat ?bs = concat (map (enc \<circ> message_value) ?ms) \<and> [] \<notin> set ?bs" by code_simp
  then have main: "\<exists>q ss es. async_reads ?bs ?c =
      Some (?c\<lparr>singleShotMsgHandlers := ss, redisParser := q\<rparr>, es) \<and>
    visible es = dispatch (once_of ?c) (subs_of ?c) ?ms \<and> idle q"
    by (intro messages_reach_subscribers) (simp_all add: LONG_MAX_def)
  have disp: "dispatch (once_of ?c) (subs_of ?c) ?ms =
      [Post_message 9 ''x'', Post_message 5 ''x'', Post_message 5 ''y'']"
    by (simp add: once_of_def subs_of_def single_handlers_def channel_handlers_def)
  show ?thesis using main unfolding disp by (rule exI [of _ ?c])
qed

text \<open>Subscribing appends exactly one handler, to exactly that channel, under a number no
  other subscription has, and unsubscribing with the handle it returned takes exactly that handler
  away again: the subscriptions are what they were before, also when the same channel has other
  subscribers.\<close>

lemma subscribe_unsubscribe:
  assumes "cl_state c = Connected \<or> cl_state c = Subscribed"
    and "sub_ids_ok c" and "subscribeSeq c < - 1"
  shows "\<exists>sh c' es. subscribe ndebug ch m h c = (Some sh, c', es) \<and>
    subs_of c' = (subs_of c)(ch := subs_of c ch @ [m]) \<and> sub_ids_ok c' \<and>
    msgHandlers (fst (unsubscribe ndebug d sh c')) = msgHandlers c"
proof -
  let ?c = "c\<lparr>subscribeSeq := subscribeSeq c + 1,
    msgHandlers := msgHandlers c @ [(ch, subscribeSeq c, m)], cl_state := Subscribed\<rparr>"
  let ?sh = "\<lparr>handle_id = subscribeSeq c, handle_channel = ch\<rparr>"
  have next_id: "subscribeSeq c < subscribeSeq c + 1"
    using assms(3) by (rule word_less_succ)
  with assms(2) have "sub_ids_ok ?c"
    by (auto simp: sub_ids_ok_def list_all_iff dest: less_trans)
  moreover have "subs_of ?c = (subs_of c)(ch := subs_of c ch @ [m])"
    by (auto simp: subs_of_def [abs_def] channel_handlers_def)
  moreover have "erase_handler ?sh (msgHandlers c @ [(ch, subscribeSeq c, m)]) = msgHandlers c"
    using assms(2) by (auto simp: erase_handler_filter sub_ids_ok_def list_all_iff intro: filter_True)
  ultimately show ?thesis
    using assms(1) by (simp add: subscribe_def unsubscribe_def)
qed

text \<open>C25: a subscription changes how replies are read at once: the reply of a command that was
  sent before it, being no array of three, is reported as a protocol error and its handler is
  neither called nor taken from the queue, where it will meet the next reply.\<close>

theorem subscription_loses_pending_replies:
  assumes "cl_state c = Connected" and "handlers c = h0 # hs" and "length (toArray v) \<noteq> 3"
  shows "\<exists>sh c' es. subscribe ndebug ch m h c = (Some sh, c', es) \<and>
    doProcessMessage v c' = (c', call_error ''[RedisClient] Protocol error'' c') \<and>
    handlers c' = h0 # hs"
  using assms
  by (auto simp: subscribe_def doProcessMessage_def Let_def numeral_3_eq_3 split: list.split)

theorem subscription_loses_pending_replies_witness:
  "\<exists>sh c' es. subscribe True ''a'' (7 :: nat) 3 (waiting_client [1] :: (nat, nat) redis_client) =
      (Some sh, c', es) \<and>
    doProcessMessage (rv_int 1) c' = (c', call_error ''[RedisClient] Protocol error'' c') \<and>
    handlers c' = 1 # []"
  by (rule subscription_loses_pending_replies) (simp_all add: rv_defs toArray_def)

end
