(* ===== verification/Redis_System.thy ===== *)
theory Redis_System
  imports Redis_Async
begin

text \<open>
  The asynchronous client at work: the object, the strand with its posted tasks, the write and
  the read under way, and what the application sees, as a step relation. A step is one call of
  the application, one task of the strand, or the end of one operation of the socket; handlers
  run on the one thread of the \<^verbatim>\<open>io_service\<close>, so steps do not overlap.
\<close>

section \<open>States and steps\<close>

datatype ('h, 'm) request =
    Command bytes "bytes list" 'h
  | Command_list bytes "bytes list" 'h
  | Subscribe bytes 'm 'h
  | Unsubscribe sub_handle 'h
  | Single_shot bytes 'm 'h
  | Publish bytes bytes 'h
  | Install_handler error_handler
  | Close_client

fun call :: "bool \<Rightarrow> ('h, 'm) request \<Rightarrow> ('h, 'm) redis_client \<Rightarrow> ('h, 'm) async_result" where
  "call nd (Command cmd args h) c = async_command nd cmd args h c"
| "call nd (Command_list cmd args h) c = async_command_list nd cmd args h c"
| "call nd (Subscribe ch m h) c = snd (subscribe nd ch m h c)"
| "call nd (Unsubscribe sh d) c = unsubscribe nd d sh c"
| "call nd (Single_shot ch m h) c = singleShotSubscribe nd ch m h c"
| "call nd (Publish ch b h) c = publish nd ch b h c"
| "call nd (Install_handler eh) c = (installErrorHandler eh c, [])"
| "call nd Close_client c = (close_client c, [])"

text \<open>A task of the strand: a bound call of \<^verbatim>\<open>doAsyncCommand\<close> or of a message handler.\<close>

datatype ('h, 'm) task = Run_command bytes 'h | Run_message 'm bytes

text \<open>
  The last fields record what happened: commands posted, commands issued by the strand,
  buffers written to the end, replies handed to handlers, messages handed to subscribers,
  errors reported, whether a write has failed, and whether an assertion or an exception has left
  the thread of the \<^verbatim>\<open>io_service\<close>. An exception from a call of the application is the
  application's to handle: it leaves the system as it is.
\<close>

record ('h, 'm) io_system =
  client :: "('h, 'm) redis_client"
  strand :: "('h, 'm) task list"
  in_flight :: "bytes option"
  reading :: bool
  connecting :: bool
  posted :: "('h \<times> bytes) list"
  issued :: "('h \<times> bytes) list"
  sent :: "bytes list"
  calls :: "('h \<times> redis_value) list"
  seen :: "('m \<times> bytes) list"
  reported :: "bytes list"
  write_broken :: bool
  stopped :: bool

fun perform :: "('h, 'm) effect \<Rightarrow> ('h, 'm) io_system \<Rightarrow> ('h, 'm) io_system" where
  "perform (Call_handler h v) s = s\<lparr>calls := calls s @ [(h, v)]\<rparr>"
| "perform (Post_message m b) s = s\<lparr>strand := strand s @ [Run_message m b]\<rparr>"
| "perform (Post_command b h) s =
     s\<lparr>strand := strand s @ [Run_command b h], posted := posted s @ [(h, b)]\<rparr>"
| "perform Start_read s = s\<lparr>reading := True\<rparr>"
| "perform (Start_write b) s = s\<lparr>in_flight := Some b\<rparr>"
| "perform (Connect_result ok msg) s = s"
| "perform (Handled_error msg) s = s\<lparr>reported := reported s @ [msg]\<rparr>"
| "perform (Thrown msg) s = s\<lparr>stopped := True\<rparr>"
| "perform Abort s = s\<lparr>stopped := True\<rparr>"

definition settle :: "('h, 'm) async_result \<Rightarrow> ('h, 'm) io_system \<Rightarrow> ('h, 'm) io_system" where
  "settle r s = fold perform (snd r) (s\<lparr>client := fst r\<rparr>)"

fun run_task :: "('h, 'm) task \<Rightarrow> ('h, 'm) io_system \<Rightarrow> ('h, 'm) io_system" where
  "run_task (Run_command b h) s =
     settle (doAsyncCommand b h (client s)) (s\<lparr>issued := issued s @ [(h, b)]\<rparr>)"
| "run_task (Run_message m b) s = s\<lparr>seen := seen s @ [(m, b)]\<rparr>"

text \<open>The object after the constructor and a call of \<^verbatim>\<open>connect\<close>.\<close>

definition start_system :: "('h, 'm) io_system" where
  "start_system =
     \<lparr>client = new_client, strand = [], in_flight = None, reading = False, connecting = True,
      posted = [], issued = [], sent = [], calls = [], seen = [], reported = [],
      write_broken = False, stopped = False\<rparr>"

inductive sys_step :: "bool \<Rightarrow> ('h, 'm) io_system \<Rightarrow> ('h, 'm) io_system \<Rightarrow> bool" for nd where
  request: "\<not> stopped s \<Longrightarrow> call nd r (client s) = (c, es) \<Longrightarrow>
    sys_step nd s ((settle (c, es) s)\<lparr>stopped := Abort \<in> set es\<rparr>)"
| task: "\<not> stopped s \<Longrightarrow> strand s = t # ts \<Longrightarrow> sys_step nd s (run_task t (s\<lparr>strand := ts\<rparr>))"
| connected: "\<not> stopped s \<Longrightarrow> connecting s \<Longrightarrow>
    sys_step nd s (settle (handleAsyncConnect ec (client s)) (s\<lparr>connecting := False\<rparr>))"
| written: "\<not> stopped s \<Longrightarrow> in_flight s = Some b \<Longrightarrow>
    sys_step nd s (settle (asyncWrite None (client s)) (s\<lparr>in_flight := None, sent := sent s @ [b]\<rparr>))"
| write_failed: "\<not> stopped s \<Longrightarrow> in_flight s = Some b \<Longrightarrow>
    sys_step nd s (settle (asyncWrite (Some msg) (client s))
      (s\<lparr>in_flight := None, write_broken := True\<rparr>))"
| read: "\<not> stopped s \<Longrightarrow> reading s \<Longrightarrow> length inbuf \<le> 4096 \<Longrightarrow>
    asyncRead ec inbuf (client s) = Some r \<Longrightarrow> sys_step nd s (settle r (s\<lparr>reading := False\<rparr>))"

inductive_cases sys_stepE: "sys_step nd s s'"

inductive reachable :: "bool \<Rightarrow> ('h, 'm) io_system \<Rightarrow> bool" for nd where
  start: "reachable nd start_system"
| step: "reachable nd s \<Longrightarrow> sys_step nd s s' \<Longrightarrow> reachable nd s'"

section \<open>The pipeline\<close>

text \<open>Commands the strand still holds.\<close>

fun waiting_commands :: "('h, 'm) task list \<Rightarrow> ('h \<times> bytes) list" where
  "waiting_commands [] = []"
| "waiting_commands (Run_command b h # ts) = (h, b) # waiting_commands ts"
| "waiting_commands (Run_message m b # ts) = waiting_commands ts"

lemma waiting_commands_append [simp]:
  "waiting_commands (ts @ us) = waiting_commands ts @ waiting_commands us"
  by (induction ts rule: waiting_commands.induct) auto

text \<open>
  The invariant: every command is in exactly one place of the pipeline, in order; a write is
  under way exactly for the head of the queue, unless a write has failed; the handlers that wait
  are those of the issued commands without a reply; and while bytes may arrive the parser is
  between two calls.
\<close>

definition pipeline_ok :: "('h, 'm) io_system \<Rightarrow> bool" where
  "pipeline_ok s \<longleftrightarrow>
     posted s = issued s @ waiting_commands (strand s) \<and>
     map snd (issued s) = sent s @ map snd (write_queue (client s)) \<and>
     map fst (issued s) = map fst (calls s) @ handlers (client s)"

definition writer_ok :: "('h, 'm) io_system \<Rightarrow> bool" where
  "writer_ok s \<longleftrightarrow>
     in_flight s = (if write_broken s \<or> write_queue (client s) = [] then None
                    else Some (snd (hd (write_queue (client s))))) \<and>
     (write_broken s \<longrightarrow> write_queue (client s) \<noteq> [])"

definition reader_ok :: "('h, 'm) io_system \<Rightarrow> bool" where
  "reader_ok s \<longleftrightarrow>
     (reading s \<or> connecting s \<longrightarrow> parser_ok (redisParser (client s))) \<and> \<not> (reading s \<and> connecting s)"


text \<open>Effects that only hand out what was read.\<close>

fun inert :: "('h, 'm) effect \<Rightarrow> bool" where
  "inert (Post_command b h) = False"
| "inert (Start_write b) = False"
| "inert _ = True"

fun calls_of :: "('h, 'm) effect list \<Rightarrow> ('h \<times> redis_value) list" where
  "calls_of [] = []"
| "calls_of (Call_handler h v # es) = (h, v) # calls_of es"
| "calls_of (_ # es) = calls_of es"

lemma calls_of_append [simp]: "calls_of (es @ es') = calls_of es @ calls_of es'"
  by (induction es rule: calls_of.induct) auto

lemma calls_of_messages [simp]: "calls_of (map (\<lambda>m. Post_message m b) ms) = []"
  by (induction ms) auto

lemma calls_of_error [simp]: "calls_of (call_error msg c) = []"
  by (simp add: call_error_def split: option.split)

lemma inert_error [simp]: "list_all inert (call_error msg c)"
  by (simp add: call_error_def split: option.split)

lemma inert_messages [simp]: "list_all inert (map (\<lambda>m. Post_message m b) ms)"
  by (induction ms) auto

lemma error_no_read [simp]: "Start_read \<notin> set (call_error msg c)"
  by (simp add: call_error_def split: option.split)

text \<open>What inert effects do to a system.\<close>

definition same_pipe :: "('h, 'm) io_system \<Rightarrow> ('h, 'm) io_system \<Rightarrow> bool" where
  "same_pipe s s' \<longleftrightarrow> posted s' = posted s \<and> issued s' = issued s \<and> sent s' = sent s \<and>
     waiting_commands (strand s') = waiting_commands (strand s) \<and> in_flight s' = in_flight s \<and>
     connecting s' = connecting s \<and> write_broken s' = write_broken s \<and> client s' = client s"

lemma perform_inert:
  assumes "inert e"
  shows "same_pipe s (perform e s) \<and> calls (perform e s) = calls s @ calls_of [e] \<and>
    (reading (perform e s) \<longleftrightarrow> reading s \<or> e = Start_read)"
  using assms by (cases e) (auto simp: same_pipe_def)

lemma fold_inert:
  assumes "list_all inert es"
  shows "same_pipe s (fold perform es s) \<and> calls (fold perform es s) = calls s @ calls_of es \<and>
    (reading (fold perform es s) \<longleftrightarrow> reading s \<or> Start_read \<in> set es)"
  using assms
proof (induction es arbitrary: s)
  case Nil
  show ?case by (simp add: same_pipe_def)
next
  case (Cons e es)
  have "calls_of (e # es) = calls_of [e] @ calls_of es" by (cases e) auto
  with Cons perform_inert [of e s] show ?case by (auto simp: same_pipe_def)
qed

lemma settle_inert:
  assumes "list_all inert es"
  shows "same_pipe (s\<lparr>client := c\<rparr>) (settle (c, es) s) \<and>
    calls (settle (c, es) s) = calls s @ calls_of es \<and>
    (reading (settle (c, es) s) \<longleftrightarrow> reading s \<or> Start_read \<in> set es)"
  using fold_inert [OF assms, of "s\<lparr>client := c\<rparr>"] by (simp add: settle_def)

text \<open>An operation that only hands out: the queue of writes stays, handlers leave in order.\<close>

definition hands_out ::
  "('h, 'm) redis_client \<Rightarrow> ('h, 'm) async_result \<Rightarrow> bool"
where
  "hands_out c r \<longleftrightarrow> list_all inert (snd r) \<and> write_queue (fst r) = write_queue c \<and>
     handlers c = map fst (calls_of (snd r)) @ handlers (fst r)"

lemma doProcessMessage_hands_out: "hands_out c (doProcessMessage v c)"
  by (auto simp: hands_out_def doProcessMessage_def pop_handler_def Let_def
      split: list.split option.split)

lemma doProcessMessage_no_read: "Start_read \<notin> set (snd (doProcessMessage v c))"
  by (auto simp: doProcessMessage_def pop_handler_def Let_def split: list.split option.split)

lemma hands_out_trans:
  "hands_out c (c1, es1) \<Longrightarrow> hands_out c1 (c2, es2) \<Longrightarrow> hands_out c (c2, es1 @ es2)"
  by (simp add: hands_out_def)

text \<open>
  One buffer: the loop ends, only hands out, and asks for more only with the parser between
  two calls.
\<close>

lemma read_loop_safe:
  assumes "parser_ok (redisParser c)" and "Start_read \<notin> set es0"
  shows "\<exists>c' es. read_loop inbuf pos c es0 = Some (c', es0 @ es) \<and> hands_out c (c', es) \<and>
    (Start_read \<in> set es \<longrightarrow> parser_ok (redisParser c')) \<and> Abort \<notin> set es"
  using assms
proof (induction "length inbuf - pos" arbitrary: pos c es0 rule: less_induct)
  case less
  show ?case
  proof (cases "pos < length inbuf")
    case False
    with less.prems show ?thesis
      by (subst read_loop.simps) (auto simp: hands_out_def)
  next
    case pos: True
    show ?thesis
    proof (cases rule: parse_cases [OF less.prems(1), of "drop pos inbuf"])
      case (1 q)
      with pos show ?thesis by (subst read_loop.simps) (auto simp: hands_out_def)
    next
      case (2 n q v q')
      obtain c1 es1 where step: "doProcessMessage v (c\<lparr>redisParser := q'\<rparr>) = (c1, es1)" by fastforce
      have one: "hands_out c (c1, es1)" "Start_read \<notin> set es1"
        using doProcessMessage_hands_out [of "c\<lparr>redisParser := q'\<rparr>" v]
          doProcessMessage_no_read [of v "c\<lparr>redisParser := q'\<rparr>"] step
        by (simp_all add: hands_out_def)
      have q': "redisParser c1 = q'" using doProcessMessage_keeps_parser [OF step] by simp
      have noabort: "Abort \<notin> set es1"
        using step by (auto simp: process_defs split: list.splits option.splits if_splits)
      show ?thesis
      proof (cases "leaves_by_exception es1")
        case True
        with pos 2 step one noabort show ?thesis by (subst read_loop.simps) auto
      next
        case False
        have "length inbuf - (pos + n) < length inbuf - pos" using 2 pos by simp
        from less.hyps [OF this, of c1 "es0 @ es1"] obtain c' es where
          "read_loop inbuf (pos + n) c1 (es0 @ es1) = Some (c', (es0 @ es1) @ es)"
          "hands_out c1 (c', es)" "Start_read \<in> set es \<longrightarrow> parser_ok (redisParser c')"
          "Abort \<notin> set es"
          using idle_ok [OF 2(5)] q' one less.prems by auto
        with pos 2 step False one noabort hands_out_trans [OF one(1)] show ?thesis
          by (subst read_loop.simps) (intro exI [of _ c'] exI [of _ "es1 @ es"], auto)
      qed
    next
      case (3 n q)
      with pos less.prems show ?thesis
        by (subst read_loop.simps) (auto simp: hands_out_def call_error_def split: option.split)
    qed
  qed
qed

lemma asyncRead_safe:
  assumes "parser_ok (redisParser c)"
  shows "\<exists>c' es. asyncRead ec inbuf c = Some (c', es) \<and> hands_out c (c', es) \<and>
    (Start_read \<in> set es \<longrightarrow> parser_ok (redisParser c')) \<and> Abort \<notin> set es"
  using read_loop_safe [OF assms, of "[]" inbuf 0]
  by (auto simp: asyncRead_def hands_out_def call_error_def split: option.split)


section \<open>The invariant\<close>

definition sys_ok :: "('h, 'm) io_system \<Rightarrow> bool" where
  "sys_ok s \<longleftrightarrow> pipeline_ok s \<and> writer_ok s \<and> reader_ok s"

lemmas sys_defs = sys_ok_def pipeline_ok_def writer_ok_def reader_ok_def

lemma sys_ok_start: "sys_ok start_system"
  by (simp add: sys_defs start_system_def new_client_def idle_ok)

lemma sys_ok_stopped [simp]: "sys_ok (s\<lparr>stopped := b\<rparr>) = sys_ok s"
  by (simp add: sys_defs)

text \<open>An inert operation of the object keeps the invariant.\<close>

lemma settle_hands_out:
  assumes "sys_ok s" and "hands_out (client s) (c', es)"
    and "Start_read \<in> set es \<Longrightarrow> parser_ok (redisParser c')"
  shows "sys_ok (settle (c', es) (s\<lparr>reading := False, connecting := False\<rparr>))"
proof -
  let ?s = "s\<lparr>reading := False, connecting := False\<rparr>"
  have "list_all inert es" using assms(2) by (simp add: hands_out_def)
  from settle_inert [OF this, where s = ?s and c = c'] have
    "same_pipe (?s\<lparr>client := c'\<rparr>) (settle (c', es) ?s)"
    "calls (settle (c', es) ?s) = calls s @ calls_of es"
    "reading (settle (c', es) ?s) \<longleftrightarrow> Start_read \<in> set es"
    by simp_all
  with assms show ?thesis by (simp add: sys_defs hands_out_def same_pipe_def)
qed

lemma error_hands_out: "hands_out c (c, call_error msg c)"
  by (simp add: hands_out_def)

text \<open>A call of the application posts one command, reports one error, or does neither.\<close>

definition posts_or_reports ::
  "('h, 'm) redis_client \<Rightarrow> ('h, 'm) async_result \<Rightarrow> bool"
where
  "posts_or_reports c r \<longleftrightarrow> write_queue (fst r) = write_queue c \<and> handlers (fst r) = handlers c \<and>
     redisParser (fst r) = redisParser c \<and>
     (snd r = [] \<or> (\<exists>b h. snd r = [Post_command b h]) \<or>
      (\<exists>e. snd r = [e] \<and> (\<exists>msg. e = Handled_error msg \<or> e = Thrown msg \<or> e = Abort)))"

lemma wrong_state_reports: "posts_or_reports c (c, wrong_state nd c)"
  by (simp add: posts_or_reports_def wrong_state_def call_error_def split: option.split)

lemma guarded_post_posts: "posts_or_reports c (guarded_post nd items h c)"
  by (simp add: posts_or_reports_def guarded_post_def split: validity.split)

lemma call_posts: "posts_or_reports c (call nd r c)"
proof (cases r)
  case (Subscribe ch m h)
  then show ?thesis using wrong_state_reports [of c nd]
    by (simp add: subscribe_def Let_def posts_or_reports_def)
next
  case (Unsubscribe sh d)
  then show ?thesis using wrong_state_reports [of c nd]
    by (simp add: unsubscribe_def posts_or_reports_def)
next
  case (Single_shot ch m h)
  then show ?thesis using wrong_state_reports [of c nd]
    by (simp add: singleShotSubscribe_def posts_or_reports_def)
next
  case (Publish ch b h)
  then show ?thesis using wrong_state_reports [of c nd]
    by (simp add: publish_def posts_or_reports_def)
next
  case (Command cmd args h)
  then show ?thesis by (simp add: async_command_def guarded_post_posts)
next
  case (Command_list cmd args h)
  then show ?thesis by (simp add: async_command_list_def guarded_post_posts)
qed (simp_all add: installErrorHandler_def close_client_def posts_or_reports_def)

lemma settle_posts:
  assumes "sys_ok s" and "posts_or_reports (client s) (c', es)"
  shows "sys_ok (settle (c', es) s)"
proof -
  have c': "write_queue c' = write_queue (client s)" "handlers c' = handlers (client s)"
    "redisParser c' = redisParser (client s)"
    using assms(2) by (simp_all add: posts_or_reports_def)
  have "es = [] \<or> (\<exists>b h. es = [Post_command b h]) \<or>
      (\<exists>msg. es = [Handled_error msg] \<or> es = [Thrown msg] \<or> es = [Abort])"
    using assms(2) by (auto simp: posts_or_reports_def)
  then show ?thesis using assms(1) by (elim disjE exE) (simp_all add: sys_defs settle_def c')
qed

lemma run_task_ok:
  assumes "sys_ok s" and "strand s = t # ts"
  shows "sys_ok (run_task t (s\<lparr>strand := ts\<rparr>))"
proof (cases t)
  case (Run_command b h)
  with assms show ?thesis
    by (cases "write_queue (client s)") (simp_all add: sys_defs settle_def doAsyncCommand_def)
next
  case (Run_message m b)
  with assms show ?thesis by (simp add: sys_defs)
qed

lemma written_ok:
  assumes "sys_ok s" and "in_flight s = Some b"
  shows "sys_ok (settle (asyncWrite None (client s)) (s\<lparr>in_flight := None, sent := sent s @ [b]\<rparr>))"
  using assms
proof (cases "write_queue (client s)")
  case (Cons hb rest)
  with assms show ?thesis
    by (cases rest) (auto simp: sys_defs settle_def asyncWrite_def split: if_splits)
qed (simp add: sys_defs)

lemma write_failed_ok:
  assumes "sys_ok s" and "in_flight s = Some b"
  shows "sys_ok (settle (asyncWrite (Some msg) (client s))
    (s\<lparr>in_flight := None, write_broken := True\<rparr>))"
  using assms
  by (cases "errorHandler (client s) msg")
     (simp_all add: sys_defs settle_def asyncWrite_def call_error_def split: if_splits)

lemma connected_ok:
  assumes "sys_ok s" and "connecting s"
  shows "sys_ok (settle (handleAsyncConnect ec (client s)) (s\<lparr>connecting := False\<rparr>))"
proof -
  obtain c' es where r: "handleAsyncConnect ec (client s) = (c', es)" by fastforce
  have "s\<lparr>connecting := False\<rparr> = s\<lparr>reading := False, connecting := False\<rparr>"
    using assms by (simp add: sys_defs)
  moreover have "hands_out (client s) (c', es)" "parser_ok (redisParser c')"
    using r assms by (auto simp: handleAsyncConnect_def hands_out_def sys_defs split: option.splits)
  ultimately show ?thesis using settle_hands_out [OF assms(1)] r by simp
qed

lemma read_ok:
  assumes "sys_ok s" and "reading s" and "asyncRead ec inbuf (client s) = Some r"
  shows "sys_ok (settle r (s\<lparr>reading := False\<rparr>))"
proof -
  have "parser_ok (redisParser (client s))" "\<not> connecting s"
    using assms(1,2) by (auto simp: sys_defs)
  then have same: "s\<lparr>reading := False\<rparr> = s\<lparr>reading := False, connecting := False\<rparr>"
    and "\<exists>c' es. r = (c', es) \<and> hands_out (client s) (c', es) \<and>
      (Start_read \<in> set es \<longrightarrow> parser_ok (redisParser c'))"
    using asyncRead_safe [of "client s" ec inbuf] assms(3) by auto
  then show ?thesis using settle_hands_out [OF assms(1)] by (subst same) blast
qed

lemma sys_step_ok: "sys_step nd s s' \<Longrightarrow> sys_ok s \<Longrightarrow> sys_ok s'"
proof (induction rule: sys_step.induct)
  case (request s r c es)
  with call_posts [of "client s" nd r] show ?case by (simp add: settle_posts)
qed (simp_all add: run_task_ok written_ok write_failed_ok connected_ok read_ok)

lemma reachable_ok: "reachable nd s \<Longrightarrow> sys_ok s"
  by (induction rule: reachable.induct) (simp_all add: sys_ok_start sys_step_ok)


text \<open>After a failed write nothing is sent any more.\<close>

lemma settle_client_sent:
  "sent (settle r s) = sent s" "write_broken (settle r s) = write_broken s"
proof -
  have "sent (fold perform es s) = sent s \<and> write_broken (fold perform es s) = write_broken s"
    for es and s :: "('a, 'b) io_system"
  proof (induction es arbitrary: s)
    case (Cons e es)
    then show ?case by (cases e) simp_all
  qed simp
  then show "sent (settle r s) = sent s" "write_broken (settle r s) = write_broken s"
    by (simp_all add: settle_def)
qed

lemma sys_step_broken:
  assumes "sys_step nd s s'" and "sys_ok s" and "write_broken s"
  shows "sent s' = sent s \<and> write_broken s'"
  using assms(1)
proof (cases rule: sys_step.cases)
  case (task t ts)
  with assms(3) show ?thesis by (cases t) (simp_all add: settle_client_sent)
next
  case (written b)
  with assms(2,3) show ?thesis by (simp add: sys_defs)
qed (simp_all add: settle_client_sent assms(3))

lemma sys_steps_broken:
  "(sys_step nd)\<^sup>*\<^sup>* s s' \<Longrightarrow> sys_ok s \<Longrightarrow> write_broken s \<Longrightarrow>
   sys_ok s' \<and> write_broken s' \<and> sent s' = sent s"
proof (induction rule: rtranclp_induct)
  case (step t u)
  then show ?case using sys_step_ok sys_step_broken by metis
qed simp

section \<open>A run\<close>

text \<open>Connect, ask, send: the states the witnesses use.\<close>

lemma run_connected: "reachable nd (start_system\<lparr>client := waiting_client [], reading := True, connecting := False\<rparr>)"
proof -
  have "sys_step nd start_system (settle (handleAsyncConnect None (client start_system))
      (start_system\<lparr>connecting := False\<rparr>))"
    by (rule connected) (simp_all add: start_system_def)
  from reachable.step [OF reachable.start this] show ?thesis
    by (simp add: settle_def handleAsyncConnect_def start_system_def waiting_client_def new_client_def)
qed

definition ping :: bytes where
  "ping = makeCommand [''PING'']"

lemma run_asked:
  fixes h :: 'h
  shows "reachable nd (start_system\<lparr>client := waiting_client [], reading := True, connecting := False,
     strand := [Run_command ping h], posted := [(h, ping)]\<rparr> :: ('h, 'm) io_system)"
proof -
  let ?s = "start_system\<lparr>client := waiting_client [], reading := True, connecting := False\<rparr> :: ('h, 'm) io_system"
  let ?es = "[Post_command ping h] :: ('h, 'm) effect list"
  have "sys_step nd ?s ((settle (waiting_client [], ?es) ?s)
      \<lparr>stopped := Abort \<in> set ?es\<rparr>)"
  proof (rule request)
    show "call nd (Command ''PING'' [] h) (client ?s) = (waiting_client [], ?es)"
      by (simp add: async_command_def guarded_post_def async_stateValid_def stateValid_def ping_def)
  qed (simp add: start_system_def)
  from reachable.step [OF run_connected this] show ?thesis
    by (simp add: settle_def start_system_def)
qed

lemma run_issued:
  "reachable nd (start_system\<lparr>client := (waiting_client [h])\<lparr>write_queue := [(h, ping)]\<rparr>,
     reading := True, connecting := False, in_flight := Some ping, posted := [(h, ping)],
     issued := [(h, ping)]\<rparr>)"
proof -
  let ?s = "start_system\<lparr>client := waiting_client [], reading := True, connecting := False,
     strand := [Run_command ping h], posted := [(h, ping)]\<rparr>"
  have "sys_step nd ?s (run_task (Run_command ping h) (?s\<lparr>strand := []\<rparr>))"
    by (rule task) (simp_all add: start_system_def)
  from reachable.step [OF run_asked this] show ?thesis
    by (simp add: settle_def start_system_def doAsyncCommand_def waiting_client_def new_client_def)
qed

section \<open>Properties\<close>

text \<open>C5: whatever the application, the strand and the network do, in whatever order: the
  commands are put on the wire whole, one at a time and in the order in which they were posted,
  none lost and none twice. At every moment the buffers sent, those of the write queue and those
  on the strand are the posted commands in order, and a write is under way exactly when the queue
  has one and no write has failed, for the first of the queue.\<close>

theorem commands_sent_in_order:
  assumes "reachable nd s"
  shows "sent s @ map snd (write_queue (client s)) @ map snd (waiting_commands (strand s)) =
      map snd (posted s) \<and>
    in_flight s = (if write_broken s \<or> write_queue (client s) = [] then None
                   else Some (snd (hd (write_queue (client s)))))"
proof -
  from reachable_ok [OF assms] have "pipeline_ok s" "writer_ok s" by (simp_all add: sys_ok_def)
  then show ?thesis by (simp add: pipeline_ok_def writer_ok_def)
qed

theorem commands_sent_in_order_witness:
  "\<exists>s :: (nat, nat) io_system. posted s = [(7, ping)] \<and> in_flight s = Some ping \<and>
    sent s @ map snd (write_queue (client s)) @ map snd (waiting_commands (strand s)) =
      map snd (posted s) \<and>
    in_flight s = (if write_broken s \<or> write_queue (client s) = [] then None
                   else Some (snd (hd (write_queue (client s)))))"
  using commands_sent_in_order [OF run_issued [of False 7]]
  by (intro exI [of _ "start_system\<lparr>client := (waiting_client [7])\<lparr>write_queue := [(7, ping)]\<rparr>,
     reading := True, connecting := False, in_flight := Some ping, posted := [(7, ping)],
     issued := [(7, ping)]\<rparr>"]) simp

text \<open>C6: replies meet their commands: in every reachable state the handlers called so far are
  those of the first commands posted, in order and each once, and the handlers that still wait
  are those of the commands issued after them, in order.\<close>

theorem replies_meet_their_commands:
  assumes "reachable nd s"
  shows "\<exists>later. map fst (posted s) = map fst (calls s) @ handlers (client s) @ later \<and>
    later = map fst (waiting_commands (strand s))"
proof -
  from reachable_ok [OF assms] have "pipeline_ok s" by (simp add: sys_ok_def)
  then show ?thesis by (simp add: pipeline_ok_def)
qed

theorem replies_meet_their_commands_witness:
  "\<exists>(s :: (nat, nat) io_system) later. handlers (client s) = [7] \<and>
    map fst (posted s) = map fst (calls s) @ handlers (client s) @ later \<and>
    later = map fst (waiting_commands (strand s))"
  using replies_meet_their_commands [OF run_issued [of False 7]]
  by (intro exI [of _ "start_system\<lparr>client := (waiting_client [7])\<lparr>write_queue := [(7, ping)]\<rparr>,
     reading := True, connecting := False, in_flight := Some ping, posted := [(7, ping)],
     issued := [(7, ping)]\<rparr>"]) simp



text \<open>C24: one failed write ends all writing for good: its entry stays at the head of the queue,
  so that every later command is queued behind it, and in no state reached afterwards has
  anything more been sent or is a write under way.\<close>

theorem failed_write_stalls:
  assumes "reachable nd s" and "write_broken s" and "(sys_step nd)\<^sup>*\<^sup>* s s'"
  shows "sent s' = sent s \<and> in_flight s' = None \<and> write_queue (client s') \<noteq> []"
  using sys_steps_broken [OF assms(3) reachable_ok [OF assms(1)] assms(2)]
  by (simp add: sys_ok_def writer_ok_def)

theorem failed_write_stalls_witness:
  "\<exists>s :: (nat, nat) io_system. reachable False s \<and> write_broken s \<and>
    sent s = sent s \<and> in_flight s = None \<and> write_queue (client s) \<noteq> []"
proof -
  let ?s = "start_system\<lparr>client := (waiting_client [7 :: nat])\<lparr>write_queue := [(7, ping)]\<rparr>,
     reading := True, connecting := False, in_flight := Some ping, posted := [(7, ping)],
     issued := [(7, ping)]\<rparr> :: (nat, nat) io_system"
  let ?t = "settle (asyncWrite (Some ''reset'') (client ?s)) (?s\<lparr>in_flight := None, write_broken := True\<rparr>)"
  have "sys_step False ?s ?t" by (rule write_failed) (simp_all add: start_system_def)
  then have "reachable False ?t" by (rule reachable.step [OF run_issued])
  moreover have "write_broken ?t" by (simp add: settle_client_sent)
  ultimately show ?thesis using failed_write_stalls [of False ?t ?t] by blast
qed

end
