(* ===== verification/Crow_Json.thy ===== *)
theory Crow_Json
  imports Pinocchio_Prelude "HOL-Library.List_Lexorder"
begin

text \<open>
  \<^verbatim>\<open>include/crow/json.h\<close>, the reading half: escaping, the recursive parser over a
  NUL-terminated buffer, and the access operations of \<^verbatim>\<open>rvalue\<close>.

  The cursor \<^verbatim>\<open>data\<close> is the list of the bytes from it to the end of the buffer, the
  terminating NUL included; reading past that NUL is \<open>Inl Bad_range\<close>, an error value of the
  code (\<^verbatim>\<open>return {}\<close>, \<^verbatim>\<open>set_error\<close>) is \<open>Inr None\<close>. The parser overwrites bytes it
  has passed only (the quotes around a string, escapes of a key), which nothing reads again
  except the value itself.
\<close>

unbundle bit_operations_syntax

abbreviation NUL :: char where "NUL \<equiv> CHR 0x00"
abbreviation QUOTE :: char where "QUOTE \<equiv> CHR 0x22"
abbreviation BACKSLASH :: char where "BACKSLASH \<equiv> CHR 0x5C"
abbreviation TAB :: char where "TAB \<equiv> CHR 0x09"
abbreviation BS :: char where "BS \<equiv> CHR 0x08"
abbreviation FF :: char where "FF \<equiv> CHR 0x0C"

section \<open>Escaping\<close>

definition to_hex :: "nat \<Rightarrow> char" where
  "to_hex n = (let c = n mod 16 in if c < 10 then char_of (48 + c) else char_of (97 + c - 10))"

definition escape_char :: "char \<Rightarrow> bytes" where
  "escape_char c =
     (if c = QUOTE then [BACKSLASH, QUOTE]
      else if c = BACKSLASH then [BACKSLASH, BACKSLASH]
      else if c = LF then [BACKSLASH, CHR ''n'']
      else if c = BS then [BACKSLASH, CHR ''b'']
      else if c = FF then [BACKSLASH, CHR ''f'']
      else if c = CR then [BACKSLASH, CHR ''r'']
      else if c = TAB then [BACKSLASH, CHR ''t'']
      else if (of_char c :: nat) < 32 then
        [BACKSLASH, CHR ''u'', CHR ''0'', CHR ''0'', to_hex (of_char c div 16), to_hex (of_char c mod 16)]
      else [c])"

fun escape_loop :: "bytes \<Rightarrow> bytes \<Rightarrow> bytes" where
  "escape_loop [] ret = ret"
| "escape_loop (c # cs) ret = escape_loop cs (ret @ escape_char c)"

definition escape :: "bytes \<Rightarrow> bytes" where
  "escape str = escape_loop str []"

section \<open>Values\<close>

datatype json_type = T_Null | T_False | T_True | T_Number | T_String | T_List | T_Object

fun get_type_str :: "json_type \<Rightarrow> bytes" where
  "get_type_str T_Number = ''Number''"
| "get_type_str T_False = ''False''"
| "get_type_str T_True = ''True''"
| "get_type_str T_List = ''List''"
| "get_type_str T_String = ''String''"
| "get_type_str T_Object = ''Object''"
| "get_type_str T_Null = ''Unknown''"

text \<open>
  A value that was read: numbers and strings are the bytes of the buffer, with the flag that
  \<^verbatim>\<open>decode_string\<close> leaves in front of a string; the keys of an object are unescaped.
\<close>

datatype rvalue =
    RNull | RFalse | RTrue
  | RNumber bytes
  | RString bytes bool
  | RList "rvalue list"
  | RObject "(bytes \<times> rvalue) list"

fun json_t :: "rvalue \<Rightarrow> json_type" where
  "json_t RNull = T_Null"
| "json_t RFalse = T_False"
| "json_t RTrue = T_True"
| "json_t (RNumber t) = T_Number"
| "json_t (RString t e) = T_String"
| "json_t (RList vs) = T_List"
| "json_t (RObject ms) = T_Object"

section \<open>Unescaping\<close>

text \<open>\<^verbatim>\<open>from_hex\<close> on a byte; signed bytes from 0x80 up are below \<^verbatim>\<open>'A'\<close>.\<close>

definition from_hex :: "char \<Rightarrow> int" where
  "from_hex c =
     (let n = (if (of_char c :: int) < 128 then of_char c else of_char c - 256)
      in if 97 \<le> n then n - 97 + 10 else if 65 \<le> n then n - 65 + 10 else n - 48)"

definition utf8_bytes :: "32 word \<Rightarrow> bytes" where
  "utf8_bytes code =
     (if 0x800 \<le> code then
        [char_of (unat (0xE0 OR drop_bit 12 code)),
         char_of (unat (0x80 OR (drop_bit 6 code AND 0x3F))),
         char_of (unat (0x80 OR (code AND 0x3F)))]
      else if 0x80 \<le> code then
        [char_of (unat (0xC0 OR drop_bit 6 code)), char_of (unat (0x80 OR (code AND 0x3F)))]
      else [char_of (unat code)])"

definition hex4 :: "char \<Rightarrow> char \<Rightarrow> char \<Rightarrow> char \<Rightarrow> 32 word" where
  "hex4 a b c d =
     word_of_int (push_bit 12 (from_hex a) + push_bit 8 (from_hex b) + push_bit 4 (from_hex c) + from_hex d)"

text \<open>The cases of one character behind a backslash, but for \<^verbatim>\<open>u\<close>.\<close>

definition unescape_char :: "char \<Rightarrow> bytes" where
  "unescape_char e =
     (if e = QUOTE then [QUOTE]
      else if e = BACKSLASH then [BACKSLASH]
      else if e = CHR ''/'' then [CHR ''/'']
      else if e = CHR ''b'' then [BS]
      else if e = CHR ''f'' then [FF]
      else if e = CHR ''n'' then [LF]
      else if e = CHR ''r'' then [CR]
      else if e = CHR ''t'' then [TAB]
      else [])"

text \<open>
  The loop over the bytes of a string; the bytes written so far come first. A backslash that
  ends the string would make the loop run past its end.
\<close>

fun unescape_loop :: "bytes \<Rightarrow> bytes \<Rightarrow> fault + bytes" where
  "unescape_loop out [] = Inr out"
| "unescape_loop out (h # hs) =
     (if h = BACKSLASH then
        (case hs of
           [] \<Rightarrow> Inl Bad_range
         | e # es \<Rightarrow>
             if e = CHR ''u'' then
               (case es of
                  a # b # c # d # rest \<Rightarrow> unescape_loop (out @ utf8_bytes (hex4 a b c d)) rest
                | _ \<Rightarrow> Inl Bad_range)
             else unescape_loop (out @ unescape_char e) es)
      else unescape_loop (out @ [h]) hs)"

definition unescape :: "bytes \<Rightarrow> bool \<Rightarrow> fault + bytes" where
  "unescape raw has_escaping = (if has_escaping then unescape_loop [] raw else Inr raw)"


section \<open>The parser\<close>

type_synonym 'a decoded = "fault + 'a option"

definition and_then :: "'a decoded \<Rightarrow> ('a \<Rightarrow> 'b decoded) \<Rightarrow> 'b decoded" where
  "and_then m f = (case m of Inl e \<Rightarrow> Inl e | Inr None \<Rightarrow> Inr None | Inr (Some x) \<Rightarrow> f x)"

fun peek :: "bytes \<Rightarrow> char decoded" where
  "peek [] = Inl Bad_range"
| "peek (c # cs) = Inr (Some c)"

definition consume :: "char \<Rightarrow> bytes \<Rightarrow> bytes decoded" where
  "consume c xs = and_then (peek xs) (\<lambda>x. if x \<noteq> c then Inr None else Inr (Some (tl xs)))"

definition is_ws :: "char \<Rightarrow> bool" where
  "is_ws c \<longleftrightarrow> c = CHR '' '' \<or> c = TAB \<or> c = CR \<or> c = LF"

fun ws_skip :: "bytes \<Rightarrow> bytes decoded" where
  "ws_skip [] = Inl Bad_range"
| "ws_skip (c # cs) = (if is_ws c then ws_skip cs else Inr (Some (c # cs)))"

definition check_hex :: "char \<Rightarrow> bool" where
  "check_hex c \<longleftrightarrow> is_digit c \<or> (97 \<le> (of_char c :: nat) \<and> (of_char c :: nat) \<le> 102) \<or>
     (65 \<le> (of_char c :: nat) \<and> (of_char c :: nat) \<le> 70)"

text \<open>The four checks behind \<^verbatim>\<open>\u\<close>, each made only when those before it hold.\<close>

fun check_hexes :: "nat \<Rightarrow> bytes \<Rightarrow> fault + bool" where
  "check_hexes 0 xs = Inr True"
| "check_hexes (Suc n) [] = Inl Bad_range"
| "check_hexes (Suc n) (x # xs) = (if check_hex x then check_hexes n xs else Inr False)"

definition plain_escapes :: "char list" where
  "plain_escapes = [QUOTE, BACKSLASH, CHR ''/'', CHR ''b'', CHR ''f'', CHR ''n'', CHR ''r'', CHR ''t'']"

text \<open>
  The loop of \<^verbatim>\<open>decode_string\<close> behind the opening quote: the bytes of the string, whether
  it has escapes, and the cursor behind the closing quote.
\<close>

function string_loop :: "bytes \<Rightarrow> bool \<Rightarrow> bytes \<Rightarrow> (bytes \<times> bool \<times> bytes) decoded" where
  "string_loop acc has_escaping [] = Inl Bad_range"
| "string_loop acc has_escaping (c # cs) =
     (if c \<noteq> QUOTE \<and> c \<noteq> BACKSLASH \<and> c \<noteq> NUL then string_loop (acc @ [c]) has_escaping cs
      else if c = QUOTE then Inr (Some (acc, has_escaping, cs))
      else if c = BACKSLASH then
        (case cs of
           [] \<Rightarrow> Inl Bad_range
         | d # ds \<Rightarrow>
             if d = CHR ''u'' then
               (case check_hexes 4 ds of
                  Inl e \<Rightarrow> Inl e
                | Inr ok \<Rightarrow>
                    if \<not> ok then Inr None
                    else string_loop (acc @ [c, d] @ take 4 ds) True (drop 4 ds))
             else if d \<in> set plain_escapes then string_loop (acc @ [c, d]) True ds
             else Inr None)
      else Inr None)"
  by pat_completeness auto

termination by (relation "measure (\<lambda>(acc, e, xs). length xs)") auto

definition decode_string :: "bytes \<Rightarrow> (bytes \<times> bool \<times> bytes) decoded" where
  "decode_string xs = and_then (consume QUOTE xs) (string_loop [] False)"

datatype num_state =
  Minus | AfterMinus | ZeroFirst | Digits | DigitsAfterPoints | E | DigitsAfterE | Invalid

fun num_index :: "num_state \<Rightarrow> nat" where
  "num_index Minus = 0"
| "num_index AfterMinus = 1"
| "num_index ZeroFirst = 2"
| "num_index Digits = 3"
| "num_index DigitsAfterPoints = 4"
| "num_index E = 5"
| "num_index DigitsAfterE = 6"
| "num_index Invalid = 7"

definition num_states :: "num_state list" where
  "num_states = [Minus, AfterMinus, ZeroFirst, Digits, DigitsAfterPoints, E, DigitsAfterE, Invalid]"

text \<open>The tables of the transitions are strings of digits, indexed by the state.\<close>

definition num_table :: "nat list \<Rightarrow> num_state \<Rightarrow> num_state" where
  "num_table tab st = num_states ! (tab ! num_index st)"

definition zero_table :: "nat list" where "zero_table = [2, 2, 7, 3, 4, 6, 6]"
definition digit_table :: "nat list" where "digit_table = [3, 3, 7, 3, 4, 6, 6]"
definition point_table :: "nat list" where "point_table = [7, 7, 4, 4, 7, 7, 7]"
definition minus_table :: "nat list" where "minus_table = [1, 7, 7, 7, 7, 6, 7]"
definition plus_table :: "nat list" where "plus_table = [7, 7, 7, 7, 7, 6, 7]"
definition exp_table :: "nat list" where "exp_table = [7, 7, 7, 5, 5, 7, 7]"

definition num_accepts :: "num_state \<Rightarrow> bool" where
  "num_accepts st \<longleftrightarrow> st = ZeroFirst \<or> st = Digits \<or> st = DigitsAfterPoints \<or> st = DigitsAfterE"

text \<open>A digit from 1 on takes the digits behind it along; that loop needs a byte that ends it.\<close>

function number_loop :: "num_state \<Rightarrow> bytes \<Rightarrow> bytes \<Rightarrow> (bytes \<times> bytes) decoded" where
  "number_loop st acc xs =
     (if st = Invalid then Inr None
      else
        (case xs of
           [] \<Rightarrow> Inl Bad_range
         | c # cs \<Rightarrow>
             if c = CHR ''0'' then number_loop (num_table zero_table st) (acc @ [c]) cs
             else if is_digit c then
               (if dropWhile is_digit cs = [] then Inl Bad_range
                else number_loop (num_table digit_table st) (acc @ c # takeWhile is_digit cs)
                       (dropWhile is_digit cs))
             else if c = CHR ''.'' then number_loop (num_table point_table st) (acc @ [c]) cs
             else if c = CHR ''-'' then number_loop (num_table minus_table st) (acc @ [c]) cs
             else if c = CHR ''+'' then number_loop (num_table plus_table st) (acc @ [c]) cs
             else if c = CHR ''e'' \<or> c = CHR ''E'' then number_loop (num_table exp_table st) (acc @ [c]) cs
             else if num_accepts st then Inr (Some (acc, xs))
             else Inr None))"
  by pat_completeness auto

termination
  by (relation "measure (\<lambda>(st, acc, xs). length xs)") (auto simp: less_Suc_eq_le length_dropWhile_le)

definition decode_number :: "bytes \<Rightarrow> (rvalue \<times> bytes) decoded" where
  "decode_number xs = and_then (number_loop Minus [] xs) (\<lambda>(t, ys). Inr (Some (RNumber t, ys)))"

text \<open>The rest of a literal, compared byte by byte up to the first difference.\<close>

fun match_rest :: "bytes \<Rightarrow> bytes \<Rightarrow> fault + bool" where
  "match_rest [] xs = Inr True"
| "match_rest (w # ws) [] = Inl Bad_range"
| "match_rest (w # ws) (x # xs) = (if x = w then match_rest ws xs else Inr False)"

definition decode_literal :: "bytes \<Rightarrow> rvalue \<Rightarrow> bytes \<Rightarrow> (rvalue \<times> bytes) decoded" where
  "decode_literal w v xs =
     (case match_rest w xs of
        Inl e \<Rightarrow> Inl e
      | Inr ok \<Rightarrow> if ok then Inr (Some (v, drop (length w) xs)) else Inr None)"

text \<open>
  Values, lists and objects. The first argument bounds the depth of the calls; a bound of
  twice the bytes left is always enough.
\<close>

definition decode_list_with ::
  "(rvalue list \<Rightarrow> bytes \<Rightarrow> (rvalue \<times> bytes) decoded) \<Rightarrow> bytes \<Rightarrow> (rvalue \<times> bytes) decoded"
where
  "decode_list_with loop xs =
     and_then (consume (CHR ''['') xs) (\<lambda>xs1.
     and_then (ws_skip xs1) (\<lambda>xs2.
     and_then (peek xs2) (\<lambda>c.
       if c = CHR '']'' then Inr (Some (RList [], tl xs2)) else loop [] xs2)))"

definition decode_object_with ::
  "((bytes \<times> rvalue) list \<Rightarrow> bytes \<Rightarrow> (rvalue \<times> bytes) decoded) \<Rightarrow> bytes \<Rightarrow> (rvalue \<times> bytes) decoded"
where
  "decode_object_with loop xs =
     and_then (consume (CHR ''{'') xs) (\<lambda>xs1.
     and_then (ws_skip xs1) (\<lambda>xs2.
     and_then (peek xs2) (\<lambda>c.
       if c = CHR ''}'' then Inr (Some (RObject [], tl xs2)) else loop [] xs2)))"

fun decode_value :: "nat \<Rightarrow> bytes \<Rightarrow> (rvalue \<times> bytes) decoded"
  and list_loop :: "nat \<Rightarrow> rvalue list \<Rightarrow> bytes \<Rightarrow> (rvalue \<times> bytes) decoded"
  and object_loop :: "nat \<Rightarrow> (bytes \<times> rvalue) list \<Rightarrow> bytes \<Rightarrow> (rvalue \<times> bytes) decoded"
where
  "decode_value 0 xs = Inl Out_of_fuel"
| "decode_value (Suc n) xs =
     and_then (peek xs) (\<lambda>c.
       if c = CHR ''['' then decode_list_with (list_loop n) xs
       else if c = CHR ''{'' then decode_object_with (object_loop n) xs
       else if c = QUOTE then
         and_then (decode_string xs) (\<lambda>(raw, e, ys). Inr (Some (RString raw e, ys)))
       else if c = CHR ''t'' then decode_literal ''rue'' RTrue (tl xs)
       else if c = CHR ''f'' then decode_literal ''alse'' RFalse (tl xs)
       else if c = CHR ''n'' then decode_literal ''ull'' RNull (tl xs)
       else decode_number xs)"
| "list_loop 0 acc xs = Inl Out_of_fuel"
| "list_loop (Suc n) acc xs =
     and_then (decode_value n xs) (\<lambda>(v, xs1).
     and_then (ws_skip xs1) (\<lambda>xs2.
     and_then (peek xs2) (\<lambda>c.
       if c = CHR '']'' then Inr (Some (RList (acc @ [v]), tl xs2))
       else and_then (consume (CHR '','') xs2) (\<lambda>xs3.
            and_then (ws_skip xs3) (list_loop n (acc @ [v]))))))"
| "object_loop 0 acc xs = Inl Out_of_fuel"
| "object_loop (Suc n) acc xs =
     and_then (decode_string xs) (\<lambda>(raw, e, xs1).
     and_then (ws_skip xs1) (\<lambda>xs2.
     and_then (consume (CHR '':'') xs2) (\<lambda>xs3.
     and_then (case unescape raw e of Inl f \<Rightarrow> Inl f | Inr k \<Rightarrow> Inr (Some k)) (\<lambda>key.
     and_then (ws_skip xs3) (\<lambda>xs4.
     and_then (decode_value n xs4) (\<lambda>(v, xs5).
     and_then (ws_skip xs5) (\<lambda>xs6.
     and_then (peek xs6) (\<lambda>c.
       if c = CHR ''}'' then Inr (Some (RObject (acc @ [(key, v)]), tl xs6))
       else and_then (consume (CHR '','') xs6) (\<lambda>xs7.
            and_then (ws_skip xs7) (object_loop n (acc @ [(key, v)])))))))))))"

text \<open>\<^verbatim>\<open>Parser::parse\<close>: the value, then white space up to a NUL.\<close>

definition parse_json :: "bytes \<Rightarrow> rvalue decoded" where
  "parse_json xs =
     and_then (ws_skip xs) (\<lambda>xs1.
     and_then (decode_value (2 * length xs1) xs1) (\<lambda>(v, xs2).
     and_then (ws_skip xs2) (\<lambda>xs3.
     and_then (peek xs3) (\<lambda>c. if c \<noteq> NUL then Inr None else Inr (Some v)))))"

definition load_json :: "bytes \<Rightarrow> rvalue decoded" where
  "load_json body = parse_json (body @ [NUL])"

end
