(* ===== verification/Crow_Json_Safety.thy ===== *)
theory Crow_Json_Safety
  imports Crow_Json
begin

text \<open>
  The parser of \<^verbatim>\<open>json.h\<close> on arbitrary bytes: it returns on every input, never reads past
  the NUL behind it, and what it accepts as a number is given by a grammar.
\<close>

section \<open>Results without a fault\<close>

definition terminated :: "bytes \<Rightarrow> bool" where
  "terminated xs \<longleftrightarrow> xs \<noteq> [] \<and> last xs = NUL"

definition ok_result :: "('a \<Rightarrow> bool) \<Rightarrow> 'a decoded \<Rightarrow> bool" where
  "ok_result P r \<longleftrightarrow> (\<forall>e. r \<noteq> Inl e) \<and> (\<forall>y. r = Inr (Some y) \<longrightarrow> P y)"

named_theorems ok_rules \<open>results without a fault\<close>

lemma ok_None [simp, ok_rules]: "ok_result P (Inr None)"
  by (simp add: ok_result_def)

lemma ok_Some [simp]: "ok_result P (Inr (Some y)) \<longleftrightarrow> P y"
  by (auto simp: ok_result_def)

lemma ok_and_then:
  assumes "ok_result P m" and "\<And>y. P y \<Longrightarrow> ok_result Q (f y)"
  shows "ok_result Q (and_then m f)"
  using assms by (auto simp: ok_result_def and_then_def split: sum.split option.split)

lemma ok_weaken: "ok_result P m \<Longrightarrow> (\<And>y. P y \<Longrightarrow> Q y) \<Longrightarrow> ok_result Q m"
  by (auto simp: ok_result_def)

lemma terminated_Cons [simp]: "terminated (c # cs) \<longleftrightarrow> (if cs = [] then c = NUL else terminated cs)"
  by (simp add: terminated_def)

lemma terminated_Nil [simp]: "\<not> terminated []"
  by (simp add: terminated_def)

lemma terminated_body [simp]: "terminated (body @ [NUL])"
  by (simp add: terminated_def)

lemma ok_peek: "terminated xs \<Longrightarrow> ok_result (\<lambda>c. xs = c # tl xs) (peek xs)"
  by (cases xs) auto

lemma ok_consume:
  "terminated xs \<Longrightarrow> c \<noteq> NUL \<Longrightarrow>
   ok_result (\<lambda>ys. terminated ys \<and> length xs = Suc (length ys)) (consume c xs)"
  by (cases xs) (auto simp: consume_def and_then_def split: if_splits)

lemma ok_ws_skip:
  "terminated xs \<Longrightarrow> ok_result (\<lambda>ys. terminated ys \<and> length ys \<le> length xs) (ws_skip xs)"
proof (induction xs)
  case (Cons c cs)
  then show ?case by (cases "cs = []") (auto simp: is_ws_def intro: ok_weaken)
qed simp

section \<open>Numbers\<close>

definition num_char :: "char \<Rightarrow> bool" where
  "num_char c \<longleftrightarrow> is_digit c \<or> c = CHR ''.'' \<or> c = CHR ''-'' \<or> c = CHR ''+'' \<or> c = CHR ''e'' \<or>
     c = CHR ''E''"

text \<open>
  The grammar: a sign, digits without a leading zero, a point with any digits or none, and an
  exponent, which must not follow a bare zero and may be a sign alone.
\<close>

definition exponent :: "bytes \<Rightarrow> bool" where
  "exponent t \<longleftrightarrow>
     (case t of
        e # s # ds \<Rightarrow> (e = CHR ''e'' \<or> e = CHR ''E'') \<and>
          (s = CHR ''+'' \<or> s = CHR ''-'' \<or> is_digit s) \<and> list_all is_digit ds
      | _ \<Rightarrow> False)"

definition fraction :: "bytes \<Rightarrow> bool" where
  "fraction t \<longleftrightarrow> (let r = dropWhile is_digit t in r = [] \<or> exponent r)"

definition unsigned_number :: "bytes \<Rightarrow> bool" where
  "unsigned_number u \<longleftrightarrow>
     (let ip = takeWhile is_digit u; r = dropWhile is_digit u
      in ip \<noteq> [] \<and> (hd ip = CHR ''0'' \<longrightarrow> ip = ''0'') \<and>
         (case r of
            [] \<Rightarrow> True
          | c # cs \<Rightarrow> if c = CHR ''.'' then fraction cs else ip \<noteq> ''0'' \<and> exponent r))"

definition number_text :: "bytes \<Rightarrow> bool" where
  "number_text t \<longleftrightarrow>
     (case t of [] \<Rightarrow> False | c # cs \<Rightarrow> if c = CHR ''-'' then unsigned_number cs else unsigned_number t)"

text \<open>The automaton of the code, one byte at a time.\<close>

definition num_step :: "num_state \<Rightarrow> char \<Rightarrow> num_state" where
  "num_step st c =
     (if st = Invalid then Invalid
      else if c = CHR ''0'' then num_table zero_table st
      else if is_digit c then num_table digit_table st
      else if c = CHR ''.'' then num_table point_table st
      else if c = CHR ''-'' then num_table minus_table st
      else if c = CHR ''+'' then num_table plus_table st
      else if c = CHR ''e'' \<or> c = CHR ''E'' then num_table exp_table st
      else Invalid)"

definition accepts :: "num_state \<Rightarrow> bytes \<Rightarrow> bool" where
  "accepts st t \<longleftrightarrow> num_accepts (foldl num_step st t)"

lemmas table_defs = num_table_def num_states_def zero_table_def digit_table_def point_table_def
  minus_table_def plus_table_def exp_table_def

lemma table_simps [simp]:
  "num_table zero_table Minus = ZeroFirst" "num_table zero_table AfterMinus = ZeroFirst"
  "num_table zero_table ZeroFirst = Invalid" "num_table zero_table Digits = Digits"
  "num_table zero_table DigitsAfterPoints = DigitsAfterPoints"
  "num_table zero_table E = DigitsAfterE" "num_table zero_table DigitsAfterE = DigitsAfterE"
  "num_table digit_table Minus = Digits" "num_table digit_table AfterMinus = Digits"
  "num_table digit_table ZeroFirst = Invalid" "num_table digit_table Digits = Digits"
  "num_table digit_table DigitsAfterPoints = DigitsAfterPoints"
  "num_table digit_table E = DigitsAfterE" "num_table digit_table DigitsAfterE = DigitsAfterE"
  "num_table point_table Minus = Invalid" "num_table point_table AfterMinus = Invalid"
  "num_table point_table ZeroFirst = DigitsAfterPoints" "num_table point_table Digits = DigitsAfterPoints"
  "num_table point_table DigitsAfterPoints = Invalid" "num_table point_table E = Invalid"
  "num_table point_table DigitsAfterE = Invalid"
  "num_table minus_table Minus = AfterMinus" "num_table minus_table AfterMinus = Invalid"
  "num_table minus_table ZeroFirst = Invalid" "num_table minus_table Digits = Invalid"
  "num_table minus_table DigitsAfterPoints = Invalid" "num_table minus_table E = DigitsAfterE"
  "num_table minus_table DigitsAfterE = Invalid"
  "num_table plus_table Minus = Invalid" "num_table plus_table AfterMinus = Invalid"
  "num_table plus_table ZeroFirst = Invalid" "num_table plus_table Digits = Invalid"
  "num_table plus_table DigitsAfterPoints = Invalid" "num_table plus_table E = DigitsAfterE"
  "num_table plus_table DigitsAfterE = Invalid"
  "num_table exp_table Minus = Invalid" "num_table exp_table AfterMinus = Invalid"
  "num_table exp_table ZeroFirst = Invalid" "num_table exp_table Digits = E"
  "num_table exp_table DigitsAfterPoints = E" "num_table exp_table E = Invalid"
  "num_table exp_table DigitsAfterE = Invalid"
  by (simp_all add: table_defs)

lemma accepts_Cons [simp]: "accepts st (c # cs) = accepts (num_step st c) cs"
  by (simp add: accepts_def)

lemma accepts_Nil [simp]: "accepts st [] = num_accepts st"
  by (simp add: accepts_def)

lemma not_digits [simp]:
  "\<not> is_digit (CHR ''.'')" "\<not> is_digit (CHR ''-'')" "\<not> is_digit (CHR ''+'')"
  "\<not> is_digit (CHR ''e'')" "\<not> is_digit (CHR ''E'')" "\<not> is_digit NUL" "is_digit (CHR ''0'')"
  by (simp_all add: is_digit_def)

lemma num_step_Invalid [simp]: "num_step Invalid c = Invalid"
  by (simp add: num_step_def)

lemma accepts_Invalid [simp]: "\<not> accepts Invalid t"
  by (induction t) (simp_all add: num_accepts_def)

lemma step_digit:
  assumes "is_digit c"
  shows "num_step DigitsAfterE c = DigitsAfterE" "num_step E c = DigitsAfterE"
    "num_step DigitsAfterPoints c = DigitsAfterPoints" "num_step Digits c = Digits"
    "num_step ZeroFirst c = Invalid"
    "num_step AfterMinus c = (if c = CHR ''0'' then ZeroFirst else Digits)"
    "num_step Minus c = (if c = CHR ''0'' then ZeroFirst else Digits)"
  using assms by (simp_all add: num_step_def)

lemma step_other:
  assumes "\<not> is_digit c"
  shows "num_step DigitsAfterE c = Invalid"
    "num_step E c = (if c = CHR ''-'' \<or> c = CHR ''+'' then DigitsAfterE else Invalid)"
    "num_step DigitsAfterPoints c = (if c = CHR ''e'' \<or> c = CHR ''E'' then E else Invalid)"
    "num_step Digits c = (if c = CHR ''.'' then DigitsAfterPoints
       else if c = CHR ''e'' \<or> c = CHR ''E'' then E else Invalid)"
    "num_step ZeroFirst c = (if c = CHR ''.'' then DigitsAfterPoints else Invalid)"
    "num_step AfterMinus c = Invalid"
    "num_step Minus c = (if c = CHR ''-'' then AfterMinus else Invalid)"
proof -
  have "c \<noteq> CHR ''0''" using assms by auto
  with assms show "num_step DigitsAfterE c = Invalid"
    "num_step E c = (if c = CHR ''-'' \<or> c = CHR ''+'' then DigitsAfterE else Invalid)"
    "num_step DigitsAfterPoints c = (if c = CHR ''e'' \<or> c = CHR ''E'' then E else Invalid)"
    "num_step Digits c = (if c = CHR ''.'' then DigitsAfterPoints
       else if c = CHR ''e'' \<or> c = CHR ''E'' then E else Invalid)"
    "num_step ZeroFirst c = (if c = CHR ''.'' then DigitsAfterPoints else Invalid)"
    "num_step AfterMinus c = Invalid"
    "num_step Minus c = (if c = CHR ''-'' then AfterMinus else Invalid)"
    by (simp_all add: num_step_def)
qed

lemma accepts_DigitsAfterE: "accepts DigitsAfterE t \<longleftrightarrow> list_all is_digit t"
proof (induction t)
  case (Cons c cs)
  then show ?case by (cases "is_digit c") (simp_all add: step_digit step_other)
qed (simp add: num_accepts_def)

lemma exponent_Cons:
  "c = CHR ''e'' \<or> c = CHR ''E'' \<Longrightarrow> exponent (c # s # ds) \<longleftrightarrow>
     (s = CHR ''+'' \<or> s = CHR ''-'' \<or> is_digit s) \<and> list_all is_digit ds"
  by (simp add: exponent_def)

lemma accepts_E:
  assumes "c = CHR ''e'' \<or> c = CHR ''E''"
  shows "accepts E t \<longleftrightarrow> exponent (c # t)"
proof (cases t)
  case (Cons s ds)
  have "accepts (num_step E s) ds \<longleftrightarrow>
      (s = CHR ''+'' \<or> s = CHR ''-'' \<or> is_digit s) \<and> list_all is_digit ds"
    by (cases "is_digit s") (simp_all add: step_digit step_other accepts_DigitsAfterE)
  with Cons show ?thesis by (simp add: exponent_Cons [OF assms])
qed (simp add: exponent_def num_accepts_def)

lemma exponent_start: "\<not> (c = CHR ''e'' \<or> c = CHR ''E'') \<Longrightarrow> \<not> exponent (c # t)"
  by (auto simp: exponent_def split: list.split)

lemma accepts_DigitsAfterPoints: "accepts DigitsAfterPoints t \<longleftrightarrow> fraction t"
proof (induction t)
  case (Cons c cs)
  then show ?case
    by (cases "is_digit c") (auto simp: fraction_def step_digit step_other accepts_E exponent_start)
qed (simp add: num_accepts_def fraction_def)

lemma accepts_Digits:
  "accepts Digits t \<longleftrightarrow>
     (case dropWhile is_digit t of
        [] \<Rightarrow> True
      | c # cs \<Rightarrow> if c = CHR ''.'' then fraction cs else exponent (c # cs))"
proof (induction t)
  case (Cons c cs)
  then show ?case
    by (cases "is_digit c")
       (auto simp: step_digit step_other accepts_E exponent_start accepts_DigitsAfterPoints)
qed (simp add: num_accepts_def)

lemma accepts_ZeroFirst:
  "accepts ZeroFirst t \<longleftrightarrow> (case t of [] \<Rightarrow> True | c # cs \<Rightarrow> c = CHR ''.'' \<and> fraction cs)"
proof (cases t)
  case (Cons c cs)
  then show ?thesis
    by (cases "is_digit c") (auto simp: step_digit step_other accepts_DigitsAfterPoints)
qed (simp add: num_accepts_def)

lemma accepts_unsigned: "accepts AfterMinus t \<longleftrightarrow> unsigned_number t"
proof (cases t)
  case (Cons c cs)
  show ?thesis
  proof (cases "c = CHR ''0''")
    case True
    have "unsigned_number (CHR ''0'' # cs) \<longleftrightarrow>
        (case cs of [] \<Rightarrow> True | c # cs \<Rightarrow> c = CHR ''.'' \<and> fraction cs)"
      by (cases cs) (simp_all add: unsigned_number_def)
    with Cons True show ?thesis by (simp add: step_digit accepts_ZeroFirst)
  next
    case False
    then have "unsigned_number (c # cs) \<longleftrightarrow> is_digit c \<and>
        (case dropWhile is_digit cs of
           [] \<Rightarrow> True | d # ds \<Rightarrow> if d = CHR ''.'' then fraction ds else exponent (d # ds))"
      by (simp add: unsigned_number_def Let_def del: dropWhile_eq_Nil_conv split: list.split)
    with Cons False show ?thesis
      by (cases "is_digit c") (simp_all add: step_digit step_other accepts_Digits)
  qed
qed (simp add: num_accepts_def unsigned_number_def)

lemma accepts_Minus: "accepts Minus t \<longleftrightarrow> number_text t"
proof (cases t)
  case (Cons c cs)
  have "c \<noteq> CHR ''-'' \<Longrightarrow> num_step Minus c = num_step AfterMinus c"
    by (cases "is_digit c") (simp_all add: step_digit step_other)
  with Cons accepts_unsigned [of t] accepts_unsigned [of cs] show ?thesis
    by (auto simp: number_text_def step_other)
qed (simp add: num_accepts_def number_text_def)


text \<open>The loop of the code takes the longest run of number characters through the automaton.\<close>

declare number_loop.simps [simp del]

lemma accepts_digits:
  assumes "list_all is_digit ds" and "st \<in> {Digits, DigitsAfterPoints, DigitsAfterE, Invalid}"
  shows "accepts st (ds @ t) = accepts st t"
  using assms
proof (induction ds)
  case (Cons d ds)
  then have "num_step st d = st" by (auto simp: step_digit)
  with Cons show ?case by simp
qed simp

lemma digit_step_range: "is_digit c \<Longrightarrow> c \<noteq> CHR ''0'' \<Longrightarrow>
  num_step st c \<in> {Digits, DigitsAfterPoints, DigitsAfterE, Invalid}"
  by (cases st) (simp_all add: step_digit)

lemma num_step_class:
  "st \<noteq> Invalid \<Longrightarrow> num_table zero_table st = num_step st (CHR ''0'')"
  "st \<noteq> Invalid \<Longrightarrow> is_digit c \<Longrightarrow> c \<noteq> CHR ''0'' \<Longrightarrow> num_table digit_table st = num_step st c"
  "st \<noteq> Invalid \<Longrightarrow> num_table point_table st = num_step st (CHR ''.'')"
  "st \<noteq> Invalid \<Longrightarrow> num_table minus_table st = num_step st (CHR ''-'')"
  "st \<noteq> Invalid \<Longrightarrow> num_table plus_table st = num_step st (CHR ''+'')"
  "st \<noteq> Invalid \<Longrightarrow> num_table exp_table st = num_step st (CHR ''e'')"
  "st \<noteq> Invalid \<Longrightarrow> num_table exp_table st = num_step st (CHR ''E'')"
  by (simp_all add: num_step_def)

lemma terminated_dropWhile:
  assumes "terminated xs" and "\<not> P NUL"
  shows "terminated (dropWhile P xs)"
proof -
  have "last xs = NUL" "NUL \<in> set xs"
    using assms(1) last_in_set [of xs] by (simp_all add: terminated_def)
  with assms(2) show ?thesis using dropWhile_last [of NUL xs P] by (auto simp: terminated_def)
qed

lemma takeWhile_num_digits:
  "takeWhile num_char xs = takeWhile is_digit xs @ takeWhile num_char (dropWhile is_digit xs)"
  "dropWhile num_char xs = dropWhile num_char (dropWhile is_digit xs)"
  by (induction xs) (auto simp: num_char_def)

lemma number_loop_one:
  assumes "num_char c" and "st \<noteq> Invalid" and "\<not> is_digit c \<or> c = CHR ''0''"
  shows "number_loop st acc (c # cs) = number_loop (num_step st c) (acc @ [c]) cs"
proof -
  from assms(1,3) consider "c = CHR ''0''" | "c = CHR ''.''" | "c = CHR ''-''" | "c = CHR ''+''"
    | "c = CHR ''e''" | "c = CHR ''E''" unfolding num_char_def by blast
  then show ?thesis
    by cases (subst number_loop.simps; simp add: assms(2) num_step_def)+
qed

lemma number_loop_digits:
  assumes "is_digit c" and "c \<noteq> CHR ''0''" and "st \<noteq> Invalid" and "dropWhile is_digit cs \<noteq> []"
  shows "number_loop st acc (c # cs) =
    number_loop (num_step st c) (acc @ c # takeWhile is_digit cs) (dropWhile is_digit cs)"
  using assms by (subst number_loop.simps) (simp add: num_step_def del: dropWhile_eq_Nil_conv)

lemma number_loop_accepts:
  "terminated xs \<Longrightarrow> number_loop st acc xs =
     (if accepts st (takeWhile num_char xs)
      then Inr (Some (acc @ takeWhile num_char xs, dropWhile num_char xs)) else Inr None)"
proof (induction "length xs" arbitrary: st acc xs rule: less_induct)
  case less
  obtain c cs where xs: "xs = c # cs" using less.prems by (cases xs) auto
  consider "st = Invalid" | (stop) "st \<noteq> Invalid" "\<not> num_char c"
    | (one) "st \<noteq> Invalid" "num_char c" "\<not> is_digit c \<or> c = CHR ''0''"
    | (digits) "st \<noteq> Invalid" "is_digit c" "c \<noteq> CHR ''0''" by blast
  then show ?case
  proof cases
    case 1
    then show ?thesis by (simp add: number_loop.simps)
  next
    case stop
    have "\<not> is_digit c" using stop(2) by (simp add: num_char_def)
    moreover from this have "c \<noteq> CHR ''0''" using not_digits(7) by metis
    ultimately show ?thesis using stop xs by (subst number_loop.simps) (simp add: num_char_def)
  next
    case one
    then have "terminated cs" using less.prems xs by (auto simp: num_char_def split: if_splits)
    with less.hyps [of cs] one xs show ?thesis by (simp add: number_loop_one)
  next
    case digits
    then have cs: "terminated cs" using less.prems xs by (auto split: if_splits)
    then have r: "terminated (dropWhile is_digit cs)" by (simp add: terminated_dropWhile)
    then have ne: "dropWhile is_digit cs \<noteq> []" using terminated_Nil by metis
    have "accepts (num_step st c) (takeWhile num_char cs) =
        accepts (num_step st c) (takeWhile num_char (dropWhile is_digit cs))"
      unfolding takeWhile_num_digits(1) [of cs]
      by (rule accepts_digits) (use digits digit_step_range in \<open>auto simp: list_all_iff dest: set_takeWhileD\<close>)
    moreover have "num_char c" using digits by (simp add: num_char_def)
    moreover have "length (dropWhile is_digit cs) < length xs"
      using xs length_dropWhile_le [of is_digit cs] by simp
    ultimately show ?thesis
      using less.hyps [OF _ r] xs number_loop_digits [OF digits(2,3,1) ne]
        takeWhile_num_digits [of cs] by simp
  qed
qed

lemma decode_number_eq:
  assumes "terminated xs"
  shows "decode_number xs =
    (if number_text (takeWhile num_char xs)
     then Inr (Some (RNumber (takeWhile num_char xs), dropWhile num_char xs)) else Inr None)"
  using number_loop_accepts [OF assms, of Minus "[]"]
  by (simp add: decode_number_def and_then_def accepts_Minus)


section \<open>Strings\<close>

lemma unescape_append:
  "unescape_loop out raw = Inr s \<Longrightarrow> unescape_loop out (raw @ more) = unescape_loop s more"
proof (induction "length raw" arbitrary: out raw rule: less_induct)
  case less
  show ?case
  proof (cases raw)
    case (Cons h hs)
    show ?thesis
    proof (cases "h = BACKSLASH")
      case True
      with Cons less.prems obtain e es where hs: "hs = e # es" by (cases hs) auto
      show ?thesis
      proof (cases "e = CHR ''u''")
        case u: True
        with True Cons hs less.prems have "4 \<le> length es"
          by (auto simp: Suc_le_eq numeral_eq_Suc split: list.splits)
        then obtain a b c d rest where "es = a # b # c # d # rest"
          by (auto simp: numeral_eq_Suc Suc_le_length_iff)
        with True u Cons hs less show ?thesis by simp
      qed (use True Cons hs less in simp)
    qed (use Cons less in simp)
  qed (use less.prems in simp)
qed

definition raw_ok :: "bytes \<Rightarrow> bool" where
  "raw_ok raw \<longleftrightarrow> (\<forall>out. \<exists>s. unescape_loop out raw = Inr s)"

lemma raw_ok_Nil [simp]: "raw_ok []"
  by (simp add: raw_ok_def)

lemma raw_ok_append: "raw_ok raw \<Longrightarrow> raw_ok more \<Longrightarrow> raw_ok (raw @ more)"
  by (metis raw_ok_def unescape_append)

lemma raw_ok_plain: "c \<noteq> BACKSLASH \<Longrightarrow> raw_ok [c]"
  by (simp add: raw_ok_def)

lemma raw_ok_escape: "d \<noteq> CHR ''u'' \<Longrightarrow> raw_ok [BACKSLASH, d]"
  by (simp add: raw_ok_def)

lemma raw_ok_hex: "length ds = 4 \<Longrightarrow> raw_ok ([BACKSLASH, CHR ''u''] @ ds)"
  by (auto simp: raw_ok_def numeral_eq_Suc length_Suc_conv)

lemma check_hexes_ok:
  "terminated xs \<Longrightarrow> \<exists>ok. check_hexes n xs = Inr ok \<and>
     (ok \<longrightarrow> terminated (drop n xs) \<and> length (take n xs) = n)"
proof (induction n xs rule: check_hexes.induct)
  case (3 n x xs)
  then show ?case
    by (cases "xs = []") (auto simp: check_hex_def is_digit_def)
qed auto

lemma string_loop_ok:
  "terminated xs \<Longrightarrow> raw_ok acc \<Longrightarrow>
   ok_result (\<lambda>(raw, e, ys). terminated ys \<and> length ys < length xs \<and> raw_ok raw)
     (string_loop acc has_escaping xs)"
proof (induction "length xs" arbitrary: acc has_escaping xs rule: less_induct)
  case less
  obtain c cs where xs: "xs = c # cs" using less.prems(1) by (cases xs) auto
  have shorter: "ok_result (\<lambda>(raw, e, ys). terminated ys \<and> length ys < length xs \<and> raw_ok raw)
      (string_loop acc' e' ys)" if "terminated ys" "length ys < length xs" "raw_ok acc'" for acc' e' ys
    by (rule ok_weaken [OF less.hyps [OF that(2,1,3)]]) (use that(2) in auto)
  show ?case
  proof (cases "c = BACKSLASH")
    case False
    show ?thesis
    proof (cases "c = QUOTE \<or> c = NUL")
      case True
      with xs less.prems show ?thesis by (auto split: if_splits)
    next
      case plain: False
      then have "string_loop acc has_escaping xs = string_loop (acc @ [c]) has_escaping cs"
        using xs False by simp
      moreover have "terminated cs" using xs less.prems(1) plain by (auto split: if_splits)
      ultimately show ?thesis
        using shorter [of cs "acc @ [c]" has_escaping] xs raw_ok_append [OF less.prems(2) raw_ok_plain [OF False]]
        by simp
    qed
  next
    case True
    with xs less.prems obtain d ds where cs: "cs = d # ds" "terminated cs"
      by (cases cs) auto
    show ?thesis
    proof (cases "d = CHR ''u''")
      case True
      with cs have ds: "terminated ds" by (auto split: if_splits)
      from check_hexes_ok [OF this, of 4] obtain ok where ok: "check_hexes 4 ds = Inr ok"
        "ok \<longrightarrow> terminated (drop 4 ds) \<and> length (take 4 ds) = 4" by blast
      have "raw_ok (acc @ ([BACKSLASH, CHR ''u''] @ take 4 ds))" if ok
        using ok(2) that by (intro raw_ok_append [OF less.prems(2) raw_ok_hex]) simp
      moreover have "string_loop acc has_escaping xs = (if \<not> ok then Inr None
          else string_loop (acc @ [BACKSLASH, CHR ''u''] @ take 4 ds) True (drop 4 ds))"
        using True \<open>c = BACKSLASH\<close> xs cs ok(1) by simp
      ultimately show ?thesis
        using ok(2) shorter [of "drop 4 ds" "acc @ [BACKSLASH, CHR ''u''] @ take 4 ds" True] xs cs
        by simp
    next
      case False
      then have "raw_ok (acc @ [BACKSLASH, d])"
        using less.prems(2) by (intro raw_ok_append raw_ok_escape)
      moreover have "string_loop acc has_escaping xs = (if d \<in> set plain_escapes
          then string_loop (acc @ [BACKSLASH, d]) True ds else Inr None)"
        using False \<open>c = BACKSLASH\<close> xs cs by simp
      moreover have "terminated ds" if "d \<in> set plain_escapes"
        using cs that by (auto simp: plain_escapes_def split: if_splits)
      ultimately show ?thesis
        using shorter [of ds "acc @ [BACKSLASH, d]" True] xs cs by simp
    qed
  qed
qed

lemma decode_string_ok:
  assumes "terminated xs"
  shows "ok_result (\<lambda>(raw, e, ys). terminated ys \<and> length ys < length xs \<and> raw_ok raw)
    (decode_string xs)"
  unfolding decode_string_def
  by (rule ok_and_then [OF ok_consume [OF assms]], simp,
      rule ok_weaken [OF string_loop_ok [where acc = "[]"]]) auto

section \<open>Values\<close>

text \<open>A value the parser can have made: its numbers follow the grammar, its strings unescape.\<close>

fun rv_ok :: "rvalue \<Rightarrow> bool" where
  "rv_ok (RNumber t) \<longleftrightarrow> number_text t"
| "rv_ok (RString raw e) \<longleftrightarrow> raw_ok raw"
| "rv_ok (RList vs) \<longleftrightarrow> list_all rv_ok vs"
| "rv_ok (RObject ms) \<longleftrightarrow> list_all (\<lambda>m. rv_ok (snd m)) ms"
| "rv_ok _ \<longleftrightarrow> True"

definition value_result :: "bytes \<Rightarrow> (rvalue \<times> bytes) decoded \<Rightarrow> bool" where
  "value_result xs r \<longleftrightarrow>
     ok_result (\<lambda>(v, ys). terminated ys \<and> length ys < length xs \<and> rv_ok v) r"

lemma decode_number_ok:
  assumes "terminated xs"
  shows "value_result xs (decode_number xs)"
proof -
  have "terminated (dropWhile num_char xs)" using assms by (simp add: terminated_dropWhile num_char_def)
  moreover have "length (dropWhile num_char xs) < length xs" if "number_text (takeWhile num_char xs)"
  proof -
    have "takeWhile num_char xs \<noteq> []" using that by (auto simp: number_text_def)
    then have "0 < length (takeWhile num_char xs)" by simp
    moreover have "length xs = length (takeWhile num_char xs) + length (dropWhile num_char xs)"
      by (metis length_append takeWhile_dropWhile_id)
    ultimately show ?thesis by simp
  qed
  ultimately show ?thesis by (simp add: value_result_def decode_number_eq [OF assms])
qed

lemma match_rest_ok:
  "terminated xs \<Longrightarrow> NUL \<notin> set w \<Longrightarrow> \<exists>ok. match_rest w xs = Inr ok \<and>
     (ok \<longrightarrow> terminated (drop (length w) xs) \<and> length w < length xs)"
proof (induction w arbitrary: xs)
  case (Cons w ws)
  then obtain x ys where "xs = x # ys" by (cases xs) auto
  with Cons show ?case by (cases "ys = []"; cases "x = w") auto
qed (auto simp: terminated_def)

lemma decode_literal_ok:
  assumes "terminated xs" and "NUL \<notin> set w" and "rv_ok v" and "length xs \<le> length ys"
  shows "ok_result (\<lambda>(v, zs). terminated zs \<and> length zs \<le> length xs \<and> rv_ok v) (decode_literal w v xs)"
  using match_rest_ok [OF assms(1,2)] assms(3) by (auto simp: decode_literal_def)


lemma value_result_weaken: "value_result ys r \<Longrightarrow> length ys \<le> length xs \<Longrightarrow> value_result xs r"
  unfolding value_result_def by (erule ok_weaken) auto

lemma decode_list_with_ok:
  assumes "terminated xs" and "\<And>ys. terminated ys \<Longrightarrow> length ys < length xs \<Longrightarrow> value_result ys (loop [] ys)"
  shows "value_result xs (decode_list_with loop xs)"
  unfolding decode_list_with_def value_result_def
proof (rule ok_and_then [OF ok_consume [OF assms(1)]])
  fix xs1
  assume xs1: "terminated xs1 \<and> length xs = Suc (length xs1)"
  show "ok_result (\<lambda>(v, ys). terminated ys \<and> length ys < length xs \<and> rv_ok v)
      (and_then (ws_skip xs1) (\<lambda>xs2. and_then (peek xs2) (\<lambda>c.
         if c = CHR '']'' then Inr (Some (RList [], tl xs2)) else loop [] xs2)))"
  proof (rule ok_and_then [OF ok_ws_skip])
    show "terminated xs1" using xs1 ..
  next
    fix xs2
    assume xs2: "terminated xs2 \<and> length xs2 \<le> length xs1"
    then have "value_result xs (loop [] xs2)"
      using assms(2) [of xs2] xs1 by (intro value_result_weaken [of xs2 _ xs]) auto
    with xs1 xs2 show "ok_result (\<lambda>(v, ys). terminated ys \<and> length ys < length xs \<and> rv_ok v)
        (and_then (peek xs2) (\<lambda>c.
           if c = CHR '']'' then Inr (Some (RList [], tl xs2)) else loop [] xs2))"
      by (cases xs2) (auto simp: and_then_def value_result_def split: if_splits)
  qed
qed simp


lemma decode_object_with_ok:
  assumes "terminated xs" and "\<And>ys. terminated ys \<Longrightarrow> length ys < length xs \<Longrightarrow> value_result ys (loop [] ys)"
  shows "value_result xs (decode_object_with loop xs)"
  unfolding decode_object_with_def value_result_def
proof (rule ok_and_then [OF ok_consume [OF assms(1)]])
  fix xs1
  assume xs1: "terminated xs1 \<and> length xs = Suc (length xs1)"
  show "ok_result (\<lambda>(v, ys). terminated ys \<and> length ys < length xs \<and> rv_ok v)
      (and_then (ws_skip xs1) (\<lambda>xs2. and_then (peek xs2) (\<lambda>c.
         if c = CHR ''}'' then Inr (Some (RObject [], tl xs2)) else loop [] xs2)))"
  proof (rule ok_and_then [OF ok_ws_skip])
    show "terminated xs1" using xs1 ..
  next
    fix xs2
    assume xs2: "terminated xs2 \<and> length xs2 \<le> length xs1"
    then have "value_result xs (loop [] xs2)"
      using assms(2) [of xs2] xs1 by (intro value_result_weaken [of xs2 _ xs]) auto
    with xs1 xs2 show "ok_result (\<lambda>(v, ys). terminated ys \<and> length ys < length xs \<and> rv_ok v)
        (and_then (peek xs2) (\<lambda>c.
           if c = CHR ''}'' then Inr (Some (RObject [], tl xs2)) else loop [] xs2))"
      by (cases xs2) (auto simp: and_then_def value_result_def split: if_splits)
  qed
qed simp

text \<open>What closes a list or an object, or goes on behind a comma.\<close>

lemma loop_end_ok:
  assumes "terminated xs" and "length xs < n" and "c \<noteq> NUL" and "rv_ok (mk v)"
    and "\<And>ys. terminated ys \<Longrightarrow> length ys < length xs \<Longrightarrow> value_result ys (loop ys)"
    and "n \<le> length zs"
  shows "value_result zs (and_then (peek xs) (\<lambda>d.
     if d = c then Inr (Some (mk v, tl xs))
     else and_then (consume (CHR '','') xs) (\<lambda>ys. and_then (ws_skip ys) loop)))"
proof (cases xs)
  case (Cons d ds)
  show ?thesis
  proof (cases "d = c")
    case True
    with Cons assms show ?thesis by (auto simp: value_result_def and_then_def split: if_splits)
  next
    case False
    have "value_result zs (and_then (consume (CHR '','') xs) (\<lambda>ys. and_then (ws_skip ys) loop))"
      unfolding value_result_def
    proof (rule ok_and_then [OF ok_consume [OF assms(1)]])
      fix ys
      assume ys: "terminated ys \<and> length xs = Suc (length ys)"
      show "ok_result (\<lambda>(v, ys). terminated ys \<and> length ys < length zs \<and> rv_ok v)
          (and_then (ws_skip ys) loop)"
      proof (rule ok_and_then [OF ok_ws_skip])
        fix us
        assume us: "terminated us \<and> length us \<le> length ys"
        then have "value_result us (loop us)" using ys assms(5) by simp
        then have "value_result zs (loop us)"
          by (rule value_result_weaken) (use us ys assms(2,6) in simp)
        then show "ok_result (\<lambda>(v, ys). terminated ys \<and> length ys < length zs \<and> rv_ok v) (loop us)"
          by (simp add: value_result_def)
      qed (use ys in simp)
    qed simp
    with Cons False show ?thesis by (simp add: and_then_def)
  qed
qed (use assms(1) in simp)

definition values_ok :: "nat \<Rightarrow> bool" where
  "values_ok n \<longleftrightarrow>
     (\<forall>xs. terminated xs \<longrightarrow> 2 * length xs \<le> n \<longrightarrow> value_result xs (decode_value n xs))"

definition lists_ok :: "nat \<Rightarrow> bool" where
  "lists_ok n \<longleftrightarrow>
     (\<forall>xs acc. terminated xs \<longrightarrow> 2 * length xs < n \<longrightarrow> list_all rv_ok acc \<longrightarrow>
        value_result xs (list_loop n acc xs))"

definition objects_ok :: "nat \<Rightarrow> bool" where
  "objects_ok n \<longleftrightarrow>
     (\<forall>xs acc. terminated xs \<longrightarrow> 2 * length xs < n \<longrightarrow> list_all (\<lambda>m. rv_ok (snd m)) acc \<longrightarrow>
        value_result xs (object_loop n acc xs))"

lemma decode_value_ok:
  assumes "lists_ok n" and "objects_ok n"
  shows "values_ok (Suc n)"
  unfolding values_ok_def
proof (intro allI impI)
  fix xs
  assume xs: "terminated xs" "2 * length xs \<le> Suc n"
  show "value_result xs (decode_value (Suc n) xs)"
  proof -
    obtain c cs where c: "xs = c # cs" using xs by (cases xs) auto
    have lists: "value_result xs (decode_list_with (list_loop n) xs)"
      by (rule decode_list_with_ok [OF xs(1)]) (use assms xs(2) in \<open>auto simp: lists_ok_def objects_ok_def\<close>)
    have objects: "value_result xs (decode_object_with (object_loop n) xs)"
      by (rule decode_object_with_ok [OF xs(1)]) (use assms xs(2) in \<open>auto simp: lists_ok_def objects_ok_def\<close>)
    have strings: "value_result xs (and_then (decode_string xs) (\<lambda>(raw, e, ys). Inr (Some (RString raw e, ys))))"
      unfolding value_result_def by (rule ok_and_then [OF decode_string_ok [OF xs(1)]]) auto
    have literals: "value_result xs (decode_literal w v cs)"
      if "terminated cs" "NUL \<notin> set w" "rv_ok v" for w v
      using decode_literal_ok [OF that, of cs] c unfolding value_result_def
      by simp (erule ok_weaken, auto)
    have cs: "c \<noteq> NUL \<Longrightarrow> terminated cs" using xs(1) c by (auto split: if_splits)
    have words: "c = CHR ''t'' \<Longrightarrow> value_result xs (decode_literal ''rue'' RTrue cs)"
      "c = CHR ''f'' \<Longrightarrow> value_result xs (decode_literal ''alse'' RFalse cs)"
      "c = CHR ''n'' \<Longrightarrow> value_result xs (decode_literal ''ull'' RNull cs)"
      by (rule literals; simp add: cs)+
    have "peek xs = Inr (Some c)" "tl xs = cs" using c by simp_all
    then show ?thesis
      using lists objects strings decode_number_ok [OF xs(1)] words
      by (simp add: and_then_def [of "Inr (Some c)"] del: peek.simps)
  qed
qed

lemma list_loop_ok:
  assumes "values_ok n" and "lists_ok n"
  shows "lists_ok (Suc n)"
  unfolding lists_ok_def
proof (intro allI impI)
  fix xs acc
  assume xs: "terminated xs" "2 * length xs < Suc n" "list_all rv_ok acc"
  show "value_result xs (list_loop (Suc n) acc xs)"
    unfolding list_loop.simps value_result_def
  proof (rule ok_and_then)
    show "ok_result (\<lambda>(v, ys). terminated ys \<and> length ys < length xs \<and> rv_ok v) (decode_value n xs)"
      using assms(1) xs by (simp add: values_ok_def value_result_def)
  next
    fix vy
    assume vy: "case vy of (v, ys) \<Rightarrow> terminated ys \<and> length ys < length xs \<and> rv_ok v"
    obtain v xs1 where v: "vy = (v, xs1)" "terminated xs1" "length xs1 < length xs" "rv_ok v"
      using vy by (cases vy) auto
    have "ok_result (\<lambda>(v, ys). terminated ys \<and> length ys < length xs \<and> rv_ok v)
        (and_then (ws_skip xs1) (\<lambda>xs2. and_then (peek xs2) (\<lambda>c.
           if c = CHR '']'' then Inr (Some (RList (acc @ [v]), tl xs2))
           else and_then (consume (CHR '','') xs2) (\<lambda>xs3.
                and_then (ws_skip xs3) (list_loop n (acc @ [v]))))))"
    proof (rule ok_and_then [OF ok_ws_skip [OF v(2)]])
      fix xs2
      assume xs2: "terminated xs2 \<and> length xs2 \<le> length xs1"
      show "ok_result (\<lambda>(v, ys). terminated ys \<and> length ys < length xs \<and> rv_ok v)
        (and_then (peek xs2) (\<lambda>c.
           if c = CHR '']'' then Inr (Some (RList (acc @ [v]), tl xs2))
           else and_then (consume (CHR '','') xs2) (\<lambda>xs3.
                and_then (ws_skip xs3) (list_loop n (acc @ [v])))))"
        unfolding value_result_def [symmetric]
        by (rule loop_end_ok [where mk = RList and n = "length xs"])
           (use xs2 v xs assms(2) in \<open>auto simp: lists_ok_def\<close>)
    qed
    with v(1) show "ok_result (\<lambda>(v, ys). terminated ys \<and> length ys < length xs \<and> rv_ok v)
        (case vy of (v, xs1) \<Rightarrow> and_then (ws_skip xs1) (\<lambda>xs2. and_then (peek xs2) (\<lambda>c.
           if c = CHR '']'' then Inr (Some (RList (acc @ [v]), tl xs2))
           else and_then (consume (CHR '','') xs2) (\<lambda>xs3.
                and_then (ws_skip xs3) (list_loop n (acc @ [v]))))))" by simp
  qed
qed

text \<open>A member of an object: its key, its value, and what follows.\<close>

lemma member_end_ok:
  assumes "objects_ok n" and "2 * length xs < Suc n" and "list_all (\<lambda>m. rv_ok (snd m)) acc"
    and "terminated ys" and "length ys < length xs" and "rv_ok v"
  shows "value_result xs (and_then (ws_skip ys) (\<lambda>xs6. and_then (peek xs6) (\<lambda>c.
       if c = CHR ''}'' then Inr (Some (RObject (acc @ [(key, v)]), tl xs6))
       else and_then (consume (CHR '','') xs6) (\<lambda>xs7.
            and_then (ws_skip xs7) (object_loop n (acc @ [(key, v)]))))))"
  unfolding value_result_def
proof (rule ok_and_then [OF ok_ws_skip [OF assms(4)]])
  fix us
  assume us: "terminated us \<and> length us \<le> length ys"
  show "ok_result (\<lambda>(v, ys). terminated ys \<and> length ys < length xs \<and> rv_ok v)
      (and_then (peek us) (\<lambda>c.
       if c = CHR ''}'' then Inr (Some (RObject (acc @ [(key, v)]), tl us))
       else and_then (consume (CHR '','') us) (\<lambda>xs7.
            and_then (ws_skip xs7) (object_loop n (acc @ [(key, v)])))))"
    unfolding value_result_def [symmetric]
    by (rule loop_end_ok [where mk = RObject and n = "length xs"])
       (use us assms in \<open>auto simp: objects_ok_def\<close>)
qed

lemma member_value_ok:
  assumes "values_ok n" and "objects_ok n" and "2 * length xs < Suc n"
    and "list_all (\<lambda>m. rv_ok (snd m)) acc" and "terminated ys" and "length ys < length xs"
  shows "value_result xs (and_then (ws_skip ys) (\<lambda>xs4.
     and_then (decode_value n xs4) (\<lambda>(v, xs5).
     and_then (ws_skip xs5) (\<lambda>xs6.
     and_then (peek xs6) (\<lambda>c.
       if c = CHR ''}'' then Inr (Some (RObject (acc @ [(key, v)]), tl xs6))
       else and_then (consume (CHR '','') xs6) (\<lambda>xs7.
            and_then (ws_skip xs7) (object_loop n (acc @ [(key, v)]))))))))"
  unfolding value_result_def
proof (rule ok_and_then [OF ok_ws_skip [OF assms(5)]], rule ok_and_then)
  fix xs4
  assume xs4: "terminated xs4 \<and> length xs4 \<le> length ys"
  with assms(1,3,6) show "ok_result (\<lambda>(v, zs). terminated zs \<and> length zs < length xs4 \<and> rv_ok v)
      (decode_value n xs4)"
    by (auto simp: values_ok_def value_result_def)
  fix vy
  assume "case vy of (v, zs) \<Rightarrow> terminated zs \<and> length zs < length xs4 \<and> rv_ok v"
  with xs4 assms(6) member_end_ok [OF assms(2-4)]
  show "ok_result (\<lambda>(v, ys). terminated ys \<and> length ys < length xs \<and> rv_ok v)
      (case vy of (v, xs5) \<Rightarrow> and_then (ws_skip xs5) (\<lambda>xs6. and_then (peek xs6) (\<lambda>c.
         if c = CHR ''}'' then Inr (Some (RObject (acc @ [(key, v)]), tl xs6))
         else and_then (consume (CHR '','') xs6) (\<lambda>xs7.
              and_then (ws_skip xs7) (object_loop n (acc @ [(key, v)]))))))"
    by (cases vy) (simp add: value_result_def)
qed

lemma unescape_ok: "raw_ok raw \<Longrightarrow> \<exists>k. unescape raw e = Inr k"
  by (auto simp: unescape_def raw_ok_def)

lemma object_loop_ok:
  assumes "values_ok n" and "objects_ok n"
  shows "objects_ok (Suc n)"
  unfolding objects_ok_def object_loop.simps value_result_def
proof (intro allI impI, rule ok_and_then [OF decode_string_ok])
  fix xs and acc :: "(bytes \<times> rvalue) list" and ry :: "bytes \<times> bool \<times> bytes"
  assume xs: "terminated xs" "2 * length xs < Suc n" "list_all (\<lambda>m. rv_ok (snd m)) acc"
    and ok: "case ry of (raw, e, ys) \<Rightarrow> terminated ys \<and> length ys < length xs \<and> raw_ok raw"
  obtain raw e xs1 where "ry = (raw, e, xs1)" by (cases ry)
  moreover from this ok obtain k where "unescape raw e = Inr k" using unescape_ok [of raw e] by auto
  ultimately have ry: "ry = (raw, e, xs1)" "terminated xs1" "length xs1 < length xs"
    "unescape raw e = Inr k"
    using ok by simp_all
  have "ok_result (\<lambda>(v, ys). terminated ys \<and> length ys < length xs \<and> rv_ok v)
     (and_then (ws_skip xs1) (\<lambda>xs2.
     and_then (consume (CHR '':'') xs2) (\<lambda>xs3.
     and_then (ws_skip xs3) (\<lambda>xs4.
     and_then (decode_value n xs4) (\<lambda>(v, xs5).
     and_then (ws_skip xs5) (\<lambda>xs6.
     and_then (peek xs6) (\<lambda>c.
       if c = CHR ''}'' then Inr (Some (RObject (acc @ [(k, v)]), tl xs6))
       else and_then (consume (CHR '','') xs6) (\<lambda>xs7.
            and_then (ws_skip xs7) (object_loop n (acc @ [(k, v)]))))))))))"
  proof (rule ok_and_then [OF ok_ws_skip [OF ry(2)]], rule ok_and_then [OF ok_consume])
    fix xs2 xs3
    assume "terminated xs2 \<and> length xs2 \<le> length xs1"
      and "terminated xs3 \<and> length xs2 = Suc (length xs3)"
    then show "ok_result (\<lambda>(v, ys). terminated ys \<and> length ys < length xs \<and> rv_ok v)
       (and_then (ws_skip xs3) (\<lambda>xs4.
       and_then (decode_value n xs4) (\<lambda>(v, xs5).
       and_then (ws_skip xs5) (\<lambda>xs6.
       and_then (peek xs6) (\<lambda>c.
         if c = CHR ''}'' then Inr (Some (RObject (acc @ [(k, v)]), tl xs6))
         else and_then (consume (CHR '','') xs6) (\<lambda>xs7.
              and_then (ws_skip xs7) (object_loop n (acc @ [(k, v)]))))))))"
      using member_value_ok [OF assms xs(2,3)] ry(3) by (simp add: value_result_def)
  qed simp_all
  then show "ok_result (\<lambda>(v, ys). terminated ys \<and> length ys < length xs \<and> rv_ok v)
     (case ry of (raw, e, xs1) \<Rightarrow> and_then (ws_skip xs1) (\<lambda>xs2.
     and_then (consume (CHR '':'') xs2) (\<lambda>xs3.
     and_then (case unescape raw e of Inl f \<Rightarrow> Inl f | Inr k \<Rightarrow> Inr (Some k)) (\<lambda>key.
     and_then (ws_skip xs3) (\<lambda>xs4.
     and_then (decode_value n xs4) (\<lambda>(v, xs5).
     and_then (ws_skip xs5) (\<lambda>xs6.
     and_then (peek xs6) (\<lambda>c.
       if c = CHR ''}'' then Inr (Some (RObject (acc @ [(key, v)]), tl xs6))
       else and_then (consume (CHR '','') xs6) (\<lambda>xs7.
            and_then (ws_skip xs7) (object_loop n (acc @ [(key, v)])))))))))))"
    by (simp add: ry and_then_def [of "Inr (Some k)"])
qed

lemma decode_loops_ok: "values_ok n \<and> lists_ok n \<and> objects_ok n"
proof (induction n)
  case 0
  show ?case by (auto simp: values_ok_def lists_ok_def objects_ok_def terminated_def)
next
  case (Suc n)
  then show ?case by (simp add: decode_value_ok list_loop_ok object_loop_ok)
qed

lemma parse_json_ok:
  assumes "terminated xs"
  shows "ok_result rv_ok (parse_json xs)"
  unfolding parse_json_def
proof (rule ok_and_then [OF ok_ws_skip [OF assms]], rule ok_and_then)
  fix xs1
  assume xs1: "terminated xs1 \<and> length xs1 \<le> length xs"
  then show "ok_result (\<lambda>(v, ys). terminated ys \<and> length ys < length xs1 \<and> rv_ok v)
      (decode_value (2 * length xs1) xs1)"
    using decode_loops_ok [of "2 * length xs1"] by (simp add: values_ok_def value_result_def)
  fix vy
  assume vy: "case vy of (v, ys) \<Rightarrow> terminated ys \<and> length ys < length xs1 \<and> rv_ok v"
  obtain v xs2 where v: "vy = (v, xs2)" "terminated xs2" "rv_ok v" using vy by (cases vy) auto
  show "ok_result rv_ok (case vy of (v, xs2) \<Rightarrow> and_then (ws_skip xs2) (\<lambda>xs3.
      and_then (peek xs3) (\<lambda>c. if c \<noteq> NUL then Inr None else Inr (Some v))))"
    unfolding v(1) prod.case
    by (rule ok_and_then [OF ok_ws_skip [OF v(2)]], rule ok_and_then [OF ok_peek]) (simp_all add: v(3))
qed


section \<open>Properties\<close>

text \<open>C26: \<^verbatim>\<open>crow::json::load\<close> is safe on every request body: it returns, it never reads
  beyond the NUL it has put behind the body, whatever bytes the body holds (NULs, lone
  backslashes, cut-off escapes, literals and numbers at the end, unbalanced brackets), and what it
  returns is an error or a value whose numbers follow the grammar and whose strings can be
  unescaped without leaving their bounds.\<close>

theorem load_json_safe:
  "(case load_json body of Inl f \<Rightarrow> False | Inr None \<Rightarrow> True | Inr (Some v) \<Rightarrow> rv_ok v)"
  using parse_json_ok [OF terminated_body [of body]]
  by (auto simp: load_json_def ok_result_def split: sum.split option.split)

text \<open>C27: the table-driven automaton for numbers takes the longest run of number characters and
  accepts it exactly when it is a sign, digits without a leading zero, a point with any number of
  digits, and an exponent that does not follow a bare zero. So it takes texts JSON forbids, a bare
  point or exponent sign at the end, and refuses \<^verbatim>\<open>0e1\<close>, which JSON allows.\<close>

theorem number_automaton_grammar:
  "decode_number (body @ [NUL]) =
    (if number_text (takeWhile num_char (body @ [NUL]))
     then Inr (Some (RNumber (takeWhile num_char (body @ [NUL])), dropWhile num_char (body @ [NUL])))
     else Inr None) \<and>
   number_text ''1.'' \<and> number_text ''1e-'' \<and> \<not> number_text ''0e1''"
proof -
  have "number_text ''1.'' \<and> number_text ''1e-'' \<and> \<not> number_text ''0e1''" by code_simp
  then show ?thesis using decode_number_eq [OF terminated_body] by blast
qed

end
