(* ===== verification/Crow_Json_Value.thy ===== *)
theory Crow_Json_Value
  imports Crow_Json_Safety
begin

text \<open>
  \<^verbatim>\<open>include/crow/json.h\<close>, the values: the access operations of \<^verbatim>\<open>rvalue\<close>, the mutable
  \<^verbatim>\<open>wvalue\<close> and \<^verbatim>\<open>dump\<close>, with the round trip between text and value.

  Numbers as \<^verbatim>\<open>double\<close>s are a parameter: \<open>dbl\<close> is \<^verbatim>\<open>boost::lexical_cast<double>\<close>,
  which throws on \<open>None\<close>, and \<open>fmt\<close> prints with \<^verbatim>\<open>%g\<close>.
\<close>

section \<open>Access\<close>

datatype json_exn = Runtime_error bytes | Bad_lexical_cast | Json_fault fault

definition r_s :: "rvalue \<Rightarrow> json_exn + bytes" where
  "r_s v =
     (case v of
        RString raw e \<Rightarrow> (case unescape raw e of Inl f \<Rightarrow> Inl (Json_fault f) | Inr s \<Rightarrow> Inr s)
      | _ \<Rightarrow> Inl (Runtime_error ''value is not string''))"

definition r_d :: "(bytes \<Rightarrow> 'd option) \<Rightarrow> rvalue \<Rightarrow> json_exn + 'd" where
  "r_d dbl v =
     (case v of
        RNumber t \<Rightarrow> (case dbl t of None \<Rightarrow> Inl Bad_lexical_cast | Some d \<Rightarrow> Inr d)
      | _ \<Rightarrow> Inl (Runtime_error ''value is not number''))"

definition r_b :: "rvalue \<Rightarrow> json_exn + bool" where
  "r_b v =
     (if json_t v \<noteq> T_True \<and> json_t v \<noteq> T_False then Inl (Runtime_error ''value is not boolean'')
      else Inr (json_t v = T_True))"

definition r_size :: "rvalue \<Rightarrow> json_exn + nat" where
  "r_size v =
     (case v of
        RString raw e \<Rightarrow> (case r_s v of Inl x \<Rightarrow> Inl x | Inr s \<Rightarrow> Inr (length s))
      | RList vs \<Rightarrow> Inr (length vs)
      | RObject ms \<Rightarrow> Inr (length ms)
      | _ \<Rightarrow> Inl (Runtime_error ''value is not a container''))"

definition r_index :: "int \<Rightarrow> rvalue \<Rightarrow> json_exn + rvalue" where
  "r_index i v =
     (case v of
        RList vs \<Rightarrow>
          if int (length vs) \<le> i \<or> i < 0 then Inl (Runtime_error ''list out of bound'')
          else Inr (vs ! nat i)
      | _ \<Rightarrow> Inl (Runtime_error ''value is not a list''))"

text \<open>
  Keys compare as sequences of signed bytes. The first look-up sorts the members in place; the
  order of members with one key is then left open by \<^verbatim>\<open>std::sort\<close>, and the model keeps
  theirs. \<^verbatim>\<open>has\<close> on a list compares keys its elements do not have: their pointers are not
  initialised, and reading them is a fault.
\<close>

definition schar :: "char \<Rightarrow> int" where
  "schar c = (if (of_char c :: int) < 128 then of_char c else of_char c - 256)"

definition key_rank :: "bytes \<Rightarrow> int list" where
  "key_rank k = map schar k"

definition sort_members :: "(bytes \<times> rvalue) list \<Rightarrow> (bytes \<times> rvalue) list" where
  "sort_members ms = sort_key (\<lambda>m. key_rank (fst m)) ms"

definition lower_bound :: "bytes \<Rightarrow> (bytes \<times> rvalue) list \<Rightarrow> (bytes \<times> rvalue) list" where
  "lower_bound k ms = dropWhile (\<lambda>m. key_rank (fst m) < key_rank k) ms"

definition r_has :: "bytes \<Rightarrow> rvalue \<Rightarrow> json_exn + bool" where
  "r_has k v =
     (case v of
        RObject ms \<Rightarrow>
          Inr (case lower_bound k (sort_members ms) of [] \<Rightarrow> False | m # _ \<Rightarrow> fst m = k)
      | RList vs \<Rightarrow> (if vs = [] then Inr False else Inl (Json_fault Bad_range))
      | _ \<Rightarrow> Inl (Runtime_error ''value is not a container''))"

definition r_count :: "bytes \<Rightarrow> rvalue \<Rightarrow> json_exn + nat" where
  "r_count k v = (case r_has k v of Inl e \<Rightarrow> Inl e | Inr h \<Rightarrow> Inr (if h then 1 else 0))"

definition r_key :: "bytes \<Rightarrow> rvalue \<Rightarrow> json_exn + rvalue" where
  "r_key k v =
     (case v of
        RObject ms \<Rightarrow>
          (case lower_bound k (sort_members ms) of
             [] \<Rightarrow> Inl (Runtime_error ''cannot find key'')
           | m # _ \<Rightarrow>
               if fst m = k then Inr (snd m) else Inl (Runtime_error ''cannot find key''))
      | _ \<Rightarrow> Inl (Runtime_error ''value is not an object''))"

section \<open>Writable values\<close>

datatype 'd wvalue =
    WNull | WFalse | WTrue
  | WNumber 'd
  | WString bytes
  | WList "'d wvalue list"
  | WObject "(bytes \<times> 'd wvalue) list"

text \<open>
  An object is a hash table; the model lists its members in the order of iteration. \<open>order\<close> is
  that order for a table with given keys, in the order of their insertion.
\<close>

definition arrange :: "(bytes list \<Rightarrow> bytes list) \<Rightarrow> (bytes \<times> 'a) list \<Rightarrow> (bytes \<times> 'a) list" where
  "arrange order ms = map (\<lambda>k. (k, the (map_of ms k))) (order (map fst ms))"

fun emplace_members :: "(bytes \<times> 'a) list \<Rightarrow> (bytes \<times> 'a) list \<Rightarrow> (bytes \<times> 'a) list" where
  "emplace_members tbl [] = tbl"
| "emplace_members tbl ((k, v) # ms) =
     emplace_members (if k \<in> set (map fst tbl) then tbl else tbl @ [(k, v)]) ms"

fun wvalue_of ::
  "(bytes \<Rightarrow> 'd option) \<Rightarrow> (bytes list \<Rightarrow> bytes list) \<Rightarrow> rvalue \<Rightarrow> json_exn + 'd wvalue"
  and wvalues_of ::
  "(bytes \<Rightarrow> 'd option) \<Rightarrow> (bytes list \<Rightarrow> bytes list) \<Rightarrow> rvalue list \<Rightarrow> json_exn + 'd wvalue list"
  and wmembers_of ::
  "(bytes \<Rightarrow> 'd option) \<Rightarrow> (bytes list \<Rightarrow> bytes list) \<Rightarrow> (bytes \<times> rvalue) list \<Rightarrow>
   json_exn + (bytes \<times> 'd wvalue) list"
where
  "wvalue_of dbl order RNull = Inr WNull"
| "wvalue_of dbl order RFalse = Inr WFalse"
| "wvalue_of dbl order RTrue = Inr WTrue"
| "wvalue_of dbl order (RNumber t) =
     (case r_d dbl (RNumber t) of Inl e \<Rightarrow> Inl e | Inr d \<Rightarrow> Inr (WNumber d))"
| "wvalue_of dbl order (RString raw e) =
     (case r_s (RString raw e) of Inl x \<Rightarrow> Inl x | Inr s \<Rightarrow> Inr (WString s))"
| "wvalue_of dbl order (RList vs) =
     (case wvalues_of dbl order vs of Inl e \<Rightarrow> Inl e | Inr ws \<Rightarrow> Inr (WList ws))"
| "wvalue_of dbl order (RObject ms) =
     (case wmembers_of dbl order ms of
        Inl e \<Rightarrow> Inl e | Inr ws \<Rightarrow> Inr (WObject (arrange order (emplace_members [] ws))))"
| "wvalues_of dbl order [] = Inr []"
| "wvalues_of dbl order (v # vs) =
     (case wvalue_of dbl order v of
        Inl e \<Rightarrow> Inl e
      | Inr w \<Rightarrow> (case wvalues_of dbl order vs of Inl e \<Rightarrow> Inl e | Inr ws \<Rightarrow> Inr (w # ws)))"
| "wmembers_of dbl order [] = Inr []"
| "wmembers_of dbl order ((k, v) # ms) =
     (case wvalue_of dbl order v of
        Inl e \<Rightarrow> Inl e
      | Inr w \<Rightarrow> (case wmembers_of dbl order ms of Inl e \<Rightarrow> Inl e | Inr ws \<Rightarrow> Inr ((k, w) # ws)))"

fun w_t :: "'d wvalue \<Rightarrow> json_type" where
  "w_t WNull = T_Null"
| "w_t WFalse = T_False"
| "w_t WTrue = T_True"
| "w_t (WNumber d) = T_Number"
| "w_t (WString s) = T_String"
| "w_t (WList ws) = T_List"
| "w_t (WObject ms) = T_Object"

definition w_clear :: "'d wvalue \<Rightarrow> 'd wvalue" where
  "w_clear w = WNull"

definition w_set_bool :: "bool \<Rightarrow> 'd wvalue \<Rightarrow> 'd wvalue" where
  "w_set_bool b w = (if b then WTrue else WFalse)"

text \<open>The assignments of the nine number types convert to \<^verbatim>\<open>double\<close> before they store.\<close>

definition w_set_number :: "'d \<Rightarrow> 'd wvalue \<Rightarrow> 'd wvalue" where
  "w_set_number d w = WNumber d"

definition w_set_string :: "bytes \<Rightarrow> 'd wvalue \<Rightarrow> 'd wvalue" where
  "w_set_string s w = WString s"

definition w_set_list :: "'d wvalue list \<Rightarrow> 'd wvalue \<Rightarrow> 'd wvalue" where
  "w_set_list ws w = WList ws"

text \<open>
  The two index operators give a reference; the model applies the assignment made through it.
  They turn a value of another type into an empty container first, and make room for the
  element; the room is counted in 32 bits.
\<close>

definition w_at_index ::
  "32 word \<Rightarrow> ('d wvalue \<Rightarrow> 'd wvalue) \<Rightarrow> 'd wvalue \<Rightarrow> fault + 'd wvalue"
where
  "w_at_index i f w =
     (let l = (case w of WList ws \<Rightarrow> ws | _ \<Rightarrow> []);
          n = unat (i + 1);
          l' = (if length l < n then l @ replicate (n - length l) WNull else l)
      in if length l' \<le> unat i then Inl Bad_range
         else Inr (WList (l'[unat i := f (l' ! unat i)])))"

definition w_count :: "bytes \<Rightarrow> 'd wvalue \<Rightarrow> nat" where
  "w_count k w = (case w of WObject ms \<Rightarrow> (if k \<in> set (map fst ms) then 1 else 0) | _ \<Rightarrow> 0)"

definition w_at_key ::
  "(bytes list \<Rightarrow> bytes list) \<Rightarrow> bytes \<Rightarrow> ('d wvalue \<Rightarrow> 'd wvalue) \<Rightarrow> 'd wvalue \<Rightarrow> 'd wvalue"
where
  "w_at_key order k f w =
     (let ms = (case w of WObject ms \<Rightarrow> ms | _ \<Rightarrow> []);
          ms' = (if k \<in> set (map fst ms) then ms else arrange order (ms @ [(k, WNull)]))
      in WObject (map (\<lambda>(k', v). if k' = k then (k', f v) else (k', v)) ms'))"

section \<open>Writing\<close>

fun estimate_length :: "'d wvalue \<Rightarrow> nat" where
  "estimate_length WNull = 4"
| "estimate_length WFalse = 5"
| "estimate_length WTrue = 4"
| "estimate_length (WNumber d) = 30"
| "estimate_length (WString s) = 2 + length s + length s div 2"
| "estimate_length (WList ws) = sum_list (map (\<lambda>w. 1 + estimate_length w) ws) + 2"
| "estimate_length (WObject ms) =
     sum_list (map (\<lambda>(k, w). 2 + (2 + length k + length k div 2) + estimate_length w) ms) + 2"

definition dump_string :: "bytes \<Rightarrow> bytes \<Rightarrow> bytes" where
  "dump_string s out = escape_loop s (out @ [QUOTE]) @ [QUOTE]"

fun dump_internal :: "('d \<Rightarrow> bytes) \<Rightarrow> 'd wvalue \<Rightarrow> bytes \<Rightarrow> bytes"
  and dump_elements :: "('d \<Rightarrow> bytes) \<Rightarrow> bool \<Rightarrow> 'd wvalue list \<Rightarrow> bytes \<Rightarrow> bytes"
  and dump_members :: "('d \<Rightarrow> bytes) \<Rightarrow> bool \<Rightarrow> (bytes \<times> 'd wvalue) list \<Rightarrow> bytes \<Rightarrow> bytes"
where
  "dump_internal fmt WNull out = out @ ''null''"
| "dump_internal fmt WFalse out = out @ ''false''"
| "dump_internal fmt WTrue out = out @ ''true''"
| "dump_internal fmt (WNumber d) out = out @ fmt d"
| "dump_internal fmt (WString s) out = dump_string s out"
| "dump_internal fmt (WList ws) out = dump_elements fmt True ws (out @ ''['') @ '']''"
| "dump_internal fmt (WObject ms) out = dump_members fmt True ms (out @ ''{'') @ ''}''"
| "dump_elements fmt isfirst [] out = out"
| "dump_elements fmt isfirst (w # ws) out =
     dump_elements fmt False ws (dump_internal fmt w (if isfirst then out else out @ '',''))"
| "dump_members fmt isfirst [] out = out"
| "dump_members fmt isfirst ((k, w) # ms) out =
     dump_members fmt False ms
       (dump_internal fmt w (dump_string k (if isfirst then out else out @ '','') @ '':''))"

definition dump_json :: "('d \<Rightarrow> bytes) \<Rightarrow> 'd wvalue \<Rightarrow> bytes" where
  "dump_json fmt w = dump_internal fmt w []"

text \<open>The output operator of \<^verbatim>\<open>rvalue\<close>.\<close>

fun print_rvalue :: "(bytes \<Rightarrow> json_exn + bytes) \<Rightarrow> rvalue \<Rightarrow> json_exn + bytes"
  and print_elements :: "(bytes \<Rightarrow> json_exn + bytes) \<Rightarrow> bool \<Rightarrow> rvalue list \<Rightarrow> json_exn + bytes"
  and print_members :: "(bytes \<Rightarrow> json_exn + bytes) \<Rightarrow> bool \<Rightarrow> (bytes \<times> rvalue) list \<Rightarrow> json_exn + bytes"
where
  "print_rvalue num RNull = Inr ''null''"
| "print_rvalue num RFalse = Inr ''false''"
| "print_rvalue num RTrue = Inr ''true''"
| "print_rvalue num (RNumber t) = num t"
| "print_rvalue num (RString raw e) =
     (case r_s (RString raw e) of Inl x \<Rightarrow> Inl x | Inr s \<Rightarrow> Inr ([QUOTE] @ s @ [QUOTE]))"
| "print_rvalue num (RList vs) =
     (case print_elements num True vs of Inl e \<Rightarrow> Inl e | Inr t \<Rightarrow> Inr (''['' @ t @ '']''))"
| "print_rvalue num (RObject ms) =
     (case print_members num True ms of Inl e \<Rightarrow> Inl e | Inr t \<Rightarrow> Inr (''{'' @ t @ ''}''))"
| "print_elements num isfirst [] = Inr []"
| "print_elements num isfirst (v # vs) =
     (case print_rvalue num v of
        Inl e \<Rightarrow> Inl e
      | Inr t \<Rightarrow> (case print_elements num False vs of
           Inl e \<Rightarrow> Inl e | Inr ts \<Rightarrow> Inr ((if isfirst then [] else '','') @ t @ ts)))"
| "print_members num isfirst [] = Inr []"
| "print_members num isfirst ((k, v) # ms) =
     (case print_rvalue num v of
        Inl e \<Rightarrow> Inl e
      | Inr t \<Rightarrow> (case print_members num False ms of
           Inl e \<Rightarrow> Inl e
         | Inr ts \<Rightarrow> Inr ((if isfirst then [] else '','') @ [QUOTE] @ escape k @ [QUOTE] @ '':'' @ t @ ts)))"


section \<open>What is written\<close>

fun sep_by_comma :: "bytes list \<Rightarrow> bytes" where
  "sep_by_comma [] = []"
| "sep_by_comma [t] = t"
| "sep_by_comma (t # ts) = t @ CHR '','' # sep_by_comma ts"

fun quoted :: "bytes \<Rightarrow> bytes" where
  "quoted s = QUOTE # escape s @ [QUOTE]"

fun json_text :: "('d \<Rightarrow> bytes) \<Rightarrow> 'd wvalue \<Rightarrow> bytes" where
  "json_text fmt WNull = ''null''"
| "json_text fmt WFalse = ''false''"
| "json_text fmt WTrue = ''true''"
| "json_text fmt (WNumber d) = fmt d"
| "json_text fmt (WString s) = quoted s"
| "json_text fmt (WList ws) = CHR ''['' # sep_by_comma (map (json_text fmt) ws) @ '']''"
| "json_text fmt (WObject ms) =
     CHR ''{'' # sep_by_comma (map (\<lambda>m. quoted (fst m) @ CHR '':'' # json_text fmt (snd m)) ms) @ ''}''"

lemma escape_loop_eq: "escape_loop s ret = ret @ concat (map escape_char s)"
  by (induction s arbitrary: ret) simp_all

lemma escape_Nil [simp]: "escape [] = []"
  by (simp add: escape_def)

lemma escape_Cons [simp]: "escape (c # s) = escape_char c @ escape s"
  by (simp add: escape_def escape_loop_eq)

lemma dump_string_eq: "dump_string s out = out @ quoted s"
  by (simp add: dump_string_def escape_def escape_loop_eq)

lemma sep_by_comma_Cons: "sep_by_comma (t # ts) = t @ concat (map (\<lambda>u. CHR '','' # u) ts)"
  by (induction ts arbitrary: t) simp_all

lemma dump_text:
  fixes fmt :: "'d \<Rightarrow> bytes"
  shows "dump_internal fmt w out = out @ json_text fmt w"
    and "dump_elements fmt isfirst ws out = out @ (if isfirst then sep_by_comma (map (json_text fmt) ws)
           else concat (map (\<lambda>w. CHR '','' # json_text fmt w) ws))"
    and "dump_members fmt isfirst ms out = out @
           (if isfirst then sep_by_comma (map (\<lambda>m. quoted (fst m) @ CHR '':'' # json_text fmt (snd m)) ms)
            else concat (map (\<lambda>m. CHR '','' # quoted (fst m) @ CHR '':'' # json_text fmt (snd m)) ms))"
proof (induction fmt w out and fmt isfirst ws out and fmt isfirst ms out
    rule: dump_internal_dump_elements_dump_members.induct)
  case (9 fmt isfirst w ws out)
  then show ?case by (cases isfirst) (simp_all add: sep_by_comma_Cons o_def)
next
  case (11 fmt isfirst k w ms out)
  then show ?case
    by (cases isfirst) (simp_all add: sep_by_comma_Cons dump_string_eq o_def)
qed (simp_all add: dump_string_eq)

lemma dump_json_text: "dump_json fmt w = json_text fmt w"
  by (simp add: dump_json_def dump_text)

section \<open>Strings read back\<close>

definition needs_escape :: "bytes \<Rightarrow> bool" where
  "needs_escape s \<longleftrightarrow> list_ex (\<lambda>c. escape_char c \<noteq> [c]) s"

lemma escape_char_cases:
  obtains (plain) "escape_char c = [c]" "c \<noteq> QUOTE" "c \<noteq> BACKSLASH" "c \<noteq> NUL"
  | (short) d where "escape_char c = [BACKSLASH, d]" "d \<in> set plain_escapes" "unescape_char d = [c]"
  | (hex) "escape_char c = [BACKSLASH, CHR ''u'', CHR ''0'', CHR ''0'', to_hex (of_char c div 16),
      to_hex (of_char c mod 16)]" "(of_char c :: nat) < 32"
proof -
  have short': "thesis" if "c = x" "escape_char x = [BACKSLASH, d]" "d \<in> set plain_escapes"
    "unescape_char d = [x]" for x d
    using that short by blast
  note short_defs = escape_char_def plain_escapes_def unescape_char_def
  consider "c = QUOTE" | "c = BACKSLASH" | "c = LF" | "c = BS" | "c = FF" | "c = CR" | "c = TAB"
    | (other) "c \<noteq> QUOTE" "c \<noteq> BACKSLASH" "c \<noteq> LF" "c \<noteq> BS" "c \<noteq> FF" "c \<noteq> CR" "c \<noteq> TAB"
    by blast
  then show thesis
  proof cases
    case 1 then show thesis by (rule short' [where d = QUOTE]) (simp_all add: short_defs)
  next
    case 2 then show thesis by (rule short' [where d = BACKSLASH]) (simp_all add: short_defs)
  next
    case 3 then show thesis by (rule short' [where d = "CHR ''n''"]) (simp_all add: short_defs)
  next
    case 4 then show thesis by (rule short' [where d = "CHR ''b''"]) (simp_all add: short_defs)
  next
    case 5 then show thesis by (rule short' [where d = "CHR ''f''"]) (simp_all add: short_defs)
  next
    case 6 then show thesis by (rule short' [where d = "CHR ''r''"]) (simp_all add: short_defs)
  next
    case 7 then show thesis by (rule short' [where d = "CHR ''t''"]) (simp_all add: short_defs)
  next
    case other
    show thesis
    proof (cases "(of_char c :: nat) < 32")
      case True
      with other show thesis by (intro hex) (simp_all add: escape_char_def)
    next
      case False
      have "(of_char NUL :: nat) < 32" by simp
      with False have "c \<noteq> NUL" by metis
      with False other show thesis by (intro plain) (simp_all add: escape_char_def)
    qed
  qed
qed

lemma hex_digit:
  assumes "n < 16"
  shows "from_hex (to_hex n) = int n" and "check_hex (to_hex n)"
proof -
  have "list_all (\<lambda>n. from_hex (to_hex n) = int n \<and> check_hex (to_hex n)) [0..<16]" by code_simp
  with assms show "from_hex (to_hex n) = int n" "check_hex (to_hex n)" by (auto simp: list_all_iff)
qed

lemma hex_byte:
  assumes "n < 128"
  shows "utf8_bytes (hex4 (CHR ''0'') (CHR ''0'') (to_hex (n div 16)) (to_hex (n mod 16))) = [char_of n]"
proof -
  have zero: "from_hex (CHR ''0'') = 0" by (simp add: from_hex_def)
  have "from_hex (to_hex (n div 16)) = int (n div 16)" "from_hex (to_hex (n mod 16)) = int (n mod 16)"
    using assms by (intro hex_digit; simp)+
  then have "hex4 (CHR ''0'') (CHR ''0'') (to_hex (n div 16)) (to_hex (n mod 16)) =
      word_of_int (16 * (int n div 16) + int n mod 16)"
    by (simp add: hex4_def zero push_bit_eq_mult zdiv_int zmod_int mult.commute)
  also have "\<dots> = of_nat n" by simp
  finally have code: "hex4 (CHR ''0'') (CHR ''0'') (to_hex (n div 16)) (to_hex (n mod 16)) = of_nat n" .
  have "unat (of_nat n :: 32 word) = n" using assms by (simp add: unat_of_nat)
  moreover from this have "\<not> 0x800 \<le> (of_nat n :: 32 word)" "\<not> 0x80 \<le> (of_nat n :: 32 word)"
    using assms by (simp_all add: word_le_nat_alt)
  ultimately show ?thesis unfolding code by (simp add: utf8_bytes_def)
qed

lemma unescape_escape_char: "unescape_loop out (escape_char c @ more) = unescape_loop (out @ [c]) more"
proof (cases c rule: escape_char_cases)
  case (short d)
  have "d \<noteq> CHR ''u''" using short(2) by (auto simp: plain_escapes_def)
  with short show ?thesis by simp
next
  case hex
  with hex_byte [of "of_char c"] show ?thesis by simp
qed simp

lemma unescape_escape: "unescape_loop out (escape s @ more) = unescape_loop (out @ s) more"
  by (induction s arbitrary: out) (simp_all add: unescape_escape_char del: unescape_loop.simps)

lemma string_loop_escape_char:
  "string_loop acc e (escape_char c @ rest) =
   string_loop (acc @ escape_char c) (e \<or> escape_char c \<noteq> [c]) rest"
proof (cases c rule: escape_char_cases)
  case (short d)
  have "d \<noteq> CHR ''u''" using short(2) by (auto simp: plain_escapes_def)
  with short show ?thesis by simp
next
  case hex
  have "check_hexes 4 (CHR ''0'' # CHR ''0'' # to_hex (of_char c div 16) # to_hex (of_char c mod 16) # rest) =
      Inr True"
  proof -
    have "(4 :: nat) = Suc (Suc (Suc (Suc 0)))" by simp
    moreover have "check_hex (CHR ''0'')" by (simp add: check_hex_def)
    moreover have "check_hex (to_hex (of_char c div 16))" "check_hex (to_hex (of_char c mod 16))"
      using hex(2) by (intro hex_digit(2); simp)+
    ultimately show ?thesis by (simp only: check_hexes.simps if_True)
  qed
  with hex(1) show ?thesis by simp
qed simp

lemma string_loop_escape:
  "string_loop acc e (escape s @ QUOTE # rest) = Inr (Some (acc @ escape s, e \<or> needs_escape s, rest))"
proof (induction s arbitrary: acc e)
  case (Cons c s)
  then show ?case
    by (simp add: string_loop_escape_char needs_escape_def disj_assoc del: string_loop.simps)
qed (simp add: needs_escape_def)

lemma decode_quoted: "decode_string (quoted s @ rest) = Inr (Some (escape s, needs_escape s, rest))"
  by (simp add: decode_string_def consume_def and_then_def string_loop_escape del: string_loop.simps)

lemma escape_plain: "\<not> needs_escape s \<Longrightarrow> escape s = s"
  by (induction s) (auto simp: needs_escape_def)

lemma unescape_quoted: "unescape (escape s) (needs_escape s) = Inr s"
  using unescape_escape [of "[]" s "[]"] by (simp add: unescape_def escape_plain)

end
