(* ===== verification/Crow_Json_Roundtrip.thy ===== *)
theory Crow_Json_Roundtrip
  imports Crow_Json_Value "HOL-Library.Multiset"
begin

text \<open>
  What \<^verbatim>\<open>dump\<close> writes, \<^verbatim>\<open>load\<close> reads back: the value, number by number, string by
  string, member by member.
\<close>

text \<open>The value \<^verbatim>\<open>load\<close> makes of what \<^verbatim>\<open>dump\<close> wrote.\<close>

fun rval_of :: "('d \<Rightarrow> bytes) \<Rightarrow> 'd wvalue \<Rightarrow> rvalue" where
  "rval_of fmt WNull = RNull"
| "rval_of fmt WFalse = RFalse"
| "rval_of fmt WTrue = RTrue"
| "rval_of fmt (WNumber d) = RNumber (fmt d)"
| "rval_of fmt (WString s) = RString (escape s) (needs_escape s)"
| "rval_of fmt (WList ws) = RList (map (rval_of fmt) ws)"
| "rval_of fmt (WObject ms) = RObject (map (\<lambda>m. (fst m, rval_of fmt (snd m))) ms)"

text \<open>All numbers of a value print as numbers (\<^verbatim>\<open>%g\<close> of an infinity does not).\<close>

fun prints_numbers :: "('d \<Rightarrow> bytes) \<Rightarrow> 'd wvalue \<Rightarrow> bool" where
  "prints_numbers fmt (WNumber d) \<longleftrightarrow> number_text (fmt d)"
| "prints_numbers fmt (WList ws) \<longleftrightarrow> list_all (prints_numbers fmt) ws"
| "prints_numbers fmt (WObject ms) \<longleftrightarrow> list_all (\<lambda>m. prints_numbers fmt (snd m)) ms"
| "prints_numbers fmt _ \<longleftrightarrow> True"

section \<open>First characters\<close>

lemma number_text_chars: "number_text t \<Longrightarrow> list_all num_char t"
proof -
  have "accepts st t \<Longrightarrow> list_all num_char t" for st
  proof (induction t arbitrary: st)
    case (Cons c cs)
    have "\<not> num_char c \<Longrightarrow> num_step st c = Invalid"
      using not_digits(7) by (cases "c = CHR ''0''") (auto simp: num_step_def num_char_def)
    with Cons show ?case by (cases "num_char c") auto
  qed simp
  then show "number_text t \<Longrightarrow> list_all num_char t" using accepts_Minus by blast
qed

definition value_start :: "char \<Rightarrow> bool" where
  "value_start c \<longleftrightarrow> \<not> is_ws c \<and> c \<noteq> CHR '']'' \<and> c \<noteq> CHR ''}''"

lemma num_char_start:
  assumes "num_char c"
  shows "value_start c \<and> c \<noteq> CHR ''['' \<and> c \<noteq> CHR ''{'' \<and> c \<noteq> QUOTE \<and> c \<noteq> CHR ''t'' \<and>
    c \<noteq> CHR ''f'' \<and> c \<noteq> CHR ''n''"
proof -
  have "list_all (\<lambda>d. \<not> num_char d) [CHR '' '', TAB, CR, LF, CHR '']'', CHR ''}'', CHR ''['', CHR ''{'',
      QUOTE, CHR ''t'', CHR ''f'', CHR ''n'']"
    by (simp add: num_char_def is_digit_def)
  with assms show ?thesis by (auto simp: value_start_def is_ws_def)
qed

lemma json_text_start:
  assumes "prints_numbers fmt w"
  shows "json_text fmt w \<noteq> [] \<and> value_start (hd (json_text fmt w))"
proof (cases w)
  case (WNumber d)
  with assms have t: "number_text (fmt d)" by simp
  then have "fmt d \<noteq> []" by (auto simp: number_text_def)
  moreover from this have "num_char (hd (fmt d))"
    using number_text_chars [OF t] by (cases "fmt d") auto
  ultimately show ?thesis using WNumber num_char_start by simp
qed (simp_all add: value_start_def is_ws_def)

lemma ws_skip_start: "xs \<noteq> [] \<Longrightarrow> \<not> is_ws (hd xs) \<Longrightarrow> ws_skip xs = Inr (Some xs)"
  by (cases xs) simp_all

lemma and_then_Some [simp]: "and_then (Inr (Some x)) f = f x"
  by (simp add: and_then_def)

lemma consume_Cons [simp]: "consume c (c # cs) = Inr (Some cs)"
  by (simp add: consume_def)

section \<open>Reading back\<close>

definition reads :: "('d \<Rightarrow> bytes) \<Rightarrow> 'd wvalue \<Rightarrow> bool" where
  "reads fmt w \<longleftrightarrow>
     (\<forall>n rest. terminated rest \<longrightarrow> \<not> num_char (hd rest) \<longrightarrow> 2 * length (json_text fmt w @ rest) \<le> n \<longrightarrow>
        decode_value n (json_text fmt w @ rest) = Inr (Some (rval_of fmt w, rest)))"

lemma readsD:
  "reads fmt w \<Longrightarrow> terminated rest \<Longrightarrow> \<not> num_char (hd rest) \<Longrightarrow>
   2 * length (json_text fmt w @ rest) \<le> n \<Longrightarrow>
   decode_value n (json_text fmt w @ rest) = Inr (Some (rval_of fmt w, rest))"
  by (simp add: reads_def)

lemma reads_number:
  assumes "number_text (fmt d)"
  shows "reads fmt (WNumber d)"
  unfolding reads_def
proof (intro allI impI)
  fix n rest
  assume rest: "terminated rest" "\<not> num_char (hd rest)"
    and n: "2 * length (json_text fmt (WNumber d) @ rest) \<le> n"
  obtain c cs where t: "fmt d = c # cs" using assms by (cases "fmt d") (auto simp: number_text_def)
  have chars: "list_all num_char (fmt d)" using assms by (rule number_text_chars)
  then have c: "num_char c" using t by simp
  obtain r rs where r: "rest = r # rs" using rest(1) by (cases rest) auto
  have "terminated (fmt d @ rest)" using rest(1) by (simp add: terminated_def)
  moreover have "takeWhile num_char (fmt d @ rest) = fmt d" "dropWhile num_char (fmt d @ rest) = rest"
    using chars rest(2) r by (auto simp: list_all_iff takeWhile_append2 dropWhile_append2)
  ultimately have "decode_number (fmt d @ rest) = Inr (Some (RNumber (fmt d), rest))"
    using assms by (simp add: decode_number_eq)
  moreover obtain m where "n = Suc m" using n rest(1) by (cases n) auto
  ultimately show "decode_value n (json_text fmt (WNumber d) @ rest) = Inr (Some (rval_of fmt (WNumber d), rest))"
    using t num_char_start [OF c] by simp
qed

text \<open>What follows an element of a list.\<close>

lemma list_loop_reads:
  assumes "list_all (reads fmt) ws" and "list_all (prints_numbers fmt) ws" and "ws \<noteq> []"
    and "terminated rest" and "2 * length (sep_by_comma (map (json_text fmt) ws) @ '']'' @ rest) < n"
  shows "list_loop n acc (sep_by_comma (map (json_text fmt) ws) @ '']'' @ rest) =
    Inr (Some (RList (acc @ map (rval_of fmt) ws), rest))"
  using assms
proof (induction ws arbitrary: acc n)
  case (Cons w ws)
  let ?more = "case ws of [] \<Rightarrow> '']'' @ rest | _ \<Rightarrow> CHR '','' # sep_by_comma (map (json_text fmt) ws) @ '']'' @ rest"
  have shape: "sep_by_comma (map (json_text fmt) (w # ws)) @ '']'' @ rest = json_text fmt w @ ?more"
    by (cases ws) simp_all
  have more: "terminated ?more" "\<not> num_char (hd ?more)" "\<not> is_ws (hd ?more)"
    using Cons.prems(4) by (cases ws; simp add: terminated_def num_char_def is_digit_def is_ws_def)+
  obtain m where n: "n = Suc m" using Cons.prems(5) by (cases n) auto
  have first: "decode_value m (json_text fmt w @ ?more) = Inr (Some (rval_of fmt w, ?more))"
  proof (rule readsD)
    show "2 * length (json_text fmt w @ ?more) \<le> m" using Cons.prems(5) n unfolding shape by simp
  qed (use Cons.prems(1) more in simp_all)
  have skip: "ws_skip ?more = Inr (Some ?more)" using more by (intro ws_skip_start) auto
  show ?case
  proof (cases ws)
    case Nil
    then show ?thesis unfolding shape n using first skip by simp
  next
    case (Cons w' ws')
    let ?tail = "sep_by_comma (map (json_text fmt) ws) @ '']'' @ rest"
    have "prints_numbers fmt w'" using Cons.prems(2) Cons by simp
    from json_text_start [OF this] have "ws_skip ?tail = Inr (Some ?tail)"
      using Cons by (cases "json_text fmt w'"; cases ws') (simp_all add: value_start_def)
    moreover have "list_loop m (acc @ [rval_of fmt w]) ?tail =
        Inr (Some (RList ((acc @ [rval_of fmt w]) @ map (rval_of fmt) ws), rest))"
      using Cons.prems shape Cons n by (intro Cons.IH) auto
    ultimately show ?thesis unfolding shape n using first skip Cons by simp
  qed
qed simp


definition member_text :: "('d \<Rightarrow> bytes) \<Rightarrow> bytes \<times> 'd wvalue \<Rightarrow> bytes" where
  "member_text fmt m = quoted (fst m) @ CHR '':'' # json_text fmt (snd m)"

definition rmember_of :: "('d \<Rightarrow> bytes) \<Rightarrow> bytes \<times> 'd wvalue \<Rightarrow> bytes \<times> rvalue" where
  "rmember_of fmt m = (fst m, rval_of fmt (snd m))"

lemma ws_skip_member: "ws_skip (CHR '':'' # xs) = Inr (Some (CHR '':'' # xs))"
  by (simp add: is_ws_def)

lemma object_loop_reads:
  assumes "list_all (\<lambda>m. reads fmt (snd m)) ms" and "list_all (\<lambda>m. prints_numbers fmt (snd m)) ms"
    and "ms \<noteq> []" and "terminated rest"
    and "2 * length (sep_by_comma (map (member_text fmt) ms) @ ''}'' @ rest) < n"
  shows "object_loop n acc (sep_by_comma (map (member_text fmt) ms) @ ''}'' @ rest) =
    Inr (Some (RObject (acc @ map (rmember_of fmt) ms), rest))"
  using assms
proof (induction ms arbitrary: acc n)
  case (Cons m ms)
  let ?more = "case ms of [] \<Rightarrow> ''}'' @ rest
    | _ \<Rightarrow> CHR '','' # sep_by_comma (map (member_text fmt) ms) @ ''}'' @ rest"
  let ?v = "json_text fmt (snd m)"
  have shape: "sep_by_comma (map (member_text fmt) (m # ms)) @ ''}'' @ rest =
      quoted (fst m) @ CHR '':'' # ?v @ ?more"
    by (cases ms) (simp_all add: member_text_def)
  have more: "terminated ?more" "\<not> num_char (hd ?more)" "\<not> is_ws (hd ?more)"
    using Cons.prems(4) by (cases ms; simp add: terminated_def num_char_def is_digit_def is_ws_def)+
  obtain k where n: "n = Suc k" using Cons.prems(5) by (cases n) auto
  have first: "decode_value k (?v @ ?more) = Inr (Some (rval_of fmt (snd m), ?more))"
  proof (rule readsD)
    show "2 * length (?v @ ?more) \<le> k" using Cons.prems(5) n unfolding shape by simp
  qed (use Cons.prems(1) more in simp_all)
  have "prints_numbers fmt (snd m)" using Cons.prems(2) by simp
  from json_text_start [OF this] have start: "ws_skip (?v @ ?more) = Inr (Some (?v @ ?more))"
    by (intro ws_skip_start) (auto simp: value_start_def)
  have skip: "ws_skip ?more = Inr (Some ?more)" using more by (intro ws_skip_start) auto
  note steps = first start skip decode_quoted ws_skip_member unescape_quoted
  show ?case
  proof (cases ms)
    case Nil
    then show ?thesis unfolding shape n object_loop.simps
      using steps by (simp add: rmember_of_def del: quoted.simps ws_skip.simps)
  next
    case (Cons m' ms')
    let ?tail = "sep_by_comma (map (member_text fmt) ms) @ ''}'' @ rest"
    have "ws_skip ?tail = Inr (Some ?tail)"
      using Cons by (cases ms') (simp_all add: member_text_def is_ws_def)
    moreover have "object_loop k (acc @ [(fst m, rval_of fmt (snd m))]) ?tail =
        Inr (Some (RObject ((acc @ [(fst m, rval_of fmt (snd m))]) @ map (rmember_of fmt) ms), rest))"
      using Cons.prems shape Cons n by (intro Cons.IH) auto
    ultimately show ?thesis unfolding shape n object_loop.simps
      using steps Cons by (simp add: rmember_of_def del: quoted.simps ws_skip.simps)
  qed
qed simp

lemma reads_list:
  assumes "list_all (reads fmt) ws" and "list_all (prints_numbers fmt) ws"
  shows "reads fmt (WList ws)"
  unfolding reads_def
proof (intro allI impI)
  fix n rest
  assume rest: "terminated rest" and n: "2 * length (json_text fmt (WList ws) @ rest) \<le> n"
  let ?items = "sep_by_comma (map (json_text fmt) ws) @ '']'' @ rest"
  have shape: "json_text fmt (WList ws) @ rest = CHR ''['' # ?items" by simp
  obtain m where m: "n = Suc m" using n rest by (cases n) auto
  have "decode_list_with (list_loop m) (CHR ''['' # ?items) = Inr (Some (RList (map (rval_of fmt) ws), rest))"
  proof (cases ws)
    case Nil
    then show ?thesis by (simp add: decode_list_with_def is_ws_def)
  next
    case (Cons w ws')
    have "prints_numbers fmt w" using assms(2) Cons by simp
    from json_text_start [OF this] obtain c cs where c: "json_text fmt w = c # cs" "value_start c"
      by (cases "json_text fmt w") auto
    then obtain cs' where items: "?items = c # cs'" using Cons by (cases ws') auto
    have "ws_skip ?items = Inr (Some ?items)" using c(2) unfolding items by (simp add: value_start_def)
    moreover have "peek ?items = Inr (Some c)" unfolding items by simp
    moreover have "c \<noteq> CHR '']''" using c(2) by (simp add: value_start_def)
    moreover have "list_loop m [] ?items = Inr (Some (RList ([] @ map (rval_of fmt) ws), rest))"
      using assms rest n m shape Cons by (intro list_loop_reads) auto
    ultimately show ?thesis by (simp add: decode_list_with_def)
  qed
  then show "decode_value n (json_text fmt (WList ws) @ rest) = Inr (Some (rval_of fmt (WList ws), rest))"
    unfolding shape m by simp
qed

lemma reads_object:
  assumes "list_all (\<lambda>m. reads fmt (snd m)) ms" and "list_all (\<lambda>m. prints_numbers fmt (snd m)) ms"
  shows "reads fmt (WObject ms)"
  unfolding reads_def
proof (intro allI impI)
  fix n rest
  assume rest: "terminated rest" and n: "2 * length (json_text fmt (WObject ms) @ rest) \<le> n"
  let ?items = "sep_by_comma (map (member_text fmt) ms) @ ''}'' @ rest"
  have shape: "json_text fmt (WObject ms) @ rest = CHR ''{'' # ?items"
    by (simp add: member_text_def [abs_def])
  obtain k where k: "n = Suc k" using n rest by (cases n) auto
  have "decode_object_with (object_loop k) (CHR ''{'' # ?items) =
      Inr (Some (RObject (map (rmember_of fmt) ms), rest))"
  proof (cases ms)
    case Nil
    then show ?thesis by (simp add: decode_object_with_def is_ws_def)
  next
    case (Cons m ms')
    then obtain cs where items: "?items = QUOTE # cs" by (cases ms') (auto simp: member_text_def)
    have "ws_skip ?items = Inr (Some ?items)" "peek ?items = Inr (Some QUOTE)"
      unfolding items by (simp_all add: is_ws_def)
    moreover have "object_loop k [] ?items = Inr (Some (RObject ([] @ map (rmember_of fmt) ms), rest))"
      using assms rest n k shape Cons by (intro object_loop_reads) auto
    ultimately show ?thesis by (simp add: decode_object_with_def)
  qed
  then show "decode_value n (json_text fmt (WObject ms) @ rest) = Inr (Some (rval_of fmt (WObject ms), rest))"
    unfolding shape k by (simp add: rmember_of_def [abs_def])
qed

lemma reads_at_once:
  assumes "\<And>m rest. decode_value (Suc m) (json_text fmt w @ rest) = Inr (Some (rval_of fmt w, rest))"
    and "json_text fmt w \<noteq> []"
  shows "reads fmt w"
  unfolding reads_def
proof (intro allI impI)
  fix n rest
  assume "2 * length (json_text fmt w @ rest) \<le> n"
  with assms(2) obtain m where "n = Suc m" by (cases n) auto
  with assms(1) show "decode_value n (json_text fmt w @ rest) = Inr (Some (rval_of fmt w, rest))" by simp
qed

lemma reads_atoms: "reads fmt WNull" "reads fmt WFalse" "reads fmt WTrue"
  by (rule reads_at_once; simp add: decode_literal_def)+

lemma reads_string: "reads fmt (WString s)"
proof (rule reads_at_once)
  fix m rest
  have "peek (quoted s @ rest) = Inr (Some QUOTE)" by simp
  then show "decode_value (Suc m) (json_text fmt (WString s) @ rest) = Inr (Some (rval_of fmt (WString s), rest))"
    using decode_quoted [of s rest] by (simp del: quoted.simps)
qed simp

lemma reads_all: "prints_numbers fmt w \<Longrightarrow> reads fmt w"
proof (induction w)
  case (WList ws)
  then show ?case by (intro reads_list) (auto simp: list_all_iff)
next
  case (WObject ms)
  then show ?case by (intro reads_object) (auto simp: list_all_iff)
qed (simp_all add: reads_atoms reads_number reads_string)

lemma load_dump:
  assumes "prints_numbers fmt w"
  shows "load_json (dump_json fmt w) = Inr (Some (rval_of fmt w))"
proof -
  have nul: "terminated [NUL]" "\<not> num_char (hd [NUL])" by (simp_all add: num_char_def is_digit_def)
  have "ws_skip (json_text fmt w @ [NUL]) = Inr (Some (json_text fmt w @ [NUL]))"
    using json_text_start [OF assms] by (intro ws_skip_start) (auto simp: value_start_def)
  with readsD [OF reads_all [OF assms] nul order_refl] show ?thesis
    by (simp add: load_json_def parse_json_def dump_json_text is_ws_def)
qed


section \<open>Back to a writable value\<close>

text \<open>
  The conversions of numbers undo each other for the numbers of the value, and no object has a
  key twice.
\<close>

fun exact_numbers :: "(bytes \<Rightarrow> 'd option) \<Rightarrow> ('d \<Rightarrow> bytes) \<Rightarrow> 'd wvalue \<Rightarrow> bool" where
  "exact_numbers dbl fmt (WNumber d) \<longleftrightarrow> number_text (fmt d) \<and> dbl (fmt d) = Some d"
| "exact_numbers dbl fmt (WList ws) \<longleftrightarrow> list_all (exact_numbers dbl fmt) ws"
| "exact_numbers dbl fmt (WObject ms) \<longleftrightarrow> list_all (\<lambda>m. exact_numbers dbl fmt (snd m)) ms"
| "exact_numbers dbl fmt _ \<longleftrightarrow> True"

fun distinct_keys :: "'d wvalue \<Rightarrow> bool" where
  "distinct_keys (WList ws) \<longleftrightarrow> list_all distinct_keys ws"
| "distinct_keys (WObject ms) \<longleftrightarrow> distinct (map fst ms) \<and> list_all (\<lambda>m. distinct_keys (snd m)) ms"
| "distinct_keys _ \<longleftrightarrow> True"

lemma exact_prints: "exact_numbers dbl fmt w \<Longrightarrow> prints_numbers fmt w"
  by (induction w) (auto simp: list_all_iff)

lemma emplace_distinct:
  "distinct (map fst (tbl @ ms)) \<Longrightarrow> emplace_members tbl ms = tbl @ ms"
  by (induction tbl ms rule: emplace_members.induct) (auto simp: image_iff)

lemma arrange_id: "distinct (map fst ms) \<Longrightarrow> arrange (\<lambda>ks. ks) ms = ms"
  by (auto simp: arrange_def intro!: map_idI)

lemma wvalues_of_map:
  "(\<And>w. w \<in> set ws \<Longrightarrow> wvalue_of dbl ord (f w) = Inr w) \<Longrightarrow> wvalues_of dbl ord (map f ws) = Inr ws"
  by (induction ws) simp_all

lemma wmembers_of_map:
  "(\<And>m. m \<in> set ms \<Longrightarrow> wvalue_of dbl ord (f (snd m)) = Inr (snd m)) \<Longrightarrow>
   wmembers_of dbl ord (map (\<lambda>m. (fst m, f (snd m))) ms) = Inr ms"
  by (induction ms) auto

lemma wvalue_of_rval_of:
  "exact_numbers dbl fmt w \<Longrightarrow> distinct_keys w \<Longrightarrow> wvalue_of dbl (\<lambda>ks. ks) (rval_of fmt w) = Inr w"
proof (induction w)
  case (WList ws)
  then have "wvalues_of dbl (\<lambda>ks. ks) (map (rval_of fmt) ws) = Inr ws"
    by (intro wvalues_of_map) (auto simp: list_all_iff)
  then show ?case by simp
next
  case (WObject ms)
  then have "wmembers_of dbl (\<lambda>ks. ks) (map (\<lambda>m. (fst m, rval_of fmt (snd m))) ms) = Inr ms"
    by (intro wmembers_of_map) (fastforce simp: list_all_iff)
  with WObject.prems(2) show ?case by (simp add: emplace_distinct arrange_id)
qed (simp_all add: r_d_def r_s_def unescape_quoted)

section \<open>Looking up a member\<close>

lemma schar_inject: "schar c = schar d \<longleftrightarrow> c = d"
proof -
  have "0 \<le> (of_char x :: int) \<and> (of_char x :: int) < 256" for x
    using nat_of_char_less_256 [of x] by (simp flip: of_nat_of_char [where ?'a = int])
  from this [of c] this [of d] have "schar c = schar d \<longleftrightarrow> (of_char c :: int) = of_char d"
    by (auto simp: schar_def)
  then show ?thesis by simp
qed

lemma key_rank_inject: "key_rank k = key_rank l \<longleftrightarrow> k = l"
  by (simp add: key_rank_def inj_map_eq_map inj_def schar_inject)

lemma lower_bound_sorted:
  assumes "sorted (map (\<lambda>m. key_rank (fst m)) ms)" and "distinct (map fst ms)"
  shows "(case lower_bound k ms of [] \<Rightarrow> None | m # _ \<Rightarrow> if fst m = k then Some (snd m) else None) =
    map_of ms k"
  using assms
proof (induction ms)
  case (Cons m ms)
  show ?case
  proof (cases "key_rank (fst m) < key_rank k")
    case True
    with Cons show ?thesis by (cases m) (auto simp: lower_bound_def)
  next
    case False
    have "fst m \<noteq> k \<Longrightarrow> map_of ms k = None"
    proof -
      assume "fst m \<noteq> k"
      with False have "key_rank k < key_rank (fst m)" using key_rank_inject by force
      moreover have "\<forall>x \<in> set ms. key_rank (fst m) \<le> key_rank (fst x)" using Cons.prems(1) by simp
      ultimately have "k \<notin> fst ` set ms" by (auto simp: image_iff dest: bspec)
      then show "map_of ms k = None" by (simp add: map_of_eq_None_iff)
    qed
    with False show ?thesis by (cases m) (auto simp: lower_bound_def)
  qed
qed (simp add: lower_bound_def)

lemma sort_members_perm: "set (sort_members ms) = set ms" "distinct (map fst (sort_members ms)) = distinct (map fst ms)"
proof -
  show "set (sort_members ms) = set ms" by (simp add: sort_members_def)
  have "mset (map fst (sort_members ms)) = mset (map fst ms)" by (simp add: sort_members_def)
  then show "distinct (map fst (sort_members ms)) = distinct (map fst ms)"
    using mset_eq_imp_distinct_iff by blast
qed

lemma r_key_map_of:
  assumes "distinct (map fst ms)"
  shows "r_key k (RObject ms) =
    (case map_of ms k of Some v \<Rightarrow> Inr v | None \<Rightarrow> Inl (Runtime_error ''cannot find key''))"
proof -
  let ?ms = "sort_members ms"
  have d: "distinct (map fst ?ms)" using assms by (simp add: sort_members_perm)
  have "sorted (map (\<lambda>m. key_rank (fst m)) ?ms)" by (simp add: sort_members_def)
  from lower_bound_sorted [OF this d, of k] have
    "(case lower_bound k ?ms of [] \<Rightarrow> None | m # _ \<Rightarrow> if fst m = k then Some (snd m) else None) = map_of ?ms k" .
  moreover have "map_of ?ms k = map_of ms k"
    using d assms sort_members_perm(1) map_of_inject_set by metis
  ultimately show ?thesis by (auto simp: r_key_def split: list.splits option.splits if_splits)
qed


section \<open>Strings as a codec\<close>

definition read_quoted :: "bytes \<Rightarrow> (bytes \<times> nat) option" where
  "read_quoted xs =
     (case decode_string (xs @ [NUL]) of
        Inr (Some (raw, e, ys)) \<Rightarrow>
          (case unescape raw e of Inr s \<Rightarrow> Some (s, Suc (length xs) - length ys) | Inl f \<Rightarrow> None)
      | _ \<Rightarrow> None)"

lemma read_quoted_dump: "read_quoted (dump_string s [] @ rest) = Some (s, length (dump_string s []))"
  using decode_quoted [of s "rest @ [NUL]"]
  by (simp add: read_quoted_def dump_string_eq unescape_quoted)

interpretation js: prefix_codec "\<lambda>s. dump_string s []" read_quoted "\<lambda>s. True"
  by unfold_locales (rule read_quoted_dump)

section \<open>Properties\<close>



text \<open>Looking a key up by sorting the members by signed bytes and searching gives the member
  with exactly that key when the keys of the object are distinct, and the exception when there is
  none.\<close>

lemma member_lookup:
  assumes "distinct (map fst ms)"
  shows "r_key k (RObject ms) =
    (case map_of ms k of Some v \<Rightarrow> Inr v | None \<Rightarrow> Inl (Runtime_error ''cannot find key''))"
  using assms by (rule r_key_map_of)

text \<open>No quoted string is a prefix of another: where one string ends, and so which bytes
  follow it, is determined by the bytes alone.\<close>

lemma quoted_strings_prefix_free:
  assumes "dump_string s [] @ xs = dump_string t [] @ ys"
  shows "s = t \<and> xs = ys"
  by (rule js.prefix_free [OF TrueI TrueI assms])

text \<open>The output operator of \<^verbatim>\<open>rvalue\<close> writes strings without escaping them: what it
  prints for a string with a quote in it is refused by \<^verbatim>\<open>load\<close>.\<close>

lemma printed_value_unreadable:
  "\<exists>body v t. load_json body = Inr (Some v) \<and> print_rvalue num v = Inr t \<and> load_json t = Inr None"
proof (intro exI conjI)
  show "load_json (QUOTE # ''a'' @ [BACKSLASH, QUOTE] @ ''b'' @ [QUOTE]) =
      Inr (Some (RString (''a'' @ [BACKSLASH, QUOTE] @ ''b'') True))" by code_simp
  show "print_rvalue num (RString (''a'' @ [BACKSLASH, QUOTE] @ ''b'') True) =
      Inr (QUOTE # ''a'' @ [QUOTE] @ ''b'' @ [QUOTE])"
    by (simp add: r_s_def unescape_def unescape_char_def)
  show "load_json (QUOTE # ''a'' @ [QUOTE] @ ''b'' @ [QUOTE]) = Inr None" by code_simp
qed

end
