(* ===== verification/Database_Manager.thy ===== *)
theory Database_Manager
  imports Redis_Sync Redis_System Pinocchio_Config
begin

text \<open>
  \<^verbatim>\<open>src/database_manager.cpp\<close> and \<^verbatim>\<open>src/user_manager.cpp\<close>: the mailboxes of the users as
  lists of a Redis server, reached through a synchronous and an asynchronous client. The closures
  given to the asynchronous client are a datatype, and \<open>handler_command\<close> is what they do.

  The Redis server is not part of the program: it is a parameter, and what is used of it (the
  documented behaviour of its list commands) is a named hypothesis.
\<close>

section \<open>The object\<close>

datatype db_handler = On_lpush bytes bytes | On_ltrim

type_synonym db_client = "(db_handler, unit) redis_client"

record db_manager =
  async_client :: db_client
  sync_client :: db_client
  io_running :: bool

datatype 'r db_result = Db_value 'r | Db_exception bytes | Db_abort | Db_blocked

text \<open>
  \<^verbatim>\<open>Initialize\<close>: \<open>addr_ok\<close> is whether the address parses, \<open>ec\<close> what the synchronous
  connect gives. The asynchronous connect ends later, on the thread that is started last.
\<close>

definition db_initialize ::
  "(bytes \<Rightarrow> bool) \<Rightarrow> bytes option \<Rightarrow> bytes \<Rightarrow> bytes \<Rightarrow> db_manager \<Rightarrow> std_exn + int \<times> db_manager"
where
  "db_initialize addr_ok ec ip port db =
     (if \<not> addr_ok ip then Inl Invalid_argument
      else
        (case port_of port of
           Inl e \<Rightarrow> Inl e
         | Inr p \<Rightarrow>
             (case sync_connect None None ec (sync_client db) of
                (ok, msg, c) \<Rightarrow>
                  if \<not> ok then Inr (- 1, db\<lparr>sync_client := c\<rparr>)
                  else Inr (0, db\<lparr>sync_client := c, io_running := True\<rparr>))))"

definition new_db :: db_manager where
  "new_db = \<lparr>async_client = new_client, sync_client = new_client, io_running = False\<rparr>"

definition onConnected :: "bool \<Rightarrow> db_manager \<Rightarrow> db_manager" where
  "onConnected ok db = (if ok then db else db\<lparr>io_running := False\<rparr>)"

section \<open>Synchronous operations\<close>

text \<open>
  A synchronous command of the manager: the bytes it sends, how it ends for its caller, and the
  object after it. A call that reads on for ever does not end either.
\<close>

definition sync_call ::
  "bool \<Rightarrow> bytes \<Rightarrow> bytes list \<Rightarrow> bytes option \<Rightarrow> read_event list \<Rightarrow> db_manager \<Rightarrow>
   bytes \<times> redis_value db_result \<times> db_manager"
where
  "sync_call nd cmd args wec evs db =
     (case sync_command nd cmd args wec evs (sync_client db) of
        (out, None) \<Rightarrow> (out, Db_blocked, db)
      | (out, Some (Returned v c rest)) \<Rightarrow> (out, Db_value v, db\<lparr>sync_client := c\<rparr>)
      | (out, Some (Threw e c rest)) \<Rightarrow> (out, Db_exception e, db\<lparr>sync_client := c\<rparr>)
      | (out, Some (Aborted f)) \<Rightarrow> (out, Db_abort, db)
      | (out, Some (Waiting c)) \<Rightarrow> (out, Db_blocked, db\<lparr>sync_client := c\<rparr>))"

fun db_map :: "('a \<Rightarrow> 'b) \<Rightarrow> 'a db_result \<Rightarrow> 'b db_result" where
  "db_map f (Db_value v) = Db_value (f v)"
| "db_map f (Db_exception e) = Db_exception e"
| "db_map f Db_abort = Db_abort"
| "db_map f Db_blocked = Db_blocked"

definition IsMember ::
  "bool \<Rightarrow> bytes \<Rightarrow> bytes option \<Rightarrow> read_event list \<Rightarrow> db_manager \<Rightarrow>
   bytes \<times> bool db_result \<times> db_manager"
where
  "IsMember nd token wec evs db =
     (case sync_call nd ''SISMEMBER'' [''userToken'', token] wec evs db of
        (out, r, db') \<Rightarrow> (out, db_map (\<lambda>v. isOk v \<and> toInt v = 1) r, db'))"

definition AddMember ::
  "bool \<Rightarrow> bytes \<Rightarrow> bytes option \<Rightarrow> read_event list \<Rightarrow> db_manager \<Rightarrow>
   bytes \<times> bool db_result \<times> db_manager"
where
  "AddMember nd token wec evs db =
     (case sync_call nd ''SADD'' [''userToken'', token] wec evs db of
        (out, r, db') \<Rightarrow> (out, db_map isOk r, db'))"

text \<open>\<^verbatim>\<open>UserManager::Load\<close> counts the tokens.\<close>

definition load_users ::
  "bool \<Rightarrow> bytes option \<Rightarrow> read_event list \<Rightarrow> db_manager \<Rightarrow> bytes \<times> nat db_result \<times> db_manager"
where
  "load_users nd wec evs db =
     (case sync_call nd ''SMEMBERS'' [''userToken''] wec evs db of
        (out, r, db') \<Rightarrow> (out, db_map (\<lambda>v. if isOk v then length (toArray v) else 0) r, db'))"

section \<open>Messages\<close>

definition push_items :: "bytes \<Rightarrow> bytes \<Rightarrow> bytes list" where
  "push_items token msg = [''LPUSH'', token, msg]"

text \<open>The key is given as a C string: it ends at the first NUL of the token.\<close>

definition bound_items :: "bytes \<Rightarrow> bytes list" where
  "bound_items token = [''LTRIM'', buffer_of_cstr (Some token), ''0'', ''99'']"

definition range_items :: "bytes \<Rightarrow> bytes list" where
  "range_items token = [''LRANGE'', token, ''0'', ''-1'']"

definition drop_items :: "bytes \<Rightarrow> bytes list" where
  "drop_items token = [''LTRIM'', token, ''100'', ''-1'']"

text \<open>What the handler of a reply sends, if anything.\<close>

fun handler_command :: "db_handler \<Rightarrow> redis_value \<Rightarrow> (bytes list \<times> db_handler) option" where
  "handler_command (On_lpush token msg) v =
     (if isOk v \<and> 99 < sint (toInt v) then Some (bound_items token, On_ltrim) else None)"
| "handler_command On_ltrim v = None"

definition run_handler ::
  "bool \<Rightarrow> db_handler \<Rightarrow> redis_value \<Rightarrow> db_client \<Rightarrow> (db_handler, unit) async_result"
where
  "run_handler nd h v c =
     (case handler_command h v of
        None \<Rightarrow> (c, [])
      | Some (items, h') \<Rightarrow> async_command nd (hd items) (tl items) h' c)"

text \<open>How a call of the asynchronous client ends for its caller.\<close>

definition call_result :: "'r \<Rightarrow> (db_handler, unit) effect list \<Rightarrow> 'r db_result" where
  "call_result r es =
     (case filter leaves es of
        [] \<Rightarrow> Db_value r
      | Thrown e # _ \<Rightarrow> Db_exception e
      | _ \<Rightarrow> Db_abort)"

definition AddMsg ::
  "bool \<Rightarrow> bytes \<Rightarrow> bytes \<Rightarrow> db_manager \<Rightarrow>
   bool db_result \<times> db_manager \<times> (db_handler, unit) effect list"
where
  "AddMsg nd token msg db =
     (case async_command nd ''LPUSH'' [token, msg] (On_lpush token msg) (async_client db) of
        (c, es) \<Rightarrow> (call_result True es, db\<lparr>async_client := c\<rparr>, es))"

definition GetMsg ::
  "bool \<Rightarrow> bytes \<Rightarrow> bytes option \<Rightarrow> read_event list \<Rightarrow> db_manager \<Rightarrow>
   bytes \<times> redis_value list option db_result \<times> db_manager \<times> (db_handler, unit) effect list"
where
  "GetMsg nd token wec evs db =
     (case sync_call nd ''LRANGE'' [token, ''0'', ''-1''] wec evs db of
        (out, Db_value v, db') \<Rightarrow>
          if isOk v then
            (case async_command nd ''LTRIM'' [token, ''100'', ''-1''] On_ltrim (async_client db') of
               (c, es) \<Rightarrow> (out, call_result (Some (toArray v)) es, db'\<lparr>async_client := c\<rparr>, es))
          else (out, Db_value None, db', [])
      | (out, Db_exception e, db') \<Rightarrow> (out, Db_exception e, db', [])
      | (out, Db_abort, db') \<Rightarrow> (out, Db_abort, db', [])
      | (out, Db_blocked, db') \<Rightarrow> (out, Db_blocked, db', []))"

section \<open>Facts\<close>

lemma async_command_connected:
  "cl_state c = Connected \<Longrightarrow> async_command nd cmd args h c = (c, [Post_command (makeCommand (cmd # args)) h])"
  by (simp add: async_command_def guarded_post_def async_stateValid_def stateValid_def)

lemma call_result_posted [simp]: "call_result r [Post_command b h] = Db_value r"
  by (simp add: call_result_def)

definition db_ready :: "db_manager \<Rightarrow> bool" where
  "db_ready db \<longleftrightarrow>
     cl_state (async_client db) = Connected \<and> cl_state (sync_client db) = Connected \<and>
     write_queue (sync_client db) = [] \<and> idle (redisParser (sync_client db))"

text \<open>A synchronous command on a manager that is ready leaves it ready.\<close>

lemma sync_call_reply:
  assumes "db_ready db" and "encodable v" and "concat chunks = enc v @ tail"
  shows "\<exists>q. idle q \<and> db_ready (db\<lparr>sync_client := (sync_client db)\<lparr>redisParser := q\<rparr>\<rparr>) \<and>
    sync_call nd cmd args None (map Received chunks) db =
      (makeCommand (cmd # args), Db_value v, db\<lparr>sync_client := (sync_client db)\<lparr>redisParser := q\<rparr>\<rparr>)"
proof -
  let ?c = "sync_client db"
  obtain q used where "idle q" "sync_read (map Received chunks @ []) ?c =
      Some (Returned v (?c\<lparr>redisParser := q\<rparr>) (map Received (drop used chunks) @ []))"
    using sync_read_reply [of ?c v chunks tail "[]"] assms by (auto simp: db_ready_def)
  with assms(1) show ?thesis
    by (intro exI [of _ q])
      (simp add: db_ready_def sync_call_def sync_command_def doSyncCommand_def sync_stateValid_def stateValid_def)
qed

section \<open>Properties\<close>

text \<open>On a manager whose clients are connected, registering a user sends exactly one
  \<^verbatim>\<open>SADD\<close> of the token and succeeds unless the server answers with an error, however the
  reply is cut on its way; a second registration of the same token, which the server answers with
  0, succeeds too.\<close>

lemma AddMember_adds:
  assumes "db_ready db" and "encodable v" and "concat chunks = enc v @ tail"
  shows "\<exists>db'. db_ready db' \<and> AddMember nd token None (map Received chunks) db =
    (makeCommand [''SADD'', ''userToken'', token], Db_value (isOk v), db')"
  using sync_call_reply [OF assms, of nd "''SADD''" "[''userToken'', token]"] by (auto simp: AddMember_def)

text \<open>Reading the messages of a user sends one \<^verbatim>\<open>LRANGE\<close>, gives the elements of the
  array the server answers with, and posts one \<^verbatim>\<open>LTRIM\<close> that drops what was read; on an
  error of the server nothing is posted and nothing is given.\<close>

lemma GetMsg_reads_and_trims:
  assumes "db_ready db" and "encodable v" and "concat chunks = enc v @ tail"
  shows "\<exists>db'. db_ready db' \<and> GetMsg nd token None (map Received chunks) db =
    (makeCommand (range_items token),
     Db_value (if isOk v then Some (toArray v) else None), db',
     if isOk v then [Post_command (makeCommand (drop_items token)) On_ltrim] else [])"
proof -
  obtain q where q: "db_ready (db\<lparr>sync_client := (sync_client db)\<lparr>redisParser := q\<rparr>\<rparr>)" (is "db_ready ?db")
    "sync_call nd ''LRANGE'' [token, ''0'', ''-1''] None (map Received chunks) db =
      (makeCommand (range_items token), Db_value v, db\<lparr>sync_client := (sync_client db)\<lparr>redisParser := q\<rparr>\<rparr>)"
    using sync_call_reply [OF assms, of nd "''LRANGE''" "[token, ''0'', ''-1'']"]
    by (auto simp: range_items_def)
  have c: "cl_state (async_client ?db) = Connected" using q(1) by (simp add: db_ready_def)
  show ?thesis
    using q async_command_connected [OF c]
    by (intro exI [of _ ?db]) (simp add: GetMsg_def drop_items_def)
qed

end
