(* ===== verification/Mailbox.thy ===== *)
theory Mailbox
  imports Database_Manager
begin

text \<open>
  What the mailboxes promise, over a Redis server given by its documented list commands: the
  commands of the asynchronous client reach it in the order in which they were posted and their
  handlers get the replies in that order (both shown for the client itself), while synchronous
  commands reach it at once.
\<close>

section \<open>The server\<close>

text \<open>The elements from \<open>i\<close> to \<open>j\<close>, both counted from the end when they are negative.\<close>

definition redis_range :: "int \<Rightarrow> int \<Rightarrow> 'a list \<Rightarrow> 'a list" where
  "redis_range i j xs =
     (let n = int (length xs);
          i' = (if i < 0 then max 0 (n + i) else i);
          j' = (if j < 0 then n + j else j)
      in take (nat (j' + 1 - i')) (drop (nat i') xs))"

text \<open>
  The documented behaviour of the commands the program uses on lists. The key of the set of users
  holds no list, and list commands on it are refused: nothing is said of it.
\<close>

definition long_range :: "int \<Rightarrow> bool" where
  "long_range i \<longleftrightarrow> LONG_MIN \<le> i \<and> i \<le> LONG_MAX"

definition list_server ::
  "(bytes list \<Rightarrow> 's \<Rightarrow> redis_value \<times> 's) \<Rightarrow> ('s \<Rightarrow> bytes \<Rightarrow> bytes list) \<Rightarrow> bool"
where
  "list_server exec boxes \<longleftrightarrow>
     (\<forall>s k m. k \<noteq> ''userToken'' \<longrightarrow>
        fst (exec [''LPUSH'', k, m] s) = rv_int (word_of_nat (Suc (length (boxes s k)))) \<and>
        boxes (snd (exec [''LPUSH'', k, m] s)) = (boxes s)(k := m # boxes s k)) \<and>
     (\<forall>s k i j. k \<noteq> ''userToken'' \<and> long_range i \<and> long_range j \<longrightarrow>
        fst (exec [''LRANGE'', k, dec_of_int i, dec_of_int j] s) =
          rv_array (map rv_bytes (redis_range i j (boxes s k))) \<and>
        boxes (snd (exec [''LRANGE'', k, dec_of_int i, dec_of_int j] s)) = boxes s) \<and>
     (\<forall>s k i j. k \<noteq> ''userToken'' \<and> long_range i \<and> long_range j \<longrightarrow>
        boxes (snd (exec [''LTRIM'', k, dec_of_int i, dec_of_int j] s)) =
          (boxes s)(k := redis_range i j (boxes s k)))"

text \<open>A server that does this, for the witnesses.\<close>

definition list_exec ::
  "bytes list \<Rightarrow> (bytes \<Rightarrow> bytes list) \<Rightarrow> redis_value \<times> (bytes \<Rightarrow> bytes list)"
where
  "list_exec cmd s =
     (case cmd of
        [c, k, m] \<Rightarrow> (rv_int (word_of_nat (Suc (length (s k)))), s(k := m # s k))
      | [c, k, i, j] \<Rightarrow>
          if c = ''LRANGE'' then (rv_array (map rv_bytes (redis_range (strtol i) (strtol j) (s k))), s)
          else (rv_bytes ''OK'', s(k := redis_range (strtol i) (strtol j) (s k)))
      | _ \<Rightarrow> (rv_error_bytes ''ERR'', s))"

section \<open>The world\<close>

record 's world =
  redis :: 's
  todo :: "(bytes list \<times> db_handler) list"

definition post_command :: "bytes list \<times> db_handler \<Rightarrow> 's world \<Rightarrow> 's world" where
  "post_command c w = w\<lparr>todo := todo w @ [c]\<rparr>"

text \<open>\<^verbatim>\<open>AddMsg\<close> posts; one command is served and its handler runs; \<^verbatim>\<open>GetMsg\<close> reads, then posts.\<close>

definition add_msg :: "bytes \<Rightarrow> bytes \<Rightarrow> 's world \<Rightarrow> 's world" where
  "add_msg token msg w = post_command (push_items token msg, On_lpush token msg) w"

definition serve ::
  "(bytes list \<Rightarrow> 's \<Rightarrow> redis_value \<times> 's) \<Rightarrow> 's world \<Rightarrow> 's world"
where
  "serve exec w =
     (case todo w of
        [] \<Rightarrow> w
      | (items, h) # rest \<Rightarrow>
          (case exec items (redis w) of
             (v, s) \<Rightarrow> \<lparr>redis = s, todo = rest @ (case handler_command h v of None \<Rightarrow> [] | Some c \<Rightarrow> [c])\<rparr>))"

definition get_msg ::
  "(bytes list \<Rightarrow> 's \<Rightarrow> redis_value \<times> 's) \<Rightarrow> bytes \<Rightarrow> 's world \<Rightarrow> redis_value list option \<times> 's world"
where
  "get_msg exec token w =
     (case exec (range_items token) (redis w) of
        (v, s) \<Rightarrow>
          if isOk v
          then (Some (toArray v), post_command (drop_items token, On_ltrim) (w\<lparr>redis := s\<rparr>))
          else (None, w\<lparr>redis := s\<rparr>))"

definition serve_times ::
  "(bytes list \<Rightarrow> 's \<Rightarrow> redis_value \<times> 's) \<Rightarrow> nat \<Rightarrow> 's world \<Rightarrow> 's world"
where
  "serve_times exec n w = ((serve exec) ^^ n) w"

section \<open>Facts\<close>

lemma dec_of_int_literals:
  "dec_of_int 0 = ''0''" "dec_of_int (- 1) = ''-1''" "dec_of_int 99 = ''99''" "dec_of_int 100 = ''100''"
  by code_simp+

lemma list_exec_server: "list_server list_exec (\<lambda>s. s)"
  by (simp add: list_server_def list_exec_def long_range_def strtol_dec_of_int)

lemma redis_range_all: "redis_range 0 (- 1) xs = xs"
  by (simp add: redis_range_def Let_def)

lemma redis_range_first: "redis_range 0 99 xs = take 100 xs"
  by (simp add: redis_range_def Let_def)

lemma redis_range_rest: "redis_range 100 (- 1) xs = drop 100 xs"
  by (simp add: redis_range_def Let_def)


text \<open>The commands of the program on such a server.\<close>

lemma server_push:
  assumes "list_server exec boxes" and "k \<noteq> ''userToken''"
  shows "fst (exec (push_items k m) s) = rv_int (word_of_nat (Suc (length (boxes s k))))"
    and "boxes (snd (exec (push_items k m) s)) = (boxes s)(k := m # boxes s k)"
  using assms by (simp_all add: list_server_def push_items_def)

lemma server_range:
  assumes "list_server exec boxes" and "k \<noteq> ''userToken''"
  shows "fst (exec (range_items k) s) = rv_array (map rv_bytes (boxes s k))"
    and "boxes (snd (exec (range_items k) s)) = boxes s"
proof -
  have "long_range 0 \<and> long_range (- 1)" by (simp add: long_range_def LONG_MIN_def LONG_MAX_def)
  with assms have "fst (exec [''LRANGE'', k, dec_of_int 0, dec_of_int (- 1)] s) =
        rv_array (map rv_bytes (redis_range 0 (- 1) (boxes s k))) \<and>
      boxes (snd (exec [''LRANGE'', k, dec_of_int 0, dec_of_int (- 1)] s)) = boxes s"
    unfolding list_server_def by blast
  then show "fst (exec (range_items k) s) = rv_array (map rv_bytes (boxes s k))"
    "boxes (snd (exec (range_items k) s)) = boxes s"
    by (simp_all add: range_items_def dec_of_int_literals redis_range_all)
qed

lemma server_trim:
  assumes "list_server exec boxes" and "k \<noteq> ''userToken''"
  shows "buffer_of_cstr (Some k) = k \<Longrightarrow>
      boxes (snd (exec (bound_items k) s)) = (boxes s)(k := take 100 (boxes s k))"
    and "boxes (snd (exec (drop_items k) s)) = (boxes s)(k := drop 100 (boxes s k))"
proof -
  have "long_range 0 \<and> long_range 99" "long_range 100 \<and> long_range (- 1)"
    by (simp_all add: long_range_def LONG_MIN_def LONG_MAX_def)
  with assms have "boxes (snd (exec [''LTRIM'', c, dec_of_int 0, dec_of_int 99] s)) =
        (boxes s)(c := redis_range 0 99 (boxes s c))"
      "boxes (snd (exec [''LTRIM'', c, dec_of_int 100, dec_of_int (- 1)] s)) =
        (boxes s)(c := redis_range 100 (- 1) (boxes s c))" if "c = k" for c
    unfolding list_server_def that by blast+
  then show "buffer_of_cstr (Some k) = k \<Longrightarrow> boxes (snd (exec (bound_items k) s)) =
      (boxes s)(k := take 100 (boxes s k))"
    "boxes (snd (exec (drop_items k) s)) = (boxes s)(k := drop 100 (boxes s k))"
    by (simp_all add: bound_items_def drop_items_def dec_of_int_literals redis_range_first
        redis_range_rest)
qed

lemma serve_Cons:
  "todo w = (items, h) # rest \<Longrightarrow>
   redis (serve exec w) = snd (exec items (redis w)) \<and>
   todo (serve exec w) = rest @ (case handler_command h (fst (exec items (redis w))) of None \<Rightarrow> [] | Some c \<Rightarrow> [c])"
  by (simp add: serve_def split: prod.split)

lemma serve_idle: "todo w = [] \<Longrightarrow> serve exec w = w"
  by (simp add: serve_def)

lemma serve_times_Suc: "serve_times exec (Suc n) w = serve_times exec n (serve exec w)"
  by (simp add: serve_times_def funpow_swap1)

lemma serve_times_0 [simp]: "serve_times exec 0 w = w"
  by (simp add: serve_times_def)

lemma serve_times_idle: "todo w = [] \<Longrightarrow> serve_times exec n w = w"
  by (induction n) (simp_all add: serve_times_Suc serve_idle)

text \<open>Trims that wait: the mailbox is cut to its newest hundred, others stay.\<close>

lemma serve_trims:
  assumes "list_server exec boxes" and "k \<noteq> ''userToken''" and "buffer_of_cstr (Some k) = k"
  shows "todo w = replicate t (bound_items k, On_ltrim) \<Longrightarrow> t \<le> n \<Longrightarrow>
    todo (serve_times exec n w) = [] \<and>
    boxes (redis (serve_times exec n w)) =
      (if t = 0 then boxes (redis w) else (boxes (redis w))(k := take 100 (boxes (redis w) k)))"
proof (induction t arbitrary: n w)
  case 0
  then show ?case by (simp add: serve_times_idle)
next
  case (Suc t)
  then obtain m where n: "n = Suc m" by (cases n) auto
  from Suc.prems(1) have "todo w = (bound_items k, On_ltrim) # replicate t (bound_items k, On_ltrim)" by simp
  from serve_Cons [OF this, of exec] have "todo (serve exec w) = replicate t (bound_items k, On_ltrim)"
    "boxes (redis (serve exec w)) = (boxes (redis w))(k := take 100 (boxes (redis w) k))"
    using server_trim(1) [OF assms] by simp_all
  with Suc.IH [of "serve exec w" m] Suc.prems(2) n show ?case by (auto simp: serve_times_Suc)
qed

text \<open>Messages that wait are pushed in order; from the hundredth on a trim follows each.\<close>

definition pushes :: "bytes \<Rightarrow> bytes list \<Rightarrow> (bytes list \<times> db_handler) list" where
  "pushes k ms = map (\<lambda>m. (push_items k m, On_lpush k m)) ms"

lemma reply_length:
  assumes "n < 2 ^ 31"
  shows "isOk (rv_int (word_of_nat n))"
    and "99 < sint (toInt (rv_int (word_of_nat n))) \<longleftrightarrow> 99 < n"
proof -
  have "sint (word_of_nat n :: 32 word) = int n"
    using assms int_word_sint [where 'a = 32, of "int n"] by (simp add: mod_pos_pos_trivial)
  then show "isOk (rv_int (word_of_nat n))" "99 < sint (toInt (rv_int (word_of_nat n))) \<longleftrightarrow> 99 < n"
    by (simp_all add: isOk_def isError_def toInt_def rv_int_def)
qed

lemma serve_pushes:
  assumes server: "list_server exec boxes" "k \<noteq> ''userToken''" and key: "buffer_of_cstr (Some k) = k"
  shows "todo w = pushes k ms @ replicate t (bound_items k, On_ltrim) \<Longrightarrow>
    length (boxes (redis w) k) + length ms < 2 ^ 31 \<Longrightarrow> 2 * length ms + t \<le> n \<Longrightarrow>
    (t = 0 \<Longrightarrow> ms = [] \<Longrightarrow> length (boxes (redis w) k) \<le> 99) \<Longrightarrow>
    todo (serve_times exec n w) = [] \<and>
    boxes (redis (serve_times exec n w)) = (boxes (redis w))(k := take 100 (rev ms @ boxes (redis w) k))"
proof (induction ms arbitrary: t n w)
  case Nil
  then show ?case using serve_trims [OF server key, of w t n] by (auto simp: pushes_def)
next
  case (Cons m ms)
  let ?L = "boxes (redis w) k" and ?w = "serve exec w"
  let ?t = "if 99 < Suc (length ?L) then Suc t else t"
  obtain j where n: "n = Suc j" using Cons.prems(3) by (cases n) auto
  have "todo w = (push_items k m, On_lpush k m) # (pushes k ms @ replicate t (bound_items k, On_ltrim))"
    using Cons.prems(1) by (simp add: pushes_def)
  from serve_Cons [OF this, of exec] have w: "boxes (redis ?w) = (boxes (redis w))(k := m # ?L)"
    "todo ?w = pushes k ms @ replicate ?t (bound_items k, On_ltrim)"
    using server_push [OF server, of m "redis w"] reply_length [of "Suc (length ?L)"] Cons.prems(2)
    by (auto simp: replicate_append_same [symmetric])
  have "todo (serve_times exec j ?w) = [] \<and>
      boxes (redis (serve_times exec j ?w)) =
        (boxes (redis ?w))(k := take 100 (rev ms @ boxes (redis ?w) k))"
    using Cons.prems(2,3) n w by (intro Cons.IH [of _ ?t]) (auto split: if_splits)
  with n w(1) show ?case by (simp add: serve_times_Suc)
qed

lemma add_msgs: "todo (fold (add_msg k) ms w) = todo w @ pushes k ms \<and> redis (fold (add_msg k) ms w) = redis w"
  by (induction ms arbitrary: w) (simp_all add: add_msg_def post_command_def pushes_def)

text \<open>What the manager itself posts and sends is what the world is given.\<close>

lemma AddMsg_posts:
  assumes "cl_state (async_client db) = Connected"
  shows "AddMsg nd k m db =
    (Db_value True, db, map (\<lambda>(items, h). Post_command (makeCommand items) h) (todo (add_msg k m \<lparr>redis = s, todo = []\<rparr>)))"
  using async_command_connected [OF assms]
  by (simp add: AddMsg_def add_msg_def post_command_def push_items_def)

section \<open>Properties\<close>

text \<open>C7: messages sent to a user whose mailbox is empty are kept and handed out: once the commands
  they caused have been served, a receive gives the last hundred of them, newest first, each with
  its bytes, whatever they are; the mailbox never keeps more, and serving what the receive posted
  empties it.\<close>

theorem sent_messages_are_received:
  assumes "list_server exec boxes" and "k \<noteq> ''userToken''" and "buffer_of_cstr (Some k) = k"
    and "todo w = []" and "boxes (redis w) k = []" and "length ms < 2 ^ 31" and "2 * length ms \<le> n"
  shows "\<exists>w'. get_msg exec k (serve_times exec n (fold (add_msg k) ms w)) =
      (Some (map rv_bytes (take 100 (rev ms))), w') \<and>
    boxes (redis (serve_times exec 1 w')) k = [] \<and> todo (serve_times exec 1 w') = []"
proof -
  let ?w = "serve_times exec n (fold (add_msg k) ms w)"
  have w: "todo ?w = []" "boxes (redis ?w) k = take 100 (rev ms)"
    using serve_pushes [OF assms(1-3), of "fold (add_msg k) ms w" ms 0 n] add_msgs [of k ms w] assms(4-7)
    by simp_all
  obtain v s where r: "exec (range_items k) (redis ?w) = (v, s)" by fastforce
  with server_range [OF assms(1,2), of "redis ?w"] w(2)
  have v: "v = rv_array (map rv_bytes (take 100 (rev ms)))" "boxes s k = take 100 (rev ms)" by simp_all
  let ?w' = "post_command (drop_items k, On_ltrim) (?w\<lparr>redis := s\<rparr>)"
  have "get_msg exec k ?w = (Some (map rv_bytes (take 100 (rev ms))), ?w')"
    using r v(1) by (simp add: get_msg_def isOk_def isError_def rv_array_def toArray_def)
  moreover have "todo ?w' = (drop_items k, On_ltrim) # []" using w(1) by (simp add: post_command_def)
  from serve_Cons [OF this, of exec] server_trim(2) [OF assms(1,2), of s] v(2)
  have "boxes (redis (serve exec ?w')) k = [] \<and> todo (serve exec ?w') = []"
    by (simp add: post_command_def)
  ultimately show ?thesis by (auto simp: serve_times_def)
qed

theorem sent_messages_are_received_witness:
  "\<exists>w'. get_msg list_exec ''u'' (serve_times list_exec 4
        (fold (add_msg ''u'') [''m1'', ''m2''] \<lparr>redis = (\<lambda>k. []), todo = []\<rparr>)) =
      (Some (map rv_bytes (take 100 (rev [''m1'', ''m2'']))), w') \<and>
    redis (serve_times list_exec 1 w') ''u'' = [] \<and> todo (serve_times list_exec 1 w') = []"
  by (rule sent_messages_are_received [OF list_exec_server]) (simp_all add: buffer_of_cstr_def)

text \<open>C28: a message can be lost: when a receive reads the mailbox while the push of a message that
  was accepted before it still waits, the trim that the receive posts runs after that push and
  removes the message, which no receive has handed out.\<close>

theorem receive_loses_message_in_flight:
  assumes "list_server exec boxes" and "k \<noteq> ''userToken''" and "todo w = []" and "boxes (redis w) k = []"
  shows "\<exists>w'. get_msg exec k (add_msg k m w) = (Some [], w') \<and>
    todo (serve_times exec 2 w') = [] \<and> boxes (redis (serve_times exec 2 w')) k = []"
proof -
  let ?w = "add_msg k m w"
  have t: "todo ?w = [(push_items k m, On_lpush k m)]" "redis ?w = redis w"
    using assms(3) by (simp_all add: add_msg_def post_command_def)
  obtain v s where r: "exec (range_items k) (redis w) = (v, s)" by fastforce
  with server_range [OF assms(1,2), of "redis w"] assms(4)
  have v: "v = rv_array []" "boxes s k = []" by simp_all
  let ?w1 = "post_command (drop_items k, On_ltrim) (?w\<lparr>redis := s\<rparr>)"
  have "get_msg exec k ?w = (Some [], ?w1)"
    using r v(1) t(2) by (simp add: get_msg_def isOk_def isError_def rv_array_def toArray_def)
  moreover have "todo ?w1 = (push_items k m, On_lpush k m) # [(drop_items k, On_ltrim)]"
    using t by (simp add: post_command_def)
  from serve_Cons [OF this, of exec] server_push [OF assms(1,2), of m s] v(2)
    reply_length [of "Suc 0"]
  have w2: "todo (serve exec ?w1) = (drop_items k, On_ltrim) # []"
    "boxes (redis (serve exec ?w1)) k = [m]"
    by (simp_all add: post_command_def)
  from serve_Cons [OF w2(1), of exec] server_trim(2) [OF assms(1,2)] w2(2)
  have "todo (serve exec (serve exec ?w1)) = [] \<and> boxes (redis (serve exec (serve exec ?w1))) k = []"
    by simp
  ultimately show ?thesis by (auto simp: serve_times_def numeral_2_eq_2)
qed

theorem receive_loses_message_in_flight_witness:
  "\<exists>w'. get_msg list_exec ''u'' (add_msg ''u'' ''m'' \<lparr>redis = (\<lambda>k. []), todo = []\<rparr>) = (Some [], w') \<and>
    todo (serve_times list_exec 2 w') = [] \<and> redis (serve_times list_exec 2 w') ''u'' = []"
  by (rule receive_loses_message_in_flight [OF list_exec_server]) simp_all

end
