(* ===== verification/Crow_Timer.thy ===== *)
theory Crow_Timer
  imports Pinocchio_Prelude
begin

text \<open>
  \<^verbatim>\<open>dumb_timer_queue.h\<close>: the queue of deadlines that the connections of one thread share. Times
  are those of the steady clock, in nanoseconds. A key names its queue, or none once it has been
  cancelled, and the number of the timer, an \<^verbatim>\<open>int\<close> that wraps around.
\<close>

definition second :: int where
  "second = 1000000000"

definition tick :: int where
  "tick = 5"

record 'f timer_queue =
  has_service :: bool
  dq :: "(int \<times> 'f option) list"
  queue_step :: "32 word"

type_synonym timer_key = "bool \<times> 32 word"

definition new_timer_queue :: "'f timer_queue" where
  "new_timer_queue = \<lparr>has_service = False, dq = [], queue_step = 0\<rparr>"

definition set_io_service :: "'f timer_queue \<Rightarrow> 'f timer_queue" where
  "set_io_service q = q\<lparr>has_service := True\<rparr>"

text \<open>Cancelling empties the entry; the unsigned difference is large for a timer that is gone.\<close>

definition timer_cancel :: "timer_key \<Rightarrow> 'f timer_queue \<Rightarrow> timer_key \<times> 'f timer_queue" where
  "timer_cancel k q =
     ((False, snd k),
      if \<not> fst k then q
      else
        let index = unat (snd k - queue_step q)
        in if index < length (dq q) then q\<lparr>dq := (dq q)[index := (fst (dq q ! index), None)]\<rparr> else q)"

definition timer_add :: "int \<Rightarrow> 'f \<Rightarrow> 'f timer_queue \<Rightarrow> timer_key \<times> 'f timer_queue" where
  "timer_add now f q =
     (let q' = q\<lparr>dq := dq q @ [(now, Some f)]\<rparr>
      in ((True, queue_step q' + of_nat (length (dq q')) - 1), q'))"

text \<open>What \<^verbatim>\<open>process\<close> calls, in order, and what it leaves.\<close>

fun process_loop ::
  "int \<Rightarrow> (int \<times> 'f option) list \<Rightarrow> 32 word \<Rightarrow> 'f list \<times> (int \<times> 'f option) list \<times> 32 word"
where
  "process_loop now [] st = ([], [], st)"
| "process_loop now ((t, f) # r) st =
     (if now - t < tick * second then ([], (t, f) # r, st)
      else
        (case process_loop now r (st + 1) of
           (cs, r', st') \<Rightarrow> ((case f of None \<Rightarrow> cs | Some g \<Rightarrow> g # cs), r', st')))"

definition timer_process :: "int \<Rightarrow> 'f timer_queue \<Rightarrow> 'f list \<times> 'f timer_queue" where
  "timer_process now q =
     (if \<not> has_service q then ([], q)
      else
        (case process_loop now (dq q) (queue_step q) of
           (cs, d, st) \<Rightarrow> (cs, q\<lparr>dq := d, queue_step := st\<rparr>)))"

section \<open>What a queue of deadlines promises\<close>

text \<open>A schedule: the timers that wait, each with its number, its start and what it calls.\<close>

record 'f schedule =
  next_timer :: nat
  waiting :: "(nat \<times> int \<times> 'f) list"

definition schedule_add :: "int \<Rightarrow> 'f \<Rightarrow> 'f schedule \<Rightarrow> 'f schedule" where
  "schedule_add now f s =
     s\<lparr>next_timer := Suc (next_timer s), waiting := waiting s @ [(next_timer s, now, f)]\<rparr>"

definition schedule_cancel :: "nat \<Rightarrow> 'f schedule \<Rightarrow> 'f schedule" where
  "schedule_cancel i s = s\<lparr>waiting := filter (\<lambda>w. fst w \<noteq> i) (waiting s)\<rparr>"

definition expired :: "int \<Rightarrow> nat \<times> int \<times> 'f \<Rightarrow> bool" where
  "expired now w \<longleftrightarrow> tick * second \<le> now - fst (snd w)"

definition schedule_process :: "int \<Rightarrow> 'f schedule \<Rightarrow> 'f list \<times> 'f schedule" where
  "schedule_process now s =
     (map (snd \<circ> snd) (filter (expired now) (waiting s)),
      s\<lparr>waiting := filter (\<lambda>w. \<not> expired now w) (waiting s)\<rparr>)"

text \<open>What is done with a queue: \<open>Op_cancel i\<close> cancels the key that the \<open>i\<close>-th addition gave.\<close>

datatype 'f timer_op = Op_add int 'f | Op_cancel nat | Op_process int

fun timer_run :: "'f timer_op list \<Rightarrow> timer_key list \<Rightarrow> 'f timer_queue \<Rightarrow> 'f list" where
  "timer_run [] ks q = []"
| "timer_run (Op_add now f # ops) ks q =
     (case timer_add now f q of (k, q') \<Rightarrow> timer_run ops (ks @ [k]) q')"
| "timer_run (Op_cancel i # ops) ks q =
     (case timer_cancel (ks ! i) q of (k, q') \<Rightarrow> timer_run ops (ks[i := k]) q')"
| "timer_run (Op_process now # ops) ks q =
     (case timer_process now q of (cs, q') \<Rightarrow> cs @ timer_run ops ks q')"

fun schedule_run :: "'f timer_op list \<Rightarrow> 'f schedule \<Rightarrow> 'f list" where
  "schedule_run [] s = []"
| "schedule_run (Op_add now f # ops) s = schedule_run ops (schedule_add now f s)"
| "schedule_run (Op_cancel i # ops) s = schedule_run ops (schedule_cancel i s)"
| "schedule_run (Op_process now # ops) s =
     (case schedule_process now s of (cs, s') \<Rightarrow> cs @ schedule_run ops s')"

text \<open>The clock is steady, and only keys that were given are cancelled.\<close>

fun ops_ok :: "int \<Rightarrow> nat \<Rightarrow> 'f timer_op list \<Rightarrow> bool" where
  "ops_ok t n [] = True"
| "ops_ok t n (Op_add now f # ops) = (t \<le> now \<and> ops_ok now (Suc n) ops)"
| "ops_ok t n (Op_cancel i # ops) = (i < n \<and> ops_ok t n ops)"
| "ops_ok t n (Op_process now # ops) = (t \<le> now \<and> ops_ok now n ops)"

fun additions :: "'f timer_op list \<Rightarrow> nat" where
  "additions [] = 0"
| "additions (Op_add now f # ops) = Suc (additions ops)"
| "additions (_ # ops) = additions ops"

section \<open>Simulation\<close>

fun waiting_from :: "nat \<Rightarrow> (int \<times> 'f option) list \<Rightarrow> (nat \<times> int \<times> 'f) list" where
  "waiting_from n [] = []"
| "waiting_from n ((t, None) # r) = waiting_from (Suc n) r"
| "waiting_from n ((t, Some f) # r) = (n, t, f) # waiting_from (Suc n) r"

lemma waiting_from_append: "waiting_from n (xs @ ys) = waiting_from n xs @ waiting_from (n + length xs) ys"
  by (induction n xs rule: waiting_from.induct) simp_all

lemma waiting_from_range: "w \<in> set (waiting_from n d) \<Longrightarrow> n \<le> fst w \<and> fst w < n + length d"
  by (induction n d rule: waiting_from.induct) fastforce+

lemma waiting_from_entry: "w \<in> set (waiting_from n d) \<Longrightarrow> \<exists>x \<in> set d. fst x = fst (snd w)"
  by (induction n d rule: waiting_from.induct) auto

lemma waiting_from_later: "n < m \<Longrightarrow> filter (\<lambda>w. fst w \<noteq> n) (waiting_from m d) = waiting_from m d"
  by (auto simp: filter_id_conv dest: waiting_from_range)

lemma waiting_from_cancel:
  "i < length d \<Longrightarrow> waiting_from n (d[i := (t, None)]) = filter (\<lambda>w. fst w \<noteq> n + i) (waiting_from n d)"
proof (induction n d arbitrary: i rule: waiting_from.induct)
  case (2 n t r)
  then show ?case
    by (cases i) (simp_all add: waiting_from_later)
next
  case (3 n t f r)
  then show ?case
    by (cases i) (simp_all add: waiting_from_later)
qed simp

text \<open>The queue holds the timers from number \<open>n\<close> on, the oldest first.\<close>

definition simulates :: "nat \<Rightarrow> 'f timer_queue \<Rightarrow> 'f schedule \<Rightarrow> bool" where
  "simulates n q s \<longleftrightarrow>
     has_service q \<and> queue_step q = of_nat n \<and> next_timer s = n + length (dq q) \<and>
     waiting s = waiting_from n (dq q) \<and> sorted (map fst (dq q))"

definition keys_ok :: "timer_key list \<Rightarrow> 'f schedule \<Rightarrow> bool" where
  "keys_ok ks s \<longleftrightarrow>
     length ks = next_timer s \<and>
     (\<forall>i < length ks. snd (ks ! i) = of_nat i \<and> (\<not> fst (ks ! i) \<longrightarrow> i \<notin> fst ` set (waiting s)))"

lemma simulates_add:
  assumes "simulates n q s" and "timer_add now f q = (k, q')" and "\<forall>x \<in> set (dq q). fst x \<le> now"
  shows "simulates n q' (schedule_add now f s)" and "k = (True, of_nat (next_timer s))"
  using assms by (auto simp: simulates_def timer_add_def Let_def schedule_add_def waiting_from_append sorted_append)

lemma unat_small: "m < 2 ^ 32 \<Longrightarrow> unat (of_nat m :: 32 word) = m"
  by (simp add: unat_of_nat take_bit_nat_eq_self)

lemma key_index:
  assumes "i < n + len" and "n + len \<le> 2 ^ 32"
  shows "(unat (of_nat i - of_nat n :: 32 word) < len) = (n \<le> i)"
    and "n \<le> i \<Longrightarrow> unat (of_nat i - of_nat n :: 32 word) = i - n"
proof -
  show u: "unat (of_nat i - of_nat n :: 32 word) = i - n" if "n \<le> i"
  proof -
    have "(of_nat i - of_nat n :: 32 word) = of_nat (i - n)" using that by (simp add: of_nat_diff)
    moreover have "i - n < 2 ^ 32" using assms by simp
    ultimately show ?thesis by (simp only: unat_small)
  qed
  show "(unat (of_nat i - of_nat n :: 32 word) < len) = (n \<le> i)"
  proof (cases "n \<le> i")
    case True
    with u assms(1) show ?thesis by simp
  next
    case False
    then have "(of_nat i - of_nat n :: 32 word) = - of_nat (n - i)" by (simp add: of_nat_diff)
    also have "\<dots> = of_nat (2 ^ 32 - (n - i))" using False assms by (simp add: of_nat_diff)
    finally have "(of_nat i - of_nat n :: 32 word) = of_nat (2 ^ 32 - (n - i))" .
    moreover have "2 ^ 32 - (n - i) < (2 ^ 32 :: nat)" using False by simp
    ultimately have "unat (of_nat i - of_nat n :: 32 word) = 2 ^ 32 - (n - i)" by (simp only: unat_small)
    with False assms show ?thesis by simp
  qed
qed

lemma map_fst_update: "map fst (d[j := (fst (d ! j), x)]) = map fst d"
  by (induction d arbitrary: j) (auto split: nat.split)

lemma simulates_cancel:
  assumes sim: "simulates n q s" and keys: "keys_ok ks s" and i: "i < length ks" and few: "next_timer s \<le> 2 ^ 32"
    and c: "timer_cancel (ks ! i) q = (k, q')"
  shows "simulates n q' (schedule_cancel i s)" and "keys_ok (ks[i := k]) (schedule_cancel i s)"
    and "map fst (dq q') = map fst (dq q)"
proof -
  have k: "k = (False, of_nat i)" using c keys i by (auto simp: timer_cancel_def keys_ok_def)
  then show "keys_ok (ks[i := k]) (schedule_cancel i s)"
    using keys i by (force simp: keys_ok_def schedule_cancel_def nth_list_update)
  have gone: "schedule_cancel i s = s" if "i \<notin> fst ` set (waiting s)"
    using that by (intro schedule.equality) (auto simp: schedule_cancel_def filter_id_conv)
  have "simulates n q' (schedule_cancel i s) \<and> map fst (dq q') = map fst (dq q)"
  proof (cases "fst (ks ! i) \<and> n \<le> i")
    case True
    let ?j = "i - n"
    have bound: "i < n + length (dq q)" "n + length (dq q) \<le> 2 ^ 32" "queue_step q = of_nat n"
      using sim keys i few by (simp_all add: simulates_def keys_ok_def)
    have "snd (ks ! i) = of_nat i" using keys i by (simp add: keys_ok_def)
    with True c bound key_index [OF bound(1,2)] have q': "q' = q\<lparr>dq := (dq q)[?j := (fst (dq q ! ?j), None)]\<rparr>"
      by (auto simp: timer_cancel_def Let_def)
    have m: "map fst ((dq q)[?j := (fst (dq q ! ?j), None)]) = map fst (dq q)"
      by (rule map_fst_update)
    from True bound have "?j < length (dq q)" by linarith
    from waiting_from_cancel [OF this, of n "fst (dq q ! ?j)"] True sim m show ?thesis
      by (simp add: q' simulates_def schedule_cancel_def)
  next
    case False
    have "i \<notin> fst ` set (waiting s)"
    proof (cases "fst (ks ! i)")
      case True
      with False sim show ?thesis by (auto simp: simulates_def dest: waiting_from_range)
    next
      case False
      with keys i show ?thesis by (simp add: keys_ok_def)
    qed
    moreover have "q' = q"
    proof -
      have "snd (ks ! i) = of_nat i" "i < n + length (dq q)" "n + length (dq q) \<le> 2 ^ 32" "queue_step q = of_nat n"
        using sim keys i few by (simp_all add: simulates_def keys_ok_def)
      with False c key_index [of i n "length (dq q)"] show ?thesis by (auto simp: timer_cancel_def Let_def)
    qed
    ultimately show ?thesis using sim gone by simp
  qed
  then show "simulates n q' (schedule_cancel i s)" "map fst (dq q') = map fst (dq q)" by simp_all
qed

text \<open>As the clock is steady, what has expired is in front.\<close>

lemma process_loop_expires:
  "sorted (map fst d) \<Longrightarrow> process_loop now d (of_nat n) = (cs, d', st) \<Longrightarrow>
    \<exists>m \<le> length d. d' = drop m d \<and> st = of_nat (n + m) \<and>
      cs = map (snd \<circ> snd) (filter (expired now) (waiting_from n d)) \<and>
      waiting_from (n + m) d' = filter (\<lambda>w. \<not> expired now w) (waiting_from n d)"
proof (induction d arbitrary: n cs d' st)
  case Nil
  then show ?case by simp
next
  case (Cons x d)
  obtain t f where x: "x = (t, f)" by (cases x)
  show ?case
  proof (cases "now - t < tick * second")
    case True
    have "\<not> expired now w" if "w \<in> set (waiting_from n (x # d))" for w
      using waiting_from_entry [OF that] Cons.prems(1) True x by (auto simp: expired_def)
    then have "filter (expired now) (waiting_from n (x # d)) = []"
      "filter (\<lambda>w. \<not> expired now w) (waiting_from n (x # d)) = waiting_from n (x # d)"
      by (simp_all add: filter_empty_conv filter_id_conv)
    with Cons.prems(2) True x show ?thesis by (intro exI [of _ 0]) simp
  next
    case False
    obtain cs1 d1 st1 where r: "process_loop now d (of_nat (Suc n)) = (cs1, d1, st1)" by (metis prod_cases3)
    from Cons.IH [OF _ r] Cons.prems(1) obtain m where m: "m \<le> length d" "d1 = drop m d" "st1 = of_nat (Suc n + m)"
      "cs1 = map (snd \<circ> snd) (filter (expired now) (waiting_from (Suc n) d))"
      "waiting_from (Suc n + m) d1 = filter (\<lambda>w. \<not> expired now w) (waiting_from (Suc n) d)" by auto
    from Cons.prems(2) False r x have "cs = (case f of None \<Rightarrow> cs1 | Some g \<Rightarrow> g # cs1)" "d' = d1" "st = st1"
      by (simp_all add: add.commute)
    with m False x show ?thesis
      by (intro exI [of _ "Suc m"]) (cases f; simp add: expired_def [abs_def] comp_def)
  qed
qed

lemma simulates_process:
  assumes "simulates n q s" and "timer_process now q = (cs, q')"
  shows "\<exists>n' s'. schedule_process now s = (cs, s') \<and> simulates n' q' s' \<and> set (dq q') \<subseteq> set (dq q) \<and>
    next_timer s' = next_timer s \<and> set (waiting s') \<subseteq> set (waiting s)"
proof -
  obtain cs1 d st where r: "process_loop now (dq q) (of_nat n) = (cs1, d, st)" by (metis prod_cases3)
  from process_loop_expires [OF _ r] assms(1) obtain m where m: "m \<le> length (dq q)" "d = drop m (dq q)" "st = of_nat (n + m)"
    "cs1 = map (snd \<circ> snd) (filter (expired now) (waiting_from n (dq q)))"
    "waiting_from (n + m) d = filter (\<lambda>w. \<not> expired now w) (waiting_from n (dq q))"
    by (auto simp: simulates_def)
  from assms r have "cs = cs1" "q' = q\<lparr>dq := d, queue_step := st\<rparr>" by (simp_all add: timer_process_def simulates_def)
  with assms(1) m show ?thesis
    by (intro exI [of _ "n + m"]) (auto simp: simulates_def schedule_process_def sorted_wrt_drop drop_map [symmetric] dest: in_set_dropD)
qed

lemma timer_run_schedule:
  "simulates n q s \<Longrightarrow> keys_ok ks s \<Longrightarrow> (\<forall>x \<in> set (dq q). fst x \<le> t) \<Longrightarrow> ops_ok t (length ks) ops \<Longrightarrow>
   next_timer s + additions ops \<le> 2 ^ 32 \<Longrightarrow> timer_run ops ks q = schedule_run ops s"
proof (induction ops arbitrary: n q s ks t)
  case (Cons op ops)
  show ?case
  proof (cases op)
    case (Op_add now f)
    obtain k q' where a: "timer_add now f q = (k, q')" by fastforce
    have old: "\<forall>x \<in> set (dq q). fst x \<le> now" using Cons.prems(3,4) Op_add by fastforce
    have "keys_ok (ks @ [k]) (schedule_add now f s)"
      using Cons.prems(1,2) simulates_add(2) [OF Cons.prems(1) a old]
      by (auto simp: keys_ok_def schedule_add_def nth_append less_Suc_eq simulates_def dest: waiting_from_range)
    moreover have "\<forall>x \<in> set (dq q'). fst x \<le> now" using a old by (auto simp: timer_add_def Let_def)
    ultimately have "timer_run ops (ks @ [k]) q' = schedule_run ops (schedule_add now f s)"
      using Cons.prems(4,5) Op_add by (intro Cons.IH [OF simulates_add(1) [OF Cons.prems(1) a old]]) (auto simp: schedule_add_def)
    with a Op_add show ?thesis by simp
  next
    case (Op_cancel i)
    obtain k q' where c: "timer_cancel (ks ! i) q = (k, q')" by fastforce
    have i: "i < length ks" "next_timer s \<le> 2 ^ 32" using Cons.prems(4,5) Op_cancel by simp_all
    note sim = simulates_cancel [OF Cons.prems(1,2) i c]
    have "\<forall>x \<in> set (dq q'). fst x \<le> t" using Cons.prems(3) sim(3) by (metis (no_types, lifting) image_iff list.set_map)
    with sim(1,2) Cons.prems(4,5) Op_cancel have "timer_run ops (ks[i := k]) q' = schedule_run ops (schedule_cancel i s)"
      by (intro Cons.IH [of n q' "schedule_cancel i s" _ t]) (auto simp: schedule_cancel_def)
    with c Op_cancel show ?thesis by simp
  next
    case (Op_process now)
    obtain cs q' where p: "timer_process now q = (cs, q')" by fastforce
    from simulates_process [OF Cons.prems(1) p] obtain n' s' where s': "schedule_process now s = (cs, s')" "simulates n' q' s'"
      "set (dq q') \<subseteq> set (dq q)" "next_timer s' = next_timer s" "set (waiting s') \<subseteq> set (waiting s)" by blast
    have "keys_ok ks s'" using Cons.prems(2) s'(4) subsetD [OF image_mono [OF s'(5), of fst]] unfolding keys_ok_def by metis
    moreover have "\<forall>x \<in> set (dq q'). fst x \<le> now" using Cons.prems(3,4) s'(3) Op_process by fastforce
    ultimately have "timer_run ops ks q' = schedule_run ops s'"
      using Cons.prems(4,5) s'(2,4) Op_process by (intro Cons.IH [of n' q' s' ks now]) auto
    with p s'(1) Op_process show ?thesis by simp
  qed
qed simp

section \<open>Properties\<close>

text \<open>C34: the queue of deadlines does what a schedule of numbered timers does: whatever is added,
  cancelled and processed, in any order, a timer is called exactly when it is processed after its
  five seconds and its own key has not been cancelled, once, in the order of addition; the key of a
  timer that is gone cancels no other one, as long as at most \<^verbatim>\<open>2^32\<close> timers are added.\<close>

theorem timers_follow_schedule:
  assumes "ops_ok t 0 ops" and "additions ops \<le> 2 ^ 32"
  shows "timer_run ops [] (set_io_service new_timer_queue) = schedule_run ops \<lparr>next_timer = 0, waiting = []\<rparr>"
  using assms by (intro timer_run_schedule [of 0 _ _ _ t])
    (auto simp: simulates_def keys_ok_def set_io_service_def new_timer_queue_def)

definition sample_ops :: "bytes timer_op list" where
  "sample_ops = [Op_add 0 ''a'', Op_add 10 ''b'', Op_add 20 ''c'', Op_cancel 1, Op_process (5 * second), Op_cancel 0,
     Op_process (6 * second)]"

theorem timers_follow_schedule_witness: "timer_run sample_ops [] (set_io_service new_timer_queue) = [''a'', ''c'']"
proof -
  have "ops_ok 0 0 sample_ops" "additions sample_ops \<le> 2 ^ 32" by (simp_all add: sample_ops_def second_def)
  from timers_follow_schedule [OF this] show ?thesis
    by (simp add: sample_ops_def second_def tick_def schedule_add_def schedule_cancel_def schedule_process_def expired_def)
qed

end
