(* ===== verification/Crow_Server.thy ===== *)
theory Crow_Server
  imports Pinocchio_Config Crow_Timer
begin

text \<open>
  The facade \<^verbatim>\<open>crow.h\<close> and \<^verbatim>\<open>http_server.h\<close>: the settings of a server, its threads with an \<^verbatim>\<open>io_service\<close>, a queue of
  timers and a date each, and the acceptor that gives a connection to one of them. A connection is its
  number; what it does on its thread is the matter of \<^verbatim>\<open>Crow_Connection\<close>.
\<close>

section \<open>Settings\<close>

record crow_app =
  app_ip :: bytes
  app_port :: "16 word"
  app_concurrency :: "16 word"
  app_name :: bytes
  app_ssl :: "(bytes \<times> bytes) option"

definition new_app :: crow_app where
  "new_app = \<lparr>app_ip = ''0.0.0.0'', app_port = 80, app_concurrency = 1, app_name = ''CROW'', app_ssl = None\<rparr>"

definition set_concurrency :: "16 word \<Rightarrow> crow_app \<Rightarrow> crow_app" where
  "set_concurrency c a = a\<lparr>app_concurrency := (if c < 1 then 1 else c)\<rparr>"

text \<open>\<^verbatim>\<open>hardware_concurrency\<close> is an \<^verbatim>\<open>unsigned int\<close>, cut to 16 bits; it is 0 when it is not known.\<close>

definition multithreaded :: "32 word \<Rightarrow> crow_app \<Rightarrow> crow_app" where
  "multithreaded hw a = set_concurrency (ucast hw) a"

definition set_app_ip :: "bytes \<Rightarrow> crow_app \<Rightarrow> crow_app" where
  "set_app_ip ip a = a\<lparr>app_ip := ip\<rparr>"

definition set_app_port :: "16 word \<Rightarrow> crow_app \<Rightarrow> crow_app" where
  "set_app_port p a = a\<lparr>app_port := p\<rparr>"

definition set_app_name :: "bytes \<Rightarrow> crow_app \<Rightarrow> crow_app" where
  "set_app_name nm a = a\<lparr>app_name := nm\<rparr>"

definition ssl_file :: "bytes \<Rightarrow> bytes \<Rightarrow> crow_app \<Rightarrow> crow_app" where
  "ssl_file crt key a = a\<lparr>app_ssl := Some (crt, key)\<rparr>"

text \<open>The calls of \<^verbatim>\<open>TPinocchio::run\<close>, before that of \<^verbatim>\<open>run\<close>.\<close>

definition configured_app :: "32 word \<Rightarrow> run_settings \<Rightarrow> crow_app" where
  "configured_app hw r =
     (let a = (case run_ssl r of None \<Rightarrow> new_app | Some (crt, key) \<Rightarrow> ssl_file crt key new_app);
          a = (if run_multithreaded r then multithreaded hw a else a)
      in set_app_name (run_name r) (set_app_port (run_port r) (set_app_ip (run_ip r) a)))"

text \<open>
  What \<^verbatim>\<open>run\<close> makes a server of: the address, the port and the name. The server with encryption is
  made without the first and the last.
\<close>

definition server_identity :: "crow_app \<Rightarrow> bytes \<times> 16 word \<times> bytes" where
  "server_identity a =
     (if app_ssl a \<noteq> None then (''0.0.0.0'', app_port a, ''Crow/0.1'')
      else (app_ip a, app_port a, app_name a))"

lemma ssl_server_forgets_settings:
  "run_ssl r \<noteq> None \<Longrightarrow> server_identity (configured_app hw r) = (''0.0.0.0'', run_port r, ''Crow/0.1'')"
  by (auto simp: server_identity_def configured_app_def Let_def ssl_file_def multithreaded_def set_concurrency_def
      set_app_name_def set_app_port_def set_app_ip_def)

section \<open>The date of a thread\<close>

text \<open>\<open>gmt\<close> is the text of the date at a time.\<close>

record date_cache =
  dc_last :: int
  dc_date :: bytes

definition new_date_cache :: "(int \<Rightarrow> bytes) \<Rightarrow> int \<Rightarrow> date_cache" where
  "new_date_cache gmt now = \<lparr>dc_last = now, dc_date = gmt now\<rparr>"

definition cached_date_str :: "(int \<Rightarrow> bytes) \<Rightarrow> int \<Rightarrow> date_cache \<Rightarrow> bytes \<times> date_cache" where
  "cached_date_str gmt now d =
     (let d = (if now - dc_last d \<ge> second then \<lparr>dc_last = now, dc_date = gmt now\<rparr> else d)
      in (dc_date d, d))"

text \<open>The date that is given is that of a time less than a second ago.\<close>

definition date_fresh :: "(int \<Rightarrow> bytes) \<Rightarrow> date_cache \<Rightarrow> bool" where
  "date_fresh gmt d = (dc_date d = gmt (dc_last d))"

lemma cached_date_is_recent:
  assumes "date_fresh gmt d" "dc_last d \<le> now" "cached_date_str gmt now d = (text, d')"
  shows "date_fresh gmt d' \<and> dc_last d' \<le> now \<and> text = gmt (dc_last d') \<and> now - dc_last d' < second"
  using assms by (auto simp: cached_date_str_def Let_def date_fresh_def second_def split: if_splits)

section \<open>The server\<close>

record loop =
  lp_tasks :: "nat list"
  lp_started :: "nat list"
  lp_timers :: "nat timer_queue"
  lp_date :: date_cache

record server =
  sv_loops :: "loop list"
  sv_index :: "32 word"
  sv_created :: nat
  sv_accepting :: "(nat \<times> nat) option"
  sv_dropped :: "nat list"
  sv_stopped :: bool

definition new_loop :: "(int \<Rightarrow> bytes) \<Rightarrow> int \<Rightarrow> loop" where
  "new_loop gmt now =
     \<lparr>lp_tasks = [], lp_started = [], lp_timers = set_io_service new_timer_queue,
      lp_date = new_date_cache gmt now\<rparr>"

definition pick_io_service :: "server \<Rightarrow> server" where
  "pick_io_service s =
     (let i = sv_index s + 1
      in s\<lparr>sv_index := (if length (sv_loops s) \<le> unat i then 0 else i)\<rparr>)"

text \<open>The connection that is made for the next client, with the thread that is picked for it.\<close>

definition do_accept :: "server \<Rightarrow> fault + server" where
  "do_accept s =
     (let s = pick_io_service s; i = unat (sv_index s)
      in if length (sv_loops s) \<le> i then Inl Bad_range
         else Inr (s\<lparr>sv_accepting := Some (sv_created s, i), sv_created := sv_created s + 1\<rparr>))"

definition server_run :: "(int \<Rightarrow> bytes) \<Rightarrow> int \<Rightarrow> crow_app \<Rightarrow> fault + server" where
  "server_run gmt now a =
     do_accept
       \<lparr>sv_loops = replicate (unat (app_concurrency a)) (new_loop gmt now), sv_index = 0, sv_created = 0,
        sv_accepting = None, sv_dropped = [], sv_stopped = False\<rparr>"

definition on_loop :: "nat \<Rightarrow> (loop \<Rightarrow> loop) \<Rightarrow> server \<Rightarrow> server" where
  "on_loop i f s = s\<lparr>sv_loops := (sv_loops s)[i := f (sv_loops s ! i)]\<rparr>"

definition post_start :: "nat \<Rightarrow> loop \<Rightarrow> loop" where
  "post_start c l = l\<lparr>lp_tasks := lp_tasks l @ [c]\<rparr>"

text \<open>The completion of \<^verbatim>\<open>async_accept\<close>: a connection whose accept failed is not given to anybody.\<close>

definition on_accept :: "bool \<Rightarrow> server \<Rightarrow> fault + server" where
  "on_accept ec s =
     (case sv_accepting s of
        None \<Rightarrow> Inr s
      | Some (c, i) \<Rightarrow>
          do_accept (if ec then s\<lparr>sv_dropped := sv_dropped s @ [c]\<rparr> else on_loop i (post_start c) s))"

text \<open>A thread takes its next task: the connection starts with a timer of its thread.\<close>

definition run_next_task :: "int \<Rightarrow> loop \<Rightarrow> loop" where
  "run_next_task now l =
     (case lp_tasks l of
        [] \<Rightarrow> l
      | c # cs \<Rightarrow>
          l\<lparr>lp_tasks := cs, lp_started := lp_started l @ [c],
            lp_timers := snd (timer_add now c (lp_timers l))\<rparr>)"

text \<open>Once a second a thread calls the timers that have run out.\<close>

definition on_tick :: "int \<Rightarrow> loop \<Rightarrow> loop" where
  "on_tick now l = l\<lparr>lp_timers := snd (timer_process now (lp_timers l))\<rparr>"

definition give_date :: "(int \<Rightarrow> bytes) \<Rightarrow> int \<Rightarrow> loop \<Rightarrow> loop" where
  "give_date gmt now l = l\<lparr>lp_date := snd (cached_date_str gmt now (lp_date l))\<rparr>"

definition server_stop :: "server \<Rightarrow> server" where
  "server_stop s = s\<lparr>sv_stopped := True\<rparr>"

datatype server_event = Accept_done bool | Task nat int | Tick nat int | Date nat int | Stop_signal

definition on_event :: "(int \<Rightarrow> bytes) \<Rightarrow> server_event \<Rightarrow> server \<Rightarrow> fault + server" where
  "on_event gmt ev s =
     (if sv_stopped s then Inr s
      else case ev of
        Accept_done ec \<Rightarrow> on_accept ec s
      | Task i now \<Rightarrow> Inr (if i < length (sv_loops s) then on_loop i (run_next_task now) s else s)
      | Tick i now \<Rightarrow> Inr (if i < length (sv_loops s) then on_loop i (on_tick now) s else s)
      | Date i now \<Rightarrow> Inr (if i < length (sv_loops s) then on_loop i (give_date gmt now) s else s)
      | Stop_signal \<Rightarrow> Inr (server_stop s))"

fun on_events :: "(int \<Rightarrow> bytes) \<Rightarrow> server_event list \<Rightarrow> server \<Rightarrow> fault + server" where
  "on_events gmt [] s = Inr s"
| "on_events gmt (ev # evs) s = (case on_event gmt ev s of Inl f \<Rightarrow> Inl f | Inr s' \<Rightarrow> on_events gmt evs s')"

definition serve_app :: "(int \<Rightarrow> bytes) \<Rightarrow> int \<Rightarrow> crow_app \<Rightarrow> server_event list \<Rightarrow> fault + server" where
  "serve_app gmt now a evs = (case server_run gmt now a of Inl f \<Rightarrow> Inl f | Inr s \<Rightarrow> on_events gmt evs s)"

section \<open>Every thread gets its share\<close>

text \<open>
  The connections of thread \<open>i\<close> of \<open>n\<close>, of those made before \<open>m\<close>, without the ones whose accept failed.
\<close>

definition share :: "nat \<Rightarrow> nat \<Rightarrow> nat list \<Rightarrow> nat \<Rightarrow> nat list" where
  "share n m dropped i = filter (\<lambda>c. Suc c mod n = i \<and> c \<notin> set dropped) [0..<m]"

definition loop_ok :: "nat list \<Rightarrow> loop \<Rightarrow> bool" where
  "loop_ok cs l =
     (lp_started l @ lp_tasks l = cs \<and> has_service (lp_timers l) \<and>
      (\<forall>t c. (t, Some c) \<in> set (dq (lp_timers l)) \<longrightarrow> c \<in> set (lp_started l)))"

definition shared_out :: "nat \<Rightarrow> server \<Rightarrow> bool" where
  "shared_out n s =
     (length (sv_loops s) = n \<and> 0 < sv_created s \<and>
      sv_accepting s = Some (sv_created s - 1, sv_created s mod n) \<and> unat (sv_index s) = sv_created s mod n \<and>
      (\<forall>i<n. loop_ok (share n (sv_created s - 1) (sv_dropped s) i) (sv_loops s ! i)) \<and>
      (\<forall>c\<in>set (sv_dropped s). c < sv_created s - 1))"

lemma next_index:
  assumes "0 < n" "n < 2 ^ 16" "unat (x :: 32 word) = k mod n"
  shows "unat (if n \<le> unat (x + 1) then 0 else x + 1) = Suc k mod n"
proof -
  have "k mod n < n" using assms(1) by simp
  then have "unat x + 1 < 2 ^ 32" using assms(2,3) by simp
  then have "unat (x + 1) = Suc (k mod n)" using assms(3) by (simp add: unat_word_ariths take_bit_nat_eq_self)
  then show ?thesis using assms \<open>k mod n < n\<close> by (auto simp: mod_Suc)
qed

lemma do_accept_ok:
  assumes "0 < n" "n < 2 ^ 16" "length (sv_loops s) = n" "unat (sv_index s) = sv_created s mod n"
  shows "do_accept s = Inr (s\<lparr>sv_index := if n \<le> unat (sv_index s + 1) then 0 else sv_index s + 1,
      sv_accepting := Some (sv_created s, Suc (sv_created s) mod n), sv_created := Suc (sv_created s)\<rparr>)"
  using next_index [OF assms(1,2,4)] assms
  by (cases s) (auto simp: do_accept_def pick_io_service_def Let_def dest: mod_less_divisor [of n "Suc (sv_created s)"])

lemma share_Suc:
  "share n (Suc m) dropped i = share n m dropped i @ (if Suc m mod n = i \<and> m \<notin> set dropped then [m] else [])"
  by (simp add: share_def)

lemma share_drop: "\<forall>c\<in>set dropped. c < m \<Longrightarrow> share n m (dropped @ [m]) i = share n m dropped i"
  by (auto simp: share_def intro!: filter_cong)

lemma loop_ok_post: "loop_ok cs l \<Longrightarrow> loop_ok (cs @ [c]) (post_start c l)"
  by (auto simp: loop_ok_def post_start_def)

lemma loop_ok_task: "loop_ok cs l \<Longrightarrow> loop_ok cs (run_next_task now l)"
  by (auto simp: loop_ok_def run_next_task_def timer_add_def Let_def split: list.splits)

lemma process_loop_subset: "set (fst (snd (process_loop now d st))) \<subseteq> set d"
  by (induction now d st rule: process_loop.induct) (auto split: prod.splits)

lemma loop_ok_tick: "loop_ok cs l \<Longrightarrow> loop_ok cs (on_tick now l)"
  using process_loop_subset [of now "dq (lp_timers l)" "queue_step (lp_timers l)"]
  by (auto simp: loop_ok_def on_tick_def timer_process_def split: prod.splits)

lemma loop_ok_date: "loop_ok cs l \<Longrightarrow> loop_ok cs (give_date gmt now l)"
  by (simp add: loop_ok_def give_date_def)

lemma shared_out_loop:
  assumes "shared_out n s" and "\<And>cs l. loop_ok cs l \<Longrightarrow> loop_ok cs (f l)"
  shows "shared_out n (if i < length (sv_loops s) then on_loop i f s else s)"
  using assms by (auto simp: shared_out_def on_loop_def nth_list_update)

lemma on_accept_shares:
  assumes n: "0 < n" "n < 2 ^ 16" and ok: "shared_out n s"
  shows "\<exists>s'. on_accept ec s = Inr s' \<and> shared_out n s'"
proof -
  obtain m where m: "sv_created s = Suc m" using ok by (auto simp: shared_out_def gr0_conv_Suc)
  let ?i = "Suc m mod n"
  have acc: "sv_accepting s = Some (m, ?i)" "?i < n" using ok m n by (simp_all add: shared_out_def)
  let ?s = "if ec then s\<lparr>sv_dropped := sv_dropped s @ [m]\<rparr> else on_loop ?i (post_start m) s"
  have frame: "length (sv_loops ?s) = n" "unat (sv_index ?s) = sv_created ?s mod n" "sv_created ?s = Suc m"
    using ok m by (auto simp: shared_out_def on_loop_def)
  let ?s' = "?s\<lparr>sv_index := if n \<le> unat (sv_index ?s + 1) then 0 else sv_index ?s + 1,
      sv_accepting := Some (Suc m, Suc (Suc m) mod n), sv_created := Suc (Suc m)\<rparr>"
  have "on_accept ec s = Inr ?s'"
    using do_accept_ok [OF n frame(1,2)] acc frame(3) by (simp add: on_accept_def)
  moreover have "shared_out n ?s'"
  proof -
    have index: "unat (sv_index ?s') = Suc (Suc m) mod n"
      using next_index [OF n frame(2)] frame(3) by simp
    have fresh: "m \<notin> set (sv_dropped s)" "\<forall>c\<in>set (sv_dropped s). c < m" using ok m by (auto simp: shared_out_def)
    have "loop_ok (share n (Suc m) (sv_dropped ?s) j) (sv_loops ?s ! j)" if j: "j < n" for j
    proof (cases ec)
      case True
      then show ?thesis using ok m j share_drop [OF fresh(2), of n j] by (simp add: shared_out_def share_Suc)
    next
      case False
      then show ?thesis using ok m j fresh loop_ok_post acc(2)
        by (auto simp: shared_out_def share_Suc on_loop_def nth_list_update)
    qed
    moreover have "\<forall>c\<in>set (sv_dropped ?s). c < Suc m" using fresh by (auto simp: on_loop_def)
    ultimately show ?thesis using index frame(1) by (simp add: shared_out_def)
  qed
  ultimately show ?thesis by blast
qed

lemma on_event_shares:
  assumes "0 < n" "n < 2 ^ 16" "shared_out n s"
  shows "\<exists>s'. on_event gmt ev s = Inr s' \<and> shared_out n s'"
proof (cases "sv_stopped s")
  case False
  show ?thesis
  proof (cases ev)
    case (Accept_done ec)
    then show ?thesis using on_accept_shares [OF assms] False by (simp add: on_event_def)
  next
    case Stop_signal
    then show ?thesis using assms(3) False by (simp add: on_event_def server_stop_def shared_out_def)
  qed (use False shared_out_loop [OF assms(3)] loop_ok_task loop_ok_tick loop_ok_date
      in \<open>simp_all add: on_event_def\<close>)
qed (use assms(3) in \<open>simp add: on_event_def\<close>)

lemma on_events_share:
  assumes "0 < n" "n < 2 ^ 16" "shared_out n s"
  shows "\<exists>s'. on_events gmt evs s = Inr s' \<and> shared_out n s'"
  using assms(3)
proof (induction evs arbitrary: s)
  case (Cons ev evs)
  then show ?case using on_event_shares [OF assms(1,2) Cons.prems, of gmt ev] by auto
qed simp

lemma configured_concurrency: "0 < unat (app_concurrency (configured_app hw r))"
  by (auto simp: configured_app_def Let_def new_app_def multithreaded_def set_concurrency_def set_app_name_def
      set_app_port_def set_app_ip_def ssl_file_def word_less_nat_alt unat_gt_0 split: option.splits)

lemma run_shares:
  assumes "0 < unat (app_concurrency a)"
  shows "\<exists>s. server_run gmt now a = Inr s \<and> shared_out (unat (app_concurrency a)) s"
proof -
  let ?n = "unat (app_concurrency a)"
  have small: "?n < 2 ^ 16" using unsigned_less [of "app_concurrency a"] by simp
  let ?s = "\<lparr>sv_loops = replicate ?n (new_loop gmt now), sv_index = 0, sv_created = 0,
    sv_accepting = None, sv_dropped = [], sv_stopped = False\<rparr>"
  have "do_accept ?s = Inr (?s\<lparr>sv_index := if ?n \<le> unat (sv_index ?s + 1) then 0 else sv_index ?s + 1,
      sv_accepting := Some (sv_created ?s, Suc (sv_created ?s) mod ?n), sv_created := Suc (sv_created ?s)\<rparr>)"
    by (rule do_accept_ok [OF assms small]) simp_all
  moreover have "loop_ok [] (new_loop gmt now)"
    by (simp add: loop_ok_def new_loop_def set_io_service_def new_timer_queue_def)
  ultimately show ?thesis
    using next_index [OF assms small, of 0 0] assms
    by (auto simp: server_run_def shared_out_def share_def simp del: One_nat_def)
qed


end
