(* ===== verification/Mustache.thy ===== *)
theory Mustache
  imports Crow_Json_Value
begin

text \<open>
  \<^verbatim>\<open>mustache.h\<close>: templates, from their text to fragments and actions. The positions of the code are of
  type \<^verbatim>\<open>int\<close> and \<^verbatim>\<open>size_t\<close>, so the model is of texts that are shorter than 2 GB; a read of the byte behind
  the text gives a NUL, as that of a \<^verbatim>\<open>std::string\<close> does.
\<close>

section \<open>Data\<close>

datatype ActionType = Ignore | Tag | UnescapeTag | OpenBlock | CloseBlock | ElseBlock | Partial

record action =
  a_t :: ActionType
  a_start :: nat
  a_end :: nat
  a_pos :: nat

definition new_action :: "ActionType \<Rightarrow> nat \<Rightarrow> nat \<Rightarrow> nat \<Rightarrow> action" where
  "new_action ty st en ps = \<lparr>a_t = ty, a_start = st, a_end = en, a_pos = ps\<rparr>"

record template =
  tm_body :: bytes
  tm_fragments :: "(nat \<times> nat) list"
  tm_actions :: "action list"

datatype template_error =
    Invalid_template bytes
  | Template_error bytes
  | Broken fault

definition invalid_template :: "bytes \<Rightarrow> template_error" where
  "invalid_template msg = Invalid_template (''crow::mustache error: '' @ msg)"

section \<open>Strings\<close>

text \<open>\<open>cut b i j\<close> is \<^verbatim>\<open>b.substr(i, j - i)\<close>: a negative length is a huge one, and the rest is taken.\<close>

definition cut :: "bytes \<Rightarrow> nat \<Rightarrow> nat \<Rightarrow> bytes" where
  "cut b i j = (if i \<le> j then take (j - i) (drop i b) else drop i b)"

definition char_at :: "bytes \<Rightarrow> nat \<Rightarrow> char" where
  "char_at b i = (if i < length b then b ! i else CHR 0x00)"

fun find_in :: "bytes \<Rightarrow> bytes \<Rightarrow> nat option" where
  "find_in pat [] = (if pat = [] then Some 0 else None)"
| "find_in pat (c # s) =
     (if take (length pat) (c # s) = pat then Some 0 else map_option Suc (find_in pat s))"

definition find_from :: "bytes \<Rightarrow> bytes \<Rightarrow> nat \<Rightarrow> nat option" where
  "find_from b pat i = (if i \<le> length b then map_option ((+) i) (find_in pat (drop i b)) else None)"

abbreviation blank :: "char \<Rightarrow> bool" where
  "blank c \<equiv> c = CHR '' ''"

text \<open>\<^verbatim>\<open>while(body_[idx] == ' ') idx++\<close> and \<^verbatim>\<open>while(body_[endIdx-1] == ' ') endIdx--\<close>.\<close>

definition skip_blanks :: "bytes \<Rightarrow> nat \<Rightarrow> nat" where
  "skip_blanks b i = i + length (takeWhile blank (drop i b))"

fun trim_blanks :: "bytes \<Rightarrow> nat \<Rightarrow> fault + nat" where
  "trim_blanks b 0 = Inl Bad_range"
| "trim_blanks b (Suc e) = (if blank (char_at b e) then trim_blanks b e else Inr (Suc e))"

section \<open>The tags of a template\<close>

record building =
  bd_fragments :: "(nat \<times> nat) list"
  bd_actions :: "action list"
  bd_blocks :: "nat list"
  bd_open :: bytes
  bd_close :: bytes

definition add_action :: "action \<Rightarrow> building \<Rightarrow> building" where
  "add_action a st = st\<lparr>bd_actions := bd_actions st @ [a]\<rparr>"

definition add_fragment :: "nat \<Rightarrow> nat \<Rightarrow> building \<Rightarrow> building" where
  "add_fragment i j st = st\<lparr>bd_fragments := bd_fragments st @ [(i, j)]\<rparr>"

text \<open>A tag with a name: blanks around the name are skipped.\<close>

definition named_tag ::
  "bytes \<Rightarrow> nat \<Rightarrow> nat \<Rightarrow> (nat \<Rightarrow> nat \<Rightarrow> template_error + building) \<Rightarrow> template_error + building"
where
  "named_tag b i e act =
     (case trim_blanks b e of
        Inl f \<Rightarrow> Inl (Broken f)
      | Inr e' \<Rightarrow> act (skip_blanks b i) e')"

definition open_block :: "ActionType \<Rightarrow> building \<Rightarrow> nat \<Rightarrow> nat \<Rightarrow> template_error + building" where
  "open_block ty st i e =
     Inr (add_action (new_action ty i e 0) (st\<lparr>bd_blocks := length (bd_actions st) # bd_blocks st\<rparr>))"

definition close_block :: "bytes \<Rightarrow> building \<Rightarrow> nat \<Rightarrow> nat \<Rightarrow> template_error + building" where
  "close_block b st i e =
     (case bd_blocks st of
        [] \<Rightarrow> Inl (Broken Empty_container)
      | m # rest \<Rightarrow>
          (let matched = bd_actions st ! m in
           if cut b i e \<noteq> cut b (a_start matched) (a_end matched)
           then Inl (invalid_template (''not matched {{# {{/ pair: '' @
                  cut b (a_start matched) (a_end matched) @ '', '' @ cut b i e))
           else Inr (add_action (new_action CloseBlock i e m)
                  (st\<lparr>bd_actions := (bd_actions st)[m := matched\<lparr>a_pos := length (bd_actions st)\<rparr>],
                      bd_blocks := rest\<rparr>))))"

definition plain_action :: "ActionType \<Rightarrow> building \<Rightarrow> nat \<Rightarrow> nat \<Rightarrow> template_error + building" where
  "plain_action ty st i e = Inr (add_action (new_action ty i e 0) st)"

text \<open>
  The tag that changes the delimiters. The loop over \<^verbatim>\<open>i\<close> ends at its first blank.
\<close>

definition change_delimiters :: "bytes \<Rightarrow> nat \<Rightarrow> nat \<Rightarrow> building \<Rightarrow> template_error + building" where
  "change_delimiters b i0 e0 st =
     (let st = add_action (new_action Ignore i0 e0 0) st in
      if char_at b (e0 - 1) \<noteq> CHR ''=''
      then Inl (invalid_template (''{{=: not matching = tag: '' @ cut b i0 (e0 - 1)))
      else
        let i = skip_blanks b i0 in
        case trim_blanks b (e0 - 1) of
          Inl f \<Rightarrow> Inl (Broken f)
        | Inr e \<Rightarrow>
            (let word = takeWhile (\<lambda>c. \<not> blank c) (cut b i (max i e)) in
             if length word = length (cut b i (max i e))
             then Inl (invalid_template ''{{=: cannot find space between new open/close tags'')
             else
               let j = skip_blanks b (i + length word);
                   close = cut b j e in
               if word = [] then Inl (invalid_template ''{{=: empty open tag'')
               else if close = [] then Inl (invalid_template ''{{=: empty close tag'')
               else if find_in '' '' close \<noteq> None
               then Inl (invalid_template (''{{=: invalid open/close tag: '' @ word @ '' '' @ close))
               else Inr (st\<lparr>bd_open := word, bd_close := close\<rparr>)))"

definition parse_tag ::
  "bytes \<Rightarrow> nat \<Rightarrow> nat \<Rightarrow> building \<Rightarrow> template_error + building \<times> nat"
where
  "parse_tag b i e st =
     (let c = char_at b i;
          current = e + length (bd_close st);
          go = map_sum id (\<lambda>st. (st, current)) in
      if c = CHR ''#'' then go (named_tag b (i + 1) e (open_block OpenBlock st))
      else if c = CHR ''/'' then go (named_tag b (i + 1) e (close_block b st))
      else if c = CHR ''^'' then go (named_tag b (i + 1) e (open_block ElseBlock st))
      else if c = CHR ''!'' then go (plain_action Ignore st (i + 1) e)
      else if c = CHR ''>'' then go (named_tag b (i + 1) e (plain_action Partial st))
      else if c = CHR 0x7B then
        (if bd_open st \<noteq> ''{{'' \<or> bd_close st \<noteq> ''}}''
         then Inl (invalid_template ''cannot use triple mustache when delimiter changed'')
         else if char_at b (e + 2) \<noteq> CHR 0x7D
         then Inl (invalid_template ''{{{: }}} not matched'')
         else map_sum id (\<lambda>st. (st, current + 1)) (named_tag b (i + 1) e (plain_action UnescapeTag st)))
      else if c = CHR ''&'' then go (named_tag b (i + 1) e (plain_action UnescapeTag st))
      else if c = CHR ''='' then go (change_delimiters b (i + 1) e st)
      else go (named_tag b i e (plain_action Tag st)))"

lemma add_fragment_simps [simp]:
  "bd_fragments (add_fragment i j st) = bd_fragments st @ [(i, j)]"
  "bd_actions (add_fragment i j st) = bd_actions st"
  "bd_blocks (add_fragment i j st) = bd_blocks st"
  "bd_open (add_fragment i j st) = bd_open st"
  "bd_close (add_fragment i j st) = bd_close st"
  by (simp_all add: add_fragment_def)

lemma add_action_simps [simp]:
  "bd_fragments (add_action a st) = bd_fragments st"
  "bd_actions (add_action a st) = bd_actions st @ [a]"
  "bd_blocks (add_action a st) = bd_blocks st"
  "bd_open (add_action a st) = bd_open st"
  "bd_close (add_action a st) = bd_close st"
  by (simp_all add: add_action_def)

lemma find_in_bound: "find_in pat s = Some n \<Longrightarrow> n + length pat \<le> length s"
  by (induction pat s arbitrary: n rule: find_in.induct)
    (auto split: if_splits dest: arg_cong [where f = length])

lemma find_from_bound: "find_from b pat i = Some n \<Longrightarrow> i \<le> n \<and> n + length pat \<le> length b"
  by (auto simp: find_from_def split: if_splits dest!: find_in_bound)

lemma parse_tag_moves: "parse_tag b i e st = Inr (st', cur) \<Longrightarrow> e \<le> cur"
  by (auto simp: parse_tag_def Let_def map_sum_def split: if_splits sum.splits)

function parse_loop :: "bytes \<Rightarrow> nat \<Rightarrow> building \<Rightarrow> template_error + building" where
  "parse_loop b cur st =
     (case find_from b (bd_open st) cur of
        None \<Rightarrow> Inr (add_action (new_action Ignore 0 0 0) (add_fragment cur (length b) st))
      | Some idx \<Rightarrow>
          (let st = add_fragment cur idx st;
               i = idx + length (bd_open st) in
           case find_from b (bd_close st) i of
             None \<Rightarrow> Inl (invalid_template ''not matched opening tag'')
           | Some e \<Rightarrow>
               if e = i then Inl (invalid_template ''empty tag is not allowed'')
               else (case parse_tag b i e st of
                       Inl x \<Rightarrow> Inl x
                     | Inr (st', cur') \<Rightarrow> parse_loop b cur' st')))"
  by pat_completeness auto
termination
  by (relation "measure (\<lambda>(b, cur, st). length b - cur)")
    (auto dest!: find_from_bound parse_tag_moves)


declare parse_loop.simps [simp del]

section \<open>Tags that stand alone on a line\<close>

definition blanks_before :: "bytes \<Rightarrow> nat \<times> nat \<Rightarrow> nat" where
  "blanks_before b fr = length (takeWhile blank (rev (take (snd fr - fst fr) (drop (fst fr) b))))"

definition blanks_after :: "bytes \<Rightarrow> nat \<times> nat \<Rightarrow> nat" where
  "blanks_after b fr = length (takeWhile blank (take (snd fr - fst fr) (drop (fst fr) b)))"

text \<open>
  One round of the loop over \<^verbatim>\<open>i\<close>, for the action \<open>i\<close> and the fragments before and behind it; \<open>j\<close> is one
  more than that of the code, which may be negative.
\<close>

definition standalone_step ::
  "bytes \<Rightarrow> nat \<Rightarrow> (nat \<times> nat) list \<times> action list \<Rightarrow> (nat \<times> nat) list \<times> action list"
where
  "standalone_step b i = (\<lambda>(fs, as).
     let a = as ! i; front = fs ! i; back = fs ! (i + 1);
         is_last_action = (i + 2 = length as);
         j = snd front - blanks_before b front;
         all_space_before = (j \<le> fst front);
         k = fst back + blanks_after b back;
         all_space_after = (length b \<le> k \<or> snd back \<le> k) in
     if a_t a = Tag \<or> a_t a = UnescapeTag then (fs, as)
     else if all_space_before \<and> 0 < i then (fs, as)
     else if \<not> all_space_before \<and> char_at b (j - 1) \<noteq> LF then (fs, as)
     else if all_space_after \<and> \<not> is_last_action then (fs, as)
     else if \<not> all_space_after \<and>
             \<not> (char_at b k = LF \<or> char_at b k = CR \<and> k + 1 < length b \<and> char_at b (k + 1) = LF)
          then (fs, as)
     else
       (let as = (if a_t a = Partial then as[i := a\<lparr>a_pos := snd front - j\<rparr>] else as);
            fs = fs[i := (fst front, j)] in
        (if all_space_after then fs
         else fs[i + 1 := (if char_at b k = LF then k + 1 else k + 2, snd (fs ! (i + 1)))], as)))"

definition remove_standalones ::
  "bytes \<Rightarrow> (nat \<times> nat) list \<times> action list \<Rightarrow> (nat \<times> nat) list \<times> action list"
where
  "remove_standalones b fa = fold (standalone_step b) (rev [0..<length (snd fa) - 1]) fa"

definition parse_template :: "bytes \<Rightarrow> template_error + template" where
  "parse_template b =
     (case parse_loop b 0
             \<lparr>bd_fragments = [], bd_actions = [], bd_blocks = [], bd_open = ''{{'', bd_close = ''}}''\<rparr> of
        Inl x \<Rightarrow> Inl x
      | Inr st \<Rightarrow>
          (let (fs, as) = remove_standalones b (bd_fragments st, bd_actions st) in
           Inr \<lparr>tm_body = b, tm_fragments = fs, tm_actions = as\<rparr>))"

section \<open>Where templates come from\<close>

text \<open>
  The loader that is set reads a file; a file that is not there is an empty template. \<open>files\<close> is what
  the files have.
\<close>

definition template_base_directory :: bytes where
  "template_base_directory = ''templates''"

definition set_base :: "bytes \<Rightarrow> fault + bytes" where
  "set_base path =
     (if path = [] then Inl Empty_container
      else Inr (if last path \<noteq> CHR 0x5C \<and> last path \<noteq> CHR ''/'' then path @ ''/'' else path))"

definition default_loader :: "(bytes \<Rightarrow> bytes option) \<Rightarrow> bytes \<Rightarrow> bytes \<Rightarrow> bytes" where
  "default_loader files base filename =
     (case files (base @ filename) of None \<Rightarrow> [] | Some text \<Rightarrow> text)"

definition load_template :: "(bytes \<Rightarrow> bytes) \<Rightarrow> bytes \<Rightarrow> template_error + template" where
  "load_template loader filename = parse_template (loader filename)"

section \<open>Rendering\<close>

definition tag_name :: "template \<Rightarrow> action \<Rightarrow> bytes" where
  "tag_name t a = cut (tm_body t) (a_start a) (a_end a)"

text \<open>The stack of contexts, its last element first.\<close>

definition w_member :: "bytes \<Rightarrow> 'd wvalue \<Rightarrow> 'd wvalue option" where
  "w_member k w =
     (case w of WObject ms \<Rightarrow> if w_count k w = 0 then None else map_of ms k | _ \<Rightarrow> None)"

fun split_dots :: "bytes \<Rightarrow> bytes list" where
  "split_dots [] = [[]]"
| "split_dots (c # s) =
     (if c = CHR ''.'' then [] # split_dots s
      else case split_dots s of [] \<Rightarrow> [[c]] | w # ws \<Rightarrow> (c # w) # ws)"

fun walk_names :: "bytes list \<Rightarrow> 'd wvalue \<Rightarrow> 'd wvalue option" where
  "walk_names [] w = Some w"
| "walk_names (k # ks) w = (case w_member k w of None \<Rightarrow> None | Some v \<Rightarrow> walk_names ks v)"

fun search_stack :: "('d wvalue \<Rightarrow> 'd wvalue option) \<Rightarrow> 'd wvalue list \<Rightarrow> 'd wvalue option" where
  "search_stack f [] = None"
| "search_stack f (w # ws) = (case f w of Some v \<Rightarrow> Some v | None \<Rightarrow> search_stack f ws)"

definition find_context :: "bytes \<Rightarrow> 'd wvalue list \<Rightarrow> template_error + bool \<times> 'd wvalue" where
  "find_context name stack =
     (if name = ''.'' then
        (case stack of [] \<Rightarrow> Inl (Broken Empty_container) | w # _ \<Rightarrow> Inr (True, w))
      else
        (case (if CHR ''.'' \<notin> set name then search_stack (w_member name) stack
               else search_stack (walk_names (split_dots name)) stack) of
           Some w \<Rightarrow> Inr (True, w)
         | None \<Rightarrow> Inr (False, WString [])))"

definition html_char :: "char \<Rightarrow> bytes" where
  "html_char c =
     (if c = CHR ''&'' then ''&amp;''
      else if c = CHR ''<'' then ''&lt;''
      else if c = CHR ''>'' then ''&gt;''
      else if c = CHR 0x22 then ''&quot;''
      else if c = CHR 0x27 then ''&#39;''
      else if c = CHR ''/'' then ''&#x2F;''
      else [c])"

fun html_escape :: "bytes \<Rightarrow> bytes \<Rightarrow> bytes" where
  "html_escape [] out = out"
| "html_escape (c # s) out = html_escape s (out @ html_char c)"

definition spaces :: "nat \<Rightarrow> bytes" where
  "spaces n = replicate n (CHR '' '')"

text \<open>\<^verbatim>\<open>render_fragment\<close>: with an indent, a line end is followed by as many blanks.\<close>

definition render_fragment :: "bytes \<Rightarrow> nat \<times> nat \<Rightarrow> nat \<Rightarrow> bytes \<Rightarrow> bytes" where
  "render_fragment b fr indent out =
     (if indent \<noteq> 0 then
        out @ concat (map (\<lambda>i. char_at b i #
                (if char_at b i = LF \<and> i + 1 \<noteq> length b then spaces indent else []))
              [fst fr..<snd fr])
      else out @ cut b (fst fr) (snd fr))"

text \<open>
  What the switch over the type of an action comes to: the loop goes on behind an action, a block is
  rendered once for each element of a list, or another template is rendered.
\<close>

datatype 'd turn =
    Proceed nat "'d wvalue list" bytes
  | Each "'d wvalue list"
  | Include bytes

definition pop_back :: "'a list \<Rightarrow> template_error + 'a list" where
  "pop_back stack = (case stack of [] \<Rightarrow> Inl (Broken Empty_container) | _ # rest \<Rightarrow> Inr rest)"

definition type_digit :: "json_type \<Rightarrow> bytes" where
  "type_digit ty =
     (case ty of T_Null \<Rightarrow> ''0'' | T_False \<Rightarrow> ''1'' | T_True \<Rightarrow> ''2'' | T_Number \<Rightarrow> ''3''
      | T_String \<Rightarrow> ''4'' | T_List \<Rightarrow> ''5'' | T_Object \<Rightarrow> ''6'')"

definition render_value :: "('d \<Rightarrow> bytes) \<Rightarrow> bool \<Rightarrow> 'd wvalue \<Rightarrow> bytes \<Rightarrow> template_error + bytes" where
  "render_value fmt esc w out =
     (case w of
        WNumber d \<Rightarrow> Inr (out @ dump_json fmt w)
      | WString s \<Rightarrow> Inr (if esc then html_escape s out else out @ s)
      | _ \<Rightarrow> Inl (Template_error (''not implemented tag type'' @ type_digit (w_t w))))"

definition render_action ::
  "('d \<Rightarrow> bytes) \<Rightarrow> template \<Rightarrow> nat \<Rightarrow> 'd wvalue list \<Rightarrow> bytes \<Rightarrow> template_error + 'd turn"
where
  "render_action fmt t i stack out =
     (let a = tm_actions t ! i in
      case a_t a of
        Ignore \<Rightarrow> Inr (Proceed i stack out)
      | Partial \<Rightarrow> Inr (Include (tag_name t a))
      | CloseBlock \<Rightarrow> map_sum id (\<lambda>stack. Proceed i stack out) (pop_back stack)
      | ElseBlock \<Rightarrow>
          (case find_context (tag_name t a) stack of
             Inl x \<Rightarrow> Inl x
           | Inr (False, w) \<Rightarrow> Inr (Proceed i (WNull # stack) out)
           | Inr (True, w) \<Rightarrow>
               Inr (case w of
                      WList ws \<Rightarrow> if ws \<noteq> [] then Proceed (a_pos a) stack out
                                 else Proceed i (WNull # stack) out
                    | WFalse \<Rightarrow> Proceed i (WNull # stack) out
                    | WNull \<Rightarrow> Proceed i (WNull # stack) out
                    | _ \<Rightarrow> Proceed (a_pos a) stack out))
      | OpenBlock \<Rightarrow>
          (case find_context (tag_name t a) stack of
             Inl x \<Rightarrow> Inl x
           | Inr (False, w) \<Rightarrow> Inr (Proceed (a_pos a) stack out)
           | Inr (True, w) \<Rightarrow>
               Inr (case w of
                      WList ws \<Rightarrow> Each ws
                    | WFalse \<Rightarrow> Proceed (a_pos a) stack out
                    | WNull \<Rightarrow> Proceed (a_pos a) stack out
                    | _ \<Rightarrow> Proceed i (w # stack) out))
      | _ \<Rightarrow>
          (case find_context (tag_name t a) stack of
             Inl x \<Rightarrow> Inl x
           | Inr (_, w) \<Rightarrow>
               map_sum id (Proceed i stack) (render_value fmt (a_t a = Tag) w out)))"

definition last_fragment :: "template \<Rightarrow> nat" where
  "last_fragment t = length (tm_fragments t) - 1"

text \<open>
  The loop of \<^verbatim>\<open>render_internal\<close>, which a template may keep running for ever: \<open>Out_of_fuel\<close>. The texts
  of partials come from the loader; \<open>render_elements\<close> is the loop over the elements of a list.
\<close>

fun render_elements ::
  "('d wvalue list \<Rightarrow> bytes \<Rightarrow> template_error + 'd wvalue list \<times> bytes) \<Rightarrow>
   'd wvalue list \<Rightarrow> 'd wvalue list \<Rightarrow> bytes \<Rightarrow> template_error + 'd wvalue list \<times> bytes"
where
  "render_elements body [] stack out = Inr (stack, out)"
| "render_elements body (w # ws) stack out =
     (case body (w # stack) out of
        Inl x \<Rightarrow> Inl x
      | Inr (stack, out) \<Rightarrow>
          (case pop_back stack of
             Inl x \<Rightarrow> Inl x
           | Inr stack \<Rightarrow> render_elements body ws stack out))"

primrec render_loop ::
  "nat \<Rightarrow> (bytes \<Rightarrow> bytes) \<Rightarrow> ('d \<Rightarrow> bytes) \<Rightarrow> template \<Rightarrow> nat \<Rightarrow> nat \<Rightarrow> nat \<Rightarrow>
   'd wvalue list \<Rightarrow> bytes \<Rightarrow> template_error + 'd wvalue list \<times> bytes"
where
  "render_loop 0 load fmt t i e indent stack out = Inl (Broken Out_of_fuel)"
| "render_loop (Suc n) load fmt t i e indent stack out =
     (if e \<le> i then Inr (stack, render_fragment (tm_body t) (tm_fragments t ! e) indent out)
      else
        (let out = render_fragment (tm_body t) (tm_fragments t ! i) indent out;
             pos = a_pos (tm_actions t ! i) in
         case render_action fmt t i stack out of
           Inl x \<Rightarrow> Inl x
         | Inr (Proceed j stack out) \<Rightarrow> render_loop n load fmt t (j + 1) e indent stack out
         | Inr (Each ws) \<Rightarrow>
             (case render_elements
                     (\<lambda>stack out. render_loop n load fmt t (i + 1) pos indent stack (out @ spaces indent))
                     ws stack out of
                Inl x \<Rightarrow> Inl x
              | Inr (stack, out) \<Rightarrow> render_loop n load fmt t (pos + 1) e indent stack out)
         | Inr (Include name) \<Rightarrow>
             (case load_template load name of
                Inl x \<Rightarrow> Inl x
              | Inr p \<Rightarrow>
                  (let ind = (if pos \<noteq> 0 then indent + pos else 0) in
                   case render_loop n load fmt p 0 (last_fragment p) ind stack (out @ spaces ind) of
                     Inl x \<Rightarrow> Inl x
                   | Inr (stack, out) \<Rightarrow> render_loop n load fmt t (i + 1) e indent stack out))))"

definition render_internal ::
  "nat \<Rightarrow> (bytes \<Rightarrow> bytes) \<Rightarrow> ('d \<Rightarrow> bytes) \<Rightarrow> template \<Rightarrow> nat \<Rightarrow> nat \<Rightarrow> nat \<Rightarrow>
   'd wvalue list \<Rightarrow> bytes \<Rightarrow> template_error + 'd wvalue list \<times> bytes"
where
  "render_internal n load fmt t i e indent stack out =
     render_loop n load fmt t i e indent stack (out @ spaces indent)"

text \<open>\<^verbatim>\<open>render\<close> with a context, and the one without, which has an empty one.\<close>

definition render :: "nat \<Rightarrow> (bytes \<Rightarrow> bytes) \<Rightarrow> ('d \<Rightarrow> bytes) \<Rightarrow> template \<Rightarrow> 'd wvalue \<Rightarrow> template_error + bytes" where
  "render n load fmt t ctx =
     map_sum id snd (render_internal n load fmt t 0 (last_fragment t) 0 [ctx] [])"


definition render_empty :: "nat \<Rightarrow> (bytes \<Rightarrow> bytes) \<Rightarrow> ('d \<Rightarrow> bytes) \<Rightarrow> template \<Rightarrow> template_error + bytes" where
  "render_empty n load fmt t = render n load fmt t WNull"

end
