(* ===== verification/Mustache_Safety.thy ===== *)
theory Mustache_Safety
  imports Mustache
begin

text \<open>
  What holds of every template that is parsed, and what parsing can fail with.
\<close>

section \<open>Strings\<close>

lemma trim_blanks_ok:
  assumes "i < e" and "\<not> blank (char_at b i)"
  shows "\<exists>e'. trim_blanks b e = Inr e' \<and> i < e' \<and> e' \<le> e"
  using assms
proof (induction e)
  case (Suc e)
  then show ?case by (cases "i = e") (auto simp: less_Suc_eq)
qed simp

lemma trim_blanks_le: "trim_blanks b e = Inr e' \<Longrightarrow> e' \<le> e"
  by (induction e) (auto split: if_splits)

lemma skip_blanks_le: "i \<le> length b \<Longrightarrow> skip_blanks b i \<le> length b"
  using length_takeWhile_le [of blank "drop i b"] by (simp add: skip_blanks_def)

lemma find_in_found: "find_in pat s = Some n \<Longrightarrow> take (length pat) (drop n s) = pat"
  by (induction pat s arbitrary: n rule: find_in.induct) (auto split: if_splits)

lemma find_from_found: "find_from b pat i = Some n \<Longrightarrow> take (length pat) (drop n b) = pat"
  by (auto simp: find_from_def add.commute split: if_splits dest!: find_in_found)

lemma find_from_last:
  assumes "find_from b pat i = Some n" and "pat \<noteq> []"
  shows "char_at b (n + length pat - 1) = last pat"
proof -
  have "n + length pat \<le> length b" using find_from_bound [OF assms(1)] by simp
  moreover have "last pat = pat ! (length pat - 1)" using assms(2) by (simp add: last_conv_nth)
  moreover have "pat ! (length pat - 1) = take (length pat) (drop n b) ! (length pat - 1)"
    using find_from_found [OF assms(1)] by simp
  ultimately show ?thesis using assms(2) by (cases pat) (auto simp: char_at_def)
qed

section \<open>Templates that are well formed\<close>

definition block :: "action \<Rightarrow> bool" where
  "block a = (a_t a = OpenBlock \<or> a_t a = ElseBlock)"

definition in_body :: "bytes \<Rightarrow> action \<Rightarrow> bool" where
  "in_body b a = (a_start a \<le> length b \<and> a_end a \<le> length b)"

text \<open>The end of a block names its start, which it closes, and the start of a closed block its end.\<close>

definition closes :: "bytes \<Rightarrow> action list \<Rightarrow> nat \<Rightarrow> nat \<Rightarrow> bool" where
  "closes b as m k =
     (m < k \<and> k < length as \<and> block (as ! m) \<and> a_t (as ! k) = CloseBlock \<and>
      a_pos (as ! m) = k \<and> a_pos (as ! k) = m \<and>
      cut b (a_start (as ! m)) (a_end (as ! m)) = cut b (a_start (as ! k)) (a_end (as ! k)))"

definition blocks_ok :: "bytes \<Rightarrow> nat set \<Rightarrow> action list \<Rightarrow> bool" where
  "blocks_ok b open as =
     (\<forall>k<length as.
        (a_t (as ! k) = CloseBlock \<longrightarrow> closes b as (a_pos (as ! k)) k) \<and>
        (block (as ! k) \<longrightarrow> (if k \<in> open then a_pos (as ! k) = 0 else closes b as k (a_pos (as ! k)))))"

definition fragment_ok :: "bytes \<Rightarrow> nat \<times> nat \<Rightarrow> bool" where
  "fragment_ok b fr = (fst fr \<le> length b \<and> snd fr \<le> length b)"

definition template_ok :: "template \<Rightarrow> bool" where
  "template_ok t =
     (length (tm_fragments t) = length (tm_actions t) \<and> tm_actions t \<noteq> [] \<and>
      a_t (last (tm_actions t)) = Ignore \<and>
      (\<forall>fr\<in>set (tm_fragments t). fragment_ok (tm_body t) fr) \<and>
      (\<forall>a\<in>set (tm_actions t). in_body (tm_body t) a) \<and>
      (\<exists>open. blocks_ok (tm_body t) open (tm_actions t)))"

definition bd_ok :: "bytes \<Rightarrow> building \<Rightarrow> bool" where
  "bd_ok b st =
     ((\<forall>fr\<in>set (bd_fragments st). fragment_ok b fr) \<and>
      (\<forall>a\<in>set (bd_actions st). in_body b a) \<and>
      blocks_ok b (set (bd_blocks st)) (bd_actions st) \<and>
      distinct (bd_blocks st) \<and>
      (\<forall>m\<in>set (bd_blocks st). m < length (bd_actions st) \<and> block (bd_actions st ! m)) \<and>
      bd_open st \<noteq> [] \<and> CHR '' '' \<notin> set (bd_open st))"

lemma new_action_simps [simp]:
  "a_t (new_action ty i e p) = ty" "a_start (new_action ty i e p) = i"
  "a_end (new_action ty i e p) = e" "a_pos (new_action ty i e p) = p"
  by (simp_all add: new_action_def)

lemma closes_append: "closes b as m k \<Longrightarrow> closes b (as @ bs) m k"
  by (auto simp: closes_def nth_append)

lemma blocks_okD:
  assumes "blocks_ok b open as" and "k < length as"
  shows "a_t (as ! k) = CloseBlock \<Longrightarrow> closes b as (a_pos (as ! k)) k"
    and "block (as ! k) \<Longrightarrow> k \<in> open \<Longrightarrow> a_pos (as ! k) = 0"
    and "block (as ! k) \<Longrightarrow> k \<notin> open \<Longrightarrow> closes b as k (a_pos (as ! k))"
  using assms by (auto simp: blocks_ok_def)

lemma blocks_ok_append:
  assumes ok: "blocks_ok b open as" and "a_t a \<noteq> CloseBlock"
    and new: "if block a then a_pos a = 0 \<and> open' = insert (length as) open else open' = open"
  shows "blocks_ok b open' (as @ [a])"
  unfolding blocks_ok_def
proof (intro allI impI)
  fix k assume "k < length (as @ [a])"
  then consider "k = length as" | "k < length as" by fastforce
  then show "(a_t ((as @ [a]) ! k) = CloseBlock \<longrightarrow> closes b (as @ [a]) (a_pos ((as @ [a]) ! k)) k) \<and>
      (block ((as @ [a]) ! k) \<longrightarrow> (if k \<in> open' then a_pos ((as @ [a]) ! k) = 0
        else closes b (as @ [a]) k (a_pos ((as @ [a]) ! k))))"
  proof cases
    case 1
    then show ?thesis using assms by (auto split: if_splits)
  next
    case 2
    then have "k \<in> open' \<longleftrightarrow> k \<in> open" using new by (auto split: if_splits)
    then show ?thesis using blocks_okD [OF ok 2] 2 by (auto simp: nth_append closes_append)
  qed
qed

lemma blocks_ok_close:
  assumes ok: "blocks_ok b open as" and m: "m \<in> open" "m < length as" "block (as ! m)"
    and name: "cut b i e = cut b (a_start (as ! m)) (a_end (as ! m))"
  shows "blocks_ok b (open - {m}) (as[m := (as ! m)\<lparr>a_pos := length as\<rparr>] @ [new_action CloseBlock i e m])"
    (is "blocks_ok b _ ?as")
proof -
  have at: "?as ! k = (if k = m then (as ! m)\<lparr>a_pos := length as\<rparr> else if k = length as
      then new_action CloseBlock i e m else as ! k)" if "k < Suc (length as)" for k
    using that m by (auto simp: nth_append less_Suc_eq)
  have open_free: "a_pos (as ! k) \<noteq> m" if "k < length as" "a_t (as ! k) = CloseBlock" for k
    using blocks_okD(1) [OF ok that] blocks_okD(2) [OF ok m(2) m(3) m(1)] by (auto simp: closes_def)
  have not_m: "a_t (as ! m) \<noteq> CloseBlock" using m by (auto simp: block_def)
  have kept: "closes b ?as p q" if "closes b as p q" "p \<noteq> m" for p q
    using that not_m m by (auto simp: closes_def at block_def)
  have new: "closes b ?as m (length as)"
    using m name by (auto simp: closes_def at block_def)
  show ?thesis
    unfolding blocks_ok_def
  proof (intro allI impI)
    fix k assume "k < length ?as"
    then have k: "k < Suc (length as)" by simp
    consider "k = m" | "k = length as" "k \<noteq> m" | "k < length as" "k \<noteq> m" using k by linarith
    then show "(a_t (?as ! k) = CloseBlock \<longrightarrow> closes b ?as (a_pos (?as ! k)) k) \<and>
        (block (?as ! k) \<longrightarrow> (if k \<in> open - {m} then a_pos (?as ! k) = 0
                              else closes b ?as k (a_pos (?as ! k))))"
    proof cases
      case 1
      then show ?thesis using m new not_m by (simp add: at block_def)
    next
      case 2
      then show ?thesis using new at [of "length as"] by (simp add: block_def)
    next
      case 3
      then show ?thesis
        using ok open_free [of k] kept [of "a_pos (as ! k)" k] kept [of k "a_pos (as ! k)"] at [OF k]
        by (auto simp: blocks_ok_def)
    qed
  qed
qed


section \<open>Every tag keeps it\<close>

definition keeps :: "bytes \<Rightarrow> building \<Rightarrow> template_error + building \<Rightarrow> bool" where
  "keeps b st r =
     (case r of
        Inl x \<Rightarrow> \<forall>f. x = Broken f \<longrightarrow> f = Empty_container
      | Inr st' \<Rightarrow> bd_ok b st' \<and> length (bd_actions st') = Suc (length (bd_actions st)) \<and>
          bd_fragments st' = bd_fragments st)"

lemma keeps_plain:
  assumes "bd_ok b st" "ty \<notin> {OpenBlock, CloseBlock, ElseBlock}" "i \<le> length b" "e \<le> length b"
  shows "keeps b st (plain_action ty st i e)"
  using assms blocks_ok_append [of b "set (bd_blocks st)" "bd_actions st" "new_action ty i e 0" "set (bd_blocks st)"]
  by (auto simp: keeps_def plain_action_def bd_ok_def block_def in_body_def nth_append)

lemma keeps_open:
  assumes "bd_ok b st" "ty = OpenBlock \<or> ty = ElseBlock" "i \<le> length b" "e \<le> length b"
  shows "keeps b st (open_block ty st i e)"
proof -
  have "blocks_ok b (insert (length (bd_actions st)) (set (bd_blocks st)))
      (bd_actions st @ [new_action ty i e 0])"
    using assms by (intro blocks_ok_append) (auto simp: bd_ok_def block_def)
  then show ?thesis
    using assms by (auto simp: keeps_def open_block_def bd_ok_def in_body_def nth_append block_def)
qed

lemma keeps_close:
  assumes ok: "bd_ok b st" and "i \<le> length b" "e \<le> length b"
  shows "keeps b st (close_block b st i e)"
proof (cases "bd_blocks st")
  case Nil
  then show ?thesis by (simp add: keeps_def close_block_def)
next
  case (Cons m ms)
  let ?as = "bd_actions st"
  have m: "m < length ?as" "block (?as ! m)" "m \<notin> set ms" "distinct ms"
    using ok Cons by (auto simp: bd_ok_def)
  show ?thesis
  proof (cases "cut b i e = cut b (a_start (?as ! m)) (a_end (?as ! m))")
    case True
    let ?new = "?as[m := (?as ! m)\<lparr>a_pos := length ?as\<rparr>] @ [new_action CloseBlock i e m]"
    have "blocks_ok b (set (bd_blocks st) - {m}) ?new"
      using ok m Cons True by (intro blocks_ok_close) (auto simp: bd_ok_def)
    moreover have "set (bd_blocks st) - {m} = set ms" using Cons m by auto
    moreover have "\<forall>a\<in>set ?new. in_body b a"
      using ok assms m
      by (auto simp: bd_ok_def in_body_def dest!: set_update_subset_insert [THEN subsetD])
    moreover have "\<forall>k\<in>set ms. k < length ?new \<and> block (?new ! k)"
      using ok m Cons by (auto simp: bd_ok_def nth_append nth_list_update block_def)
    ultimately show ?thesis
      using ok m Cons True by (simp add: keeps_def close_block_def Let_def bd_ok_def)
  qed (simp add: keeps_def close_block_def Cons Let_def invalid_template_def)
qed

lemma keeps_named:
  assumes "\<And>e'. e' \<le> length b \<Longrightarrow> keeps b st (act (skip_blanks b i) e')"
    and "j < e" "\<not> blank (char_at b j)" "e \<le> length b"
  shows "keeps b st (named_tag b i e act)"
  using trim_blanks_ok [OF assms(2,3)] assms(1,4) by (auto simp: named_tag_def)

lemma invalid_not_broken [simp]: "invalid_template msg \<noteq> Broken f"
  by (simp add: invalid_template_def)

lemma keeps_invalid [simp]: "keeps b st (Inl (invalid_template msg))"
  by (simp add: keeps_def invalid_template_def)

lemma bd_ok_delimiters: "bd_ok b st \<Longrightarrow> w \<noteq> [] \<Longrightarrow> CHR '' '' \<notin> set w \<Longrightarrow>
    bd_ok b (st\<lparr>bd_open := w, bd_close := cl\<rparr>)"
  by (simp add: bd_ok_def)

lemma keeps_delimiters:
  assumes ok: "bd_ok b st" and "i0 \<le> length b" "e0 \<le> length b"
    and j: "j < e0 - 1" "\<not> blank (char_at b j)"
  shows "keeps b st (change_delimiters b i0 e0 st)"
proof -
  have added: "bd_ok b (add_action (new_action Ignore i0 e0 0) st)"
    using keeps_plain [of b st Ignore i0 e0] assms by (simp add: keeps_def plain_action_def)
  obtain e where "trim_blanks b (e0 - 1) = Inr e" using trim_blanks_ok [OF j] by blast
  then show ?thesis
    using bd_ok_delimiters [OF added]
    by (auto simp: change_delimiters_def Let_def keeps_def invalid_template_def dest: set_takeWhileD)
qed

lemma parse_tag_keeps:
  assumes ok: "bd_ok b st" and i: "i < e" "e + length (bd_close st) \<le> length b"
    and before: "0 < i" "\<not> blank (char_at b (i - 1))"
  shows "keeps b st (map_sum id fst (parse_tag b i e st))"
proof -
  have bounds: "Suc i \<le> length b" "e \<le> length b" using i by auto
  have "skip_blanks b (Suc i) \<le> length b" "skip_blanks b i \<le> length b"
    using bounds by (auto intro!: skip_blanks_le)
  then have named: "keeps b st (named_tag b (Suc i) e act)" "keeps b st (named_tag b i e act')"
    if "\<And>i e. i \<le> length b \<Longrightarrow> e \<le> length b \<Longrightarrow> keeps b st (act i e)"
      "\<And>i e. i \<le> length b \<Longrightarrow> e \<le> length b \<Longrightarrow> keeps b st (act' i e)" for act act'
    using that before i bounds by (auto intro!: keeps_named [where j = "i - 1"])
  have fst_go: "map_sum id fst (map_sum id (\<lambda>st. (st, k)) r) = r"
    for r :: "template_error + building" and k :: nat
    by (cases r) auto
  show ?thesis
    using ok bounds named(1) [of "open_block OpenBlock st" "plain_action Tag st"]
      named(1) [of "open_block ElseBlock st" "plain_action Tag st"]
      named(1) [of "close_block b st" "plain_action Tag st"]
      named(1) [of "plain_action Partial st" "plain_action Tag st"]
      named(1) [of "plain_action UnescapeTag st" "plain_action Tag st"]
      named(2) [of "plain_action Tag st" "plain_action Tag st"]
      keeps_delimiters [of b st "Suc i" e "i - 1"] before i
    by (simp add: parse_tag_def Let_def fst_go keeps_open keeps_close keeps_plain)
qed


lemma parse_tag_stays:
  assumes "parse_tag b i e st = Inr (st', cur)" and "e + length (bd_close st) \<le> length b"
  shows "cur \<le> length b"
  using assms
  by (auto simp: parse_tag_def Let_def map_sum_def char_at_def split: if_splits sum.splits)

definition parsed_ok :: "bytes \<Rightarrow> template_error + building \<Rightarrow> bool" where
  "parsed_ok b r =
     (case r of
        Inl x \<Rightarrow> \<forall>f. x = Broken f \<longrightarrow> f = Empty_container
      | Inr st \<Rightarrow> bd_ok b st \<and> length (bd_fragments st) = length (bd_actions st) \<and>
          bd_actions st \<noteq> [] \<and> a_t (last (bd_actions st)) = Ignore)"

lemma parsed_ok_simps [simp]:
  "parsed_ok b (Inl (invalid_template msg))"
  "parsed_ok b (Inl x) \<longleftrightarrow> (\<forall>f. x = Broken f \<longrightarrow> f = Empty_container)"
  by (simp_all add: parsed_ok_def invalid_template_def)

lemma bd_ok_fragment: "bd_ok b st \<Longrightarrow> i \<le> length b \<Longrightarrow> j \<le> length b \<Longrightarrow> bd_ok b (add_fragment i j st)"
  by (auto simp: bd_ok_def fragment_ok_def)

lemma bd_ok_last:
  assumes "bd_ok b st"
  shows "bd_ok b (add_action (new_action Ignore 0 0 0) st)"
  using keeps_plain [of b st Ignore 0 0] assms by (simp add: keeps_def plain_action_def)

lemma parse_loop_ok:
  assumes "bd_ok b st" "length (bd_fragments st) = length (bd_actions st)" "cur \<le> length b"
  shows "parsed_ok b (parse_loop b cur st)"
  using assms
proof (induction b cur st rule: parse_loop.induct)
  case (1 b cur st)
  note parse_loop.simps [of b cur st, simp]
  show ?case
  proof (cases "find_from b (bd_open st) cur")
    case None
    then show ?thesis
      using 1 bd_ok_last [OF bd_ok_fragment [of b st cur "length b"]]
      by (simp add: parsed_ok_def)
  next
    case (Some idx)
    let ?st = "add_fragment cur idx st"
    let ?i = "idx + length (bd_open st)"
    note found = find_from_bound [OF Some]
    have delims: "bd_open st \<noteq> []" "CHR '' '' \<notin> set (bd_open st)" using "1.prems" by (auto simp: bd_ok_def)
    have "last (bd_open st) \<noteq> CHR '' ''" using delims last_in_set by metis
    then have before: "0 < ?i" "\<not> blank (char_at b (?i - 1))"
      using delims(1) find_from_last [OF Some delims(1)] by simp_all
    have st: "bd_ok b ?st" using "1.prems" found by (intro bd_ok_fragment) auto
    show ?thesis
    proof (cases "find_from b (bd_close ?st) ?i")
      case None
      with Some show ?thesis by (simp add: Let_def)
    next
      case (Some e)
      note this [simp] \<open>find_from b (bd_open st) cur = Some idx\<close> [simp]
      note e = find_from_bound [OF Some]
      show ?thesis
      proof (cases "e = ?i")
        case False
        then have kept: "keeps b ?st (map_sum id fst (parse_tag b ?i e ?st))"
          using e st before by (intro parse_tag_keeps) auto
        show ?thesis
        proof (cases "parse_tag b ?i e ?st")
          case (Inl x)
          then show ?thesis using kept False Some by (simp add: Let_def keeps_def)
        next
          case (Inr r)
          obtain st' cur' where r: "r = (st', cur')" by (cases r)
          have "cur' \<le> length b" using parse_tag_stays Inr e by (auto simp: r)
          moreover have "bd_ok b st'" "length (bd_fragments st') = length (bd_actions st')"
            using kept Inr "1.prems" by (auto simp: r keeps_def)
          ultimately have "parsed_ok b (parse_loop b cur' st')"
            using "1.IH" [OF \<open>find_from b (bd_open st) cur = Some idx\<close> refl refl] Some False Inr
            by (simp add: r)
          then show ?thesis using False Inr Some by (simp add: Let_def r)
        qed
      qed (use Some in \<open>simp add: Let_def\<close>)
    qed
  qed
qed

section \<open>Removing the lines of tags\<close>

definition lines_ok :: "bytes \<Rightarrow> nat set \<Rightarrow> (nat \<times> nat) list \<times> action list \<Rightarrow> bool" where
  "lines_ok b open fa =
     (length (fst fa) = length (snd fa) \<and> snd fa \<noteq> [] \<and> a_t (last (snd fa)) = Ignore \<and>
      (\<forall>fr\<in>set (fst fa). fragment_ok b fr) \<and> (\<forall>a\<in>set (snd fa). in_body b a) \<and>
      blocks_ok b open (snd fa))"

lemma blocks_ok_indent:
  assumes "a_t (as ! i) = Partial" "i < length as"
  shows "blocks_ok b open (as[i := (as ! i)\<lparr>a_pos := p\<rparr>]) = blocks_ok b open as"
proof -
  let ?as = "as[i := (as ! i)\<lparr>a_pos := p\<rparr>]"
  have at: "a_t (?as ! k) = a_t (as ! k)" "block (?as ! k) = block (as ! k)"
    "k \<noteq> i \<Longrightarrow> ?as ! k = as ! k" for k
    using assms by (auto simp: nth_list_update block_def)
  have "closes b ?as m k = closes b as m k" for m k
  proof (cases "m = i \<or> k = i")
    case True
    then show ?thesis using assms at [of m] at [of k] by (auto simp: closes_def block_def)
  qed (auto simp: closes_def)
  moreover have "a_pos (?as ! k) = a_pos (as ! k)" if "a_t (as ! k) = CloseBlock \<or> block (as ! k)" for k
    using assms at [of k] that by (cases "k = i") (auto simp: block_def)
  ultimately show ?thesis by (simp add: blocks_ok_def at)
qed


lemma in_body_pos [simp]: "in_body b (a\<lparr>a_pos := p\<rparr>) = in_body b a"
  by (simp add: in_body_def)

lemma lines_ok_fragment:
  assumes "lines_ok b open (fs, as)" and "fragment_ok b fr"
  shows "lines_ok b open (fs[i := fr], as)"
  using assms by (auto simp: lines_ok_def dest!: set_update_subset_insert [THEN subsetD])

lemma lines_ok_indent:
  assumes ok: "lines_ok b open (fs, as)" and i: "a_t (as ! i) = Partial" "i < length as"
  shows "lines_ok b open (fs, as[i := (as ! i)\<lparr>a_pos := p\<rparr>])"
proof -
  have "i \<noteq> length as - 1" using ok i by (auto simp: lines_ok_def last_conv_nth)
  then have "last (as[i := (as ! i)\<lparr>a_pos := p\<rparr>]) = last as"
    using ok by (simp add: lines_ok_def last_list_update)
  moreover have "in_body b (as ! i)" using ok i by (simp add: lines_ok_def)
  ultimately show ?thesis
    using ok blocks_ok_indent [OF i]
    by (auto simp: lines_ok_def dest!: set_update_subset_insert [THEN subsetD])
qed

definition step_ok :: "bytes \<Rightarrow> nat set \<Rightarrow> nat \<Rightarrow> (nat \<times> nat) list \<times> action list \<Rightarrow> bool" where
  "step_ok b open n fa = (lines_ok b open fa \<and> length (snd fa) = n)"

lemma step_ok_if:
  "(c \<Longrightarrow> step_ok b open n x) \<Longrightarrow> (\<not> c \<Longrightarrow> step_ok b open n y) \<Longrightarrow> step_ok b open n (if c then x else y)"
  by simp

lemma standalone_step_ok:
  assumes ok: "lines_ok b open fa" and i: "Suc i < length (snd fa)"
  shows "step_ok b open (length (snd fa)) (standalone_step b i fa)"
proof -
  obtain fs as where fa: "fa = (fs, as)" by (cases fa)
  let ?k = "fst (fs ! (i + 1)) + blanks_after b (fs ! (i + 1))"
  have i: "Suc i < length fs" "Suc i < length as" using ok i by (auto simp: lines_ok_def fa)
  then have frs: "fragment_ok b (fs ! i)" "fragment_ok b (fs ! (i + 1))"
    using ok by (auto simp: lines_ok_def fa)
  define as' where "as' = (if a_t (as ! i) = Partial then as[i := (as ! i)\<lparr>a_pos := snd (fs ! i) -
      (snd (fs ! i) - blanks_before b (fs ! i))\<rparr>] else as)"
  have as': "lines_ok b open (fs, as')" "length as' = length as"
    using ok i lines_ok_indent [of b "open" fs as i] by (auto simp: fa as'_def)
  let ?fs = "fs[i := (fst (fs ! i), snd (fs ! i) - blanks_before b (fs ! i))]"
  have front: "lines_ok b open (?fs, as')"
    using as' frs(1) by (intro lines_ok_fragment) (auto simp: fragment_ok_def)
  have both: "lines_ok b open (?fs[i + 1 := (if char_at b ?k = LF then ?k + 1 else ?k + 2, snd (?fs ! (i + 1)))], as')"
    if "?k < length b" "char_at b ?k = LF \<or> ?k + 1 < length b"
    using frs(2) that by (intro lines_ok_fragment [OF front]) (auto simp: fragment_ok_def)
  show ?thesis
    unfolding fa standalone_step_def Let_def split_conv snd_conv as'_def [symmetric]
    by (intro step_ok_if) (use ok front both as' in \<open>auto simp: fa step_ok_def\<close>)
qed

lemma remove_standalones_ok:
  assumes "lines_ok b open fa"
  shows "lines_ok b open (remove_standalones b fa)"
proof -
  have rounds: "lines_ok b open (fold (standalone_step b) is fa)" if "\<forall>i\<in>set is. Suc i < length (snd fa)" for "is"
    using assms that by (induction "is" arbitrary: fa) (simp_all add: standalone_step_ok [unfolded step_ok_def])
  show ?thesis unfolding remove_standalones_def by (rule rounds) auto
qed

definition parse_result_ok :: "bytes \<Rightarrow> template_error + template \<Rightarrow> bool" where
  "parse_result_ok b r =
     (case r of
        Inl (Broken f) \<Rightarrow> f = Empty_container
      | Inl _ \<Rightarrow> True
      | Inr t \<Rightarrow> tm_body t = b \<and> template_ok t)"


end
