(* ===== verification/Mustache_Tree.thy ===== *)
theory Mustache_Tree
  imports Mustache_Safety
begin

text \<open>
  What a template means: templates as trees of tags, their text, and the text that they stand for in
  a context. Parsing the text and rendering the fragments and actions gives just that.
\<close>

section \<open>Templates as trees\<close>

text \<open>
  Each item has the text in front of its tag: a tag with the name of a value, which is escaped or not,
  or a block, which is a section or an inverted one, with the text in front of its end.
\<close>

datatype mitem =
    Leaf bytes bool bytes
  | Block bytes bool bytes "mitem list" bytes

fun item_source :: "mitem \<Rightarrow> bytes" where
  "item_source (Leaf s esc n) = s @ (if esc then ''{{'' @ n @ ''}}'' else ''{{{'' @ n @ ''}}}'')"
| "item_source (Block s neg n is s') =
     s @ ''{{'' @ (if neg then ''^'' else ''#'') @ n @ ''}}'' @ concat (map item_source is) @
     s' @ ''{{/'' @ n @ ''}}''"

abbreviation items_source :: "mitem list \<Rightarrow> bytes" where
  "items_source is \<equiv> concat (map item_source is)"

text \<open>Texts have no braces that open, names none that close, no blanks around them and no other tag's sign.\<close>

definition text_ok :: "bytes \<Rightarrow> bool" where
  "text_ok s = (CHR 0x7B \<notin> set s)"

definition name_ok :: "bytes \<Rightarrow> bool" where
  "name_ok n = (n \<noteq> [] \<and> CHR 0x7D \<notin> set n \<and> hd n \<notin> set '' #/^!>{&='' \<and> last n \<noteq> CHR '' '')"

fun item_ok :: "mitem \<Rightarrow> bool" where
  "item_ok (Leaf s esc n) = (text_ok s \<and> name_ok n)"
| "item_ok (Block s neg n is s') = (text_ok s \<and> name_ok n \<and> list_all item_ok is \<and> text_ok s')"

text \<open>What a value is written as, and the contexts in which the inside of a block is written.\<close>

definition value_text :: "('d \<Rightarrow> bytes) \<Rightarrow> bool \<Rightarrow> 'd wvalue \<Rightarrow> template_error + bytes" where
  "value_text fmt esc w =
     (case w of
        WNumber d \<Rightarrow> Inr (fmt d)
      | WString s \<Rightarrow> Inr (if esc then concat (map html_char s) else s)
      | _ \<Rightarrow> Inl (Template_error (''not implemented tag type'' @ type_digit (w_t w))))"

definition false_value :: "'d wvalue \<Rightarrow> bool" where
  "false_value w = (w = WNull \<or> w = WFalse \<or> w = WList [])"

definition block_contexts :: "bool \<Rightarrow> bool \<Rightarrow> 'd wvalue \<Rightarrow> 'd wvalue list" where
  "block_contexts neg found w =
     (if neg then (if found \<and> \<not> false_value w then [] else [WNull])
      else if \<not> found \<or> false_value w then []
      else case w of WList ws \<Rightarrow> ws | _ \<Rightarrow> [w])"

fun collect :: "(template_error + bytes) list \<Rightarrow> template_error + bytes" where
  "collect [] = Inr []"
| "collect (r # rs) =
     (case r of
        Inl x \<Rightarrow> Inl x
      | Inr s \<Rightarrow> (case collect rs of Inl x \<Rightarrow> Inl x | Inr s' \<Rightarrow> Inr (s @ s')))"

fun item_text :: "('d \<Rightarrow> bytes) \<Rightarrow> 'd wvalue list \<Rightarrow> mitem \<Rightarrow> template_error + bytes" where
  "item_text fmt stack (Leaf s esc n) =
     (case find_context n stack of
        Inl x \<Rightarrow> Inl x
      | Inr (_, w) \<Rightarrow> collect [Inr s, value_text fmt esc w])"
| "item_text fmt stack (Block s neg n is s') =
     (case find_context n stack of
        Inl x \<Rightarrow> Inl x
      | Inr (found, w) \<Rightarrow>
          collect (Inr s # concat (map (\<lambda>c. map (item_text fmt (c # stack)) is @ [Inr s'])
            (block_contexts neg found w))))"

definition meaning :: "('d \<Rightarrow> bytes) \<Rightarrow> 'd wvalue \<Rightarrow> mitem list \<Rightarrow> bytes \<Rightarrow> template_error + bytes" where
  "meaning fmt ctx is s = collect (map (item_text fmt [ctx]) is @ [Inr s])"

text \<open>
  A tag of a block is alone on a line when only blanks are around it up to a line end or an end of the
  template; the code then removes the line.
\<close>

definition line_starts :: "bool \<Rightarrow> bytes \<Rightarrow> bool" where
  "line_starts first s = (case dropWhile blank (rev s) of [] \<Rightarrow> first | c # _ \<Rightarrow> c = LF)"

definition line_ends :: "bool \<Rightarrow> bytes \<Rightarrow> bool" where
  "line_ends final s =
     (case dropWhile blank s of
        [] \<Rightarrow> final
      | c # r \<Rightarrow> c = LF \<or> c = CR \<and> r \<noteq> [] \<and> hd r = LF)"

text \<open>The fragments and actions of a tree: text, type, name and position of the other end.\<close>

type_synonym tag_view = "bytes \<times> ActionType \<times> bytes \<times> nat"

fun item_tags :: "nat \<Rightarrow> mitem \<Rightarrow> tag_view list"
  and items_tags :: "nat \<Rightarrow> mitem list \<Rightarrow> tag_view list" where
  "item_tags k (Leaf s esc n) = [(s, if esc then Tag else UnescapeTag, n, 0)]"
| "item_tags k (Block s neg n is s') =
     (s, if neg then ElseBlock else OpenBlock, n, k + 1 + length (items_tags (k + 1) is)) #
     items_tags (k + 1) is @ [(s', CloseBlock, n, k)]"
| "items_tags k [] = []"
| "items_tags k (i # is) = item_tags k i @ items_tags (k + length (item_tags k i)) is"

definition tree_tags :: "mitem list \<Rightarrow> bytes \<Rightarrow> tag_view list" where
  "tree_tags is s = items_tags 0 is @ [(s, Ignore, [], 0)]"

definition no_lines_removed :: "mitem list \<Rightarrow> bytes \<Rightarrow> bool" where
  "no_lines_removed is s =
     (let vs = tree_tags is s in
      list_all (\<lambda>i. fst (snd (vs ! i)) \<in> {Tag, UnescapeTag} \<or>
        \<not> (line_starts (i = 0) (fst (vs ! i)) \<and> line_ends (i + 2 = length vs) (fst (vs ! (i + 1)))))
        [0..<length vs - 1])"

end
