(* ===== verification/Mustache_Read.thy ===== *)
theory Mustache_Read
  imports Mustache_Tree
begin

text \<open>
  Parsing the text of a tree gives the fragments and actions of the tree.
\<close>

section \<open>Finding delimiters\<close>

lemma find_in_here [simp]: "pat \<noteq> [] \<Longrightarrow> find_in pat (pat @ s) = Some 0"
  by (cases pat) auto

lemma find_in_skip:
  assumes "c \<notin> set s" and "pat = c # p"
  shows "find_in pat (s @ r) = map_option ((+) (length s)) (find_in pat r)"
  using assms(1)
proof (induction s)
  case Nil
  then show ?case by (simp add: option.map_ident)
next
  case (Cons d s)
  then show ?case by (auto simp: assms(2) option.map_comp comp_def)
qed

lemma find_from_here:
  assumes "drop i b = s @ pat @ r" and "i \<le> length b" and "pat = c # p" and "c \<notin> set s"
  shows "find_from b pat i = Some (i + length s)"
  using assms find_in_skip [OF assms(4,3), of "pat @ r"] by (simp add: find_from_def)

lemma find_from_none:
  assumes "drop i b = s" and "pat = c # p" and "c \<notin> set s"
  shows "find_from b pat i = None"
  using assms find_in_skip [OF assms(3,2), of "[]"] by (simp add: find_from_def)

lemma drop_nth_char: "drop i b = c # s \<Longrightarrow> char_at b i = c"
  by (metis char_at_def drop_eq_Nil list.distinct(1) hd_drop_conv_nth list.sel(1) not_le)

lemma cut_front:
  assumes "drop i b = s @ r"
  shows "cut b i (i + length s) = s"
  using assms by (simp add: cut_def)

lemma drop_shift: "drop i b = s @ r \<Longrightarrow> drop (i + length s) b = r"
  using drop_drop [of "length s" i b] by (simp add: add.commute)

lemma named_tag_plain:
  assumes "drop i b = n @ r" and "n \<noteq> []" "hd n \<noteq> CHR '' ''" "last n \<noteq> CHR '' ''"
  shows "named_tag b i (i + length n) act = act i (i + length n)"
proof -
  have "takeWhile blank (drop i b) = []" using assms by (cases n) auto
  moreover have "trim_blanks b (i + length n) = Inr (i + length n)"
  proof -
    obtain m where m: "length n = Suc m" using assms(2) by (cases n) auto
    have "drop (i + m) b = last n # r"
    proof -
      have "n = take m n @ [last n]" using m assms(2) by (metis append_butlast_last_id butlast_conv_take diff_Suc_1)
      then have "drop i b = take m n @ last n # r" using assms(1) by (metis append.assoc append_Cons append_Nil)
      then show ?thesis using drop_shift [of i b "take m n"] m by simp
    qed
    then show ?thesis using drop_nth_char [of "i + m"] assms(4) m by simp
  qed
  ultimately show ?thesis by (simp add: named_tag_def skip_blanks_def)
qed

section \<open>One tag\<close>

definition delimited :: "building \<Rightarrow> bool" where
  "delimited st = (bd_open st = ''{{'' \<and> bd_close st = ''}}'')"

lemma parse_loop_tag:
  assumes "delimited st" and "drop cur b = s @ ''{{'' @ n @ ''}}'' @ r" and "cur \<le> length b"
    and "text_ok s" and "CHR 0x7D \<notin> set n" and "n \<noteq> []"
  shows "parse_loop b cur st =
    (let st = add_fragment cur (cur + length s) st; i = cur + length s + 2 in
     case parse_tag b i (i + length n) st of
       Inl x \<Rightarrow> Inl x
     | Inr (st', cur') \<Rightarrow> parse_loop b cur' st')"
proof -
  have found: "find_from b ''{{'' cur = Some (cur + length s)"
    using assms by (intro find_from_here) (auto simp: text_ok_def)
  have rest: "drop (cur + length s + 2) b = n @ ''}}'' @ r"
    using drop_shift [of cur b "s @ ''{{''" "n @ ''}}'' @ r"] assms(2) by (simp add: add.assoc)
  then have "cur + length s + 2 \<le> length b" by (metis drop_eq_Nil append_is_Nil_conv assms(6) nat_le_linear)
  then have closing: "find_from b ''}}'' (cur + length s + 2) = Some (cur + length s + 2 + length n)"
    using rest assms(5) by (intro find_from_here) auto
  show ?thesis
    using found closing assms(1,6)
    by (subst parse_loop.simps) (simp add: delimited_def Let_def)
qed


definition grow :: "building \<Rightarrow> (nat \<times> nat) list \<Rightarrow> action list \<Rightarrow> building" where
  "grow st frs acts =
     st\<lparr>bd_fragments := bd_fragments st @ frs, bd_actions := bd_actions st @ acts\<rparr>"

lemma grow_simps [simp]:
  "bd_fragments (grow st frs acts) = bd_fragments st @ frs"
  "bd_actions (grow st frs acts) = bd_actions st @ acts"
  "bd_blocks (grow st frs acts) = bd_blocks st"
  "delimited (grow st frs acts) = delimited st"
  "grow (grow st frs acts) frs' acts' = grow st (frs @ frs') (acts @ acts')"
  "grow st [] [] = st"
  by (simp_all add: grow_def delimited_def)

lemma grow_tag: "add_action a (add_fragment i j st) = grow st [(i, j)] [a]"
  by (simp add: grow_def add_action_def add_fragment_def)

definition leaf_type :: "bool \<Rightarrow> ActionType" where
  "leaf_type esc = (if esc then Tag else UnescapeTag)"

definition block_type :: "bool \<Rightarrow> ActionType" where
  "block_type neg = (if neg then ElseBlock else OpenBlock)"

lemma parse_leaf:
  assumes "delimited st" and "drop cur b = item_source (Leaf s esc n) @ r" and "cur \<le> length b"
    and "item_ok (Leaf s esc n)"
  shows "\<exists>i. parse_loop b cur st = parse_loop b (cur + length (item_source (Leaf s esc n)))
      (grow st [(cur, cur + length s)] [new_action (leaf_type esc) i (i + length n) 0]) \<and>
    drop i b = n @ drop (i + length n) b"
proof (cases esc)
  case True
  let ?i = "cur + length s + 2"
  have src: "drop cur b = s @ ''{{'' @ n @ ''}}'' @ r" using assms(2) True by simp
  have n: "n \<noteq> []" "CHR 0x7D \<notin> set n" "hd n \<notin> set '' #/^!>{&=''" "last n \<noteq> CHR '' ''" and s: "text_ok s"
    using assms(4) by (auto simp: name_ok_def)
  have at: "drop ?i b = n @ ''}}'' @ r" using drop_shift [of cur b "s @ ''{{''" "n @ ''}}'' @ r"] src by (simp add: add.assoc)
  have "char_at b ?i = hd n" using n(1) at drop_nth_char [of ?i b "hd n" "tl n @ ''}}'' @ r"] by simp
  then have "parse_tag b ?i (?i + length n) (add_fragment cur (cur + length s) st) =
      Inr (grow st [(cur, cur + length s)] [new_action Tag ?i (?i + length n) 0], ?i + length n + 2)"
    using n assms(1) named_tag_plain [OF at] by (simp add: parse_tag_def Let_def delimited_def plain_action_def grow_tag)
  then have "parse_loop b cur st = parse_loop b (?i + length n + 2)
      (grow st [(cur, cur + length s)] [new_action Tag ?i (?i + length n) 0])"
    using parse_loop_tag [OF assms(1) src assms(3) s n(2,1)] by (simp add: Let_def)
  then show ?thesis using True at drop_shift [OF at] by (intro exI [where x = ?i]) (simp add: leaf_type_def add.assoc)
next
  case False
  let ?i = "cur + length s + 2"
  have src: "drop cur b = s @ ''{{'' @ (CHR 0x7B # n) @ ''}}'' @ CHR 0x7D # r" using assms(2) False by simp
  have n: "n \<noteq> []" "CHR 0x7D \<notin> set (CHR 0x7B # n)" "hd n \<noteq> CHR '' ''" "last n \<noteq> CHR '' ''" and s: "text_ok s"
    using assms(4) by (auto simp: name_ok_def)
  have at: "drop ?i b = (CHR 0x7B # n) @ ''}}'' @ CHR 0x7D # r"
    using drop_shift [of cur b "s @ ''{{''" "(CHR 0x7B # n) @ ''}}'' @ CHR 0x7D # r"] src by (simp add: add.assoc)
  then have name: "drop (?i + 1) b = n @ ''}}'' @ CHR 0x7D # r"
    using drop_shift [of ?i b "[CHR 0x7B]"] by simp
  have "char_at b ?i = CHR 0x7B" using drop_nth_char [of ?i] at by simp
  moreover have "char_at b (?i + 1 + length n + 2) = CHR 0x7D"
    using drop_nth_char [of "?i + 1 + length n + 2"] drop_shift [of "?i + 1" b "n @ ''}}''" "CHR 0x7D # r"] name
    by (simp add: add.assoc)
  ultimately have "parse_tag b ?i (?i + length (CHR 0x7B # n)) (add_fragment cur (cur + length s) st) =
      Inr (grow st [(cur, cur + length s)] [new_action UnescapeTag (?i + 1) (?i + 1 + length n) 0], ?i + length n + 4)"
    using n assms(1) named_tag_plain [OF name]
    by (simp add: parse_tag_def Let_def delimited_def plain_action_def grow_tag)
  then have "parse_loop b cur st = parse_loop b (?i + length n + 4)
      (grow st [(cur, cur + length s)] [new_action UnescapeTag (?i + 1) (?i + 1 + length n) 0])"
    using parse_loop_tag [OF assms(1) src assms(3) s n(2)] by (simp add: Let_def)
  then show ?thesis using False name drop_shift [OF name]
    by (intro exI [where x = "?i + 1"]) (simp add: leaf_type_def add.assoc eval_nat_numeral)
qed


definition sign_action :: "bytes \<Rightarrow> char \<Rightarrow> building \<Rightarrow> nat \<Rightarrow> nat \<Rightarrow> template_error + building" where
  "sign_action b c st =
     (if c = CHR ''#'' then open_block OpenBlock st
      else if c = CHR ''^'' then open_block ElseBlock st
      else close_block b st)"

lemma parse_sign:
  assumes "delimited st" and src: "drop cur b = s @ ''{{'' @ (c # n) @ ''}}'' @ r" and "cur \<le> length b"
    and "text_ok s" "name_ok n" "c \<in> {CHR ''#'', CHR ''^'', CHR ''/''}"
  shows "parse_loop b cur st =
      (case sign_action b c (add_fragment cur (cur + length s) st) (cur + length s + 3) (cur + length s + 3 + length n) of
         Inl x \<Rightarrow> Inl x
       | Inr st' \<Rightarrow> parse_loop b (cur + length s + length n + 5) st') \<and>
    drop (cur + length s + 3) b = n @ ''}}'' @ r"
proof -
  let ?i = "cur + length s + 2"
  let ?st = "add_fragment cur (cur + length s) st"
  have n: "n \<noteq> []" "CHR 0x7D \<notin> set (c # n)" "hd n \<noteq> CHR '' ''" "last n \<noteq> CHR '' ''"
    using assms(5,6) by (auto simp: name_ok_def)
  have at: "drop ?i b = (c # n) @ ''}}'' @ r"
    using drop_shift [of cur b "s @ ''{{''" "(c # n) @ ''}}'' @ r"] src by (simp add: add.assoc)
  then have name: "drop (?i + 1) b = n @ ''}}'' @ r" using drop_shift [of ?i b "[c]"] by simp
  have "char_at b ?i = c" using drop_nth_char [of ?i] at by simp
  then have "parse_tag b ?i (?i + length (c # n)) ?st =
      map_sum id (\<lambda>st. (st, cur + length s + length n + 5))
        (sign_action b c ?st (cur + length s + 3) (cur + length s + 3 + length n))"
    using named_tag_plain [OF name n(1,3,4)] assms(1,6)
    by (auto simp: parse_tag_def Let_def delimited_def sign_action_def eval_nat_numeral)
  then show ?thesis
    using parse_loop_tag [OF assms(1) src assms(3,4) n(2)] name
    by (simp add: Let_def eval_nat_numeral map_sum_def split: sum.splits)
qed

section \<open>Trees\<close>

definition fragment_fine :: "bytes \<Rightarrow> nat \<times> nat \<Rightarrow> bool" where
  "fragment_fine b fr = (fst fr \<le> snd fr \<and> snd fr \<le> length b \<and> char_at b (snd fr) \<noteq> LF)"

definition view_of_tag :: "bytes \<Rightarrow> nat \<times> nat \<Rightarrow> action \<Rightarrow> tag_view" where
  "view_of_tag b fr a = (cut b (fst fr) (snd fr), a_t a, cut b (a_start a) (a_end a), a_pos a)"

definition read_as ::
  "bytes \<Rightarrow> nat \<Rightarrow> nat \<Rightarrow> building \<Rightarrow> tag_view list \<Rightarrow> bool"
where
  "read_as b cur cur' st vs =
     (\<exists>frs acts. parse_loop b cur st = parse_loop b cur' (grow st frs acts) \<and>
        length frs = length acts \<and> list_all (fragment_fine b) frs \<and> map2 (view_of_tag b) frs acts = vs)"

lemma read_asI:
  assumes "parse_loop b cur st = parse_loop b cur' (grow st frs acts)" "length frs = length acts"
    "list_all (fragment_fine b) frs" "map2 (view_of_tag b) frs acts = vs"
  shows "read_as b cur cur' st vs"
  using assms by (auto simp: read_as_def)

lemma read_as_refl: "read_as b cur cur st []"
  unfolding read_as_def by (intro exI [where x = "[]"]) simp

lemma map2_append:
  "length xs = length ys \<Longrightarrow> map2 f (xs @ xs') (ys @ ys') = map2 f xs ys @ map2 f xs' ys'"
  by simp

lemma read_as_trans:
  assumes "read_as b cur cur' st vs"
    and "\<And>st'. delimited st' = delimited st \<Longrightarrow> length (bd_actions st') = length (bd_actions st) + length vs \<Longrightarrow>
      read_as b cur' cur'' st' vs'"
  shows "read_as b cur cur'' st (vs @ vs')"
proof -
  obtain frs acts where 1: "parse_loop b cur st = parse_loop b cur' (grow st frs acts)"
    "length frs = length acts" "list_all (fragment_fine b) frs" "map2 (view_of_tag b) frs acts = vs"
    using assms(1) by (auto simp: read_as_def)
  have "length acts = length vs" using 1 by (metis length_map length_zip min.idem)
  then obtain frs' acts' where 2: "parse_loop b cur' (grow st frs acts) = parse_loop b cur'' (grow (grow st frs acts) frs' acts')"
    "length frs' = length acts'" "list_all (fragment_fine b) frs'" "map2 (view_of_tag b) frs' acts' = vs'"
    using assms(2) [of "grow st frs acts"] by (auto simp: read_as_def)
  show ?thesis
    unfolding read_as_def using 1 2
    by (intro exI [where x = "frs @ frs'"] exI [where x = "acts @ acts'"]) simp
qed

lemma fragment_text:
  assumes "drop cur b = s @ CHR 0x7B # r" and "cur \<le> length b"
  shows "fragment_fine b (cur, cur + length s)" "cut b cur (cur + length s) = s"
proof -
  have "length s < length (drop cur b)" unfolding assms(1) by simp
  then have "cur + length s < length b" by simp
  then show "fragment_fine b (cur, cur + length s)"
    using assms drop_shift [OF assms(1)] drop_nth_char [of "cur + length s" b]
    by (simp add: fragment_fine_def)
qed (rule cut_front [OF assms(1)])

lemma leaf_read:
  assumes "delimited st" and "drop cur b = item_source (Leaf s esc n) @ r" and "cur \<le> length b"
    and "item_ok (Leaf s esc n)"
  shows "read_as b cur (cur + length (item_source (Leaf s esc n))) st [(s, leaf_type esc, n, 0)]"
proof -
  obtain i where i: "parse_loop b cur st = parse_loop b (cur + length (item_source (Leaf s esc n)))
      (grow st [(cur, cur + length s)] [new_action (leaf_type esc) i (i + length n) 0])"
    "drop i b = n @ drop (i + length n) b"
    using parse_leaf [OF assms] by blast
  have "\<exists>r. drop cur b = s @ CHR 0x7B # r" using assms(2) by (cases esc) auto
  then show ?thesis
    unfolding read_as_def
    using i(1) cut_front [OF i(2)] fragment_text [OF _ assms(3)]
    by (intro exI [where x = "[(cur, cur + length s)]"]
        exI [where x = "[new_action (leaf_type esc) i (i + length n) 0]"]) (auto simp: view_of_tag_def)
qed

lemma items_read:
  assumes "\<And>i st cur r. i \<in> set is \<Longrightarrow> delimited st \<Longrightarrow> drop cur b = item_source i @ r \<Longrightarrow> cur \<le> length b \<Longrightarrow>
      item_ok i \<Longrightarrow> read_as b cur (cur + length (item_source i)) st (item_tags (length (bd_actions st)) i)"
    and "delimited st" and "drop cur b = items_source is @ r" and "cur \<le> length b" and "list_all item_ok is"
  shows "read_as b cur (cur + length (items_source is)) st (items_tags (length (bd_actions st)) is)"
  using assms
proof (induction "is" arbitrary: st cur)
  case Nil
  then show ?case by (simp add: read_as_refl)
next
  case (Cons i "is")
  have first: "read_as b cur (cur + length (item_source i)) st (item_tags (length (bd_actions st)) i)"
    using Cons.prems(2-) by (intro Cons.prems(1)) auto
  have src: "drop (cur + length (item_source i)) b = items_source is @ r"
    using Cons.prems(3) drop_shift [of cur b "item_source i"] by simp
  have room: "cur + length (item_source i) \<le> length b"
  proof -
    have "length (drop cur b) = length (item_source i @ items_source is @ r)" using Cons.prems(3) by simp
    then show ?thesis using Cons.prems(4) by simp
  qed
  show ?case
    unfolding items_tags.simps
    using first
  proof (rule read_as_trans)
    fix st'
    assume "delimited st' = delimited st"
      and "length (bd_actions st') = length (bd_actions st) + length (item_tags (length (bd_actions st)) i)"
    then show "read_as b (cur + length (item_source i)) (cur + length (items_source (i # is))) st'
        (items_tags (length (bd_actions st) + length (item_tags (length (bd_actions st)) i)) is)"
      using Cons.IH [of st' "cur + length (item_source i)"] Cons.prems src room by (simp add: add.assoc)
  qed
qed


lemma block_opened:
  assumes "delimited st" and src: "drop cur b = s @ ''{{'' @ (if neg then ''^'' else ''#'') @ n @ ''}}'' @ r"
    and "cur \<le> length b" "text_ok s" "name_ok n"
  obtains i e where
    "parse_loop b cur st = parse_loop b (cur + length s + length n + 5)
      (grow st [(cur, cur + length s)] [new_action (block_type neg) i e 0]
        \<lparr>bd_blocks := length (bd_actions st) # bd_blocks st\<rparr>)"
    "cut b i e = n"
proof
  let ?c = "if neg then CHR ''^'' else CHR ''#''"
  let ?i = "cur + length s + 3"
  have "drop cur b = s @ ''{{'' @ (?c # n) @ ''}}'' @ r" using src by simp
  note sign = parse_sign [OF assms(1) this assms(3-5)]
  show "parse_loop b cur st = parse_loop b (cur + length s + length n + 5)
      (grow st [(cur, cur + length s)] [new_action (block_type neg) ?i (?i + length n) 0]
        \<lparr>bd_blocks := length (bd_actions st) # bd_blocks st\<rparr>)"
    using sign by (cases st; cases neg)
      (simp_all add: sign_action_def open_block_def block_type_def grow_def add_action_def add_fragment_def)
  show "cut b ?i (?i + length n) = n" using sign by (intro cut_front) auto
qed

lemma block_closed:
  assumes "delimited st" and src: "drop cur b = s @ ''{{/'' @ n @ ''}}'' @ r"
    and "cur \<le> length b" "text_ok s" "name_ok n"
    and m: "bd_blocks st = m # ms" "cut b (a_start (bd_actions st ! m)) (a_end (bd_actions st ! m)) = n"
  obtains i e where
    "parse_loop b cur st = parse_loop b (cur + length s + length n + 5)
      (st\<lparr>bd_fragments := bd_fragments st @ [(cur, cur + length s)],
          bd_actions := (bd_actions st)[m := (bd_actions st ! m)\<lparr>a_pos := length (bd_actions st)\<rparr>] @
            [new_action CloseBlock i e m],
          bd_blocks := ms\<rparr>)"
    "cut b i e = n"
proof
  let ?i = "cur + length s + 3"
  have "drop cur b = s @ ''{{'' @ (CHR ''/'' # n) @ ''}}'' @ r" using src by simp
  note sign = parse_sign [OF assms(1) this assms(3-5)]
  show name: "cut b ?i (?i + length n) = n" using sign by (intro cut_front) auto
  show "parse_loop b cur st = parse_loop b (cur + length s + length n + 5)
      (st\<lparr>bd_fragments := bd_fragments st @ [(cur, cur + length s)],
          bd_actions := (bd_actions st)[m := (bd_actions st ! m)\<lparr>a_pos := length (bd_actions st)\<rparr>] @
            [new_action CloseBlock ?i (?i + length n) m],
          bd_blocks := ms\<rparr>)"
    using sign name m
    by (cases st) (simp add: sign_action_def close_block_def Let_def add_action_def add_fragment_def)
qed

lemma block_read:
  assumes items: "\<And>i st cur r. i \<in> set is \<Longrightarrow> delimited st \<Longrightarrow> drop cur b = item_source i @ r \<Longrightarrow> cur \<le> length b \<Longrightarrow>
      item_ok i \<Longrightarrow> read_as b cur (cur + length (item_source i)) st (item_tags (length (bd_actions st)) i)"
    and st: "delimited st" and src: "drop cur b = item_source (Block s neg n is s') @ r" and cur: "cur \<le> length b"
    and ok: "item_ok (Block s neg n is s')"
  shows "read_as b cur (cur + length (item_source (Block s neg n is s'))) st
      (item_tags (length (bd_actions st)) (Block s neg n is s'))"
proof -
  let ?k = "length (bd_actions st)"
  let ?cur1 = "cur + length s + length n + 5"
  let ?cur2 = "?cur1 + length (items_source is)"
  have oks: "text_ok s" "name_ok n" "list_all item_ok is" "text_ok s'" using ok by auto
  let ?r1 = "items_source is @ s' @ ''{{/'' @ n @ ''}}'' @ r"
  have src0: "drop cur b = s @ ''{{'' @ (if neg then ''^'' else ''#'') @ n @ ''}}'' @ ?r1" using src by simp
  have src1: "drop ?cur1 b = ?r1"
    using drop_shift [of cur b "s @ ''{{'' @ (if neg then ''^'' else ''#'') @ n @ ''}}''" ?r1] src0
    by (cases neg) (simp_all add: eval_nat_numeral add.assoc)
  have src2: "drop ?cur2 b = s' @ ''{{/'' @ n @ ''}}'' @ r" using drop_shift [OF src1] .
  have room: "?cur1 \<le> length b" "?cur2 \<le> length b" using src1 src2
    by (metis drop_eq_Nil append_is_Nil_conv list.distinct(1) nat_le_linear)+
  obtain i e where opened: "parse_loop b cur st = parse_loop b ?cur1
      (grow st [(cur, cur + length s)] [new_action (block_type neg) i e 0]\<lparr>bd_blocks := ?k # bd_blocks st\<rparr>)"
    and name: "cut b i e = n"
    using block_opened [OF st src0 cur oks(1,2)] .
  let ?st1 = "grow st [(cur, cur + length s)] [new_action (block_type neg) i e 0]\<lparr>bd_blocks := ?k # bd_blocks st\<rparr>"
  have "read_as b ?cur1 ?cur2 ?st1 (items_tags (length (bd_actions ?st1)) is)"
    using st by (intro items_read [OF items _ src1 room(1) oks(3)]) (simp_all add: delimited_def grow_def)
  then obtain frs acts where read: "parse_loop b ?cur1 ?st1 = parse_loop b ?cur2 (grow ?st1 frs acts)"
    "length frs = length acts" "list_all (fragment_fine b) frs" "map2 (view_of_tag b) frs acts = items_tags (?k + 1) is"
    by (auto simp: read_as_def grow_def)
  let ?st2 = "grow ?st1 frs acts"
  have blocks: "bd_blocks ?st2 = ?k # bd_blocks st" "delimited ?st2"
    "cut b (a_start (bd_actions ?st2 ! ?k)) (a_end (bd_actions ?st2 ! ?k)) = n"
    using st name by (simp_all add: grow_def delimited_def nth_append)
  obtain i' e' where closed: "parse_loop b ?cur2 ?st2 = parse_loop b (?cur2 + length s' + length n + 5)
      (?st2\<lparr>bd_fragments := bd_fragments ?st2 @ [(?cur2, ?cur2 + length s')],
          bd_actions := (bd_actions ?st2)[?k := (bd_actions ?st2 ! ?k)\<lparr>a_pos := length (bd_actions ?st2)\<rparr>] @
            [new_action CloseBlock i' e' ?k],
          bd_blocks := bd_blocks st\<rparr>)"
    and name': "cut b i' e' = n"
    using block_closed [OF blocks(2) src2 room(2) oks(4,2) blocks(1,3)] .
  have tags: "length acts = length (items_tags (?k + 1) is)"
    using read(2,4) by (metis length_map length_zip min.idem)
  obtain r1 r2 where "drop cur b = s @ CHR 0x7B # r1" "drop ?cur2 b = s' @ CHR 0x7B # r2"
    using src0 src2 by auto
  note texts = fragment_text [OF this(1) cur] fragment_text [OF this(2) room(2)]
  let ?frs = "[(cur, cur + length s)] @ frs @ [(?cur2, ?cur2 + length s')]"
  let ?acts = "[new_action (block_type neg) i e (?k + 1 + length acts)] @ acts @ [new_action CloseBlock i' e' ?k]"
  have "parse_loop b cur st = parse_loop b (cur + length (item_source (Block s neg n is s'))) (grow st ?frs ?acts)"
  proof -
    have finish: "cur + length (item_source (Block s neg n is s')) = ?cur2 + length s' + length n + 5"
      by (simp add: eval_nat_numeral)
    show ?thesis
      unfolding opened read(1) closed finish
      by (cases st) (simp add: grow_def nth_append list_update_append new_action_def)
  qed
  then show ?thesis
  proof (rule read_asI)
    show "length ?frs = length ?acts" using read(2) by simp
    show "list_all (fragment_fine b) ?frs" using read(3) texts by simp
    have "map2 (view_of_tag b) ?frs ?acts =
        (s, block_type neg, n, ?k + 1 + length acts) # map2 (view_of_tag b) frs acts @ [(s', CloseBlock, n, ?k)]"
      using read(2) texts name name' by (simp add: view_of_tag_def)
    then show "map2 (view_of_tag b) ?frs ?acts = item_tags ?k (Block s neg n is s')"
      using read(4) tags by (simp add: block_type_def)
  qed
qed

lemma item_read:
  assumes "delimited st" "drop cur b = item_source i @ r" "cur \<le> length b" "item_ok i"
  shows "read_as b cur (cur + length (item_source i)) st (item_tags (length (bd_actions st)) i)"
  using assms
proof (induction i arbitrary: st cur r)
  case (Leaf s esc n)
  then show ?case using leaf_read [of st cur b s esc n r] by (simp add: leaf_type_def)
next
  case (Block s neg n "is" s')
  then show ?case by (intro block_read [where r = r]) auto
qed


section \<open>Lines\<close>

lemma hd_dropWhile_nth: "dropWhile P xs \<noteq> [] \<Longrightarrow> hd (dropWhile P xs) = xs ! length (takeWhile P xs)"
  by (induction xs) auto

lemma takeWhile_whole: "length xs \<le> length (takeWhile P xs) \<longleftrightarrow> dropWhile P xs = []"
proof -
  have "length xs = length (takeWhile P xs) + length (dropWhile P xs)"
    by (metis length_append takeWhile_dropWhile_id)
  then show ?thesis by auto
qed

definition slice_text :: "bytes \<Rightarrow> nat \<times> nat \<Rightarrow> bytes" where
  "slice_text b fr = cut b (fst fr) (snd fr)"

lemma slice_text_fine:
  assumes "fragment_fine b fr"
  shows "slice_text b fr = take (snd fr - fst fr) (drop (fst fr) b)" "length (slice_text b fr) = snd fr - fst fr"
    "i < length (slice_text b fr) \<Longrightarrow> slice_text b fr ! i = char_at b (fst fr + i)"
  using assms by (auto simp: slice_text_def cut_def fragment_fine_def char_at_def)

lemma standalone_start:
  assumes fine: "fragment_fine b fr"
  defines "j \<equiv> snd fr - blanks_before b fr"
  shows "line_starts first (slice_text b fr) \<longleftrightarrow> j \<le> fst fr \<and> first \<or> \<not> j \<le> fst fr \<and> char_at b (j - 1) = LF"
proof -
  let ?s = "slice_text b fr"
  have n: "blanks_before b fr = length (takeWhile blank (rev ?s))"
    by (simp add: blanks_before_def slice_text_fine [OF fine])
  have "length (takeWhile blank (rev ?s)) \<le> length ?s" using length_takeWhile_le [of blank "rev ?s"] by simp
  then have all: "j \<le> fst fr \<longleftrightarrow> dropWhile blank (rev ?s) = []"
  proof -
    have "j \<le> fst fr \<longleftrightarrow> length ?s \<le> blanks_before b fr"
      using fine unfolding slice_text_fine(2) [OF fine] j_def fragment_fine_def by linarith
    then show ?thesis using takeWhile_whole [of "rev ?s" blank] unfolding n by (simp only: length_rev)
  qed
  have "hd (dropWhile blank (rev ?s)) = char_at b (j - 1)" if "dropWhile blank (rev ?s) \<noteq> []"
  proof -
    have "blanks_before b fr < length ?s"
      using takeWhile_whole [of "rev ?s" blank] that by (simp add: n not_le [symmetric])
    then have "hd (dropWhile blank (rev ?s)) = ?s ! (length ?s - 1 - blanks_before b fr)"
      using hd_dropWhile_nth [OF that] by (simp add: n rev_nth)
    also have "\<dots> = char_at b (fst fr + (length ?s - 1 - blanks_before b fr))"
      using \<open>blanks_before b fr < length ?s\<close> by (intro slice_text_fine(3) [OF fine]) auto
    also have "fst fr + (length ?s - 1 - blanks_before b fr) = j - 1"
      using \<open>blanks_before b fr < length ?s\<close> slice_text_fine(2) [OF fine] fine
      by (auto simp: j_def fragment_fine_def)
    finally show ?thesis .
  qed
  then show ?thesis
    unfolding line_starts_def all
    by (cases "dropWhile blank (rev ?s)") (simp_all only: list.case list.sel simp_thms list.distinct)
qed

lemma standalone_end:
  assumes fine: "fragment_fine b fr"
  defines "k \<equiv> fst fr + blanks_after b fr"
  shows "line_ends final (slice_text b fr) \<longleftrightarrow>
    (length b \<le> k \<or> snd fr \<le> k) \<and> final \<or>
    \<not> (length b \<le> k \<or> snd fr \<le> k) \<and>
      (char_at b k = LF \<or> char_at b k = CR \<and> k + 1 < length b \<and> char_at b (k + 1) = LF)"
proof -
  let ?s = "slice_text b fr"
  have n: "blanks_after b fr = length (takeWhile blank ?s)"
    by (simp add: blanks_after_def slice_text_fine [OF fine])
  have all: "length b \<le> k \<or> snd fr \<le> k \<longleftrightarrow> dropWhile blank ?s = []"
  proof -
    have "length b \<le> k \<or> snd fr \<le> k \<longleftrightarrow> length ?s \<le> blanks_after b fr"
      using fine unfolding slice_text_fine(2) [OF fine] k_def fragment_fine_def by linarith
    then show ?thesis using takeWhile_whole [of ?s blank] unfolding n by (simp only:)
  qed
  have "line_ends final ?s \<longleftrightarrow> char_at b k = LF \<or> char_at b k = CR \<and> k + 1 < length b \<and> char_at b (k + 1) = LF"
    if d: "dropWhile blank ?s = c # r" for c r
  proof -
    have split: "?s = takeWhile blank ?s @ c # r" using takeWhile_dropWhile_id [of blank ?s] d by simp
    then have "length ?s = length (takeWhile blank ?s) + Suc (length r)" by (metis length_append length_Cons)
    then have room: "k + length r + 1 = snd fr"
      using slice_text_fine(2) [OF fine] fine by (auto simp: k_def n fragment_fine_def)
    have len: "length (takeWhile blank ?s) + length r < length ?s" using \<open>length ?s = _\<close> by simp
    have at: "char_at b (k + m) = (c # r) ! m" if "m \<le> length r" for m
    proof -
      have "(c # r) ! m = ?s ! (length (takeWhile blank ?s) + m)" using split by (metis nth_append_length_plus)
      also have "\<dots> = char_at b (k + m)"
        using len that slice_text_fine(3) [OF fine, of "length (takeWhile blank ?s) + m"] by (simp add: k_def n add.assoc)
      finally show ?thesis by simp
    qed
    show ?thesis
    proof (cases r)
      case Nil
      then have "k + 1 = snd fr" using room by simp
      then show ?thesis using at [of 0] fine Nil d by (simp add: line_ends_def fragment_fine_def)
    next
      case (Cons d' r')
      then have "k + 1 < length b" using room fine by (simp add: fragment_fine_def)
      then show ?thesis using at [of 0] at [of 1] Cons d by (simp add: line_ends_def)
    qed
  qed
  then show ?thesis
    unfolding all by (cases "dropWhile blank ?s") (simp_all only: line_ends_def list.case simp_thms list.distinct)
qed

lemma if_same: "(c \<Longrightarrow> x = z) \<Longrightarrow> (\<not> c \<Longrightarrow> y = z) \<Longrightarrow> (if c then x else y) = z"
  by simp

lemma standalone_step_stays:
  assumes "fragment_fine b (fs ! i)" "fragment_fine b (fs ! (i + 1))"
    and "a_t (as ! i) \<in> {Tag, UnescapeTag} \<or>
      \<not> (line_starts (i = 0) (slice_text b (fs ! i)) \<and> line_ends (i + 2 = length as) (slice_text b (fs ! (i + 1))))"
  shows "standalone_step b i (fs, as) = (fs, as)"
  using assms(3) standalone_start [OF assms(1), of "i = 0"] standalone_end [OF assms(2), of "i + 2 = length as"]
  unfolding standalone_step_def Let_def split_conv
  by (intro if_same)
    (rule refl | rule FalseE, simp only: insert_iff empty_iff simp_thms neq0_conv [symmetric], argo)+

section \<open>Whole templates\<close>

lemma parse_tree:
  assumes ok: "list_all item_ok is" "text_ok s" and lines: "no_lines_removed is s"
  defines "b \<equiv> items_source is @ s"
  obtains frs acts where
    "parse_template b = Inr \<lparr>tm_body = b, tm_fragments = frs, tm_actions = acts\<rparr>"
    "length frs = length acts" "list_all (fragment_fine b) frs" "map2 (view_of_tag b) frs acts = tree_tags is s"
proof -
  let ?st = "\<lparr>bd_fragments = [], bd_actions = [], bd_blocks = [], bd_open = ''{{'', bd_close = ''}}''\<rparr>"
  have "read_as b 0 (0 + length (items_source is)) ?st (items_tags (length (bd_actions ?st)) is)"
    using ok(1) by (intro items_read [OF item_read]) (simp_all add: b_def delimited_def)
  then obtain frs acts where read: "parse_loop b 0 ?st = parse_loop b (length (items_source is)) (grow ?st frs acts)"
    "length frs = length acts" "list_all (fragment_fine b) frs" "map2 (view_of_tag b) frs acts = items_tags 0 is"
    by (auto simp: read_as_def)
  let ?frs = "frs @ [(length (items_source is), length b)]"
  let ?acts = "acts @ [new_action Ignore 0 0 0]"
  have "find_from b ''{{'' (length (items_source is)) = None"
    using ok(2) by (intro find_from_none [where s = s]) (auto simp: b_def text_ok_def)
  then have loop: "parse_loop b 0 ?st = Inr (grow ?st ?frs ?acts)"
    unfolding read(1) by (subst parse_loop.simps) (simp add: grow_def add_action_def add_fragment_def)
  have fine: "list_all (fragment_fine b) ?frs" "length ?frs = length ?acts"
    using read by (simp_all add: fragment_fine_def b_def char_at_def)
  have sights: "map2 (view_of_tag b) ?frs ?acts = tree_tags is s"
    using read(2,4) by (simp add: tree_tags_def view_of_tag_def b_def cut_def)
  have at: "tree_tags is s ! i = view_of_tag b (?frs ! i) (?acts ! i)" if "i < length ?acts" for i
    unfolding sights [symmetric] using fine(2) that by (simp only: nth_map nth_zip length_zip min.idem split_conv)
  have count: "length (tree_tags is s) = length ?acts" using sights fine(2) by (metis length_map length_zip min.idem)
  have stays: "standalone_step b i (?frs, ?acts) = (?frs, ?acts)" if "i < length ?acts - 1" for i
  proof (rule standalone_step_stays)
    have i: "i < length ?acts" "i + 1 < length ?acts" using that by auto
    show "fragment_fine b (?frs ! i)" "fragment_fine b (?frs ! (i + 1))"
      using fine i by (simp_all only: list_all_length)
    show "a_t (?acts ! i) \<in> {Tag, UnescapeTag} \<or>
        \<not> (line_starts (i = 0) (slice_text b (?frs ! i)) \<and>
           line_ends (i + 2 = length ?acts) (slice_text b (?frs ! (i + 1))))"
    proof -
      have "fst (snd (tree_tags is s ! i)) \<in> {Tag, UnescapeTag} \<or>
          \<not> (line_starts (i = 0) (fst (tree_tags is s ! i)) \<and>
             line_ends (i + 2 = length ?acts) (fst (tree_tags is s ! (i + 1))))"
        using lines that unfolding no_lines_removed_def Let_def list_all_iff count by simp
      then show ?thesis
        unfolding at [OF i(1)] at [OF i(2)] view_of_tag_def fst_conv snd_conv slice_text_def .
    qed
  qed
  have "remove_standalones b (?frs, ?acts) = (?frs, ?acts)"
  proof -
    have "fold (standalone_step b) is (?frs, ?acts) = (?frs, ?acts)" if "\<forall>i\<in>set is. i < length ?acts - 1" for "is"
      using that stays by (induction "is") auto
    then show ?thesis unfolding remove_standalones_def by simp
  qed
  then have "parse_template b = Inr \<lparr>tm_body = b, tm_fragments = ?frs, tm_actions = ?acts\<rparr>"
    using loop by (simp add: parse_template_def)
  then show thesis using that fine sights by blast
qed

end
