(* ===== verification/Mustache_Meaning.thy ===== *)
theory Mustache_Meaning
  imports Mustache_Read
begin

text \<open>
  Rendering the fragments and actions of a tree writes its meaning and comes to an end; and what
  becomes of templates that are not trees.
\<close>

section \<open>Running the loop\<close>

lemma collect_append:
  "collect (rs @ rs') =
     (case collect rs of Inl x \<Rightarrow> Inl x
      | Inr s \<Rightarrow> (case collect rs' of Inl x \<Rightarrow> Inl x | Inr s' \<Rightarrow> Inr (s @ s')))"
  by (induction rs) (auto split: sum.splits)

lemma html_escape_eq: "html_escape s out = out @ concat (map html_char s)"
  by (induction s out rule: html_escape.induct) simp_all

lemma render_value_eq: "render_value fmt esc w out = map_sum id ((@) out) (value_text fmt esc w)"
  by (cases w) (simp_all add: render_value_def value_text_def html_escape_eq dump_json_text)

text \<open>\<open>returns\<close>: with enough fuel the loop has this result.\<close>

definition returns ::
  "(bytes \<Rightarrow> bytes) \<Rightarrow> ('d \<Rightarrow> bytes) \<Rightarrow> template \<Rightarrow> nat \<Rightarrow> nat \<Rightarrow> 'd wvalue list \<Rightarrow> bytes \<Rightarrow>
   template_error + 'd wvalue list \<times> bytes \<Rightarrow> bool"
where
  "returns load fmt t i e stack out r = (\<exists>N. \<forall>n\<ge>N. render_loop n load fmt t i e 0 stack out = r)"

definition each_returns ::
  "(bytes \<Rightarrow> bytes) \<Rightarrow> ('d \<Rightarrow> bytes) \<Rightarrow> template \<Rightarrow> nat \<Rightarrow> nat \<Rightarrow> 'd wvalue list \<Rightarrow> 'd wvalue list \<Rightarrow> bytes \<Rightarrow>
   template_error + 'd wvalue list \<times> bytes \<Rightarrow> bool"
where
  "each_returns load fmt t i e ws stack out r =
     (\<exists>N. \<forall>n\<ge>N. render_elements (\<lambda>stack out. render_loop n load fmt t i e 0 stack (out @ spaces 0)) ws stack out = r)"

lemma eventually_Suc: "(\<exists>N. \<forall>n\<ge>N. P n) \<Longrightarrow> (\<And>n. P n \<Longrightarrow> Q (Suc n)) \<Longrightarrow> \<exists>N. \<forall>n\<ge>N. Q n"
  by (metis Suc_le_D Suc_le_mono)

lemma eventually_both: "(\<exists>N. \<forall>n\<ge>N. P n) \<Longrightarrow> (\<exists>N. \<forall>n\<ge>N. Q n) \<Longrightarrow> (\<And>n. P n \<Longrightarrow> Q n \<Longrightarrow> R n) \<Longrightarrow> \<exists>N. \<forall>n\<ge>(N::nat). R n"
  by (metis le_trans nat_le_linear)

definition shows_tags :: "template \<Rightarrow> tag_view list \<Rightarrow> bool" where
  "shows_tags t vs =
     (length (tm_fragments t) = length (tm_actions t) \<and>
      map2 (view_of_tag (tm_body t)) (tm_fragments t) (tm_actions t) = vs)"

lemma shows_tagsD:
  assumes "shows_tags t vs" and "i < length vs" and "vs ! i = (s, ty, n, p)"
  shows "render_fragment (tm_body t) (tm_fragments t ! i) 0 out = out @ s"
    and "a_t (tm_actions t ! i) = ty" and "tag_name t (tm_actions t ! i) = n" and "a_pos (tm_actions t ! i) = p"
  using assms by (auto simp: shows_tags_def view_of_tag_def render_fragment_def tag_name_def)

lemma returns_end:
  assumes "shows_tags t vs" "e < length vs" "vs ! e = (s, ty, n, p)"
  shows "returns load fmt t e e stack out (Inr (stack, out @ s))"
  unfolding returns_def using shows_tagsD(1) [OF assms] by (intro exI [where x = 1]) (auto simp: Suc_le_eq gr0_conv_Suc)

lemma returns_action:
  assumes at: "shows_tags t vs" "i < length vs" "vs ! i = (s, ty, n, p)" and i: "i < e"
  shows "render_action fmt t i stack (out @ s) = Inl x \<Longrightarrow> returns load fmt t i e stack out (Inl x)"
    and "render_action fmt t i stack (out @ s) = Inr (Proceed j stack' out') \<Longrightarrow>
      returns load fmt t (j + 1) e stack' out' r \<Longrightarrow> returns load fmt t i e stack out r"
    and "render_action fmt t i stack (out @ s) = Inr (Each ws) \<Longrightarrow>
      each_returns load fmt t (i + 1) p ws stack (out @ s) (Inl x) \<Longrightarrow> returns load fmt t i e stack out (Inl x)"
    and "render_action fmt t i stack (out @ s) = Inr (Each ws) \<Longrightarrow>
      each_returns load fmt t (i + 1) p ws stack (out @ s) (Inr (stack', out')) \<Longrightarrow>
      returns load fmt t (p + 1) e stack' out' r \<Longrightarrow> returns load fmt t i e stack out r"
proof -
  note here = shows_tagsD [OF at]
  show "returns load fmt t i e stack out (Inl x)" if "render_action fmt t i stack (out @ s) = Inl x"
    unfolding returns_def using that i here
    by (intro exI [where x = 1]) (auto simp: Suc_le_eq gr0_conv_Suc)
  show "returns load fmt t i e stack out r"
    if "render_action fmt t i stack (out @ s) = Inr (Proceed j stack' out')" "returns load fmt t (j + 1) e stack' out' r"
    using that(2) unfolding returns_def
    by (rule eventually_Suc) (use that(1) i here in simp)
  show "returns load fmt t i e stack out (Inl x)"
    if "render_action fmt t i stack (out @ s) = Inr (Each ws)"
      "each_returns load fmt t (i + 1) p ws stack (out @ s) (Inl x)"
    using that(2) unfolding returns_def each_returns_def
    by (rule eventually_Suc) (use that(1) i here in simp)
  show "returns load fmt t i e stack out r"
    if "render_action fmt t i stack (out @ s) = Inr (Each ws)"
      "each_returns load fmt t (i + 1) p ws stack (out @ s) (Inr (stack', out'))"
      "returns load fmt t (p + 1) e stack' out' r"
  proof -
    have "\<exists>N. \<forall>n\<ge>N. render_elements (\<lambda>stack out. render_loop n load fmt t (i + 1) p 0 stack (out @ spaces 0))
        ws stack (out @ s) = Inr (stack', out') \<and> render_loop n load fmt t (p + 1) e 0 stack' out' = r"
      using that(2,3) unfolding returns_def each_returns_def by (rule eventually_both) simp
    then show ?thesis unfolding returns_def
      by (rule eventually_Suc) (use that(1) i here in simp)
  qed
qed

lemma each_returns_Nil: "each_returns load fmt t i e [] stack out (Inr (stack, out))"
  by (simp add: each_returns_def)

lemma each_returns_Cons:
  "returns load fmt t i e (w # stack) out (Inl x) \<Longrightarrow> each_returns load fmt t i e (w # ws) stack out (Inl x)"
  "returns load fmt t i e (w # stack) out (Inr (w' # stack', out')) \<Longrightarrow>
   each_returns load fmt t i e ws stack' out' r \<Longrightarrow> each_returns load fmt t i e (w # ws) stack out r"
proof -
  show "each_returns load fmt t i e (w # ws) stack out (Inl x)" if "returns load fmt t i e (w # stack) out (Inl x)"
    using that that unfolding returns_def each_returns_def by (rule eventually_both) (simp add: spaces_def)
  show "each_returns load fmt t i e (w # ws) stack out r"
    if "returns load fmt t i e (w # stack) out (Inr (w' # stack', out'))" "each_returns load fmt t i e ws stack' out' r"
    using that unfolding returns_def each_returns_def
    by (rule eventually_both) (simp add: spaces_def pop_back_def)
qed

section \<open>From tag to tag\<close>

text \<open>\<open>passes\<close>: the loop gets from one action to another with the same stack, having written a text.\<close>

definition passes ::
  "(bytes \<Rightarrow> bytes) \<Rightarrow> ('d \<Rightarrow> bytes) \<Rightarrow> template \<Rightarrow> nat \<Rightarrow> nat \<Rightarrow> nat \<Rightarrow> 'd wvalue list \<Rightarrow>
   template_error + bytes \<Rightarrow> bool"
where
  "passes load fmt t i j e stack r =
     (\<forall>out. case r of
        Inl x \<Rightarrow> returns load fmt t i e stack out (Inl x)
      | Inr s \<Rightarrow> (\<forall>res. returns load fmt t j e stack (out @ s) res \<longrightarrow> returns load fmt t i e stack out res))"

lemma passesI:
  assumes "\<And>out x. r = Inl x \<Longrightarrow> returns load fmt t i e stack out (Inl x)"
    and "\<And>out s res. r = Inr s \<Longrightarrow> returns load fmt t j e stack (out @ s) res \<Longrightarrow> returns load fmt t i e stack out res"
  shows "passes load fmt t i j e stack r"
  using assms by (auto simp: passes_def split: sum.splits)

lemma passes_Nil: "passes load fmt t i i e stack (collect [])"
  by (simp add: passes_def)

lemma passes_append:
  assumes "passes load fmt t i j e stack (collect rs)" "passes load fmt t j k e stack (collect rs')"
  shows "passes load fmt t i k e stack (collect (rs @ rs'))"
  using assms by (fastforce simp: passes_def collect_append split: sum.splits)

lemma passes_Cons:
  assumes "passes load fmt t i j e stack r" "passes load fmt t j k e stack (collect rs)"
  shows "passes load fmt t i k e stack (collect (r # rs))"
proof -
  have "collect [r] = r" by (auto split: sum.splits)
  then show ?thesis using passes_append [of load fmt t i j e stack "[r]" k rs] assms by simp
qed


lemma passes_leaf:
  assumes at: "shows_tags t vs" "k < length vs" "vs ! k = (s, if esc then Tag else UnescapeTag, n, p)" and "k < e"
  shows "passes load fmt t k (k + 1) e stack (item_text fmt stack (Leaf s esc n))"
proof -
  note here = shows_tagsD(2-4) [OF at]
  have action: "render_action fmt t k stack out =
      (case find_context n stack of
         Inl x \<Rightarrow> Inl x
       | Inr (_, w) \<Rightarrow> map_sum id (Proceed k stack) (render_value fmt esc w out))" for out
    using here by (cases esc) (auto simp: render_action_def Let_def split: sum.splits prod.splits)
  show ?thesis
    unfolding passes_def
  proof (intro allI)
    fix out
    note fails = returns_action(1) [OF at \<open>k < e\<close>]
    note goes = returns_action(2) [OF at \<open>k < e\<close>]
    show "case item_text fmt stack (Leaf s esc n) of
        Inl x \<Rightarrow> returns load fmt t k e stack out (Inl x)
      | Inr s \<Rightarrow> (\<forall>res. returns load fmt t (k + 1) e stack (out @ s) res \<longrightarrow> returns load fmt t k e stack out res)"
      by (auto simp: action render_value_eq split: sum.splits prod.splits intro!: fails goes)
  qed
qed

lemma passes_block_fails:
  assumes "shows_tags t vs" "k < length vs" "vs ! k = (s, ty, n, p)" "k < e"
    and "\<And>out. render_action fmt t k stack out = Inl x"
  shows "passes load fmt t k j e stack (Inl x)"
  unfolding passes_def sum.case by (intro allI returns_action(1) [OF assms(1-4)] assms(5))

lemma passes_block_skipped:
  assumes "shows_tags t vs" "k < length vs" "vs ! k = (s, ty, n, p)" "k < e"
    and "\<And>out. render_action fmt t k stack out = Inr (Proceed p stack out)"
  shows "passes load fmt t k (p + 1) e stack (collect [Inr s])"
proof (rule passesI)
  fix out r res
  assume "collect [Inr s] = Inr r" "returns load fmt t (p + 1) e stack (out @ r) res"
  then show "returns load fmt t k e stack out res"
    by (intro returns_action(2) [OF assms(1-4) assms(5)]) simp
qed simp

lemma passes_block_end:
  assumes "shows_tags t vs" "p < length vs" "vs ! p = (s', CloseBlock, n, k)" "p < e"
    and "returns load fmt t (p + 1) e stack (out @ s') res"
  shows "returns load fmt t p e (c # stack) out res"
proof (rule returns_action(2) [OF assms(1-4)])
  show "render_action fmt t p (c # stack) (out @ s') = Inr (Proceed p stack (out @ s'))"
    using shows_tagsD(2) [OF assms(1-3)] by (simp add: render_action_def pop_back_def)
qed (rule assms(5))

lemma passes_block_entered:
  assumes at: "shows_tags t vs" "k < length vs" "vs ! k = (s, ty, n, p)" "k < e"
    and enters: "\<And>out. render_action fmt t k stack out = Inr (Proceed k (c # stack) out)"
    and inside: "passes load fmt t (k + 1) p e (c # stack) (collect rs)"
    and close: "p < length vs" "vs ! p = (s', CloseBlock, n', k')" "p < e"
  shows "passes load fmt t k (p + 1) e stack (collect (Inr s # rs @ [Inr s']))"
proof (rule passesI)
  fix out x
  assume "collect (Inr s # rs @ [Inr s']) = Inl x"
  then have "collect rs = Inl x" by (auto simp: collect_append split: sum.splits)
  then show "returns load fmt t k e stack out (Inl x)"
    using inside by (intro returns_action(2) [OF at enters]) (simp add: passes_def)
next
  fix out r res
  assume r: "collect (Inr s # rs @ [Inr s']) = Inr r" and rest: "returns load fmt t (p + 1) e stack (out @ r) res"
  then obtain q where q: "collect rs = Inr q" "r = s @ q @ s'" by (auto simp: collect_append split: sum.splits)
  have "returns load fmt t p e (c # stack) ((out @ s) @ q) res"
    using rest q(2) by (intro passes_block_end [OF at(1) close]) simp
  then show "returns load fmt t k e stack out res"
    using inside q(1) by (intro returns_action(2) [OF at enters]) (simp add: passes_def)
qed

lemma each_passes:
  assumes "shows_tags t vs"
    and inside: "\<And>w. w \<in> set ws \<Longrightarrow> passes load fmt t i p p (w # stack) (collect (rs w))"
    and close: "p < length vs" "vs ! p = (s', CloseBlock, n', k')"
  shows "case collect (concat (map (\<lambda>w. rs w @ [Inr s']) ws)) of
      Inl x \<Rightarrow> each_returns load fmt t i p ws stack out (Inl x)
    | Inr r \<Rightarrow> each_returns load fmt t i p ws stack out (Inr (stack, out @ r))"
  using inside
proof (induction ws arbitrary: out)
  case Nil
  then show ?case by (simp add: each_returns_Nil)
next
  case (Cons w ws)
  note first = Cons.prems [of w, simplified, unfolded passes_def, rule_format, of out]
  show ?case
  proof (cases "collect (rs w)")
    case (Inl x)
    then show ?thesis using first each_returns_Cons(1) by (fastforce simp: collect_append)
  next
    case (Inr r)
    have "returns load fmt t i p (w # stack) out (Inr (w # stack, (out @ r) @ s'))"
      using first Inr returns_end [OF assms(1) close, of load fmt "w # stack" "out @ r"] by simp
    then have rest: "each_returns load fmt t i p ws stack (out @ r @ s') q \<Longrightarrow>
        each_returns load fmt t i p (w # ws) stack out q" for q
      by (intro each_returns_Cons(2)) auto
    have "case collect (concat (map (\<lambda>w. rs w @ [Inr s']) ws)) of
        Inl x \<Rightarrow> each_returns load fmt t i p ws stack (out @ r @ s') (Inl x)
      | Inr r' \<Rightarrow> each_returns load fmt t i p ws stack (out @ r @ s') (Inr (stack, (out @ r @ s') @ r'))"
      using Cons by simp
    then show ?thesis using Inr rest by (auto simp: collect_append split: sum.splits)
  qed
qed

lemma passes_block_each:
  assumes at: "shows_tags t vs" "k < length vs" "vs ! k = (s, ty, n, p)" "k < e"
    and each: "\<And>out. render_action fmt t k stack out = Inr (Each ws)"
    and inside: "\<And>w. w \<in> set ws \<Longrightarrow> passes load fmt t (k + 1) p p (w # stack) (collect (rs w))"
    and close: "p < length vs" "vs ! p = (s', CloseBlock, n', k')"
  shows "passes load fmt t k (p + 1) e stack (collect (Inr s # concat (map (\<lambda>w. rs w @ [Inr s']) ws)))"
  unfolding passes_def
proof (intro allI)
  fix out
  show "case collect (Inr s # concat (map (\<lambda>w. rs w @ [Inr s']) ws)) of
      Inl x \<Rightarrow> returns load fmt t k e stack out (Inl x)
    | Inr s \<Rightarrow> (\<forall>res. returns load fmt t (p + 1) e stack (out @ s) res \<longrightarrow> returns load fmt t k e stack out res)"
    using each_passes [OF at(1) inside close, of ws "out @ s"]
    by (auto split: sum.splits intro: returns_action(3,4) [OF at each])
qed


lemma render_block:
  assumes "a_t (tm_actions t ! k) = (if neg then ElseBlock else OpenBlock)"
    and "tag_name t (tm_actions t ! k) = n" "a_pos (tm_actions t ! k) = p"
    and found: "find_context n stack = Inr (found, w)"
  shows "render_action fmt t k stack out =
    Inr (case w of
           WList ws \<Rightarrow>
             if neg then (if block_contexts neg found w = [] then Proceed p stack out else Proceed k (WNull # stack) out)
             else if found then Each ws else Proceed p stack out
         | _ \<Rightarrow> (case block_contexts neg found w of
                   [] \<Rightarrow> Proceed p stack out
                 | c # _ \<Rightarrow> Proceed k (c # stack) out))"
  using assms
  by (cases neg; cases found; cases w) (auto simp: render_action_def Let_def block_contexts_def false_value_def)

lemma items_pass:
  assumes "\<And>i pre post stack e. i \<in> set is \<Longrightarrow> vs = pre @ item_tags (length pre) i @ post \<Longrightarrow>
      length pre + length (item_tags (length pre) i) \<le> e \<Longrightarrow> e < length vs \<Longrightarrow>
      passes load fmt t (length pre) (length pre + length (item_tags (length pre) i)) e stack (item_text fmt stack i)"
    and "vs = pre @ items_tags (length pre) is @ post"
    and "length pre + length (items_tags (length pre) is) \<le> e" and "e < length vs"
  shows "passes load fmt t (length pre) (length pre + length (items_tags (length pre) is)) e stack
    (collect (map (item_text fmt stack) is))"
  using assms
proof (induction "is" arbitrary: pre)
  case Nil
  then show ?case using passes_Nil by simp
next
  case (Cons i "is")
  let ?tags = "item_tags (length pre) i"
  have "passes load fmt t (length pre) (length pre + length ?tags) e stack (item_text fmt stack i)"
    using Cons.prems(2-) by (intro Cons.prems(1)) auto
  moreover have "passes load fmt t (length (pre @ ?tags)) (length (pre @ ?tags) + length (items_tags (length (pre @ ?tags)) is)) e stack
      (collect (map (item_text fmt stack) is))"
    by (rule Cons.IH [OF Cons.prems(1)]) (use Cons.prems(2-) in auto)
  ultimately show ?case using passes_Cons by (fastforce simp: add.assoc)
qed

lemma item_passes:
  assumes "shows_tags t vs" and "vs = pre @ item_tags (length pre) i @ post"
    and "length pre + length (item_tags (length pre) i) \<le> e" and "e < length vs"
  shows "passes load fmt t (length pre) (length pre + length (item_tags (length pre) i)) e stack (item_text fmt stack i)"
  using assms(2-)
proof (induction i arbitrary: pre post stack e)
  case (Leaf s esc n)
  then have "vs ! length pre = (s, if esc then Tag else UnescapeTag, n, 0)" by simp
  from passes_leaf [OF assms(1) _ this, of e] show ?case using Leaf by simp
next
  case (Block s neg n "is" s')
  let ?k = "length pre"
  let ?tags = "items_tags (?k + 1) is"
  let ?p = "?k + 1 + length ?tags"
  let ?ty = "if neg then ElseBlock else OpenBlock"
  have split: "vs = (pre @ [(s, ?ty, n, ?p)]) @ items_tags (length (pre @ [(s, ?ty, n, ?p)])) is @
      (s', CloseBlock, n, ?k) # post"
    using Block.prems(1) by simp
  have at: "?k < length vs" "vs ! ?k = (s, ?ty, n, ?p)" "?k < e"
    using Block.prems by (simp_all add: nth_append)
  have close: "?p < length vs" "vs ! ?p = (s', CloseBlock, n, ?k)" "?p < e"
    using Block.prems by (simp_all add: nth_append)
  have inside: "passes load fmt t (?k + 1) ?p e' (c # stack) (collect (map (item_text fmt (c # stack)) is))"
    if "?p \<le> e'" "e' < length vs" for c e'
    using items_pass [OF Block.IH split, where e = e' and stack = "c # stack"] that by simp
  note here = shows_tagsD(2-4) [OF assms(1) at(1,2)]
  have finish: "?k + length (item_tags ?k (Block s neg n is s')) = ?p + 1" by simp
  show ?case
  proof (cases "find_context n stack")
    case (Inl x)
    then have "render_action fmt t ?k stack out = Inl x" for out
      using here by (cases neg) (simp_all add: render_action_def Let_def)
    then show ?thesis using Inl by (simp add: passes_block_fails [OF assms(1) at])
  next
    case (Inr r)
    obtain found w where r: "r = (found, w)" by (cases r)
    note turn = render_block [OF here Inr [unfolded r]]
    let ?inner = "\<lambda>c. map (item_text fmt (c # stack)) is"
    consider
        (skip) "block_contexts neg found w = []" "\<And>out. render_action fmt t ?k stack out = Inr (Proceed ?p stack out)"
      | (enter) c where "block_contexts neg found w = [c]"
          "\<And>out. render_action fmt t ?k stack out = Inr (Proceed ?k (c # stack) out)"
      | (each) ws where "block_contexts neg found w = ws" "\<And>out. render_action fmt t ?k stack out = Inr (Each ws)"
    proof -
      have "block_contexts neg found w = [] \<and> (\<forall>out. render_action fmt t ?k stack out = Inr (Proceed ?p stack out)) \<or>
          (\<exists>c. block_contexts neg found w = [c] \<and>
             (\<forall>out. render_action fmt t ?k stack out = Inr (Proceed ?k (c # stack) out))) \<or>
          (\<forall>out. render_action fmt t ?k stack out = Inr (Each (block_contexts neg found w)))"
        unfolding turn by (cases neg; cases found; cases w) (auto simp: block_contexts_def false_value_def)
      then show thesis using that by blast
    qed
    then have "passes load fmt t ?k (?p + 1) e stack
        (collect (Inr s # concat (map (\<lambda>c. ?inner c @ [Inr s']) (block_contexts neg found w))))"
    proof cases
      case skip
      then show ?thesis using passes_block_skipped [OF assms(1) at skip(2)] by simp
    next
      case (enter c)
      then show ?thesis
        using passes_block_entered [OF assms(1) at enter(2) inside close] close(3) Block.prems(3) by simp
    next
      case (each ws)
      show ?thesis
        unfolding each(1) using passes_block_each [OF assms(1) at each(2) inside close(1,2)] close(1) by simp
    qed
    then show ?thesis unfolding finish using Inr r by simp
  qed
qed




section \<open>Templates that are not trees\<close>

lemma unclosed_template:
  "parse_template ''Hi {{x}}{{#u}}bye'' = Inr \<lparr>tm_body = ''Hi {{x}}{{#u}}bye'',
     tm_fragments = [(0, 3), (8, 8), (14, 17)],
     tm_actions = [new_action Tag 5 6 0, new_action OpenBlock 11 12 0, new_action Ignore 0 0 0]\<rparr>"
  by code_simp

lemma unclosed_template_pop:
  "parse_template ''{{#a}}x{{/a}}{{#u}}'' = Inr \<lparr>tm_body = ''{{#a}}x{{/a}}{{#u}}'',
     tm_fragments = [(0, 0), (6, 7), (13, 13), (19, 19)],
     tm_actions = [new_action OpenBlock 3 4 1, new_action CloseBlock 10 11 0, new_action OpenBlock 16 17 0,
       new_action Ignore 0 0 0]\<rparr>"
  by code_simp

lemmas find_simps = find_context_def w_member_def w_count_def tag_name_def cut_def pop_back_def


text \<open>A tag of blanks is not refused as an empty one is; its name is the rest of the text.\<close>

lemma blank_tag_takes_rest:
  "\<exists>t. parse_template ''x{{ }}z'' = Inr t \<and>
     render 9 (\<lambda>_. []) (\<lambda>d::nat. ''7'') t (WObject [(''}}z'', WString ''q'')]) = Inr ''xqz''"
proof -
  let ?t = "\<lparr>tm_body = ''x{{ }}z'', tm_fragments = [(0, 1), (6, 7)],
    tm_actions = [new_action Tag 4 3 0, new_action Ignore 0 0 0]\<rparr>"
  have "parse_template ''x{{ }}z'' = Inr ?t" by code_simp
  moreover have "render 9 (\<lambda>_. []) (\<lambda>d::nat. ''7'') ?t (WObject [(''}}z'', WString ''q'')]) = Inr ''xqz''"
    by code_simp
  ultimately show ?thesis by blast
qed

text \<open>A partial that is indented has its list indented once for each element.\<close>

lemma list_in_partial_is_indented_again:
  "\<exists>t. parse_template (''  {{>p}}'' @ [LF]) = Inr t \<and>
     render 20 (\<lambda>_. ''{{#l}}{{.}}{{/l}}'') (\<lambda>d::nat. ''7'') t (WObject [(''l'', WList [WString ''1'', WString ''2''])]) =
     Inr ''    1  2''"
proof -
  let ?t = "\<lparr>tm_body = ''  {{>p}}'' @ [LF], tm_fragments = [(0, 0), (9, 9)],
    tm_actions = [new_action Partial 5 6 2, new_action Ignore 0 0 0]\<rparr>"
  have "parse_template (''  {{>p}}'' @ [LF]) = Inr ?t" by code_simp
  moreover have "render 20 (\<lambda>_. ''{{#l}}{{.}}{{/l}}'') (\<lambda>d::nat. ''7'') ?t (WObject [(''l'', WList [WString ''1'', WString ''2''])]) =
     Inr ''    1  2''" by code_simp
  ultimately show ?thesis by blast
qed

end
