(* ===== verification/Crow_Http.thy ===== *)
theory Crow_Http
  imports Crow_Json_Roundtrip
begin

text \<open>
  Requests and responses: \<^verbatim>\<open>ci_map.h\<close>, \<^verbatim>\<open>http_request.h\<close>, \<^verbatim>\<open>http_response.h\<close>, the
  methods of \<^verbatim>\<open>common.h\<close>, and from \<^verbatim>\<open>http_connection.h\<close> the decisions a connection takes on
  a request and the bytes it writes for a response.
\<close>

section \<open>Methods\<close>

text \<open>The method of a request is a number of the HTTP parser, cast to the enumeration: those the
  enumeration does not name are \<open>M_other\<close>.\<close>

datatype http_method =
    M_DELETE | M_GET | M_HEAD | M_POST | M_PUT | M_CONNECT | M_OPTIONS | M_TRACE
  | M_other nat

fun method_num :: "http_method \<Rightarrow> nat" where
  "method_num M_DELETE = 0"
| "method_num M_GET = 1"
| "method_num M_HEAD = 2"
| "method_num M_POST = 3"
| "method_num M_PUT = 4"
| "method_num M_CONNECT = 5"
| "method_num M_OPTIONS = 6"
| "method_num M_TRACE = 7"
| "method_num (M_other n) = 8 + n"

fun method_name :: "http_method \<Rightarrow> bytes" where
  "method_name M_DELETE = ''DELETE''"
| "method_name M_GET = ''GET''"
| "method_name M_HEAD = ''HEAD''"
| "method_name M_POST = ''POST''"
| "method_name M_PUT = ''PUT''"
| "method_name M_CONNECT = ''CONNECT''"
| "method_name M_OPTIONS = ''OPTIONS''"
| "method_name M_TRACE = ''TRACE''"
| "method_name (M_other n) = ''invalid''"

section \<open>Headers\<close>

text \<open>
  Names compare without regard to the case of ASCII letters, as \<^verbatim>\<open>boost::iequals\<close> does in
  the classic locale. The multimap is the list of its entries. Which of several entries of one
  name \<^verbatim>\<open>find\<close> gives, and the order of iteration, are left open by the standard; the list
  fixes one, and no property depends on which.
\<close>

definition to_upper :: "char \<Rightarrow> char" where
  "to_upper c =
     (if 97 \<le> (of_char c :: nat) \<and> (of_char c :: nat) \<le> 122 then char_of (of_char c - 32 :: nat) else c)"

definition iequals :: "bytes \<Rightarrow> bytes \<Rightarrow> bool" where
  "iequals l r \<longleftrightarrow> map to_upper l = map to_upper r"

type_synonym ci_map = "(bytes \<times> bytes) list"

definition header_count :: "bytes \<Rightarrow> ci_map \<Rightarrow> nat" where
  "header_count k hs = length (filter (\<lambda>h. iequals (fst h) k) hs)"

fun header_find :: "bytes \<Rightarrow> ci_map \<Rightarrow> bytes option" where
  "header_find k [] = None"
| "header_find k (h # hs) = (if iequals (fst h) k then Some (snd h) else header_find k hs)"

definition get_header_value :: "ci_map \<Rightarrow> bytes \<Rightarrow> bytes" where
  "get_header_value hs k =
     (if header_count k hs \<noteq> 0 then (case header_find k hs of Some v \<Rightarrow> v | None \<Rightarrow> []) else [])"

definition headers_emplace :: "bytes \<Rightarrow> bytes \<Rightarrow> ci_map \<Rightarrow> ci_map" where
  "headers_emplace k v hs = hs @ [(k, v)]"

definition headers_set :: "bytes \<Rightarrow> bytes \<Rightarrow> ci_map \<Rightarrow> ci_map" where
  "headers_set k v hs = headers_emplace k v (filter (\<lambda>h. \<not> iequals (fst h) k) hs)"

section \<open>Requests and responses\<close>

record http_request =
  rq_method :: http_method
  raw_url :: bytes
  rq_url :: bytes
  rq_headers :: ci_map
  rq_body :: bytes

record 'd response =
  rs_body :: bytes
  json_value :: "'d wvalue"
  code :: int
  rs_headers :: ci_map
  completed :: bool

definition new_response :: "'d response" where
  "new_response = \<lparr>rs_body = [], json_value = WNull, code = 200, rs_headers = [], completed = False\<rparr>"

definition response_code :: "int \<Rightarrow> 'd response" where
  "response_code c = new_response\<lparr>code := c\<rparr>"

definition response_body :: "bytes \<Rightarrow> 'd response" where
  "response_body b = new_response\<lparr>rs_body := b\<rparr>"

definition json_mode :: "'d response \<Rightarrow> 'd response" where
  "json_mode r = r\<lparr>rs_headers := headers_set ''Content-Type'' ''application/json'' (rs_headers r)\<rparr>"

definition response_json :: "'d wvalue \<Rightarrow> 'd response" where
  "response_json w = json_mode (new_response\<lparr>json_value := w\<rparr>)"

definition response_write :: "bytes \<Rightarrow> 'd response \<Rightarrow> 'd response" where
  "response_write part r = r\<lparr>rs_body := rs_body r @ part\<rparr>"

definition response_clear :: "'d response \<Rightarrow> 'd response" where
  "response_clear r = r\<lparr>rs_body := [], json_value := w_clear (json_value r), code := 200,
     rs_headers := [], completed := False\<rparr>"

text \<open>\<^verbatim>\<open>end\<close>: whether the completion handler is called comes with the response.\<close>

definition response_end :: "'d response \<Rightarrow> 'd response \<times> bool" where
  "response_end r = (if \<not> completed r then (r\<lparr>completed := True\<rparr>, True) else (r, False))"

section \<open>What a connection makes of a request\<close>

record conn_flags =
  close_connection :: bool
  add_keep_alive :: bool
  invalid_request :: bool

definition handle_flags :: "nat \<times> nat \<Rightarrow> bool \<Rightarrow> ci_map \<Rightarrow> conn_flags" where
  "handle_flags version closing hs =
     (let f = \<lparr>close_connection = closing, add_keep_alive = False, invalid_request = False\<rparr>;
          conn = get_header_value hs ''connection''
      in if version = (1, 0) then
           (if header_count ''connection'' hs \<noteq> 0
            then (if iequals conn ''Keep-Alive'' then f\<lparr>add_keep_alive := True\<rparr> else f)
            else f\<lparr>close_connection := True\<rparr>)
         else if version = (1, 1) then
           (let f1 = (if header_count ''connection'' hs \<noteq> 0
                      then (if conn = ''close'' then f\<lparr>close_connection := True\<rparr>
                            else if iequals conn ''Keep-Alive'' then f\<lparr>add_keep_alive := True\<rparr> else f)
                      else f)
            in if header_count ''host'' hs = 0 then f1\<lparr>invalid_request := True\<rparr> else f1)
         else f)"

section \<open>What a connection writes\<close>

fun status_line :: "int \<Rightarrow> bytes option" where
  "status_line c =
     (if c = 200 then Some (''HTTP/1.1 200 OK'' @ crlf)
      else if c = 201 then Some (''HTTP/1.1 201 Created'' @ crlf)
      else if c = 202 then Some (''HTTP/1.1 202 Accepted'' @ crlf)
      else if c = 204 then Some (''HTTP/1.1 204 No Content'' @ crlf)
      else if c = 300 then Some (''HTTP/1.1 300 Multiple Choices'' @ crlf)
      else if c = 301 then Some (''HTTP/1.1 301 Moved Permanently'' @ crlf)
      else if c = 302 then Some (''HTTP/1.1 302 Moved Temporarily'' @ crlf)
      else if c = 304 then Some (''HTTP/1.1 304 Not Modified'' @ crlf)
      else if c = 400 then Some (''HTTP/1.1 400 Bad Request'' @ crlf)
      else if c = 401 then Some (''HTTP/1.1 401 Unauthorized'' @ crlf)
      else if c = 403 then Some (''HTTP/1.1 403 Forbidden'' @ crlf)
      else if c = 404 then Some (''HTTP/1.1 404 Not Found'' @ crlf)
      else if c = 405 then Some (''HTTP/1.1 405 Invalid Auth Key'' @ crlf)
      else if c = 406 then Some (''HTTP/1.1 406 JSON Parsing error'' @ crlf)
      else if c = 407 then Some (''HTTP/1.1 407 User Token not found'' @ crlf)
      else if c = 408 then Some (''HTTP/1.1 408 Database Error'' @ crlf)
      else if c = 500 then Some (''HTTP/1.1 500 Internal Server Error'' @ crlf)
      else if c = 501 then Some (''HTTP/1.1 501 Not Implemented'' @ crlf)
      else if c = 502 then Some (''HTTP/1.1 502 Bad Gateway'' @ crlf)
      else if c = 503 then Some (''HTTP/1.1 503 Service Unavailable'' @ crlf)
      else None)"

declare status_line.simps [simp del]

definition header_line :: "bytes \<times> bytes \<Rightarrow> bytes" where
  "header_line h = fst h @ '': '' @ snd h @ crlf"

text \<open>The response as it goes out: the text of its JSON value, a code that is known, and a body.\<close>

definition final_response :: "('d \<Rightarrow> bytes) \<Rightarrow> 'd response \<Rightarrow> 'd response" where
  "final_response fmt res =
     (let r1 = (if rs_body res = [] \<and> w_t (json_value res) = T_Object
                then res\<lparr>rs_body := dump_json fmt (json_value res)\<rparr> else res);
          r2 = (if status_line (code r1) = None then r1\<lparr>code := 500\<rparr> else r1);
          status = (case status_line (code r2) of Some s \<Rightarrow> s | None \<Rightarrow> [])
      in (if 400 \<le> code r2 \<and> rs_body r2 = [] then r2\<lparr>rs_body := drop 9 status\<rparr> else r2))"

text \<open>
  \<^verbatim>\<open>complete_request\<close> on an open connection: the response as it is left, and the buffers it
  hands to the write, one after the other.
\<close>

definition complete_request ::
  "('d \<Rightarrow> bytes) \<Rightarrow> bytes \<Rightarrow> bytes \<Rightarrow> bool \<Rightarrow> 'd response \<Rightarrow> 'd response \<times> bytes"
where
  "complete_request fmt server_name date keep_alive res =
     (let r3 = final_response fmt res;
          status = (case status_line (code r3) of Some s \<Rightarrow> s | None \<Rightarrow> []);
          hs = rs_headers r3
      in (r3\<lparr>rs_body := []\<rparr>,
          status @ concat (map header_line hs) @
          (if header_count ''content-length'' hs = 0
           then ''Content-Length: '' @ dec_of_nat (length (rs_body r3)) @ crlf else []) @
          (if header_count ''server'' hs = 0 then ''Server: '' @ server_name @ crlf else []) @
          (if header_count ''date'' hs = 0 then ''Date: '' @ date @ crlf else []) @
          (if keep_alive then ''Connection: Keep-Alive'' @ crlf else []) @
          crlf @ rs_body r3))"

section \<open>Facts\<close>

lemma iequals_refl [simp]: "iequals k k"
  by (simp add: iequals_def)

lemma iequals_trans: "iequals a b \<Longrightarrow> iequals b c \<Longrightarrow> iequals a c"
  by (simp add: iequals_def)

lemma header_find_count: "header_find k hs = None \<longleftrightarrow> header_count k hs = 0"
  by (induction hs) (simp_all add: header_count_def)

lemma get_header_value_find: "get_header_value hs k = (case header_find k hs of Some v \<Rightarrow> v | None \<Rightarrow> [])"
  using header_find_count [of k hs] by (auto simp: get_header_value_def split: option.split)

lemma header_find_append:
  "header_find k (hs @ gs) = (case header_find k hs of Some v \<Rightarrow> Some v | None \<Rightarrow> header_find k gs)"
  by (induction hs) simp_all

lemma header_find_erased: "iequals k j \<Longrightarrow> header_find k (filter (\<lambda>h. \<not> iequals (fst h) j) hs) = None"
  by (induction hs) (auto simp: iequals_def)

lemma header_find_other:
  "\<not> iequals k j \<Longrightarrow> header_find k (filter (\<lambda>h. \<not> iequals (fst h) j) hs) = header_find k hs"
  by (induction hs) (auto simp: iequals_def)

lemma iequals_commute: "iequals a b \<longleftrightarrow> iequals b a"
  by (auto simp: iequals_def)

lemma header_count_append: "header_count k (hs @ gs) = header_count k hs + header_count k gs"
  by (simp add: header_count_def)

lemma header_count_one: "header_count k [(j, v)] = (if iequals j k then 1 else 0)"
  by (simp add: header_count_def)

lemma header_count_erased: "iequals k j \<Longrightarrow> header_count k (filter (\<lambda>h. \<not> iequals (fst h) j) hs) = 0"
  by (induction hs) (auto simp: header_count_def iequals_def)

lemma header_count_other:
  "\<not> iequals k j \<Longrightarrow> header_count k (filter (\<lambda>h. \<not> iequals (fst h) j) hs) = header_count k hs"
  by (induction hs) (auto simp: header_count_def iequals_def)

lemma content_length_name: "iequals ''Content-Length'' ''content-length''"
  by code_simp

lemma status_line_500: "status_line 500 = Some (''HTTP/1.1 500 Internal Server Error'' @ crlf)"
  by (simp add: status_line.simps)

section \<open>Reading a response\<close>

text \<open>
  What a client makes of the bytes, as the protocol has it: a status line, lines of headers up to
  an empty one, then as many bytes of body as \<^verbatim>\<open>Content-Length\<close> says.
\<close>

fun read_line :: "bytes \<Rightarrow> (bytes \<times> bytes) option" where
  "read_line (c # d # cs) =
     (if c = CR \<and> d = LF then Some ([], cs)
      else case read_line (d # cs) of None \<Rightarrow> None | Some (l, r) \<Rightarrow> Some (c # l, r))"
| "read_line _ = None"

lemma read_line_shorter: "read_line bs = Some (l, r) \<Longrightarrow> length r < length bs"
  by (induction bs arbitrary: l rule: read_line.induct) (auto split: if_splits option.splits)

definition split_header :: "bytes \<Rightarrow> bytes \<times> bytes" where
  "split_header l = (takeWhile (\<lambda>c. c \<noteq> CHR '':'') l, drop 2 (dropWhile (\<lambda>c. c \<noteq> CHR '':'') l))"

function read_headers :: "bytes \<Rightarrow> (ci_map \<times> bytes) option" where
  "read_headers bs =
     (case read_line bs of
        None \<Rightarrow> None
      | Some (l, r) \<Rightarrow>
          if l = [] then Some ([], r)
          else case read_headers r of None \<Rightarrow> None | Some (hs, r') \<Rightarrow> Some (split_header l # hs, r'))"
  by auto

termination by (relation "measure length") (auto dest: read_line_shorter)

declare read_headers.simps [simp del]

definition read_response :: "bytes \<Rightarrow> (bytes \<times> ci_map \<times> bytes \<times> bytes) option" where
  "read_response bs =
     (case read_line bs of
        None \<Rightarrow> None
      | Some (status, r) \<Rightarrow>
          (case read_headers r of
             None \<Rightarrow> None
           | Some (hs, r') \<Rightarrow>
               (let n = nat (strtol (get_header_value hs ''content-length''))
                in if length r' < n then None else Some (status, hs, take n r', drop n r'))))"

text \<open>A header that is one line: no carriage return, and no colon in its name.\<close>

definition header_ok :: "bytes \<times> bytes \<Rightarrow> bool" where
  "header_ok h \<longleftrightarrow> CR \<notin> set (fst h) \<and> CHR '':'' \<notin> set (fst h) \<and> CR \<notin> set (snd h)"

lemma read_line_crlf: "CR \<notin> set l \<Longrightarrow> read_line (l @ crlf @ r) = Some (l, r)"
proof (induction l)
  case (Cons c l)
  then show ?case by (cases l) (auto simp: crlf_def)
qed (simp add: crlf_def)

lemma until_char:
  "x \<notin> set l \<Longrightarrow> takeWhile (\<lambda>c. c \<noteq> x) (l @ x # r) = l"
  "x \<notin> set l \<Longrightarrow> dropWhile (\<lambda>c. c \<noteq> x) (l @ x # r) = x # r"
  by (induction l) auto

lemma split_header_line: "header_ok h \<Longrightarrow> split_header (fst h @ '': '' @ snd h) = h"
proof -
  assume h: "header_ok h"
  then show ?thesis by (simp add: split_header_def header_ok_def until_char)
qed

lemma read_headers_lines:
  "list_all header_ok hs \<Longrightarrow> read_headers (concat (map header_line hs) @ crlf @ r) = Some (hs, r)"
proof (induction hs)
  case Nil
  show ?case using read_line_crlf [of "[]" r] by (simp add: read_headers.simps)
next
  case (Cons h hs)
  let ?l = "fst h @ '': '' @ snd h"
  have "CR \<notin> set ?l" using Cons.prems by (auto simp: header_ok_def)
  then have "read_line (header_line h @ concat (map header_line hs) @ crlf @ r) =
      Some (?l, concat (map header_line hs) @ crlf @ r)"
    using read_line_crlf [of ?l "concat (map header_line hs) @ crlf @ r"] by (simp add: header_line_def)
  then show ?case
    using Cons split_header_line [of h] by (subst read_headers.simps) simp
qed

section \<open>The status and the body a connection sends\<close>

definition sent_code :: "'d response \<Rightarrow> int" where
  "sent_code res = (if status_line (code res) = None then 500 else code res)"

definition sent_status :: "'d response \<Rightarrow> bytes" where
  "sent_status res = the (status_line (sent_code res))"

definition sent_body :: "('d \<Rightarrow> bytes) \<Rightarrow> 'd response \<Rightarrow> bytes" where
  "sent_body fmt res =
     (let b = (if rs_body res = [] \<and> w_t (json_value res) = T_Object
               then dump_json fmt (json_value res) else rs_body res)
      in if 400 \<le> sent_code res \<and> b = [] then drop 9 (sent_status res) else b)"

definition added_headers :: "bytes \<Rightarrow> bytes \<Rightarrow> bool \<Rightarrow> nat \<Rightarrow> ci_map \<Rightarrow> ci_map" where
  "added_headers server_name date ka n hs =
     (if header_count ''content-length'' hs = 0 then [(''Content-Length'', dec_of_nat n)] else []) @
     (if header_count ''server'' hs = 0 then [(''Server'', server_name)] else []) @
     (if header_count ''date'' hs = 0 then [(''Date'', date)] else []) @
     (if ka then [(''Connection'', ''Keep-Alive'')] else [])"

lemma sent_status_line: "\<exists>l. CR \<notin> set l \<and> sent_status res = l @ crlf"
proof -
  have "status_line (sent_code res) \<noteq> None" by (simp add: sent_code_def status_line_500)
  then obtain s where s: "status_line (sent_code res) = Some s" by blast
  then have "\<exists>l. CR \<notin> set l \<and> s = l @ crlf"
    unfolding status_line.simps [of "sent_code res"] by (auto split: if_splits)
  with s show ?thesis by (simp add: sent_status_def)
qed

lemma complete_request_bytes:
  "snd (complete_request fmt server_name date ka res) =
    sent_status res @
    concat (map header_line
      (rs_headers res @ added_headers server_name date ka (length (sent_body fmt res)) (rs_headers res))) @
    crlf @ sent_body fmt res"
proof -
  define r1 where "r1 = (if rs_body res = [] \<and> w_t (json_value res) = T_Object
    then res\<lparr>rs_body := dump_json fmt (json_value res)\<rparr> else res)"
  define r2 where "r2 = (if status_line (code r1) = None then r1\<lparr>code := 500\<rparr> else r1)"
  define status where "status = (case status_line (code r2) of Some s \<Rightarrow> s | None \<Rightarrow> [])"
  define r3 where "r3 = (if 400 \<le> code r2 \<and> rs_body r2 = [] then r2\<lparr>rs_body := drop 9 status\<rparr> else r2)"
  have r1: "code r1 = code res" "rs_headers r1 = rs_headers res" by (simp_all add: r1_def)
  then have r2: "code r2 = sent_code res" "rs_headers r2 = rs_headers res" "rs_body r2 = rs_body r1"
    by (simp_all add: r2_def sent_code_def)
  have "status_line (sent_code res) \<noteq> None" by (simp add: sent_code_def status_line_500)
  then have st: "status = sent_status res" by (auto simp: status_def sent_status_def r2)
  have body: "rs_body r3 = sent_body fmt res" and hs: "rs_headers r3 = rs_headers res"
    by (simp_all add: r3_def st r2 sent_body_def Let_def r1_def)
  have f: "final_response fmt res = r3"
    unfolding final_response_def Let_def r3_def status_def r2_def r1_def by (rule refl)
  have c: "code r3 = code r2" by (simp add: r3_def)
  have lines: "concat (map header_line (if c then [h] else [])) = (if c then header_line h else [])" for c h
    by simp
  have "snd (complete_request fmt server_name date ka res) =
      status @ concat (map header_line (rs_headers r3)) @
      (if header_count ''content-length'' (rs_headers r3) = 0
       then ''Content-Length: '' @ dec_of_nat (length (rs_body r3)) @ crlf else []) @
      (if header_count ''server'' (rs_headers r3) = 0 then ''Server: '' @ server_name @ crlf else []) @
      (if header_count ''date'' (rs_headers r3) = 0 then ''Date: '' @ date @ crlf else []) @
      (if ka then ''Connection: Keep-Alive'' @ crlf else []) @ crlf @ rs_body r3"
    unfolding complete_request_def Let_def f c status_def snd_conv by (rule refl)
  then show ?thesis
    unfolding st body hs added_headers_def map_append concat_append lines
    by (simp add: header_line_def)
qed

section \<open>Properties\<close>

text \<open>A header that was set is found under its name in any case of letters, exactly once, and
  the headers of other names are as before.\<close>

lemma header_set_get:
  "header_count k (headers_set j v hs) = (if iequals k j then 1 else header_count k hs) \<and>
   get_header_value (headers_set j v hs) k = (if iequals k j then v else get_header_value hs k)"
  by (cases "iequals k j")
    (simp_all add: headers_set_def headers_emplace_def get_header_value_find header_find_append
      header_find_erased header_find_other header_count_append header_count_erased
      header_count_other iequals_commute [of j k] header_count_one split: option.split)

text \<open>C29: a response is framed: a client that reads the status line, the headers and as many bytes
  of body as \<^verbatim>\<open>Content-Length\<close> announces gets the status of the code (500 for one the table
  does not hold), the headers the handler set, and exactly the body, and is left at the first byte
  of what follows. It needs headers that are single lines and do not set the length themselves.\<close>

theorem response_framing:
  assumes "list_all header_ok (rs_headers res)" and "CR \<notin> set server_name" and "CR \<notin> set date"
    and "header_count ''content-length'' (rs_headers res) = 0"
    and "int (length (sent_body fmt res)) \<le> LONG_MAX"
  shows "\<exists>status hs. status @ crlf = sent_status res \<and>
    read_response (snd (complete_request fmt server_name date ka res) @ rest) =
      Some (status, rs_headers res @ hs, sent_body fmt res, rest)"
proof -
  let ?b = "sent_body fmt res"
  let ?hs = "added_headers server_name date ka (length ?b) (rs_headers res)"
  obtain l where l: "CR \<notin> set l" "sent_status res = l @ crlf" using sent_status_line [of res] by blast
  have "list_all header_ok ?hs"
    using assms(2,3) dec_of_nat_digits [of "length ?b"] by (auto simp: added_headers_def header_ok_def is_digit_def)
  with assms(1) have "read_headers (concat (map header_line (rs_headers res @ ?hs)) @ crlf @ ?b @ rest) =
      Some (rs_headers res @ ?hs, ?b @ rest)"
    by (intro read_headers_lines) simp
  moreover have "header_find ''content-length'' (rs_headers res @ ?hs) = Some (dec_of_nat (length ?b))"
    using assms(4) header_find_count [of "''content-length''" "rs_headers res"]
    by (simp add: header_find_append added_headers_def content_length_name)
  ultimately have "read_response (snd (complete_request fmt server_name date ka res) @ rest) =
      Some (l, rs_headers res @ ?hs, ?b, rest)"
    using read_line_crlf [OF l(1)] l(2) assms(5)
    by (simp add: read_response_def complete_request_bytes get_header_value_find strtol_dec_of_nat)
  with l(2) show ?thesis by auto
qed

theorem response_framing_witness:
  "\<exists>status hs. status @ crlf = sent_status (response_code 404 :: nat response) \<and>
    read_response (snd (complete_request (\<lambda>d. []) ''PINOCCHIO'' ''now'' True (response_code 404 :: nat response)) @ ''next'') =
      Some (status, rs_headers (response_code 404 :: nat response) @ hs,
        sent_body (\<lambda>d. []) (response_code 404 :: nat response), ''next'')"
  by (rule response_framing)
    (simp_all add: response_code_def new_response_def header_count_def sent_body_def sent_status_def
      sent_code_def status_line.simps LONG_MAX_def crlf_def)

end
