(* ===== verification/Crow_Query.thy ===== *)
theory Crow_Query
  imports Pinocchio_Prelude
begin

text \<open>
  \<^verbatim>\<open>include/crow/query_string.h\<close>: the parser of query strings. It works in place on the
  buffer of the URL, so the model has that buffer, its final NUL included, as a list of bytes that
  is updated by index, and a \<^verbatim>\<open>char *\<close> as an index into it. A read or write outside it, or
  outside the table of pairs, is \<open>Inl Bad_range\<close>.
\<close>

abbreviation NULC :: char where "NULC \<equiv> CHR 0x00"

definition bind_fault :: "'e + 'a \<Rightarrow> ('a \<Rightarrow> 'e + 'b) \<Rightarrow> 'e + 'b" where
  "bind_fault x f = (case x of Inl e \<Rightarrow> Inl e | Inr v \<Rightarrow> f v)"

lemma bind_fault_simps [simp]: "bind_fault (Inl e) f = Inl e" "bind_fault (Inr v) f = f v"
  by (simp_all add: bind_fault_def)

lemma bind_fault_cong [fundef_cong]:
  "x = y \<Longrightarrow> (\<And>v. y = Inr v \<Longrightarrow> f v = g v) \<Longrightarrow> bind_fault x f = bind_fault y g"
  by (auto simp: bind_fault_def split: sum.split)

definition load_char :: "bytes \<Rightarrow> nat \<Rightarrow> fault + char" where
  "load_char m i = (if i < length m then Inr (m ! i) else Inl Bad_range)"

definition store_char :: "bytes \<Rightarrow> nat \<Rightarrow> char \<Rightarrow> fault + bytes" where
  "store_char m i c = (if i < length m then Inr (m[i := c]) else Inl Bad_range)"

text \<open>\<^verbatim>\<open>strcspn\<close>: the distance to the first byte of a set, or to the NUL.\<close>

definition strcspn :: "bytes \<Rightarrow> nat \<Rightarrow> bytes \<Rightarrow> fault + nat" where
  "strcspn m p reject =
     (let n = length (takeWhile (\<lambda>c. c \<noteq> NULC \<and> c \<notin> set reject) (drop p m))
      in if p + n < length m then Inr n else Inl Bad_range)"

section \<open>Characters\<close>

definition qs_ishex :: "char \<Rightarrow> bool" where
  "qs_ishex c \<longleftrightarrow> (let n = (of_char c :: nat) in
     (48 \<le> n \<and> n \<le> 57) \<or> (65 \<le> n \<and> n \<le> 70) \<or> (97 \<le> n \<and> n \<le> 102))"

definition qs_hex2dec :: "char \<Rightarrow> nat" where
  "qs_hex2dec c = (let n = (of_char c :: nat) in
     if 48 \<le> n \<and> n \<le> 57 then n - 48
     else if 65 \<le> n \<and> n \<le> 70 then n - 55
     else if 97 \<le> n \<and> n \<le> 102 then n - 87 else 0)"

definition qs_isqschr :: "char \<Rightarrow> bool" where
  "qs_isqschr c \<longleftrightarrow> \<not> (c = CHR ''='' \<or> c = CHR ''#'' \<or> c = CHR ''&'' \<or> c = NULC)"

section \<open>Decoding in place\<close>

function decode_from :: "bytes \<Rightarrow> nat \<Rightarrow> nat \<Rightarrow> nat \<Rightarrow> fault + bytes \<times> nat" where
  "decode_from m qs i j =
     bind_fault (load_char m (qs + j)) (\<lambda>c.
       if \<not> qs_isqschr c then bind_fault (store_char m (qs + i) NULC) (\<lambda>m'. Inr (m', i))
       else if c = CHR ''+'' then
         bind_fault (store_char m (qs + i) CHR '' '') (\<lambda>m'. decode_from m' qs (Suc i) (Suc j))
       else if c = CHR ''%'' then
         bind_fault (load_char m (qs + j + 1)) (\<lambda>a.
           if \<not> qs_ishex a then bind_fault (store_char m (qs + i) NULC) (\<lambda>m'. Inr (m', i))
           else bind_fault (load_char m (qs + j + 2)) (\<lambda>b.
             if \<not> qs_ishex b then bind_fault (store_char m (qs + i) NULC) (\<lambda>m'. Inr (m', i))
             else bind_fault (store_char m (qs + i) (char_of (qs_hex2dec a * 16 + qs_hex2dec b))) (\<lambda>m'.
               decode_from m' qs (Suc i) (j + 3))))
       else
         bind_fault (store_char m (qs + i) c) (\<lambda>m'. decode_from m' qs (Suc i) (Suc j)))"
  by auto

termination
  by (relation "measure (\<lambda>(m, qs, i, j). length m - (qs + j))")
    (auto simp: load_char_def store_char_def split: if_splits)

declare decode_from.simps [simp del]

definition qs_decode :: "bytes \<Rightarrow> nat \<Rightarrow> fault + bytes \<times> nat" where
  "qs_decode m qs = decode_from m qs 0 0"

section \<open>Splitting into pairs\<close>

function split_pairs ::
  "bytes \<Rightarrow> nat \<Rightarrow> nat \<Rightarrow> nat \<Rightarrow> nat option list \<Rightarrow> fault + nat \<times> nat option list"
where
  "split_pairs m size_kv i p kv =
     (if i < size_kv then
        let kv' = kv[i := Some p]
        in bind_fault (strcspn m p ''&'') (\<lambda>j.
             bind_fault (load_char m (p + j)) (\<lambda>c.
               if c = NULC then Inr (i, kv')
               else split_pairs m size_kv (Suc i) (p + (j + 1)) kv'))
      else Inr (i, kv))"
  by auto

termination by (relation "measure (\<lambda>(m, n, i, p, kv). n - i)") auto

declare split_pairs.simps [simp del]

definition decode_pair :: "nat option list \<Rightarrow> nat \<Rightarrow> bytes \<Rightarrow> fault + bytes" where
  "decode_pair kv j m =
     (if length kv \<le> j then Inl Bad_range
      else case kv ! j of
        None \<Rightarrow> Inl Bad_range
      | Some p \<Rightarrow>
          bind_fault (strcspn m p ''=&#'') (\<lambda>n.
            bind_fault (load_char m (p + n)) (\<lambda>c.
              if c = CHR ''&'' \<or> c = NULC then store_char m (p + n) NULC
              else bind_fault (qs_decode m (p + n + 1)) (\<lambda>r. Inr (fst r)))))"

fun decode_pairs :: "nat option list \<Rightarrow> nat list \<Rightarrow> bytes \<Rightarrow> fault + bytes" where
  "decode_pairs kv [] m = Inr m"
| "decode_pairs kv (j # js) m = bind_fault (decode_pair kv j m) (decode_pairs kv js)"

definition qs_parse :: "bytes \<Rightarrow> nat \<Rightarrow> fault + nat \<times> nat option list \<times> bytes" where
  "qs_parse m size_kv =
     (let kv = replicate size_kv None
      in bind_fault (strcspn m 0 ''?#'') (\<lambda>n.
           bind_fault (load_char m n) (\<lambda>c.
             if c = NULC then Inr (0, kv, m)
             else bind_fault (split_pairs m size_kv 0 (n + 1) kv) (\<lambda>(i, kv').
               bind_fault (decode_pairs kv' [0..<Suc i] m) (\<lambda>m'. Inr (Suc i, kv', m'))))))"

section \<open>Looking up\<close>

text \<open>
  \<^verbatim>\<open>qs_strncmp\<close>: one step reads a character of either side, decoded; the keys of pairs were
  not decoded in place.
\<close>

definition qs_char :: "bytes \<Rightarrow> nat \<Rightarrow> fault + nat \<times> nat" where
  "qs_char m p =
     bind_fault (load_char m p) (\<lambda>c.
       if \<not> qs_isqschr c then Inr (0, Suc p)
       else if c = CHR ''+'' then Inr (32, Suc p)
       else if c = CHR ''%'' then
         bind_fault (load_char m (p + 1)) (\<lambda>a.
           bind_fault (load_char m (p + 2)) (\<lambda>b.
             Inr (if qs_ishex a \<and> qs_ishex b then qs_hex2dec a * 16 + qs_hex2dec b else 0, p + 3)))
       else Inr (of_char c, Suc p))"

fun qs_strncmp :: "bytes \<Rightarrow> nat \<Rightarrow> bytes \<Rightarrow> nat \<Rightarrow> nat \<Rightarrow> fault + int" where
  "qs_strncmp s a m b 0 =
     bind_fault (load_char m b) (\<lambda>c. Inr (if qs_isqschr c then - 1 else 0))"
| "qs_strncmp s a m b (Suc n) =
     bind_fault (qs_char s a) (\<lambda>(u1, a').
       bind_fault (qs_char m b) (\<lambda>(u2, b').
         if u1 \<noteq> u2 then Inr (int u1 - int u2)
         else if u1 = 0 then Inr 0
         else qs_strncmp s a' m b' n))"

definition c_strlen :: "bytes \<Rightarrow> nat" where
  "c_strlen s = length (takeWhile (\<lambda>c. c \<noteq> NULC) s)"

fun qs_k2v :: "bytes \<Rightarrow> bytes \<Rightarrow> nat option list \<Rightarrow> nat \<Rightarrow> fault + nat option" where
  "qs_k2v key m [] nth' = Inr None"
| "qs_k2v key m (kv # kvs) nth' =
     (case kv of
        None \<Rightarrow> Inl Bad_range
      | Some p \<Rightarrow>
          bind_fault (qs_strncmp key 0 m p (c_strlen key)) (\<lambda>r.
            if r = 0 then
              bind_fault (strcspn m p ''='') (\<lambda>n.
                bind_fault (load_char m (p + n)) (\<lambda>c.
                  let skip = (if c = CHR ''='' then n + 1 else n)
                  in if nth' = 0 then Inr (Some (p + skip)) else qs_k2v key m kvs (nth' - 1)))
            else qs_k2v key m kvs nth'))"

section \<open>The class\<close>

record query_string =
  qs_url :: bytes
  key_value_pairs :: "nat option list"

definition MAX_KEY_VALUE_PAIRS_COUNT :: nat where
  "MAX_KEY_VALUE_PAIRS_COUNT = 256"

definition empty_query :: query_string where
  "empty_query = \<lparr>qs_url = [NULC], key_value_pairs = []\<rparr>"

definition query_string_of :: "bytes \<Rightarrow> fault + query_string" where
  "query_string_of url =
     (if url = [] then Inr empty_query
      else bind_fault (qs_parse (url @ [NULC]) MAX_KEY_VALUE_PAIRS_COUNT) (\<lambda>(n, kv, m).
        Inr \<lparr>qs_url = m, key_value_pairs = take n kv\<rparr>))"

definition query_clear :: "query_string \<Rightarrow> query_string" where
  "query_clear q = empty_query"

text \<open>\<^verbatim>\<open>get\<close> gives a pointer; the text it points to ends at a NUL.\<close>

definition query_get :: "query_string \<Rightarrow> bytes \<Rightarrow> fault + nat option" where
  "query_get q nm = qs_k2v (nm @ [NULC]) (qs_url q) (key_value_pairs q) 0"

definition query_text :: "query_string \<Rightarrow> nat \<Rightarrow> bytes" where
  "query_text q p = takeWhile (\<lambda>c. c \<noteq> NULC) (drop p (qs_url q))"

text \<open>The elements found one after the other; there are no more than pairs.\<close>

fun list_from :: "nat \<Rightarrow> query_string \<Rightarrow> bytes \<Rightarrow> nat \<Rightarrow> fault + nat list" where
  "list_from 0 q nm n = Inl Out_of_fuel"
| "list_from (Suc k) q nm n =
     bind_fault (qs_k2v (nm @ ''[]'' @ [NULC]) (qs_url q) (key_value_pairs q) n) (\<lambda>r.
       case r of
         None \<Rightarrow> Inr []
       | Some p \<Rightarrow> bind_fault (list_from k q nm (Suc n)) (\<lambda>ps. Inr (p # ps)))"

definition query_get_list :: "query_string \<Rightarrow> bytes \<Rightarrow> fault + nat list" where
  "query_get_list q nm = list_from (Suc (length (key_value_pairs q))) q nm 0"

definition print_query :: "query_string \<Rightarrow> bytes" where
  "print_query q =
     ''[ '' @ concat (case map (\<lambda>p. query_text q (the p)) (key_value_pairs q) of
        [] \<Rightarrow> [] | t # ts \<Rightarrow> t # map (\<lambda>u. '', '' @ u) ts) @ '' ]''"

section \<open>Nothing outside the buffer\<close>

definition buffer_ok :: "bytes \<Rightarrow> bool" where
  "buffer_ok m \<longleftrightarrow> m \<noteq> [] \<and> last m = NULC"

lemma buffer_ok_snoc [simp]: "buffer_ok (t @ [NULC])"
  by (simp add: buffer_ok_def)

lemma buffer_ok_end: "buffer_ok m \<Longrightarrow> i < length m \<Longrightarrow> m ! i \<noteq> NULC \<Longrightarrow> Suc i < length m"
  by (metis buffer_ok_def diff_Suc_1 last_conv_nth Suc_lessI)

lemma buffer_ok_store: "buffer_ok m \<Longrightarrow> Suc i < length m \<Longrightarrow> buffer_ok (m[i := c])"
  by (auto simp: buffer_ok_def last_conv_nth nth_list_update)

lemma buffer_ok_store_NUL: "buffer_ok m \<Longrightarrow> buffer_ok (m[i := NULC])"
  by (cases "i < length m") (auto simp: buffer_ok_def last_conv_nth nth_list_update list_update_beyond)

lemma takeWhile_shorter: "x \<in> set xs \<Longrightarrow> \<not> P x \<Longrightarrow> length (takeWhile P xs) < length xs"
  by (induction xs) auto

lemma strcspn_ok:
  assumes "buffer_ok m" and "p < length m"
  shows "\<exists>n. strcspn m p r = Inr n \<and> p + n < length m \<and>
    n = length (takeWhile (\<lambda>c. c \<noteq> NULC \<and> c \<notin> set r) (drop p m))"
proof -
  have "NULC \<in> set (drop p m)"
    using assms last_in_set [of "drop p m"] by (simp add: buffer_ok_def)
  from takeWhile_shorter [OF this, of "\<lambda>c. c \<noteq> NULC \<and> c \<notin> set r"] assms(2)
  show ?thesis by (simp add: strcspn_def Let_def)
qed

lemma qs_isqschr_NUL [simp]: "\<not> qs_isqschr NULC"
  by (simp add: qs_isqschr_def)

lemma qs_ishex_NUL [simp]: "\<not> qs_ishex NULC"
  by (simp add: qs_ishex_def)

lemma decode_from_ok:
  "buffer_ok m \<Longrightarrow> qs + j < length m \<Longrightarrow> i \<le> j \<Longrightarrow>
   \<exists>m' n. decode_from m qs i j = Inr (m', n) \<and> length m' = length m \<and> buffer_ok m'"
proof (induction m qs i j rule: decode_from.induct)
  case (1 m qs i j)
  let ?c = "m ! (qs + j)"
  have le: "qs + i < length m" using "1.prems" by simp
  show ?case
  proof (cases "qs_isqschr ?c")
    case False
    with "1.prems" le show ?thesis
      by (subst decode_from.simps) (simp add: load_char_def store_char_def buffer_ok_store_NUL)
  next
    case True
    then have "?c \<noteq> NULC" by auto
    with buffer_ok_end "1.prems" have 1: "Suc (qs + j) < length m" by blast
    with "1.prems" have ok: "buffer_ok (m[qs + i := c])" for c by (intro buffer_ok_store) simp_all
    note ih = "1.IH"(1) [of ?c "m[qs + i := CHR '' '']"] "1.IH"(3) [of ?c "m[qs + i := ?c]"]
    show ?thesis
    proof (cases "?c = CHR ''%''")
      case False
      with True ih ok le 1 "1.prems" show ?thesis
        by (subst decode_from.simps) (auto simp: load_char_def store_char_def)
    next
      case pct: True
      let ?a = "m ! (qs + j + 1)" and ?b = "m ! (qs + j + 2)"
      show ?thesis
      proof (cases "qs_ishex ?a")
        case False
        with True pct le 1 "1.prems" show ?thesis
          by (subst decode_from.simps) (simp add: load_char_def store_char_def buffer_ok_store_NUL)
      next
        case a: True
        then have "?a \<noteq> NULC" by auto
        with buffer_ok_end [of m "qs + j + 1"] "1.prems" 1 have 2: "qs + j + 2 < length m" by simp
        show ?thesis
        proof (cases "qs_ishex ?b")
          case False
          with True pct a le 1 2 "1.prems" show ?thesis
            by (subst decode_from.simps) (simp add: load_char_def store_char_def buffer_ok_store_NUL)
        next
          case b: True
          then have "?b \<noteq> NULC" by auto
          with buffer_ok_end [of m "qs + j + 2"] "1.prems" 2 have "qs + j + 3 < length m" by simp
          with "1.IH"(2) [of ?c ?a ?b "m[qs + i := char_of (qs_hex2dec ?a * 16 + qs_hex2dec ?b)]"]
            True pct a b le 1 2 ok "1.prems"
          show ?thesis by (subst decode_from.simps) (simp add: load_char_def store_char_def)
        qed
      qed
    qed
  qed
qed

lemma decode_pair_ok:
  assumes "buffer_ok m" and "j < length kv" and "kv ! j = Some p" and "p < length m"
  shows "\<exists>m'. decode_pair kv j m = Inr m' \<and> length m' = length m \<and> buffer_ok m'"
proof -
  obtain n where n: "strcspn m p ''=&#'' = Inr n" "p + n < length m"
    using strcspn_ok [OF assms(1,4), of "''=&#''"] by blast
  show ?thesis
  proof (cases "m ! (p + n) = CHR ''&'' \<or> m ! (p + n) = NULC")
    case True
    with n assms show ?thesis
      by (auto simp: decode_pair_def load_char_def store_char_def buffer_ok_store_NUL)
  next
    case False
    with buffer_ok_end [OF assms(1) n(2)] have "p + n + 1 < length m" by simp
    from decode_from_ok [OF assms(1), of "p + n + 1" 0 0] this False n assms show ?thesis
      by (auto simp: decode_pair_def load_char_def qs_decode_def)
  qed
qed

lemma decode_pairs_ok:
  assumes "\<And>j. j \<in> set js \<Longrightarrow> j < length kv \<and> (\<exists>p < length m. kv ! j = Some p)" and "buffer_ok m"
  shows "\<exists>m'. decode_pairs kv js m = Inr m' \<and> length m' = length m \<and> buffer_ok m'"
  using assms
proof (induction js arbitrary: m)
  case (Cons j js)
  then obtain p where "j < length kv" "kv ! j = Some p" "p < length m" by auto
  from decode_pair_ok [OF Cons.prems(2) this] obtain m' where
    m': "decode_pair kv j m = Inr m'" "length m' = length m" "buffer_ok m'" by blast
  with Cons.IH [of m'] Cons.prems(1) show ?case by (auto simp: m')
qed simp

text \<open>A pair beyond the table.\<close>

lemma decode_pairs_overflow:
  assumes "\<And>j. j \<in> set js \<Longrightarrow> j < length kv \<and> (\<exists>p < length m. kv ! j = Some p)" and "buffer_ok m"
  shows "decode_pairs kv (js @ [length kv]) m = Inl Bad_range"
  using assms
proof (induction js arbitrary: m)
  case Nil
  then show ?case by (simp add: decode_pair_def)
next
  case (Cons j js)
  then obtain p where "j < length kv" "kv ! j = Some p" "p < length m" by auto
  from decode_pair_ok [OF Cons.prems(2) this] obtain m' where
    m': "decode_pair kv j m = Inr m'" "length m' = length m" "buffer_ok m'" by blast
  with Cons.IH [of m'] Cons.prems(1) show ?case by (auto simp: m')
qed

section \<open>How many pairs\<close>

definition ampersands :: "bytes \<Rightarrow> nat" where
  "ampersands t = count_list (takeWhile (\<lambda>c. c \<noteq> NULC) t) CHR ''&''"

definition query_pairs :: "bytes \<Rightarrow> nat" where
  "query_pairs url =
     (case dropWhile (\<lambda>c. c \<noteq> CHR ''?'' \<and> c \<noteq> CHR ''#'') (takeWhile (\<lambda>c. c \<noteq> NULC) url) of
        [] \<Rightarrow> 0
      | c # t \<Rightarrow> Suc (count_list t CHR ''&''))"

lemma ampersands_skip:
  "ampersands (drop (length (takeWhile (\<lambda>c. c \<noteq> NULC \<and> c \<notin> set ''&'') t)) t) = ampersands t"
  by (induction t) (auto simp: ampersands_def)

lemma ampersands_Cons: "ampersands (c # t) = (if c = NULC then 0 else if c = CHR ''&'' then Suc (ampersands t) else ampersands t)"
  by (simp add: ampersands_def)

lemma split_pairs_ok:
  "buffer_ok m \<Longrightarrow> p < length m \<Longrightarrow> i \<le> n \<Longrightarrow> length kv = n \<Longrightarrow>
   \<exists>kv'. split_pairs m n i p kv = Inr (min n (i + ampersands (drop p m)), kv') \<and> length kv' = n \<and>
     (\<forall>j < i. kv' ! j = kv ! j) \<and>
     (\<forall>j < n. i \<le> j \<and> j \<le> i + ampersands (drop p m) \<longrightarrow> (\<exists>q < length m. kv' ! j = Some q))"
proof (induction m n i p kv rule: split_pairs.induct)
  case (1 m n i p kv)
  show ?case
  proof (cases "i < n")
    case False
    with "1.prems" show ?thesis by (subst split_pairs.simps) auto
  next
    case True
    obtain k where k: "strcspn m p ''&'' = Inr k" "p + k < length m"
      "k = length (takeWhile (\<lambda>c. c \<noteq> NULC \<and> c \<notin> set ''&'') (drop p m))"
      using strcspn_ok [OF "1.prems"(1,2), of "''&''"] by blast
    let ?c = "m ! (p + k)"
    have d: "drop (p + k) m = ?c # drop (Suc (p + k)) m" using k(2) by (simp add: Cons_nth_drop_Suc)
    have "ampersands (drop p m) = ampersands (drop (p + k) m)"
      using ampersands_skip [of "drop p m"] k(3) by (simp add: add.commute)
    then have a: "ampersands (drop p m) = ampersands (?c # drop (Suc (p + k)) m)" by (simp only: d)
    have stop: "?c = NULC \<or> ?c = CHR ''&''"
      using nth_length_takeWhile [of "\<lambda>c. c \<noteq> NULC \<and> c \<notin> set ''&''" "drop p m"] k by simp
    show ?thesis
    proof (cases "?c = NULC")
      case True
      with a k \<open>i < n\<close> "1.prems" show ?thesis
        by (subst split_pairs.simps) (auto simp: load_char_def ampersands_Cons Let_def)
    next
      case False
      with stop have amp: "?c = CHR ''&''" by blast
      have next': "p + (k + 1) < length m" using buffer_ok_end [OF "1.prems"(1) k(2) False] by simp
      have a': "ampersands (drop p m) = Suc (ampersands (drop (p + (k + 1)) m))"
        using a amp by (simp add: ampersands_Cons)
      have eq: "split_pairs m n i p kv = split_pairs m n (Suc i) (p + (k + 1)) (kv[i := Some p])"
        using True k False by (subst split_pairs.simps) (simp add: load_char_def Let_def)
      obtain kv' where kv': "split_pairs m n (Suc i) (p + (k + 1)) (kv[i := Some p]) =
            Inr (min n (Suc i + ampersands (drop (p + (k + 1)) m)), kv')"
          "length kv' = n" "\<forall>j < Suc i. kv' ! j = kv[i := Some p] ! j"
          "\<forall>j < n. Suc i \<le> j \<and> j \<le> Suc i + ampersands (drop (p + (k + 1)) m) \<longrightarrow> (\<exists>q < length m. kv' ! j = Some q)"
        using "1.IH" [of "kv[i := Some p]" k ?c] True k False next' "1.prems"
        by (auto simp: load_char_def)
      have "kv' ! i = Some p" using kv'(3) True "1.prems"(4) by simp
      then have "\<forall>j < n. i \<le> j \<and> j \<le> i + ampersands (drop p m) \<longrightarrow> (\<exists>q < length m. kv' ! j = Some q)"
        using kv'(4) "1.prems"(2) a' by (metis Suc_leI add_Suc_right add_Suc le_neq_implies_less)
      then show ?thesis
        using kv' a' unfolding eq by (auto simp: nth_list_update)
    qed
  qed
qed

lemma query_pairs_scan:
  "NULC \<in> set xs \<Longrightarrow> n = length (takeWhile (\<lambda>c. c \<noteq> NULC \<and> c \<notin> set ''?#'') xs) \<Longrightarrow>
   query_pairs xs = (if xs ! n = NULC then 0 else Suc (ampersands (drop (Suc n) xs)))"
  by (induction xs arbitrary: n) (auto simp: query_pairs_def ampersands_def)

lemma query_pairs_snoc: "query_pairs (url @ [NULC]) = query_pairs url"
proof -
  have "takeWhile (\<lambda>c. c \<noteq> NULC) (url @ [NULC]) = takeWhile (\<lambda>c. c \<noteq> NULC) url"
    by (induction url) auto
  then show ?thesis by (simp add: query_pairs_def)
qed

lemma qs_parse_result:
  assumes "m = url @ [NULC]"
  shows "if 256 < query_pairs url then qs_parse m 256 = Inl Bad_range
    else \<exists>kv m'. qs_parse m 256 = Inr (query_pairs url, kv, m') \<and> length m' = length m \<and> buffer_ok m' \<and>
      length kv = 256"
proof -
  have m: "buffer_ok m" "0 < length m" "NULC \<in> set m" using assms by simp_all
  let ?kv = "replicate 256 None :: nat option list"
  obtain n where n: "strcspn m 0 ''?#'' = Inr n" "n < length m"
    "n = length (takeWhile (\<lambda>c. c \<noteq> NULC \<and> c \<notin> set ''?#'') m)"
    using strcspn_ok [OF m(1,2), of "''?#''"] by auto
  have q: "query_pairs url = (if m ! n = NULC then 0 else Suc (ampersands (drop (Suc n) m)))"
    using query_pairs_scan [OF m(3) n(3)] assms by (simp add: query_pairs_snoc)
  show ?thesis
  proof (cases "m ! n = NULC")
    case True
    with n m q show ?thesis by (simp add: qs_parse_def load_char_def)
  next
    case False
    with buffer_ok_end [OF m(1) n(2)] have "n + 1 < length m" by simp
    let ?a = "ampersands (drop (n + 1) m)"
    obtain kv where kv: "split_pairs m 256 0 (n + 1) ?kv = Inr (min 256 ?a, kv)" "length kv = 256"
      "\<forall>j < 256. j \<le> ?a \<longrightarrow> (\<exists>p < length m. kv ! j = Some p)"
      using split_pairs_ok [OF m(1) \<open>n + 1 < length m\<close>, of 0 256 ?kv] by auto
    have parse: "qs_parse m 256 = bind_fault (decode_pairs kv [0..<Suc (min 256 ?a)] m)
        (\<lambda>m'. Inr (Suc (min 256 ?a), kv, m'))"
      using n False kv(1) by (simp add: qs_parse_def load_char_def)
    have a: "query_pairs url = Suc ?a" using q False by simp
    show ?thesis
    proof (cases "?a < 256")
      case True
      then have "\<And>j. j \<in> set [0..<Suc ?a] \<Longrightarrow> j < length kv \<and> (\<exists>p < length m. kv ! j = Some p)"
        using kv by auto
      from decode_pairs_ok [OF this m(1)] obtain m' where
        "decode_pairs kv [0..<Suc ?a] m = Inr m'" "length m' = length m" "buffer_ok m'" by blast
      with True a kv(2) show ?thesis by (simp add: parse)
    next
      case False
      then have "\<And>j. j \<in> set [0..<256] \<Longrightarrow> j < length kv \<and> (\<exists>p < length m. kv ! j = Some p)"
        using kv by auto
      from decode_pairs_overflow [OF this m(1)] have "decode_pairs kv [0..<Suc 256] m = Inl Bad_range"
        using kv(2) by (simp only: upt_Suc_append [OF zero_le])
      with False a show ?thesis by (simp add: parse min_def)
    qed
  qed
qed

section \<open>What a lookup finds\<close>

text \<open>The decoding of a value as a function on texts: a broken escape ends it.\<close>

fun url_decode :: "bytes \<Rightarrow> bytes" where
  "url_decode [] = []"
| "url_decode (c # cs) =
     (if c = CHR ''+'' then CHR '' '' # url_decode cs
      else if c = CHR ''%'' then
        (case cs of
           a # b # ds \<Rightarrow>
             (if qs_ishex a \<and> qs_ishex b
              then char_of (qs_hex2dec a * 16 + qs_hex2dec b) # url_decode ds else [])
         | _ \<Rightarrow> [])
      else c # url_decode cs)"

declare url_decode.simps(2) [simp del]

lemma takeWhile_stop: "\<not> P x \<Longrightarrow> takeWhile P (xs @ x # ys) = takeWhile P xs"
  by (induction xs) auto

lemma load_char_app: "length a = i \<Longrightarrow> load_char (a @ c # t) i = Inr c"
  by (auto simp: load_char_def)

lemma store_char_app: "length a = i \<Longrightarrow> store_char (a @ x # t) i c = Inr (a @ c # t)"
  by (auto simp: store_char_def)

text \<open>Writing the next decoded byte: the gap behind the output moves on.\<close>

lemma store_next:
  assumes "gap @ cs = x # gap'" and "length a = qs" and "length out' = i"
  shows "store_char (a @ out' @ gap @ cs @ r) (qs + i) c = Inr (a @ (out' @ [c]) @ gap' @ r)"
proof -
  have eq: "gap @ cs @ r = x # gap' @ r" by (metis append.assoc append_Cons assms(1))
  show ?thesis
    unfolding eq using store_char_app [of "a @ out'" "qs + i" x "gap' @ r" c] assms(2,3) by simp
qed

lemma snoc_Cons: "\<exists>x gap'. gap @ [c] = x # gap'"
  by (cases gap) auto

lemma qs_ishex_schr: "qs_ishex c \<Longrightarrow> qs_isqschr c"
  by (auto simp: qs_ishex_def qs_isqschr_def)

lemma decode_from_end:
  assumes "length a = qs" and "length out' = i" and "length gap + i = j" and "gap @ [t] = x # gap'"
    and "\<not> qs_isqschr t \<or> t = CHR ''%'' \<and> (case tail of [] \<Rightarrow> False | b # u \<Rightarrow> \<not> qs_ishex b \<or>
      (case u of [] \<Rightarrow> False | d # _ \<Rightarrow> \<not> qs_ishex d))"
  shows "decode_from (a @ out' @ gap @ t # tail) qs i j = Inr (a @ out' @ NULC # gap' @ tail, i)"
proof -
  have l: "load_char (a @ out' @ gap @ t # tail) (qs + j) = Inr t"
    using load_char_app [of "a @ out' @ gap" "qs + j" t tail] assms(1-3) by simp
  have st: "store_char (a @ out' @ gap @ t # tail) (qs + i) NULC = Inr (a @ out' @ NULC # gap' @ tail)"
    using store_next [OF assms(4,1,2), of tail NULC] by simp
  have pct: "qs_isqschr CHR ''%''" by (simp add: qs_isqschr_def)
  show ?thesis
  proof (cases "qs_isqschr t")
    case False
    with l st show ?thesis by (subst decode_from.simps) simp
  next
    case True
    with assms(5) have t: "t = CHR ''%''" by blast
    with assms(5) pct obtain b u where tail: "tail = b # u" by (auto split: list.splits)
    have b: "load_char (a @ out' @ gap @ t # tail) (qs + j + 1) = Inr b"
      using load_char_app [of "a @ out' @ gap @ [t]" "qs + j + 1" b u] assms(1-3) tail by simp
    show ?thesis
    proof (cases "qs_ishex b")
      case False
      with l st b t pct show ?thesis by (subst decode_from.simps) simp
    next
      case hb: True
      with assms(5) t pct tail obtain d u' where u: "u = d # u'" "\<not> qs_ishex d" by (auto split: list.splits)
      have "load_char (a @ out' @ gap @ t # tail) (qs + j + 2) = Inr d"
        using load_char_app [of "a @ out' @ gap @ [t, b]" "qs + j + 2" d u'] assms(1-3) tail u by simp
      with l st b t pct hb u show ?thesis by (subst decode_from.simps) simp
    qed
  qed
qed

lemma decode_from_value:
  assumes "\<not> qs_isqschr t"
  shows "length a = qs \<Longrightarrow> length out' = i \<Longrightarrow> length gap + i = j \<Longrightarrow> list_all qs_isqschr v \<Longrightarrow>
    \<exists>g n. decode_from (a @ out' @ gap @ v @ t # tail) qs i j =
        Inr (a @ out' @ url_decode v @ NULC # g @ tail, n) \<and>
      length (url_decode v) + length g = length gap + length v"
proof (induction v arbitrary: out' gap i j rule: url_decode.induct)
  case 1
  obtain x gap' where g: "gap @ [t] = x # gap'" using snoc_Cons [of gap t] by blast
  from decode_from_end [OF "1.prems"(1-3) g, of tail] assms
  have "decode_from (a @ out' @ gap @ t # tail) qs i j = Inr (a @ out' @ NULC # gap' @ tail, i)" by simp
  with arg_cong [OF g, of length] show ?case by (intro exI [of _ gap'] exI [of _ i]) simp
next
  case (2 c cs)
  have c: "qs_isqschr c" using "2.prems"(4) by simp
  have load: "load_char (a @ out' @ gap @ c # r) (qs + j) = Inr c" for r
    using load_char_app [of "a @ out' @ gap" "qs + j" c r] "2.prems" by simp
  obtain x gap' where gap': "gap @ [c] = x # gap'" using snoc_Cons [of gap c] by blast
  have len: "length gap' = length gap" using arg_cong [OF gap', of length] by simp
  have step: "store_char (a @ out' @ gap @ c # r) (qs + i) d = Inr (a @ (out' @ [d]) @ gap' @ r)" for r d
    using store_next [OF gap' "2.prems"(1,2), of r d] by simp
  show ?case
  proof (cases "c = CHR ''%''")
    case False
    let ?d = "if c = CHR ''+'' then CHR '' '' else c"
    have "\<exists>g n. decode_from (a @ (out' @ [?d]) @ gap' @ cs @ t # tail) qs (Suc i) (Suc j) =
        Inr (a @ (out' @ [?d]) @ url_decode cs @ NULC # g @ tail, n) \<and>
      length (url_decode cs) + length g = length gap' + length cs"
      using "2.prems" len False "2.IH"(1) [of "out' @ [?d]" "Suc i" gap' "Suc j"]
        "2.IH"(3) [of "out' @ [?d]" "Suc i" gap' "Suc j"] by (cases "c = CHR ''+''") simp_all
    moreover have "decode_from (a @ out' @ gap @ (c # cs) @ t # tail) qs i j =
        decode_from (a @ (out' @ [?d]) @ gap' @ cs @ t # tail) qs (Suc i) (Suc j)"
      using load [of "cs @ t # tail"] step [of "cs @ t # tail"] c False
      by (cases "c = CHR ''+''"; subst decode_from.simps; simp)
    moreover have "url_decode (c # cs) = ?d # url_decode cs"
      using False by (simp add: url_decode.simps(2))
    ultimately show ?thesis using len by auto
  next
    case pct: True
    show ?thesis
    proof (cases "\<exists>p q ds. cs = p # q # ds \<and> qs_ishex p \<and> qs_ishex q")
      case True
      then obtain p q ds where cs: "cs = p # q # ds" "qs_ishex p" "qs_ishex q" by blast
      let ?d = "char_of (qs_hex2dec p * 16 + qs_hex2dec q) :: char"
      have l: "load_char (a @ out' @ gap @ c # p # q # ds @ t # tail) (Suc (qs + j)) = Inr p"
        "load_char (a @ out' @ gap @ c # p # q # ds @ t # tail) (Suc (Suc (qs + j))) = Inr q"
        using load_char_app [of "a @ out' @ gap @ [c]" "Suc (qs + j)" p "q # ds @ t # tail"]
          load_char_app [of "a @ out' @ gap @ [c, p]" "Suc (Suc (qs + j))" q "ds @ t # tail"] "2.prems" by simp_all
      have "\<exists>g n. decode_from (a @ (out' @ [?d]) @ (gap' @ [p, q]) @ ds @ t # tail) qs (Suc i) (j + 3) =
          Inr (a @ (out' @ [?d]) @ url_decode ds @ NULC # g @ tail, n) \<and>
        length (url_decode ds) + length g = length (gap' @ [p, q]) + length ds"
        using "2.prems" len cs pct by (intro "2.IH"(2) [of p "q # ds" q ds]) simp_all
      moreover have "decode_from (a @ out' @ gap @ (c # cs) @ t # tail) qs i j =
          decode_from (a @ (out' @ [?d]) @ (gap' @ [p, q]) @ ds @ t # tail) qs (Suc i) (j + 3)"
        using load [of "cs @ t # tail"] step [of "cs @ t # tail"] c l cs pct by (subst decode_from.simps) simp
      moreover have "url_decode (c # cs) = ?d # url_decode ds" using pct cs by (simp add: url_decode.simps(2))
      ultimately show ?thesis using len cs by auto
    next
      case False
      then have d: "url_decode (c # cs) = []"
        using pct by (auto simp: url_decode.simps(2) split: list.splits)
      have th: "\<not> qs_ishex t" using assms qs_ishex_schr by blast
      have esc: "case cs @ t # tail of [] \<Rightarrow> False | b # u \<Rightarrow> \<not> qs_ishex b \<or>
        (case u of [] \<Rightarrow> False | d # _ \<Rightarrow> \<not> qs_ishex d)"
      proof (cases cs)
        case (Cons p cs')
        with False th show ?thesis by (cases cs') auto
      qed (simp add: th)
      have "decode_from (a @ out' @ gap @ c # cs @ t # tail) qs i j = Inr (a @ out' @ NULC # gap' @ cs @ t # tail, i)"
        using esc pct by (intro decode_from_end [OF "2.prems"(1-3) gap']) blast
      with d len show ?thesis by (intro exI [of _ "gap' @ cs @ [t]"] exI [of _ i]) simp
    qed
  qed
qed

text \<open>A URL of given pairs, and the buffer after its values were decoded.\<close>

fun query_of :: "(bytes \<times> bytes) list \<Rightarrow> bytes" where
  "query_of [] = []"
| "query_of [(k, v)] = k @ CHR ''='' # v"
| "query_of ((k, v) # ps) = k @ CHR ''='' # v @ CHR ''&'' # query_of ps"

fun starts :: "nat \<Rightarrow> (bytes \<times> bytes) list \<Rightarrow> nat option list" where
  "starts p [] = []"
| "starts p ((k, v) # ps) = Some p # starts (p + length k + length v + 2) ps"

inductive decoded :: "(bytes \<times> bytes) list \<Rightarrow> bytes \<Rightarrow> bool" where
  decoded_Nil: "decoded [] []"
| decoded_Cons: "decoded ps m \<Longrightarrow> length (url_decode v) + length g = length v \<Longrightarrow>
    decoded ((k, v) # ps) (k @ CHR ''='' # url_decode v @ NULC # g @ m)"

inductive_cases decoded_ConsE: "decoded ((k, v) # ps) m"

definition plain :: "bytes \<Rightarrow> bool" where
  "plain k \<longleftrightarrow> list_all (\<lambda>c. qs_isqschr c \<and> c \<noteq> CHR ''+'' \<and> c \<noteq> CHR ''%'') k"

definition pair_ok :: "bytes \<times> bytes \<Rightarrow> bool" where
  "pair_ok kv \<longleftrightarrow> plain (fst kv) \<and> list_all qs_isqschr (snd kv)"

lemma strcspn_app:
  assumes "length a = p" and "\<forall>c \<in> set t. c \<noteq> NULC \<and> c \<notin> set r" and "d = NULC \<or> d \<in> set r"
  shows "strcspn (a @ t @ d # u) p r = Inr (length t)"
proof -
  have "takeWhile (\<lambda>c. c \<noteq> NULC \<and> c \<notin> set r) (t @ d # u) = t"
    using assms(2,3) by (induction t) auto
  with assms(1) show ?thesis by (auto simp: strcspn_def)
qed

lemma pair_chars:
  assumes "pair_ok (k, v)"
  shows "\<forall>c \<in> set (k @ CHR ''='' # v). c \<noteq> NULC \<and> c \<notin> set ''&''"
    and "\<forall>c \<in> set k. c \<noteq> NULC \<and> c \<notin> set ''=&#''"
  using assms by (auto simp: pair_ok_def plain_def list_all_iff qs_isqschr_def)

lemma split_pairs_query:
  "ps \<noteq> [] \<Longrightarrow> list_all pair_ok ps \<Longrightarrow> length pre = p \<Longrightarrow> i + length ps \<le> n \<Longrightarrow> length kv = n \<Longrightarrow>
   split_pairs (pre @ query_of ps @ [NULC]) n i p kv =
     Inr (i + length ps - 1, take i kv @ starts p ps @ drop (i + length ps) kv)"
proof (induction ps arbitrary: pre p i kv rule: query_of.induct)
  case (2 k v)
  let ?m = "pre @ (k @ CHR ''='' # v) @ NULC # []"
  have "strcspn ?m p ''&'' = Inr (length (k @ CHR ''='' # v))"
    using 2 pair_chars(1) [of k v] by (intro strcspn_app) auto
  moreover have "load_char ?m (p + length (k @ CHR ''='' # v)) = Inr NULC"
    using load_char_app [of "pre @ k @ CHR ''='' # v" _ NULC "[]"] 2 by simp
  ultimately show ?case
    using 2 by (subst split_pairs.simps) (simp add: upd_conv_take_nth_drop)
next
  case (3 k v q qs)
  let ?r = "query_of (q # qs) @ [NULC]"
  let ?m = "pre @ (k @ CHR ''='' # v) @ CHR ''&'' # ?r"
  have "strcspn ?m p ''&'' = Inr (length (k @ CHR ''='' # v))"
    using 3 pair_chars(1) [of k v] by (intro strcspn_app) auto
  moreover have "load_char ?m (p + length (k @ CHR ''='' # v)) = Inr CHR ''&''"
    using load_char_app [of "pre @ k @ CHR ''='' # v" _ "CHR ''&''" ?r] 3 by simp
  moreover have "split_pairs ?m n (Suc i) (p + length k + length v + 2) (kv[i := Some p]) =
      Inr (Suc i + length (q # qs) - 1, take (Suc i) (kv[i := Some p]) @
        starts (p + length k + length v + 2) (q # qs) @ drop (Suc i + length (q # qs)) (kv[i := Some p]))"
    using "3.prems" "3.IH" [of "pre @ k @ CHR ''='' # v @ ''&''" "p + length k + length v + 2" "Suc i" "kv[i := Some p]"]
    by simp
  ultimately show ?case
    using 3 by (subst split_pairs.simps) (simp add: take_Suc_conv_app_nth add.assoc)
qed simp

lemma decode_pair_query:
  assumes "pair_ok (k, v)" and "length pre = p" and "j < length kv" and "kv ! j = Some p"
    and "t = CHR ''&'' \<or> t = NULC"
  shows "\<exists>g. decode_pair kv j (pre @ (k @ CHR ''='' # v) @ t # tail) =
      Inr (pre @ k @ CHR ''='' # url_decode v @ NULC # g @ tail) \<and> length (url_decode v) + length g = length v"
proof -
  let ?m = "pre @ k @ CHR ''='' # v @ t # tail"
  have s: "strcspn ?m p ''=&#'' = Inr (length k)"
    using pair_chars(2) [OF assms(1)] assms(2) by (intro strcspn_app) auto
  have l: "load_char ?m (p + length k) = Inr CHR ''=''"
    using load_char_app [of "pre @ k" "p + length k" "CHR ''=''" "v @ t # tail"] assms(2) by simp
  have "\<not> qs_isqschr t" using assms(5) by (auto simp: qs_isqschr_def)
  from decode_from_value [OF this, of "pre @ k @ ''=''" "p + length k + 1" "[]" 0 "[]" 0 v tail] assms(1,2)
  obtain g n where g: "qs_decode ?m (p + length k + 1) =
      Inr (pre @ k @ CHR ''='' # url_decode v @ NULC # g @ tail, n)" "length (url_decode v) + length g = length v"
    by (auto simp: qs_decode_def pair_ok_def)
  with s l assms(3,4) show ?thesis by (auto simp: decode_pair_def)
qed

lemma decode_pairs_query:
  "list_all pair_ok ps \<Longrightarrow> length pre = p \<Longrightarrow>
   kv = take i kv @ starts p ps @ drop (i + length ps) kv \<Longrightarrow> i + length ps \<le> length kv \<Longrightarrow> ps \<noteq> [] \<Longrightarrow>
   \<exists>m. decode_pairs kv [i..<i + length ps] (pre @ query_of ps @ [NULC]) = Inr (pre @ m) \<and> decoded ps m"
proof (induction ps arbitrary: pre p i rule: query_of.induct)
  case (2 k v)
  have "i < length kv" using "2.prems"(4) by simp
  moreover have "kv ! i = Some p"
    using arg_cong [OF "2.prems"(3), of "\<lambda>l. l ! i"] "2.prems"(4) by (simp add: nth_append)
  ultimately obtain g where g: "decode_pair kv i (pre @ (k @ CHR ''='' # v) @ NULC # []) =
      Inr (pre @ k @ CHR ''='' # url_decode v @ NULC # g @ [])" "length (url_decode v) + length g = length v"
    using decode_pair_query [of k v pre p i kv NULC "[]"] "2.prems"(1,2) by auto
  from decoded_Cons [OF decoded_Nil g(2), of k]
  show ?case using g(1) by (intro exI [of _ "k @ CHR ''='' # url_decode v @ NULC # g @ []"]) simp
next
  case (3 k v q qs)
  let ?ps = "q # qs" and ?r = "query_of (q # qs) @ [NULC]"
  have i: "i < length kv" using "3.prems"(4) by simp
  have kvi: "kv ! i = Some p"
    using arg_cong [OF "3.prems"(3), of "\<lambda>l. l ! i"] "3.prems"(4) by (simp add: nth_append)
  obtain g where g: "decode_pair kv i (pre @ (k @ CHR ''='' # v) @ CHR ''&'' # ?r) =
      Inr (pre @ k @ CHR ''='' # url_decode v @ NULC # g @ ?r)" "length (url_decode v) + length g = length v"
    using decode_pair_query [of k v pre p i kv "CHR ''&''" ?r] "3.prems"(1,2) i kvi by auto
  let ?pre = "pre @ k @ CHR ''='' # url_decode v @ NULC # g"
  have "kv = take (Suc i) kv @ starts (p + length k + length v + 2) ?ps @ drop (Suc i + length ?ps) kv"
    using "3.prems"(3) kvi i by (simp add: take_Suc_conv_app_nth)
  moreover have "length ?pre = p + length k + length v + 2" using g(2) "3.prems"(2) by simp
  ultimately obtain m where m: "decode_pairs kv [Suc i..<Suc i + length ?ps] (?pre @ query_of ?ps @ [NULC]) =
      Inr (?pre @ m)" "decoded ?ps m"
    using "3.IH" [of ?pre "p + length k + length v + 2" "Suc i"] "3.prems"(1,4) by auto
  have "[i..<i + length ((k, v) # ?ps)] = i # [Suc i..<Suc i + length ?ps]"
    by (simp add: upt_conv_Cons del: upt_Suc)
  with m(1) g(1) decoded_Cons [OF m(2) g(2), of k] show ?case
    by (intro exI [of _ "k @ CHR ''='' # url_decode v @ NULC # g @ m"]) simp
qed simp

section \<open>Lookup\<close>

lemma plain_Cons: "plain (c # k) \<longleftrightarrow> qs_isqschr c \<and> c \<noteq> CHR ''+'' \<and> c \<noteq> CHR ''%'' \<and> plain k"
  by (simp add: plain_def)

lemma qs_char_plain:
  "qs_isqschr c \<Longrightarrow> c \<noteq> CHR ''+'' \<Longrightarrow> c \<noteq> CHR ''%'' \<Longrightarrow> length a = p \<Longrightarrow>
   qs_char (a @ c # t) p = Inr (of_char c, Suc p)"
  by (simp add: qs_char_def load_char_app)

lemma qs_char_equals: "length a = p \<Longrightarrow> qs_char (a @ CHR ''='' # t) p = Inr (0, Suc p)"
  by (simp add: qs_char_def load_char_app qs_isqschr_def)

lemma qs_strncmp_plain:
  "plain nm \<Longrightarrow> plain k \<Longrightarrow> length a = p \<Longrightarrow> length b = q \<Longrightarrow>
   \<exists>r. qs_strncmp (a @ nm @ t) p (b @ k @ CHR ''='' # u) q (length nm) = Inr r \<and> (r = 0 \<longleftrightarrow> nm = k)"
proof (induction nm arbitrary: k a p b q)
  case Nil
  then show ?case
    by (cases k) (auto simp: load_char_app plain_Cons qs_isqschr_def)
next
  case (Cons c nm)
  then have c: "qs_char (a @ c # nm @ t) p = Inr (of_char c, Suc p)"
    by (simp add: qs_char_plain plain_Cons)
  have "c \<noteq> NULC" using Cons.prems(1) by (auto simp: plain_Cons)
  then have "(of_char c :: nat) \<noteq> of_char NULC" by (simp only: of_char_eq_iff simp_thms)
  then have c0: "(of_char c :: nat) \<noteq> 0" by simp
  show ?case
  proof (cases k)
    case Nil
    with c c0 Cons.prems(4) show ?thesis by (simp add: qs_char_equals)
  next
    case (Cons d l)
    with Cons.prems have d: "qs_char (b @ d # l @ CHR ''='' # u) q = Inr (of_char d, Suc q)"
      by (simp add: qs_char_plain plain_Cons)
    with c c0 Cons Cons.IH [of l "a @ [c]" "Suc p" "b @ [d]" "Suc q"] Cons.prems show ?thesis
      by (auto simp: plain_Cons)
  qed
qed

lemma qs_k2v_query:
  "decoded ps m \<Longrightarrow> list_all pair_ok ps \<Longrightarrow> plain nm \<Longrightarrow> length pre = p \<Longrightarrow>
   qs_k2v (nm @ [NULC]) (pre @ m @ tail) (starts p ps) 0 = Inr None \<and> map_of ps nm = None \<or>
   (\<exists>v a g. map_of ps nm = Some v \<and> pre @ m @ tail = a @ url_decode v @ NULC # g \<and>
      qs_k2v (nm @ [NULC]) (pre @ m @ tail) (starts p ps) 0 = Inr (Some (length a)))"
proof (induction ps arbitrary: pre p m)
  case Nil
  then show ?case by simp
next
  case (Cons kv ps)
  obtain k v where kv: "kv = (k, v)" by fastforce
  from Cons.prems(1) obtain g m' where m: "m = k @ CHR ''='' # url_decode v @ NULC # g @ m'"
    and g: "length (url_decode v) + length g = length v" and ps: "decoded ps m'"
    unfolding kv by (elim decoded_ConsE) blast
  let ?u = "url_decode v @ NULC # g @ m' @ tail"
  have pk: "plain k" using Cons.prems(2) kv by (simp add: pair_ok_def)
  have "takeWhile (\<lambda>c. c \<noteq> NULC) (nm @ [NULC]) = nm"
    using Cons.prems(3) by (induction nm) (auto simp: plain_Cons qs_isqschr_def plain_def)
  then have len: "c_strlen (nm @ [NULC]) = length nm" by (simp add: c_strlen_def)
  obtain r where r: "qs_strncmp (nm @ [NULC]) 0 (pre @ k @ CHR ''='' # ?u) p (length nm) = Inr r" "r = 0 \<longleftrightarrow> nm = k"
    using qs_strncmp_plain [OF Cons.prems(3) pk, of "[]" 0 pre p "[NULC]" ?u] Cons.prems(4) by auto
  show ?case
  proof (cases "nm = k")
    case True
    have "strcspn (pre @ k @ CHR ''='' # ?u) p ''='' = Inr (length k)"
      using Cons.prems(2,4) kv pair_chars(2) [of k v] by (intro strcspn_app) auto
    moreover have "load_char (pre @ k @ CHR ''='' # ?u) (p + length k) = Inr CHR ''=''"
      using load_char_app [of "pre @ k" "p + length k" "CHR ''=''" ?u] Cons.prems(4) by simp
    ultimately have "qs_k2v (nm @ [NULC]) (pre @ m @ tail) (starts p (kv # ps)) 0 =
        Inr (Some (length (pre @ k @ ''='')))"
      using r True Cons.prems(4) len by (simp add: kv m)
    moreover have "pre @ m @ tail = (pre @ k @ ''='') @ url_decode v @ NULC # g @ m' @ tail"
      by (simp add: m)
    ultimately show ?thesis using True kv by (metis map_of_Cons_code(2))
  next
    case False
    let ?pre = "pre @ k @ CHR ''='' # url_decode v @ NULC # g"
    have "length ?pre = p + length k + length v + 2" using g Cons.prems(4) by simp
    from Cons.IH [OF ps _ Cons.prems(3) this] Cons.prems(2) False r len show ?thesis
      by (simp add: kv m)
  qed
qed

lemma query_table_bounds:
  "(query_string_of url = Inl Bad_range \<longleftrightarrow> 256 < query_pairs url) \<and>
   ((\<exists>q. query_string_of url = Inr q \<and> length (key_value_pairs q) = query_pairs url) \<longleftrightarrow>
    query_pairs url \<le> 256)"
proof (cases "url = []")
  case True
  then show ?thesis by (simp add: query_string_of_def query_pairs_def empty_query_def)
next
  case False
  show ?thesis
    using qs_parse_result [of "url @ [NULC]" url, OF refl] False
    by (auto simp: query_string_of_def MAX_KEY_VALUE_PAIRS_COUNT_def split: if_splits)
qed

section \<open>Properties\<close>

text \<open>C31: the parser of query strings stays within its buffer and its table of 256 pairs for every
  URL of at most 256 pairs, values with broken escapes included, and finds all the pairs; for every
  URL with more than 256 (256 ampersands are enough) it reads and decodes through a pointer beyond
  the end of the table.\<close>

theorem query_table_overflow:
  "(query_string_of url = Inl Bad_range \<longleftrightarrow> 256 < query_pairs url) \<and>
   ((\<exists>q. query_string_of url = Inr q \<and> length (key_value_pairs q) = query_pairs url) \<longleftrightarrow>
    query_pairs url \<le> 256)"
  by (rule query_table_bounds)

text \<open>C32: on a URL whose query is a list of at most 256 pairs of plain keys and escaped values,
  \<^verbatim>\<open>get\<close> of a plain name finds the first pair of that name and points to its value,
  decoded (up to a NUL that it decodes to), and finds nothing when no pair has the name; splitting,
  decoding in place and searching never touch a neighbour's bytes.\<close>

theorem query_get_decodes:
  assumes "\<forall>c \<in> set path. c \<notin> set ''?#'' \<and> c \<noteq> NULC" and "ps \<noteq> []" and "length ps \<le> 256"
    and "list_all pair_ok ps" and "plain nm"
  shows "\<exists>q. query_string_of (path @ CHR ''?'' # query_of ps) = Inr q \<and>
    (case map_of ps nm of
       None \<Rightarrow> query_get q nm = Inr None
     | Some v \<Rightarrow> \<exists>p. query_get q nm = Inr (Some p) \<and>
         query_text q p = takeWhile (\<lambda>c. c \<noteq> NULC) (url_decode v))"
proof -
  let ?pre = "path @ ''?''" and ?kv = "replicate 256 None :: nat option list"
  let ?p = "length path + 1" and ?m = "(path @ ''?'') @ query_of ps @ [NULC]"
  let ?kv' = "starts ?p ps @ drop (length ps) ?kv"
  have n: "strcspn ?m 0 ''?#'' = Inr (length path)"
    using strcspn_app [of "[]" 0 path "''?#''" "CHR ''?''"] assms(1) by simp
  have c: "load_char ?m (length path) = Inr CHR ''?''" using load_char_app [of path] by simp
  have split: "split_pairs ?m 256 0 ?p ?kv = Inr (length ps - 1, ?kv')"
    using split_pairs_query [OF assms(2,4), of ?pre ?p 0 256 ?kv] assms(3) by simp
  have len: "length (starts p ps) = length ps" for p by (induction p ps rule: starts.induct) simp_all
  obtain m where m: "decode_pairs ?kv' [0..<length ps] ?m = Inr (?pre @ m)" "decoded ps m"
    using decode_pairs_query [OF assms(4), of ?pre ?p ?kv' 0] assms(2,3) len [of ?p] by auto
  have "Suc (length ps - 1) = length ps" using assms(2) by (cases ps) simp_all
  with n c split m(1) have "qs_parse ?m 256 = Inr (length ps, ?kv', ?pre @ m)"
    by (simp add: qs_parse_def del: upt_Suc)
  then have q: "query_string_of (path @ CHR ''?'' # query_of ps) =
      Inr \<lparr>qs_url = ?pre @ m, key_value_pairs = starts ?p ps\<rparr>" (is "_ = Inr ?q")
    using len [of ?p] by (simp add: query_string_of_def MAX_KEY_VALUE_PAIRS_COUNT_def)
  from qs_k2v_query [OF m(2) assms(4,5), of ?pre ?p "[]"]
  consider "query_get ?q nm = Inr None" "map_of ps nm = None"
    | v a g where "map_of ps nm = Some v" "?pre @ m = a @ url_decode v @ NULC # g"
        "query_get ?q nm = Inr (Some (length a))"
    by (auto simp: query_get_def)
  then show ?thesis
  proof cases
    case 1
    with q show ?thesis by simp
  next
    case 2
    have "query_text ?q (length a) = takeWhile (\<lambda>c. c \<noteq> NULC) (url_decode v)"
      unfolding query_text_def using 2(2) by (simp add: takeWhile_stop)
    with 2 q show ?thesis by auto
  qed
qed

theorem query_get_decodes_witness:
  "\<exists>q. query_string_of (''/a'' @ CHR ''?'' # query_of [(''x'', ''1%41+''), (''y'', ''2'')]) = Inr q \<and>
    (case map_of [(''x'', ''1%41+''), (''y'', ''2'')] ''x'' of
       None \<Rightarrow> query_get q ''x'' = Inr None
     | Some v \<Rightarrow> \<exists>p. query_get q ''x'' = Inr (Some p) \<and>
         query_text q p = takeWhile (\<lambda>c. c \<noteq> NULC) (url_decode v))"
  by (rule query_get_decodes) (simp_all add: pair_ok_def plain_def qs_isqschr_def)

text \<open>A key that ends in a percent sign is read beyond the buffer: the URL \<open>/?a%\<close>, asked for
  \<open>ab\<close>.\<close>

lemma get_reads_past_end:
  "\<exists>q. query_string_of ''/?a%'' = Inr q \<and> query_get q ''ab'' = Inl Bad_range"
  by (rule exI [of _ "\<lparr>qs_url = ''/?a%'' @ [NULC], key_value_pairs = [Some 2]\<rparr>"]) code_simp

end
