(* ===== verification/Crow_Parser.thy ===== *)
theory Crow_Parser
  imports Crow_Http Crow_Query
begin

text \<open>
  \<^verbatim>\<open>parser.h\<close>: the callbacks by which the HTTP parser builds a request, piece by piece, and what
  they hold. The parser below them is a sequence of events: which callback it calls, with which
  bytes, and the version and the method it has read when it does.
\<close>

record http_parser =
  ps_raw_url :: bytes
  ps_url :: bytes
  header_building_state :: nat
  header_field :: bytes
  header_value :: bytes
  ps_headers :: ci_map
  url_params :: query_string
  ps_body :: bytes
  http_version :: "nat \<times> nat"

definition new_http_parser :: http_parser where
  "new_http_parser = \<lparr>ps_raw_url = [], ps_url = [], header_building_state = 0, header_field = [],
     header_value = [], ps_headers = [], url_params = empty_query, ps_body = [], http_version = (0, 0)\<rparr>"

definition parser_clear :: "http_parser \<Rightarrow> http_parser" where
  "parser_clear p = p\<lparr>ps_url := [], ps_raw_url := [], header_building_state := 0, header_field := [],
     header_value := [], ps_headers := [], url_params := query_clear (url_params p), ps_body := []\<rparr>"

definition on_message_begin :: "http_parser \<Rightarrow> http_parser" where
  "on_message_begin p = parser_clear p"

definition on_url :: "bytes \<Rightarrow> http_parser \<Rightarrow> http_parser" where
  "on_url s p = p\<lparr>ps_raw_url := ps_raw_url p @ s\<rparr>"

text \<open>What is moved from is left empty, as the strings of the library leave it.\<close>

definition on_header_field :: "bytes \<Rightarrow> http_parser \<Rightarrow> http_parser" where
  "on_header_field s p =
     (if header_building_state p = 0 then
        (if header_value p \<noteq> []
         then p\<lparr>ps_headers := headers_emplace (header_field p) (header_value p) (ps_headers p), header_value := []\<rparr>
         else p)\<lparr>header_field := s, header_building_state := 1\<rparr>
      else if header_building_state p = 1 then p\<lparr>header_field := header_field p @ s\<rparr>
      else p)"

definition on_header_value :: "bytes \<Rightarrow> http_parser \<Rightarrow> http_parser" where
  "on_header_value s p =
     (if header_building_state p = 0 then p\<lparr>header_value := header_value p @ s\<rparr>
      else if header_building_state p = 1 then p\<lparr>header_building_state := 0, header_value := s\<rparr>
      else p)"

definition on_headers_complete :: "http_parser \<Rightarrow> http_parser" where
  "on_headers_complete p =
     (if header_field p \<noteq> []
      then p\<lparr>ps_headers := headers_emplace (header_field p) (header_value p) (ps_headers p),
             header_field := [], header_value := []\<rparr>
      else p)"

definition on_body :: "bytes \<Rightarrow> http_parser \<Rightarrow> http_parser" where
  "on_body s p = p\<lparr>ps_body := ps_body p @ s\<rparr>"

text \<open>The end of a message: the path is the URL up to its first \<^verbatim>\<open>?\<close>, and the query is parsed,
  which may leave its table.\<close>

definition on_message_complete :: "http_parser \<Rightarrow> fault + http_parser" where
  "on_message_complete p =
     (case query_string_of (ps_raw_url p) of
        Inl f \<Rightarrow> Inl f
      | Inr q \<Rightarrow> Inr (p\<lparr>ps_url := takeWhile (\<lambda>c. c \<noteq> CHR ''?'') (ps_raw_url p), url_params := q\<rparr>))"

definition check_version :: "nat \<Rightarrow> nat \<Rightarrow> http_parser \<Rightarrow> bool" where
  "check_version major minor p \<longleftrightarrow> http_version p = (major, minor)"

definition to_request :: "http_method \<Rightarrow> http_parser \<Rightarrow> http_request" where
  "to_request m p = \<lparr>rq_method = m, raw_url = ps_raw_url p, rq_url = ps_url p, rq_headers = ps_headers p, rq_body = ps_body p\<rparr>"

section \<open>Events\<close>

datatype parser_event =
    Message_begin
  | Url bytes
  | Header_field bytes
  | Header_value bytes
  | Headers_complete "nat \<times> nat"
  | Body bytes
  | Message_complete http_method

text \<open>The events between the begin and the end of a message, without what the connection does at the
  end of the headers.\<close>

fun gather :: "parser_event \<Rightarrow> http_parser \<Rightarrow> http_parser" where
  "gather Message_begin p = on_message_begin p"
| "gather (Url s) p = on_url s p"
| "gather (Header_field s) p = on_header_field s p"
| "gather (Header_value s) p = on_header_value s p"
| "gather (Headers_complete v) p = on_headers_complete (p\<lparr>http_version := v\<rparr>)"
| "gather (Body s) p = on_body s p"
| "gather (Message_complete m) p = p"

section \<open>What the callbacks collect\<close>

lemma fold_url: "fold gather (map Url ss) p = p\<lparr>ps_raw_url := ps_raw_url p @ concat ss\<rparr>"
  by (induction ss arbitrary: p) (simp_all add: on_url_def)

lemma fold_body: "fold gather (map Body ss) p = p\<lparr>ps_body := ps_body p @ concat ss\<rparr>"
  by (induction ss arbitrary: p) (simp_all add: on_body_def)

lemma fold_field_more:
  "header_building_state p = 1 \<Longrightarrow> fold gather (map Header_field ss) p = p\<lparr>header_field := header_field p @ concat ss\<rparr>"
  by (induction ss arbitrary: p) (simp_all add: on_header_field_def)

lemma fold_value_more:
  "header_building_state p = 0 \<Longrightarrow> fold gather (map Header_value ss) p = p\<lparr>header_value := header_value p @ concat ss\<rparr>"
  by (induction ss arbitrary: p) (simp_all add: on_header_value_def)

text \<open>A header as it comes: its name in one or more pieces, then its value in one or more.\<close>

type_synonym header_pieces = "bytes list \<times> bytes list"

definition header_of :: "header_pieces \<Rightarrow> bytes \<times> bytes" where
  "header_of h = (concat (fst h), concat (snd h))"

definition header_events :: "header_pieces \<Rightarrow> parser_event list" where
  "header_events h = map Header_field (fst h) @ map Header_value (snd h)"

definition pieces_ok :: "header_pieces \<Rightarrow> bool" where
  "pieces_ok h \<longleftrightarrow> snd h \<noteq> [] \<and> concat (fst h) \<noteq> []"

text \<open>The last header waits in \<open>header_field\<close> and \<open>header_value\<close>; those before it are in the table,
  if their value is not empty.\<close>

definition valued :: "ci_map \<Rightarrow> ci_map" where
  "valued hs = filter (\<lambda>h. snd h \<noteq> []) hs"

lemma gather_header:
  assumes "pieces_ok h" and "header_building_state p = 0"
  shows "fold gather (header_events h) p =
    p\<lparr>ps_headers := ps_headers p @ valued [(header_field p, header_value p)],
      header_field := fst (header_of h), header_value := snd (header_of h)\<rparr>"
proof -
  from assms(1) obtain f fs v vs where h: "h = (f # fs, v # vs)"
    by (cases h; cases "fst h"; cases "snd h") (auto simp: pieces_ok_def)
  show ?thesis
    using assms(2) by (simp add: h header_events_def header_of_def on_header_field_def fold_field_more
        on_header_value_def fold_value_more valued_def headers_emplace_def)
qed

lemma gather_headers:
  "list_all pieces_ok hs \<Longrightarrow> header_building_state p = 0 \<Longrightarrow> hs \<noteq> [] \<Longrightarrow>
   fold gather (concat (map header_events hs)) p =
    p\<lparr>ps_headers := ps_headers p @ valued ((header_field p, header_value p) # butlast (map header_of hs)),
      header_field := fst (header_of (last hs)), header_value := snd (header_of (last hs))\<rparr>"
proof (induction hs arbitrary: p)
  case (Cons h hs)
  then have h: "pieces_ok h" by simp
  show ?case
  proof (cases "hs = []")
    case True
    with Cons.prems gather_header [OF h, of p] show ?thesis by simp
  next
    case False
    let ?p = "fold gather (header_events h) p"
    have p: "header_building_state ?p = 0" "ps_headers ?p = ps_headers p @ valued [(header_field p, header_value p)]"
      "header_field ?p = fst (header_of h)" "header_value ?p = snd (header_of h)"
      using gather_header [OF h Cons.prems(2)] Cons.prems(2) by simp_all
    from Cons.IH [of ?p] Cons.prems(1) False p have "fold gather (concat (map header_events hs)) ?p =
      ?p\<lparr>ps_headers := ps_headers p @ valued [(header_field p, header_value p)] @ valued (header_of h # butlast (map header_of hs)),
        header_field := fst (header_of (last hs)), header_value := snd (header_of (last hs))\<rparr>"
      by simp
    with gather_header [OF h Cons.prems(2)] False show ?thesis by (simp add: valued_def)
  qed
qed simp

text \<open>The events of a message.\<close>

definition message_events ::
  "bytes list \<Rightarrow> header_pieces list \<Rightarrow> nat \<times> nat \<Rightarrow> bytes list \<Rightarrow> parser_event list"
where
  "message_events us hs v bs =
     Message_begin # map Url us @ concat (map header_events hs) @ Headers_complete v # map Body bs"

text \<open>The headers that are kept: those with a value, and the last one.\<close>

definition kept :: "ci_map \<Rightarrow> ci_map" where
  "kept hs = (if hs = [] then [] else valued (butlast hs) @ [last hs])"

lemma message_gathered:
  assumes "list_all pieces_ok hs"
  shows "fold gather (message_events us hs v bs) p =
    p\<lparr>ps_url := [], ps_raw_url := concat us, header_building_state := 0, header_field := [], header_value := [],
      ps_headers := kept (map header_of hs), url_params := query_clear (url_params p), ps_body := concat bs,
      http_version := v\<rparr>"
proof (cases "hs = []")
  case True
  then show ?thesis
    by (simp add: message_events_def on_message_begin_def parser_clear_def fold_url on_headers_complete_def fold_body kept_def)
next
  case False
  with assms have "concat (fst (last hs)) \<noteq> []" by (simp add: list_all_iff pieces_ok_def)
  with False show ?thesis
    by (simp add: message_events_def on_message_begin_def parser_clear_def fold_url gather_headers [OF assms]
        on_headers_complete_def fold_body kept_def header_of_def valued_def headers_emplace_def last_map map_butlast)
qed

section \<open>Properties\<close>

text \<open>C35: however the parser cuts a message into pieces, the request that is built has its URL,
  version and body, and its headers in order, except that a header with an empty value is lost
  unless it is the last one.\<close>

theorem request_is_gathered:
  assumes "list_all pieces_ok hs" and "fold gather (message_events us hs v bs) p = p'"
  shows "to_request m p' = \<lparr>rq_method = m, raw_url = concat us, rq_url = [],
      rq_headers = (if hs = [] then [] else filter (\<lambda>h. snd h \<noteq> []) (map header_of (butlast hs)) @ [header_of (last hs)]),
      rq_body = concat bs\<rparr> \<and> http_version p' = v"
  using message_gathered [OF assms(1), of us v bs p] assms(2)
  by (auto simp: to_request_def kept_def valued_def last_map map_butlast)

theorem request_is_gathered_witness:
  "to_request M_GET (fold gather (message_events [''/a'', ''?b''] [([''Ho'', ''st''], [''h'']), ([''X''], [[]]), ([''Y''], [''1'', ''2''])]
      (1, 1) [''body'']) new_http_parser) =
    \<lparr>rq_method = M_GET, raw_url = ''/a?b'', rq_url = [], rq_headers = [(''Host'', ''h''), (''Y'', ''12'')], rq_body = ''body''\<rparr>"
proof -
  have "list_all pieces_ok [([''Ho'', ''st''], [''h'']), ([''X''], [[]]), ([''Y''], [''1'', ''2''])]" by (simp add: pieces_ok_def)
  from request_is_gathered [OF this refl] show ?thesis by (simp add: header_of_def)
qed

end
