(* ===== verification/Http_Parser.thy ===== *)
theory Http_Parser
  imports Crow_Parser
begin

text \<open>
  \<^verbatim>\<open>http_parser_merged.h\<close>: the parser of HTTP that \<^verbatim>\<open>HTTPParser\<close> extends, byte by byte, with the
  settings of \<^verbatim>\<open>parser.h\<close>: each callback but \<^verbatim>\<open>on_status\<close> is there and returns 0. A run over a buffer
  returns the callbacks it made, as events. The build has strict checks on.
\<close>

section \<open>The parser's data\<close>

datatype parser_type = HTTP_REQUEST | HTTP_RESPONSE | HTTP_BOTH

datatype parser_method =
    HTTP_DELETE | HTTP_GET | HTTP_HEAD | HTTP_POST | HTTP_PUT | HTTP_CONNECT | HTTP_OPTIONS | HTTP_TRACE
  | HTTP_COPY | HTTP_LOCK | HTTP_MKCOL | HTTP_MOVE | HTTP_PROPFIND | HTTP_PROPPATCH | HTTP_SEARCH | HTTP_UNLOCK
  | HTTP_REPORT | HTTP_MKACTIVITY | HTTP_CHECKOUT | HTTP_MERGE | HTTP_MSEARCH | HTTP_NOTIFY | HTTP_SUBSCRIBE
  | HTTP_UNSUBSCRIBE | HTTP_PATCH | HTTP_PURGE | HTTP_MKCALENDAR

fun method_string :: "parser_method \<Rightarrow> bytes" where
  "method_string HTTP_DELETE = ''DELETE''"
| "method_string HTTP_GET = ''GET''"
| "method_string HTTP_HEAD = ''HEAD''"
| "method_string HTTP_POST = ''POST''"
| "method_string HTTP_PUT = ''PUT''"
| "method_string HTTP_CONNECT = ''CONNECT''"
| "method_string HTTP_OPTIONS = ''OPTIONS''"
| "method_string HTTP_TRACE = ''TRACE''"
| "method_string HTTP_COPY = ''COPY''"
| "method_string HTTP_LOCK = ''LOCK''"
| "method_string HTTP_MKCOL = ''MKCOL''"
| "method_string HTTP_MOVE = ''MOVE''"
| "method_string HTTP_PROPFIND = ''PROPFIND''"
| "method_string HTTP_PROPPATCH = ''PROPPATCH''"
| "method_string HTTP_SEARCH = ''SEARCH''"
| "method_string HTTP_UNLOCK = ''UNLOCK''"
| "method_string HTTP_REPORT = ''REPORT''"
| "method_string HTTP_MKACTIVITY = ''MKACTIVITY''"
| "method_string HTTP_CHECKOUT = ''CHECKOUT''"
| "method_string HTTP_MERGE = ''MERGE''"
| "method_string HTTP_MSEARCH = ''M-SEARCH''"
| "method_string HTTP_NOTIFY = ''NOTIFY''"
| "method_string HTTP_SUBSCRIBE = ''SUBSCRIBE''"
| "method_string HTTP_UNSUBSCRIBE = ''UNSUBSCRIBE''"
| "method_string HTTP_PATCH = ''PATCH''"
| "method_string HTTP_PURGE = ''PURGE''"
| "method_string HTTP_MKCALENDAR = ''MKCALENDAR''"

text \<open>The number of a method, cast to \<^verbatim>\<open>crow::HTTPMethod\<close>.\<close>

fun crow_method :: "parser_method \<Rightarrow> http_method" where
  "crow_method HTTP_DELETE = M_DELETE"
| "crow_method HTTP_GET = M_GET"
| "crow_method HTTP_HEAD = M_HEAD"
| "crow_method HTTP_POST = M_POST"
| "crow_method HTTP_PUT = M_PUT"
| "crow_method HTTP_CONNECT = M_CONNECT"
| "crow_method HTTP_OPTIONS = M_OPTIONS"
| "crow_method HTTP_TRACE = M_TRACE"
| "crow_method HTTP_COPY = M_other 0"
| "crow_method HTTP_LOCK = M_other 1"
| "crow_method HTTP_MKCOL = M_other 2"
| "crow_method HTTP_MOVE = M_other 3"
| "crow_method HTTP_PROPFIND = M_other 4"
| "crow_method HTTP_PROPPATCH = M_other 5"
| "crow_method HTTP_SEARCH = M_other 6"
| "crow_method HTTP_UNLOCK = M_other 7"
| "crow_method HTTP_REPORT = M_other 8"
| "crow_method HTTP_MKACTIVITY = M_other 9"
| "crow_method HTTP_CHECKOUT = M_other 10"
| "crow_method HTTP_MERGE = M_other 11"
| "crow_method HTTP_MSEARCH = M_other 12"
| "crow_method HTTP_NOTIFY = M_other 13"
| "crow_method HTTP_SUBSCRIBE = M_other 14"
| "crow_method HTTP_UNSUBSCRIBE = M_other 15"
| "crow_method HTTP_PATCH = M_other 16"
| "crow_method HTTP_PURGE = M_other 17"
| "crow_method HTTP_MKCALENDAR = M_other 18"

datatype http_errno =
    HPE_OK
  | HPE_INVALID_EOF_STATE
  | HPE_HEADER_OVERFLOW
  | HPE_CLOSED_CONNECTION
  | HPE_INVALID_VERSION
  | HPE_INVALID_STATUS
  | HPE_INVALID_METHOD
  | HPE_INVALID_URL
  | HPE_LF_EXPECTED
  | HPE_INVALID_HEADER_TOKEN
  | HPE_INVALID_CONTENT_LENGTH
  | HPE_INVALID_CHUNK_SIZE
  | HPE_INVALID_CONSTANT
  | HPE_STRICT

datatype parse_state =
    s_dead
  | s_start_req_or_res | s_res_or_resp_H | s_start_res | s_res_H | s_res_HT | s_res_HTT | s_res_HTTP
  | s_res_first_http_major | s_res_http_major | s_res_first_http_minor | s_res_http_minor
  | s_res_first_status_code | s_res_status_code | s_res_status_start | s_res_status | s_res_line_almost_done
  | s_start_req
  | s_req_method | s_req_spaces_before_url | s_req_schema | s_req_schema_slash | s_req_schema_slash_slash
  | s_req_server_start | s_req_server | s_req_server_with_at | s_req_path | s_req_query_string_start
  | s_req_query_string | s_req_fragment_start | s_req_fragment | s_req_http_start | s_req_http_H | s_req_http_HT
  | s_req_http_HTT | s_req_http_HTTP | s_req_first_http_major | s_req_http_major | s_req_first_http_minor
  | s_req_http_minor | s_req_line_almost_done
  | s_header_field_start | s_header_field | s_header_value_discard_ws | s_header_value_discard_ws_almost_done
  | s_header_value_discard_lws | s_header_value_start | s_header_value | s_header_value_lws
  | s_header_almost_done
  | s_chunk_size_start | s_chunk_size | s_chunk_parameters | s_chunk_size_almost_done
  | s_headers_almost_done | s_headers_done
  | s_chunk_data | s_chunk_data_almost_done | s_chunk_data_done
  | s_body_identity | s_body_identity_eof
  | s_message_done

text \<open>The states up to \<^verbatim>\<open>s_headers_done\<close>.\<close>

definition PARSING_HEADER :: "parse_state \<Rightarrow> bool" where
  "PARSING_HEADER s =
     (case s of
        s_chunk_data \<Rightarrow> False
      | s_chunk_data_almost_done \<Rightarrow> False
      | s_chunk_data_done \<Rightarrow> False
      | s_body_identity \<Rightarrow> False
      | s_body_identity_eof \<Rightarrow> False
      | s_message_done \<Rightarrow> False
      | _ \<Rightarrow> True)"

datatype header_states =
    h_general | h_C | h_CO | h_CON
  | h_matching_connection | h_matching_proxy_connection | h_matching_content_length
  | h_matching_transfer_encoding | h_matching_upgrade
  | h_connection | h_content_length | h_transfer_encoding | h_upgrade
  | h_matching_transfer_encoding_chunked | h_matching_connection_keep_alive | h_matching_connection_close
  | h_transfer_encoding_chunked | h_connection_keep_alive | h_connection_close

record raw_parser =
  hp_type :: parser_type
  f_chunked :: bool
  f_connection_keep_alive :: bool
  f_connection_close :: bool
  f_trailing :: bool
  f_upgrade :: bool
  f_skipbody :: bool
  hp_state :: parse_state
  hp_header_state :: header_states
  hp_index :: nat
  nread :: nat
  content_length :: nat
  http_major :: nat
  http_minor :: nat
  status_code :: nat
  hp_method :: parser_method
  hp_errno :: http_errno
  upgrade :: bool

definition http_parser_init :: "parser_type \<Rightarrow> raw_parser" where
  "http_parser_init t =
     \<lparr>hp_type = t, f_chunked = False, f_connection_keep_alive = False, f_connection_close = False,
      f_trailing = False, f_upgrade = False, f_skipbody = False,
      hp_state = (case t of HTTP_REQUEST \<Rightarrow> s_start_req | HTTP_RESPONSE \<Rightarrow> s_start_res | HTTP_BOTH \<Rightarrow> s_start_req_or_res),
      hp_header_state = h_general, hp_index = 0, nread = 0, content_length = 0, http_major = 0, http_minor = 0,
      status_code = 0, hp_method = HTTP_DELETE, hp_errno = HPE_OK, upgrade = False\<rparr>"

definition HTTP_MAX_HEADER_SIZE :: nat where
  "HTTP_MAX_HEADER_SIZE = 80 * 1024"

definition ULLONG_MAX :: nat where
  "ULLONG_MAX = 2 ^ 64 - 1"

section \<open>Classes of bytes\<close>

definition lower :: "char \<Rightarrow> char" where
  "lower c = char_of (or (of_char c :: nat) 32)"

definition is_alpha :: "char \<Rightarrow> bool" where
  "is_alpha c \<longleftrightarrow> 97 \<le> (of_char (lower c) :: nat) \<and> (of_char (lower c) :: nat) \<le> 122"

definition is_alphanum :: "char \<Rightarrow> bool" where
  "is_alphanum c \<longleftrightarrow> is_alpha c \<or> is_digit c"

definition is_mark :: "char \<Rightarrow> bool" where
  "is_mark c \<longleftrightarrow> c \<in> set ''-_.!~*'' \<or> c = CHR 0x27 \<or> c \<in> set ''()''"

definition is_userinfo_char :: "char \<Rightarrow> bool" where
  "is_userinfo_char c \<longleftrightarrow> is_alphanum c \<or> is_mark c \<or> c \<in> set ''%;:&=+$,''"

text \<open>The table of URL characters: what can be printed, but for \<^verbatim>\<open>#\<close> and \<^verbatim>\<open>?\<close>.\<close>

definition is_url_char :: "char \<Rightarrow> bool" where
  "is_url_char c \<longleftrightarrow> 33 \<le> (of_char c :: nat) \<and> (of_char c :: nat) \<le> 126 \<and> c \<noteq> CHR ''#'' \<and> c \<noteq> CHR ''?''"

text \<open>The table of tokens: the letter in lower case, or nothing.\<close>

definition token :: "char \<Rightarrow> char option" where
  "token c =
     (if is_alpha c then Some (lower c)
      else if is_digit c \<or> c \<in> set ''!#$%&*+-.^_`|~'' \<or> c = CHR 0x27 then Some c
      else None)"

text \<open>The table of hexadecimal digits has 128 entries of 256; the others are 0.\<close>

definition unhex :: "char \<Rightarrow> nat option" where
  "unhex c =
     (let n = of_char c :: nat
      in if 48 \<le> n \<and> n \<le> 57 then Some (n - 48)
         else if 65 \<le> n \<and> n \<le> 70 then Some (n - 55)
         else if 97 \<le> n \<and> n \<le> 102 then Some (n - 87)
         else if 128 \<le> n then Some 0
         else None)"

text \<open>A C string, with its terminating NUL.\<close>

definition c_at :: "bytes \<Rightarrow> nat \<Rightarrow> char" where
  "c_at s i = (if i < length s then s ! i else CHR 0x00)"

section \<open>The URL\<close>

fun parse_url_char :: "parse_state \<Rightarrow> char \<Rightarrow> parse_state" where
  "parse_url_char s ch =
     (if ch = CHR '' '' \<or> ch = CR \<or> ch = LF \<or> ch = CHR 0x09 \<or> ch = CHR 0x0C then s_dead
      else
        (case s of
           s_req_spaces_before_url \<Rightarrow>
             if ch = CHR ''/'' \<or> ch = CHR ''*'' then s_req_path
             else if is_alpha ch then s_req_schema
             else s_dead
         | s_req_schema \<Rightarrow>
             if is_alpha ch then s_req_schema
             else if ch = CHR '':'' then s_req_schema_slash
             else s_dead
         | s_req_schema_slash \<Rightarrow> if ch = CHR ''/'' then s_req_schema_slash_slash else s_dead
         | s_req_schema_slash_slash \<Rightarrow> if ch = CHR ''/'' then s_req_server_start else s_dead
         | s_req_server_with_at \<Rightarrow>
             if ch = CHR ''@'' then s_dead
             else if ch = CHR ''/'' then s_req_path
             else if ch = CHR ''?'' then s_req_query_string_start
             else if is_userinfo_char ch \<or> ch = CHR ''['' \<or> ch = CHR '']'' then s_req_server
             else s_dead
         | s_req_server_start \<Rightarrow>
             if ch = CHR ''/'' then s_req_path
             else if ch = CHR ''?'' then s_req_query_string_start
             else if ch = CHR ''@'' then s_req_server_with_at
             else if is_userinfo_char ch \<or> ch = CHR ''['' \<or> ch = CHR '']'' then s_req_server
             else s_dead
         | s_req_server \<Rightarrow>
             if ch = CHR ''/'' then s_req_path
             else if ch = CHR ''?'' then s_req_query_string_start
             else if ch = CHR ''@'' then s_req_server_with_at
             else if is_userinfo_char ch \<or> ch = CHR ''['' \<or> ch = CHR '']'' then s_req_server
             else s_dead
         | s_req_path \<Rightarrow>
             if is_url_char ch then s_req_path
             else if ch = CHR ''?'' then s_req_query_string_start
             else if ch = CHR ''#'' then s_req_fragment_start
             else s_dead
         | s_req_query_string_start \<Rightarrow>
             if is_url_char ch then s_req_query_string
             else if ch = CHR ''?'' then s_req_query_string
             else if ch = CHR ''#'' then s_req_fragment_start
             else s_dead
         | s_req_query_string \<Rightarrow>
             if is_url_char ch then s_req_query_string
             else if ch = CHR ''?'' then s_req_query_string
             else if ch = CHR ''#'' then s_req_fragment_start
             else s_dead
         | s_req_fragment_start \<Rightarrow>
             if is_url_char ch then s_req_fragment
             else if ch = CHR ''?'' then s_req_fragment
             else if ch = CHR ''#'' then s_req_fragment_start
             else s_dead
         | s_req_fragment \<Rightarrow>
             if is_url_char ch then s_req_fragment
             else if ch = CHR ''?'' \<or> ch = CHR ''#'' then s_req_fragment
             else s_dead
         | _ \<Rightarrow> s_dead))"

declare parse_url_char.simps [simp del]

section \<open>A run over a buffer\<close>

text \<open>
  The parser with what a run keeps beside it: the position, where the data of each callback begins
  if it has begun, and the callbacks made so far. \<^verbatim>\<open>on_status\<close> is absent, so its mark makes no event.
\<close>

record exec = raw_parser +
  pos :: nat
  header_field_mark :: "nat option"
  header_value_mark :: "nat option"
  url_mark :: "nat option"
  body_mark :: "nat option"
  status_mark :: "nat option"
  called :: "parser_event list"

text \<open>How the step on a byte ends: with \<^verbatim>\<open>break\<close>, with the same byte again, with an error, with a
  return, or at an assertion that fails.\<close>

datatype outcome = Next | Again | Fails http_errno | Leaves nat | Asserts

definition slice :: "bytes \<Rightarrow> nat \<Rightarrow> nat \<Rightarrow> bytes" where
  "slice data m n = take (n - m) (drop m data)"

definition notify :: "parser_event \<Rightarrow> exec \<Rightarrow> exec" where
  "notify e x = x\<lparr>called := called x @ [e]\<rparr>"

definition mark :: "nat option \<Rightarrow> nat \<Rightarrow> nat option" where
  "mark m p = (case m of None \<Rightarrow> Some p | Some _ \<Rightarrow> m)"

definition marked :: "(bytes \<Rightarrow> parser_event) \<Rightarrow> bytes \<Rightarrow> nat option \<Rightarrow> nat \<Rightarrow> parser_event list" where
  "marked e data m n = (case m of None \<Rightarrow> [] | Some k \<Rightarrow> [e (slice data k n)])"

definition call_url :: "bytes \<Rightarrow> exec \<Rightarrow> exec" where
  "call_url data x = x\<lparr>called := called x @ marked Url data (url_mark x) (pos x), url_mark := None\<rparr>"

definition call_header_field :: "bytes \<Rightarrow> exec \<Rightarrow> exec" where
  "call_header_field data x =
     x\<lparr>called := called x @ marked Header_field data (header_field_mark x) (pos x), header_field_mark := None\<rparr>"

definition call_header_value :: "bytes \<Rightarrow> exec \<Rightarrow> exec" where
  "call_header_value data x =
     x\<lparr>called := called x @ marked Header_value data (header_value_mark x) (pos x), header_value_mark := None\<rparr>"

text \<open>The body's data end at \<open>n\<close>: behind the current byte when the length is reached.\<close>

definition call_body :: "bytes \<Rightarrow> nat \<Rightarrow> exec \<Rightarrow> exec" where
  "call_body data n x = x\<lparr>called := called x @ marked Body data (body_mark x) n, body_mark := None\<rparr>"

definition call_status :: "exec \<Rightarrow> exec" where
  "call_status x = x\<lparr>status_mark := None\<rparr>"

definition clear_flags :: "exec \<Rightarrow> exec" where
  "clear_flags x = x\<lparr>f_chunked := False, f_connection_keep_alive := False, f_connection_close := False,
     f_trailing := False, f_upgrade := False, f_skipbody := False\<rparr>"

text \<open>\<^verbatim>\<open>STRICT_CHECK\<close>, then the next state.\<close>

definition expect :: "bool \<Rightarrow> parse_state \<Rightarrow> exec \<Rightarrow> exec \<times> outcome" where
  "expect ok s x = (if ok then (x\<lparr>hp_state := s\<rparr>, Next) else (x, Fails HPE_STRICT))"

definition http_message_needs_eof :: "exec \<Rightarrow> bool" where
  "http_message_needs_eof x =
     (if hp_type x = HTTP_REQUEST then False
      else if status_code x div 100 = 1 \<or> status_code x = 204 \<or> status_code x = 304 \<or> f_skipbody x then False
      else if f_chunked x \<or> content_length x \<noteq> ULLONG_MAX then False
      else True)"

definition http_should_keep_alive :: "exec \<Rightarrow> bool" where
  "http_should_keep_alive x =
     (if http_major x > 0 \<and> http_minor x > 0
      then (if f_connection_close x then False else \<not> http_message_needs_eof x)
      else (if \<not> f_connection_keep_alive x then False else \<not> http_message_needs_eof x))"

definition NEW_MESSAGE :: "exec \<Rightarrow> parse_state" where
  "NEW_MESSAGE x =
     (if http_should_keep_alive x then (if hp_type x = HTTP_REQUEST then s_start_req else s_start_res) else s_dead)"

definition complete_message :: "exec \<Rightarrow> exec" where
  "complete_message x = notify (Message_complete (crow_method (hp_method x))) (x\<lparr>hp_state := NEW_MESSAGE x\<rparr>)"

section \<open>The start of a message\<close>

definition step_dead :: "char \<Rightarrow> exec \<Rightarrow> exec \<times> outcome" where
  "step_dead ch x = (if ch = CR \<or> ch = LF then (x, Next) else (x, Fails HPE_CLOSED_CONNECTION))"

definition step_start_req_or_res :: "char \<Rightarrow> exec \<Rightarrow> exec \<times> outcome" where
  "step_start_req_or_res ch x =
     (if ch = CR \<or> ch = LF then (x, Next)
      else
        let x1 = (clear_flags x)\<lparr>content_length := ULLONG_MAX\<rparr>
        in if ch = CHR ''H'' then (notify Message_begin (x1\<lparr>hp_state := s_res_or_resp_H\<rparr>), Next)
           else (x1\<lparr>hp_type := HTTP_REQUEST, hp_state := s_start_req\<rparr>, Again))"

definition step_res_or_resp_H :: "char \<Rightarrow> exec \<Rightarrow> exec \<times> outcome" where
  "step_res_or_resp_H ch x =
     (if ch = CHR ''T'' then (x\<lparr>hp_type := HTTP_RESPONSE, hp_state := s_res_HT\<rparr>, Next)
      else if ch \<noteq> CHR ''E'' then (x, Fails HPE_INVALID_CONSTANT)
      else (x\<lparr>hp_type := HTTP_REQUEST, hp_method := HTTP_HEAD, hp_index := 2, hp_state := s_req_method\<rparr>, Next))"

definition step_start_res :: "char \<Rightarrow> exec \<Rightarrow> exec \<times> outcome" where
  "step_start_res ch x =
     (let x1 = (clear_flags x)\<lparr>content_length := ULLONG_MAX\<rparr>
      in if ch = CHR ''H'' then (notify Message_begin (x1\<lparr>hp_state := s_res_H\<rparr>), Next)
         else if ch = CR \<or> ch = LF then (notify Message_begin x1, Next)
         else (x1, Fails HPE_INVALID_CONSTANT))"

text \<open>The method that a first letter may stand for.\<close>

definition method_of_letter :: "char \<Rightarrow> parser_method option" where
  "method_of_letter ch =
     (if ch = CHR ''C'' then Some HTTP_CONNECT
      else if ch = CHR ''D'' then Some HTTP_DELETE
      else if ch = CHR ''G'' then Some HTTP_GET
      else if ch = CHR ''H'' then Some HTTP_HEAD
      else if ch = CHR ''L'' then Some HTTP_LOCK
      else if ch = CHR ''M'' then Some HTTP_MKCOL
      else if ch = CHR ''N'' then Some HTTP_NOTIFY
      else if ch = CHR ''O'' then Some HTTP_OPTIONS
      else if ch = CHR ''P'' then Some HTTP_POST
      else if ch = CHR ''R'' then Some HTTP_REPORT
      else if ch = CHR ''S'' then Some HTTP_SUBSCRIBE
      else if ch = CHR ''T'' then Some HTTP_TRACE
      else if ch = CHR ''U'' then Some HTTP_UNLOCK
      else None)"

definition step_start_req :: "char \<Rightarrow> exec \<Rightarrow> exec \<times> outcome" where
  "step_start_req ch x =
     (if ch = CR \<or> ch = LF then (x, Next)
      else
        let x1 = (clear_flags x)\<lparr>content_length := ULLONG_MAX\<rparr>
        in if \<not> is_alpha ch then (x1, Fails HPE_INVALID_METHOD)
           else
             (case method_of_letter ch of
                None \<Rightarrow> (x1\<lparr>hp_method := HTTP_DELETE, hp_index := 1\<rparr>, Fails HPE_INVALID_METHOD)
              | Some m \<Rightarrow> (notify Message_begin (x1\<lparr>hp_method := m, hp_index := 1, hp_state := s_req_method\<rparr>), Next)))"

text \<open>The method that takes over where the letters leave the one tried so far.\<close>

definition other_method :: "parser_method \<Rightarrow> nat \<Rightarrow> char \<Rightarrow> parser_method option" where
  "other_method m i ch =
     (if m = HTTP_CONNECT then
        (if i = 1 \<and> ch = CHR ''H'' then Some HTTP_CHECKOUT
         else if i = 2 \<and> ch = CHR ''P'' then Some HTTP_COPY
         else None)
      else if m = HTTP_MKCOL then
        (if i = 1 \<and> ch = CHR ''O'' then Some HTTP_MOVE
         else if i = 1 \<and> ch = CHR ''E'' then Some HTTP_MERGE
         else if i = 1 \<and> ch = CHR ''-'' then Some HTTP_MSEARCH
         else if i = 2 \<and> ch = CHR ''A'' then Some HTTP_MKACTIVITY
         else if i = 3 \<and> ch = CHR ''A'' then Some HTTP_MKCALENDAR
         else None)
      else if m = HTTP_SUBSCRIBE then
        (if i = 1 \<and> ch = CHR ''E'' then Some HTTP_SEARCH else None)
      else if i = 1 \<and> m = HTTP_POST then
        (if ch = CHR ''R'' then Some HTTP_PROPFIND
         else if ch = CHR ''U'' then Some HTTP_PUT
         else if ch = CHR ''A'' then Some HTTP_PATCH
         else None)
      else if i = 2 then
        (if m = HTTP_PUT then (if ch = CHR ''R'' then Some HTTP_PURGE else None)
         else if m = HTTP_UNLOCK then (if ch = CHR ''S'' then Some HTTP_UNSUBSCRIBE else None)
         else None)
      else if i = 4 \<and> m = HTTP_PROPFIND \<and> ch = CHR ''P'' then Some HTTP_PROPPATCH
      else None)"

definition step_req_method :: "char \<Rightarrow> exec \<Rightarrow> exec \<times> outcome" where
  "step_req_method ch x =
     (let matcher = method_string (hp_method x); i = hp_index x; next_index = Suc i mod 256
      in if ch = CHR 0x00 then (x, Fails HPE_INVALID_METHOD)
         else if ch = CHR '' '' \<and> c_at matcher i = CHR 0x00
         then (x\<lparr>hp_state := s_req_spaces_before_url, hp_index := next_index\<rparr>, Next)
         else if ch = c_at matcher i then (x\<lparr>hp_index := next_index\<rparr>, Next)
         else
           (case other_method (hp_method x) i ch of
              None \<Rightarrow> (x, Fails HPE_INVALID_METHOD)
            | Some m \<Rightarrow> (x\<lparr>hp_method := m, hp_index := next_index\<rparr>, Next)))"

section \<open>The line of a request\<close>

definition url_char :: "char \<Rightarrow> exec \<Rightarrow> exec \<times> outcome" where
  "url_char ch x =
     (let s = parse_url_char (hp_state x) ch
      in (x\<lparr>hp_state := s\<rparr>, if s = s_dead then Fails HPE_INVALID_URL else Next))"

definition step_spaces_before_url :: "char \<Rightarrow> exec \<Rightarrow> exec \<times> outcome" where
  "step_spaces_before_url ch x =
     (if ch = CHR '' '' then (x, Next)
      else
        let x1 = x\<lparr>url_mark := mark (url_mark x) (pos x)\<rparr>
        in url_char ch (if hp_method x = HTTP_CONNECT then x1\<lparr>hp_state := s_req_server_start\<rparr> else x1))"

definition step_schema :: "char \<Rightarrow> exec \<Rightarrow> exec \<times> outcome" where
  "step_schema ch x =
     (if ch = CHR '' '' \<or> ch = CR \<or> ch = LF then (x, Fails HPE_INVALID_URL) else url_char ch x)"

definition step_url :: "bytes \<Rightarrow> char \<Rightarrow> exec \<Rightarrow> exec \<times> outcome" where
  "step_url data ch x =
     (if ch = CHR '' '' then (call_url data (x\<lparr>hp_state := s_req_http_start\<rparr>), Next)
      else if ch = CR \<or> ch = LF
      then (call_url data (x\<lparr>http_major := 0, http_minor := 9,
              hp_state := (if ch = CR then s_req_line_almost_done else s_header_field_start)\<rparr>), Next)
      else url_char ch x)"

definition step_req_http_start :: "char \<Rightarrow> exec \<Rightarrow> exec \<times> outcome" where
  "step_req_http_start ch x =
     (if ch = CHR ''H'' then (x\<lparr>hp_state := s_req_http_H\<rparr>, Next)
      else if ch = CHR '' '' then (x, Next)
      else (x, Fails HPE_INVALID_CONSTANT))"

text \<open>The digits of a version, for requests and for responses: the first of the major number from \<open>low\<close>.\<close>

definition first_major :: "nat \<Rightarrow> parse_state \<Rightarrow> char \<Rightarrow> exec \<Rightarrow> exec \<times> outcome" where
  "first_major low s ch x =
     (if \<not> is_digit ch \<or> digit_val ch < low then (x, Fails HPE_INVALID_VERSION)
      else (x\<lparr>http_major := digit_val ch, hp_state := s\<rparr>, Next))"

definition more_major :: "parse_state \<Rightarrow> char \<Rightarrow> exec \<Rightarrow> exec \<times> outcome" where
  "more_major s ch x =
     (if ch = CHR ''.'' then (x\<lparr>hp_state := s\<rparr>, Next)
      else if \<not> is_digit ch then (x, Fails HPE_INVALID_VERSION)
      else
        let v = (http_major x * 10 + digit_val ch) mod 65536
        in (x\<lparr>http_major := v\<rparr>, if v > 999 then Fails HPE_INVALID_VERSION else Next))"

definition first_minor :: "parse_state \<Rightarrow> char \<Rightarrow> exec \<Rightarrow> exec \<times> outcome" where
  "first_minor s ch x =
     (if \<not> is_digit ch then (x, Fails HPE_INVALID_VERSION)
      else (x\<lparr>http_minor := digit_val ch, hp_state := s\<rparr>, Next))"

definition more_minor :: "char \<Rightarrow> exec \<Rightarrow> exec \<times> outcome" where
  "more_minor ch x =
     (if \<not> is_digit ch then (x, Fails HPE_INVALID_VERSION)
      else
        let v = (http_minor x * 10 + digit_val ch) mod 65536
        in (x\<lparr>http_minor := v\<rparr>, if v > 999 then Fails HPE_INVALID_VERSION else Next))"

definition step_req_http_minor :: "char \<Rightarrow> exec \<Rightarrow> exec \<times> outcome" where
  "step_req_http_minor ch x =
     (if ch = CR then (x\<lparr>hp_state := s_req_line_almost_done\<rparr>, Next)
      else if ch = LF then (x\<lparr>hp_state := s_header_field_start\<rparr>, Next)
      else more_minor ch x)"

definition step_req_line_almost_done :: "char \<Rightarrow> exec \<Rightarrow> exec \<times> outcome" where
  "step_req_line_almost_done ch x =
     (if ch \<noteq> LF then (x, Fails HPE_LF_EXPECTED) else (x\<lparr>hp_state := s_header_field_start\<rparr>, Next))"

section \<open>The line of a response\<close>

definition step_res_http_minor :: "char \<Rightarrow> exec \<Rightarrow> exec \<times> outcome" where
  "step_res_http_minor ch x =
     (if ch = CHR '' '' then (x\<lparr>hp_state := s_res_first_status_code\<rparr>, Next) else more_minor ch x)"

definition step_res_first_status_code :: "char \<Rightarrow> exec \<Rightarrow> exec \<times> outcome" where
  "step_res_first_status_code ch x =
     (if \<not> is_digit ch then (x, if ch = CHR '' '' then Next else Fails HPE_INVALID_STATUS)
      else (x\<lparr>status_code := digit_val ch, hp_state := s_res_status_code\<rparr>, Next))"

definition step_res_status_code :: "char \<Rightarrow> exec \<Rightarrow> exec \<times> outcome" where
  "step_res_status_code ch x =
     (if \<not> is_digit ch then
        (if ch = CHR '' '' then (x\<lparr>hp_state := s_res_status_start\<rparr>, Next)
         else if ch = CR then (x\<lparr>hp_state := s_res_line_almost_done\<rparr>, Next)
         else if ch = LF then (x\<lparr>hp_state := s_header_field_start\<rparr>, Next)
         else (x, Fails HPE_INVALID_STATUS))
      else
        let v = (status_code x * 10 + digit_val ch) mod 65536
        in (x\<lparr>status_code := v\<rparr>, if v > 999 then Fails HPE_INVALID_STATUS else Next))"

definition step_res_status_start :: "char \<Rightarrow> exec \<Rightarrow> exec \<times> outcome" where
  "step_res_status_start ch x =
     (if ch = CR then (x\<lparr>hp_state := s_res_line_almost_done\<rparr>, Next)
      else if ch = LF then (x\<lparr>hp_state := s_header_field_start\<rparr>, Next)
      else (x\<lparr>status_mark := mark (status_mark x) (pos x), hp_state := s_res_status, hp_index := 0\<rparr>, Next))"

definition step_res_status :: "char \<Rightarrow> exec \<Rightarrow> exec \<times> outcome" where
  "step_res_status ch x =
     (if ch = CR then (call_status (x\<lparr>hp_state := s_res_line_almost_done\<rparr>), Next)
      else if ch = LF then (call_status (x\<lparr>hp_state := s_header_field_start\<rparr>), Next)
      else (x, Next))"

section \<open>Header fields\<close>

text \<open>One more letter of a word that is being matched.\<close>

definition match_word :: "bytes \<Rightarrow> header_states \<Rightarrow> char \<Rightarrow> exec \<Rightarrow> exec" where
  "match_word w matched c x =
     (let i = Suc (hp_index x) mod 256; x1 = x\<lparr>hp_index := i\<rparr>
      in if i > length w \<or> c \<noteq> c_at w i then x1\<lparr>hp_header_state := h_general\<rparr>
         else if i = length w - 1 then x1\<lparr>hp_header_state := matched\<rparr>
         else x1)"

definition step_header_field_start :: "char \<Rightarrow> exec \<Rightarrow> exec \<times> outcome" where
  "step_header_field_start ch x =
     (if ch = CR then (x\<lparr>hp_state := s_headers_almost_done\<rparr>, Next)
      else if ch = LF then (x\<lparr>hp_state := s_headers_almost_done\<rparr>, Again)
      else
        (case token ch of
           None \<Rightarrow> (x, Fails HPE_INVALID_HEADER_TOKEN)
         | Some c \<Rightarrow>
             (x\<lparr>header_field_mark := mark (header_field_mark x) (pos x), hp_index := 0, hp_state := s_header_field,
                hp_header_state :=
                  (if c = CHR ''c'' then h_C
                   else if c = CHR ''p'' then h_matching_proxy_connection
                   else if c = CHR ''t'' then h_matching_transfer_encoding
                   else if c = CHR ''u'' then h_matching_upgrade
                   else h_general)\<rparr>, Next)))"

text \<open>A letter of a name; \<open>None\<close> is the assertion of the states that no name is read in.\<close>

definition field_letter :: "char \<Rightarrow> char \<Rightarrow> exec \<Rightarrow> exec option" where
  "field_letter ch c x =
     (let next_index = Suc (hp_index x) mod 256
      in case hp_header_state x of
           h_general \<Rightarrow> Some x
         | h_C \<Rightarrow> Some (x\<lparr>hp_index := next_index, hp_header_state := (if c = CHR ''o'' then h_CO else h_general)\<rparr>)
         | h_CO \<Rightarrow> Some (x\<lparr>hp_index := next_index, hp_header_state := (if c = CHR ''n'' then h_CON else h_general)\<rparr>)
         | h_CON \<Rightarrow>
             Some (x\<lparr>hp_index := next_index,
               hp_header_state :=
                 (if c = CHR ''n'' then h_matching_connection
                  else if c = CHR ''t'' then h_matching_content_length
                  else h_general)\<rparr>)
         | h_matching_connection \<Rightarrow> Some (match_word ''connection'' h_connection c x)
         | h_matching_proxy_connection \<Rightarrow> Some (match_word ''proxy-connection'' h_connection c x)
         | h_matching_content_length \<Rightarrow> Some (match_word ''content-length'' h_content_length c x)
         | h_matching_transfer_encoding \<Rightarrow> Some (match_word ''transfer-encoding'' h_transfer_encoding c x)
         | h_matching_upgrade \<Rightarrow> Some (match_word ''upgrade'' h_upgrade c x)
         | h_connection \<Rightarrow> Some (if ch \<noteq> CHR '' '' then x\<lparr>hp_header_state := h_general\<rparr> else x)
         | h_content_length \<Rightarrow> Some (if ch \<noteq> CHR '' '' then x\<lparr>hp_header_state := h_general\<rparr> else x)
         | h_transfer_encoding \<Rightarrow> Some (if ch \<noteq> CHR '' '' then x\<lparr>hp_header_state := h_general\<rparr> else x)
         | h_upgrade \<Rightarrow> Some (if ch \<noteq> CHR '' '' then x\<lparr>hp_header_state := h_general\<rparr> else x)
         | _ \<Rightarrow> None)"

definition step_header_field :: "bytes \<Rightarrow> char \<Rightarrow> exec \<Rightarrow> exec \<times> outcome" where
  "step_header_field data ch x =
     (case token ch of
        Some c \<Rightarrow> (case field_letter ch c x of None \<Rightarrow> (x, Asserts) | Some x' \<Rightarrow> (x', Next))
      | None \<Rightarrow>
          if ch = CHR '':'' then (call_header_field data (x\<lparr>hp_state := s_header_value_discard_ws\<rparr>), Next)
          else if ch = CR then (call_header_field data (x\<lparr>hp_state := s_header_almost_done\<rparr>), Next)
          else if ch = LF then (call_header_field data (x\<lparr>hp_state := s_header_field_start\<rparr>), Next)
          else (x, Fails HPE_INVALID_HEADER_TOKEN))"

section \<open>Header values\<close>

definition step_header_value_start :: "char \<Rightarrow> exec \<Rightarrow> exec \<times> outcome" where
  "step_header_value_start ch x =
     (let x1 = x\<lparr>header_value_mark := mark (header_value_mark x) (pos x), hp_state := s_header_value, hp_index := 0\<rparr>;
          c = lower ch
      in case hp_header_state x of
           h_upgrade \<Rightarrow> (x1\<lparr>f_upgrade := True, hp_header_state := h_general\<rparr>, Next)
         | h_transfer_encoding \<Rightarrow>
             (x1\<lparr>hp_header_state := (if c = CHR ''c'' then h_matching_transfer_encoding_chunked else h_general)\<rparr>, Next)
         | h_content_length \<Rightarrow>
             if \<not> is_digit ch then (x1, Fails HPE_INVALID_CONTENT_LENGTH)
             else (x1\<lparr>content_length := digit_val ch\<rparr>, Next)
         | h_connection \<Rightarrow>
             (x1\<lparr>hp_header_state :=
                (if c = CHR ''k'' then h_matching_connection_keep_alive
                 else if c = CHR ''c'' then h_matching_connection_close
                 else h_general)\<rparr>, Next)
         | _ \<Rightarrow> (x1\<lparr>hp_header_state := h_general\<rparr>, Next))"

definition step_discard_ws :: "char \<Rightarrow> exec \<Rightarrow> exec \<times> outcome" where
  "step_discard_ws ch x =
     (if ch = CHR '' '' \<or> ch = CHR 0x09 then (x, Next)
      else if ch = CR then (x\<lparr>hp_state := s_header_value_discard_ws_almost_done\<rparr>, Next)
      else if ch = LF then (x\<lparr>hp_state := s_header_value_discard_lws\<rparr>, Next)
      else step_header_value_start ch x)"

definition step_header_value :: "bytes \<Rightarrow> char \<Rightarrow> exec \<Rightarrow> exec \<times> outcome" where
  "step_header_value data ch x =
     (if ch = CR then (call_header_value data (x\<lparr>hp_state := s_header_almost_done\<rparr>), Next)
      else if ch = LF then (call_header_value data (x\<lparr>hp_state := s_header_almost_done\<rparr>), Again)
      else
        let c = lower ch
        in case hp_header_state x of
             h_general \<Rightarrow> (x, Next)
           | h_connection \<Rightarrow> (x, Asserts)
           | h_transfer_encoding \<Rightarrow> (x, Asserts)
           | h_content_length \<Rightarrow>
               if ch = CHR '' '' then (x, Next)
               else if \<not> is_digit ch then (x, Fails HPE_INVALID_CONTENT_LENGTH)
               else if (ULLONG_MAX - 10) div 10 < content_length x then (x, Fails HPE_INVALID_CONTENT_LENGTH)
               else (x\<lparr>content_length := (content_length x * 10 + digit_val ch) mod 2 ^ 64\<rparr>, Next)
           | h_matching_transfer_encoding_chunked \<Rightarrow> (match_word ''chunked'' h_transfer_encoding_chunked c x, Next)
           | h_matching_connection_keep_alive \<Rightarrow> (match_word ''keep-alive'' h_connection_keep_alive c x, Next)
           | h_matching_connection_close \<Rightarrow> (match_word ''close'' h_connection_close c x, Next)
           | h_transfer_encoding_chunked \<Rightarrow> (if ch \<noteq> CHR '' '' then x\<lparr>hp_header_state := h_general\<rparr> else x, Next)
           | h_connection_keep_alive \<Rightarrow> (if ch \<noteq> CHR '' '' then x\<lparr>hp_header_state := h_general\<rparr> else x, Next)
           | h_connection_close \<Rightarrow> (if ch \<noteq> CHR '' '' then x\<lparr>hp_header_state := h_general\<rparr> else x, Next)
           | _ \<Rightarrow> (x\<lparr>hp_state := s_header_value, hp_header_state := h_general\<rparr>, Next))"

definition step_header_value_lws :: "char \<Rightarrow> exec \<Rightarrow> exec \<times> outcome" where
  "step_header_value_lws ch x =
     (if ch = CHR '' '' \<or> ch = CHR 0x09 then (x\<lparr>hp_state := s_header_value_start\<rparr>, Again)
      else
        ((case hp_header_state x of
            h_connection_keep_alive \<Rightarrow> x\<lparr>f_connection_keep_alive := True\<rparr>
          | h_connection_close \<Rightarrow> x\<lparr>f_connection_close := True\<rparr>
          | h_transfer_encoding_chunked \<Rightarrow> x\<lparr>f_chunked := True\<rparr>
          | _ \<Rightarrow> x)\<lparr>hp_state := s_header_field_start\<rparr>, Again))"

definition step_discard_lws :: "bytes \<Rightarrow> char \<Rightarrow> exec \<Rightarrow> exec \<times> outcome" where
  "step_discard_lws data ch x =
     (if ch = CHR '' '' \<or> ch = CHR 0x09 then (x\<lparr>hp_state := s_header_value_discard_ws\<rparr>, Next)
      else (call_header_value data (x\<lparr>header_value_mark := mark (header_value_mark x) (pos x), hp_state := s_header_field_start\<rparr>), Again))"

section \<open>The end of the headers\<close>

definition step_headers_almost_done :: "char \<Rightarrow> exec \<Rightarrow> exec \<times> outcome" where
  "step_headers_almost_done ch x =
     (if ch \<noteq> LF then (x, Fails HPE_STRICT)
      else if f_trailing x then (complete_message x, Next)
      else (notify (Headers_complete (http_major x, http_minor x))
              (x\<lparr>hp_state := s_headers_done, upgrade := (f_upgrade x \<or> hp_method x = HTTP_CONNECT)\<rparr>), Again))"

definition step_headers_done :: "char \<Rightarrow> exec \<Rightarrow> exec \<times> outcome" where
  "step_headers_done ch x =
     (if ch \<noteq> LF then (x, Fails HPE_STRICT)
      else
        let x1 = x\<lparr>nread := 0\<rparr>
        in if upgrade x then (complete_message x1, Leaves (pos x + 1))
           else if f_skipbody x then (complete_message x1, Next)
           else if f_chunked x then (x1\<lparr>hp_state := s_chunk_size_start\<rparr>, Next)
           else if content_length x = 0 then (complete_message x1, Next)
           else if content_length x \<noteq> ULLONG_MAX then (x1\<lparr>hp_state := s_body_identity\<rparr>, Next)
           else if hp_type x = HTTP_REQUEST \<or> \<not> http_message_needs_eof x then (complete_message x1, Next)
           else (x1\<lparr>hp_state := s_body_identity_eof\<rparr>, Next))"

section \<open>Bodies\<close>

definition step_body_identity :: "bytes \<Rightarrow> exec \<Rightarrow> exec \<times> outcome" where
  "step_body_identity data x =
     (let to_read = min (content_length x) (length data - pos x)
      in if content_length x = 0 \<or> content_length x = ULLONG_MAX then (x, Asserts)
         else
           let x1 = x\<lparr>body_mark := mark (body_mark x) (pos x), content_length := content_length x - to_read,
                      pos := pos x + to_read - 1\<rparr>
           in if content_length x1 = 0
              then (call_body data (pos x1 + 1) (x1\<lparr>hp_state := s_message_done\<rparr>), Again)
              else (x1, Next))"

definition step_body_identity_eof :: "bytes \<Rightarrow> exec \<Rightarrow> exec \<times> outcome" where
  "step_body_identity_eof data x = (x\<lparr>body_mark := mark (body_mark x) (pos x), pos := length data - 1\<rparr>, Next)"

definition step_chunk_size_start :: "char \<Rightarrow> exec \<Rightarrow> exec \<times> outcome" where
  "step_chunk_size_start ch x =
     (if nread x \<noteq> 1 \<or> \<not> f_chunked x then (x, Asserts)
      else
        (case unhex ch of
           None \<Rightarrow> (x, Fails HPE_INVALID_CHUNK_SIZE)
         | Some v \<Rightarrow> (x\<lparr>content_length := v, hp_state := s_chunk_size\<rparr>, Next)))"

definition step_chunk_size :: "char \<Rightarrow> exec \<Rightarrow> exec \<times> outcome" where
  "step_chunk_size ch x =
     (if \<not> f_chunked x then (x, Asserts)
      else if ch = CR then (x\<lparr>hp_state := s_chunk_size_almost_done\<rparr>, Next)
      else
        (case unhex ch of
           None \<Rightarrow>
             if ch = CHR '';'' \<or> ch = CHR '' '' then (x\<lparr>hp_state := s_chunk_parameters\<rparr>, Next)
             else (x, Fails HPE_INVALID_CHUNK_SIZE)
         | Some v \<Rightarrow>
             if (ULLONG_MAX - 16) div 16 < content_length x then (x, Fails HPE_INVALID_CONTENT_LENGTH)
             else (x\<lparr>content_length := (content_length x * 16 + v) mod 2 ^ 64\<rparr>, Next)))"

definition step_chunk_parameters :: "char \<Rightarrow> exec \<Rightarrow> exec \<times> outcome" where
  "step_chunk_parameters ch x =
     (if \<not> f_chunked x then (x, Asserts)
      else if ch = CR then (x\<lparr>hp_state := s_chunk_size_almost_done\<rparr>, Next)
      else (x, Next))"

definition step_chunk_size_almost_done :: "char \<Rightarrow> exec \<Rightarrow> exec \<times> outcome" where
  "step_chunk_size_almost_done ch x =
     (if \<not> f_chunked x then (x, Asserts)
      else if ch \<noteq> LF then (x, Fails HPE_STRICT)
      else if content_length x = 0 then (x\<lparr>nread := 0, f_trailing := True, hp_state := s_header_field_start\<rparr>, Next)
      else (x\<lparr>nread := 0, hp_state := s_chunk_data\<rparr>, Next))"

definition step_chunk_data :: "bytes \<Rightarrow> exec \<Rightarrow> exec \<times> outcome" where
  "step_chunk_data data x =
     (let to_read = min (content_length x) (length data - pos x)
      in if \<not> f_chunked x \<or> content_length x = 0 \<or> content_length x = ULLONG_MAX then (x, Asserts)
         else
           let x1 = x\<lparr>body_mark := mark (body_mark x) (pos x), content_length := content_length x - to_read,
                      pos := pos x + to_read - 1\<rparr>
           in (if content_length x1 = 0 then x1\<lparr>hp_state := s_chunk_data_almost_done\<rparr> else x1, Next))"

definition step_chunk_data_almost_done :: "bytes \<Rightarrow> char \<Rightarrow> exec \<Rightarrow> exec \<times> outcome" where
  "step_chunk_data_almost_done data ch x =
     (if \<not> f_chunked x \<or> content_length x \<noteq> 0 then (x, Asserts)
      else if ch \<noteq> CR then (x, Fails HPE_STRICT)
      else (call_body data (pos x) (x\<lparr>hp_state := s_chunk_data_done\<rparr>), Next))"

definition step_chunk_data_done :: "char \<Rightarrow> exec \<Rightarrow> exec \<times> outcome" where
  "step_chunk_data_done ch x =
     (if \<not> f_chunked x then (x, Asserts)
      else if ch \<noteq> LF then (x, Fails HPE_STRICT)
      else (x\<lparr>nread := 0, hp_state := s_chunk_size_start\<rparr>, Next))"

section \<open>The whole parser\<close>

text \<open>The switch over the state.\<close>

definition exec_state :: "bytes \<Rightarrow> char \<Rightarrow> exec \<Rightarrow> exec \<times> outcome" where
  "exec_state data ch x =
     (case hp_state x of
        s_dead \<Rightarrow> step_dead ch x
      | s_start_req_or_res \<Rightarrow> step_start_req_or_res ch x
      | s_res_or_resp_H \<Rightarrow> step_res_or_resp_H ch x
      | s_start_res \<Rightarrow> step_start_res ch x
      | s_res_H \<Rightarrow> expect (ch = CHR ''T'') s_res_HT x
      | s_res_HT \<Rightarrow> expect (ch = CHR ''T'') s_res_HTT x
      | s_res_HTT \<Rightarrow> expect (ch = CHR ''P'') s_res_HTTP x
      | s_res_HTTP \<Rightarrow> expect (ch = CHR ''/'') s_res_first_http_major x
      | s_res_first_http_major \<Rightarrow> first_major 0 s_res_http_major ch x
      | s_res_http_major \<Rightarrow> more_major s_res_first_http_minor ch x
      | s_res_first_http_minor \<Rightarrow> first_minor s_res_http_minor ch x
      | s_res_http_minor \<Rightarrow> step_res_http_minor ch x
      | s_res_first_status_code \<Rightarrow> step_res_first_status_code ch x
      | s_res_status_code \<Rightarrow> step_res_status_code ch x
      | s_res_status_start \<Rightarrow> step_res_status_start ch x
      | s_res_status \<Rightarrow> step_res_status ch x
      | s_res_line_almost_done \<Rightarrow> expect (ch = LF) s_header_field_start x
      | s_start_req \<Rightarrow> step_start_req ch x
      | s_req_method \<Rightarrow> step_req_method ch x
      | s_req_spaces_before_url \<Rightarrow> step_spaces_before_url ch x
      | s_req_schema \<Rightarrow> step_schema ch x
      | s_req_schema_slash \<Rightarrow> step_schema ch x
      | s_req_schema_slash_slash \<Rightarrow> step_schema ch x
      | s_req_server_start \<Rightarrow> step_schema ch x
      | s_req_server \<Rightarrow> step_url data ch x
      | s_req_server_with_at \<Rightarrow> step_url data ch x
      | s_req_path \<Rightarrow> step_url data ch x
      | s_req_query_string_start \<Rightarrow> step_url data ch x
      | s_req_query_string \<Rightarrow> step_url data ch x
      | s_req_fragment_start \<Rightarrow> step_url data ch x
      | s_req_fragment \<Rightarrow> step_url data ch x
      | s_req_http_start \<Rightarrow> step_req_http_start ch x
      | s_req_http_H \<Rightarrow> expect (ch = CHR ''T'') s_req_http_HT x
      | s_req_http_HT \<Rightarrow> expect (ch = CHR ''T'') s_req_http_HTT x
      | s_req_http_HTT \<Rightarrow> expect (ch = CHR ''P'') s_req_http_HTTP x
      | s_req_http_HTTP \<Rightarrow> expect (ch = CHR ''/'') s_req_first_http_major x
      | s_req_first_http_major \<Rightarrow> first_major 1 s_req_http_major ch x
      | s_req_http_major \<Rightarrow> more_major s_req_first_http_minor ch x
      | s_req_first_http_minor \<Rightarrow> first_minor s_req_http_minor ch x
      | s_req_http_minor \<Rightarrow> step_req_http_minor ch x
      | s_req_line_almost_done \<Rightarrow> step_req_line_almost_done ch x
      | s_header_field_start \<Rightarrow> step_header_field_start ch x
      | s_header_field \<Rightarrow> step_header_field data ch x
      | s_header_value_discard_ws \<Rightarrow> step_discard_ws ch x
      | s_header_value_start \<Rightarrow> step_header_value_start ch x
      | s_header_value \<Rightarrow> step_header_value data ch x
      | s_header_almost_done \<Rightarrow> expect (ch = LF) s_header_value_lws x
      | s_header_value_lws \<Rightarrow> step_header_value_lws ch x
      | s_header_value_discard_ws_almost_done \<Rightarrow> expect (ch = LF) s_header_value_discard_lws x
      | s_header_value_discard_lws \<Rightarrow> step_discard_lws data ch x
      | s_headers_almost_done \<Rightarrow> step_headers_almost_done ch x
      | s_headers_done \<Rightarrow> step_headers_done ch x
      | s_body_identity \<Rightarrow> step_body_identity data x
      | s_body_identity_eof \<Rightarrow> step_body_identity_eof data x
      | s_message_done \<Rightarrow> (complete_message x, Next)
      | s_chunk_size_start \<Rightarrow> step_chunk_size_start ch x
      | s_chunk_size \<Rightarrow> step_chunk_size ch x
      | s_chunk_parameters \<Rightarrow> step_chunk_parameters ch x
      | s_chunk_size_almost_done \<Rightarrow> step_chunk_size_almost_done ch x
      | s_chunk_data \<Rightarrow> step_chunk_data data x
      | s_chunk_data_almost_done \<Rightarrow> step_chunk_data_almost_done data ch x
      | s_chunk_data_done \<Rightarrow> step_chunk_data_done ch x)"

lemmas step_defs =
  step_dead_def step_start_req_or_res_def step_res_or_resp_H_def step_start_res_def step_start_req_def
  step_req_method_def url_char_def step_spaces_before_url_def step_schema_def step_url_def step_req_http_start_def
  first_major_def more_major_def first_minor_def more_minor_def step_req_http_minor_def step_req_line_almost_done_def
  step_res_http_minor_def step_res_first_status_code_def step_res_status_code_def step_res_status_start_def
  step_res_status_def step_header_field_start_def step_header_field_def step_header_value_start_def
  step_discard_ws_def step_header_value_def step_header_value_lws_def step_discard_lws_def
  step_headers_almost_done_def step_headers_done_def step_body_identity_def step_body_identity_eof_def
  step_chunk_size_start_def step_chunk_size_def step_chunk_parameters_def step_chunk_size_almost_done_def
  step_chunk_data_def step_chunk_data_almost_done_def step_chunk_data_done_def expect_def

lemmas call_defs =
  notify_def call_url_def call_header_field_def call_header_value_def call_body_def call_status_def clear_flags_def
  complete_message_def

text \<open>A byte is looked at again only in a state that is further on.\<close>

fun rank :: "parse_state \<Rightarrow> nat" where
  "rank s_start_req_or_res = 1"
| "rank s_header_value = 5"
| "rank s_header_value_lws = 4"
| "rank s_header_value_discard_lws = 4"
| "rank s_header_field_start = 3"
| "rank s_headers_almost_done = 2"
| "rank s_body_identity = 1"
| "rank s_headers_done = 1"
| "rank _ = 0"
end
