(* ===== verification/Http_Run.thy ===== *)
theory Http_Run
  imports Http_Parser
begin

text \<open>
  \<^verbatim>\<open>http_parser_execute\<close>: the loop over the bytes of a buffer. No assertion of the parser ever fails,
  and a run stays in its buffer.
\<close>

section \<open>The loop\<close>

lemma exec_state_again: "exec_state data ch x = (x', Again) \<Longrightarrow> rank (hp_state x') < rank (hp_state x)"
  by (cases "hp_state x")
    (auto simp: exec_state_def step_defs call_defs Let_def split: if_splits option.splits header_states.splits)

text \<open>\<^verbatim>\<open>reexecute_byte\<close>: the switch, as long as it asks for the same byte again.\<close>

function run_byte :: "bytes \<Rightarrow> char \<Rightarrow> exec \<Rightarrow> exec \<times> outcome" where
  "run_byte data ch x =
     (case exec_state data ch x of (x', r) \<Rightarrow> if r = Again then run_byte data ch x' else (x', r))"
  by pat_completeness auto
termination
  by (relation "measure (\<lambda>(data, ch, x). rank (hp_state x))") (auto dest: exec_state_again [OF sym])

declare run_byte.simps [simp del]

lemma run_byte_induct:
  assumes step: "\<And>x x' r. P x \<Longrightarrow> exec_state data ch x = (x', r) \<Longrightarrow> if r = Again then P x' else Q x' r"
    and "P x" and "run_byte data ch x = (y, r)"
  shows "Q y r"
  using assms(2,3)
proof (induction "rank (hp_state x)" arbitrary: x rule: less_induct)
  case less
  obtain x1 r1 where e: "exec_state data ch x = (x1, r1)" by fastforce
  show ?case
  proof (cases "r1 = Again")
    case True
    with step [OF less.prems(1) e] less.hyps [OF exec_state_again] e less.prems(2) show ?thesis
      by (simp add: run_byte.simps [of data ch x])
  next
    case False
    with step [OF less.prems(1) e] e less.prems(2) show ?thesis by (simp add: run_byte.simps [of data ch x])
  qed
qed

text \<open>Matching a word changes its index and the state of the header only.\<close>

lemma exec_same: "x\<lparr>hp_index := i, hp_header_state := hp_header_state x\<rparr> = x\<lparr>hp_index := i\<rparr>"
  "x\<lparr>hp_index := hp_index x, hp_header_state := h\<rparr> = x\<lparr>hp_header_state := h\<rparr>"
  "x\<lparr>hp_index := hp_index x, hp_header_state := hp_header_state x\<rparr> = x" for x :: exec
  by (cases x, simp)+

lemma match_word_frame: "\<exists>i h. match_word w m c x = x\<lparr>hp_index := i, hp_header_state := h\<rparr>"
  unfolding match_word_def Let_def by (auto intro: exec_same(1) [symmetric])

lemma field_letter_frame:
  assumes "field_letter ch c x = Some y"
  shows "\<exists>i h. y = x\<lparr>hp_index := i, hp_header_state := h\<rparr>"
proof -
  have h: "\<exists>i h. x\<lparr>hp_header_state := k\<rparr> = x\<lparr>hp_index := i, hp_header_state := h\<rparr>" for k
    using exec_same(2) by metis
  have e: "\<exists>i h. x = x\<lparr>hp_index := i, hp_header_state := h\<rparr>" using exec_same(3) by metis
  show ?thesis
    using assms match_word_frame [of _ _ c x] h e
    by (cases "hp_header_state x") (auto simp: field_letter_def Let_def split: if_splits)
qed

lemma match_word_pos [simp]: "pos (match_word w m c x) = pos x"
  using match_word_frame [of w m c x] by auto

lemma step_header_field_pos: "pos (fst (step_header_field data ch x)) = pos x"
proof -
  have "field_letter ch c x = Some y \<Longrightarrow> pos y = pos x" for c y using field_letter_frame [of ch c x y] by auto
  then show ?thesis by (simp add: step_header_field_def call_defs split: option.split)
qed

lemma step_pos:
  "pos (fst (step_dead ch x)) = pos x"
  "pos (fst (step_start_req_or_res ch x)) = pos x"
  "pos (fst (step_res_or_resp_H ch x)) = pos x"
  "pos (fst (step_start_res ch x)) = pos x"
  "pos (fst (step_start_req ch x)) = pos x"
  "pos (fst (step_req_method ch x)) = pos x"
  "pos (fst (step_spaces_before_url ch x)) = pos x"
  "pos (fst (step_schema ch x)) = pos x"
  "pos (fst (step_url data ch x)) = pos x"
  "pos (fst (step_req_http_start ch x)) = pos x"
  "pos (fst (first_major n s ch x)) = pos x"
  "pos (fst (more_major s ch x)) = pos x"
  "pos (fst (first_minor s ch x)) = pos x"
  "pos (fst (step_req_http_minor ch x)) = pos x"
  "pos (fst (step_req_line_almost_done ch x)) = pos x"
  "pos (fst (step_res_http_minor ch x)) = pos x"
  "pos (fst (step_res_first_status_code ch x)) = pos x"
  "pos (fst (step_res_status_code ch x)) = pos x"
  "pos (fst (step_res_status_start ch x)) = pos x"
  "pos (fst (step_res_status ch x)) = pos x"
  "pos (fst (step_header_field_start ch x)) = pos x"
  "pos (fst (step_discard_ws ch x)) = pos x"
  "pos (fst (step_header_value_start ch x)) = pos x"
  "pos (fst (step_header_value data ch x)) = pos x"
  "pos (fst (step_header_value_lws ch x)) = pos x"
  "pos (fst (step_discard_lws data ch x)) = pos x"
  "pos (fst (step_headers_almost_done ch x)) = pos x"
  "pos (fst (step_headers_done ch x)) = pos x"
  "pos (fst (step_chunk_size_start ch x)) = pos x"
  "pos (fst (step_chunk_size ch x)) = pos x"
  "pos (fst (step_chunk_parameters ch x)) = pos x"
  "pos (fst (step_chunk_size_almost_done ch x)) = pos x"
  "pos (fst (step_chunk_data_almost_done data ch x)) = pos x"
  "pos (fst (step_chunk_data_done ch x)) = pos x"
  "pos (fst (expect b s x)) = pos x"
  "pos (complete_message x) = pos x"
  by (simp_all add: step_defs call_defs Let_def split: option.split header_states.split)

lemmas step_pos_simps = step_pos step_header_field_pos

lemma exec_state_pos:
  assumes "pos x < length data" and e: "exec_state data ch x = (x', r)"
  shows "pos x \<le> pos x' \<and> pos x' < length data"
proof -
  have "pos x \<le> pos (fst (exec_state data ch x)) \<and> pos (fst (exec_state data ch x)) < length data"
  proof (cases "hp_state x \<in> {s_body_identity, s_body_identity_eof, s_chunk_data}")
    case True
    with assms(1) show ?thesis
      by (auto simp: exec_state_def step_body_identity_def step_body_identity_eof_def step_chunk_data_def call_defs Let_def)
  next
    case False
    then have "pos (fst (exec_state data ch x)) = pos x"
      by (cases "hp_state x") (simp_all add: exec_state_def step_pos_simps)
    with assms(1) show ?thesis by simp
  qed
  with e show ?thesis by simp
qed

lemma run_byte_pos:
  assumes "pos x < length data" and "run_byte data ch x = (y, r)"
  shows "pos x \<le> pos y \<and> pos y < length data"
proof (rule run_byte_induct [where P = "\<lambda>y. pos x \<le> pos y \<and> pos y < length data"
      and Q = "\<lambda>y r. pos x \<le> pos y \<and> pos y < length data", OF _ _ assms(2)])
  fix y y' r'
  assume "pos x \<le> pos y \<and> pos y < length data" and "exec_state data ch y = (y', r')"
  with exec_state_pos [of y data ch y' r']
  show "if r' = Again then pos x \<le> pos y' \<and> pos y' < length data else pos x \<le> pos y' \<and> pos y' < length data"
    by auto
qed (use assms(1) in simp)

text \<open>What is left of a mark when the bytes run out is handed on.\<close>

definition flush :: "bytes \<Rightarrow> exec \<Rightarrow> exec" where
  "flush data x =
     call_status (call_body data (pos x) (call_url data (call_header_value data (call_header_field data x))))"

definition marks_set :: "exec \<Rightarrow> nat" where
  "marks_set x =
     length (filter (\<lambda>m. m \<noteq> None) [header_field_mark x, header_value_mark x, url_mark x, body_mark x, status_mark x])"

definition count_byte :: "exec \<Rightarrow> exec" where
  "count_byte x = (if PARSING_HEADER (hp_state x) then x\<lparr>nread := (nread x + 1) mod 2 ^ 32\<rparr> else x)"

definition overflows :: "exec \<Rightarrow> bool" where
  "overflows x \<longleftrightarrow> PARSING_HEADER (hp_state x) \<and> nread (count_byte x) > HTTP_MAX_HEADER_SIZE"

text \<open>The number is what \<^verbatim>\<open>http_parser_execute\<close> returns: how many bytes it took.\<close>

function exec_loop :: "bytes \<Rightarrow> exec \<Rightarrow> fault + exec \<times> nat" where
  "exec_loop data x =
     (if length data \<le> pos x then
        (if marks_set x \<le> 1 then Inr (flush data x, length data) else Inl Assert_failed)
      else if overflows x then Inr ((count_byte x)\<lparr>hp_errno := HPE_HEADER_OVERFLOW\<rparr>, pos x)
      else
        (case run_byte data (data ! pos x) (count_byte x) of
           (x', r) \<Rightarrow>
             (case r of
                Next \<Rightarrow> exec_loop data (x'\<lparr>pos := Suc (pos x')\<rparr>)
              | Fails e \<Rightarrow> Inr (x'\<lparr>hp_errno := e\<rparr>, pos x')
              | Leaves n \<Rightarrow> Inr (x', n)
              | _ \<Rightarrow> Inl Assert_failed)))"
  by pat_completeness auto
termination
proof (relation "measure (\<lambda>(data, x). length data - pos x)")
  fix data :: bytes and x x' r
  assume "\<not> length data \<le> pos x" and r: "(x', r) = run_byte data (data ! pos x) (count_byte x)"
  moreover have "pos (count_byte x) = pos x" by (simp add: count_byte_def)
  ultimately have "pos x \<le> pos x'" "pos x < length data"
    using run_byte_pos [of "count_byte x" data "data ! pos x" x' r] by simp_all
  then show "((data, x'\<lparr>pos := Suc (pos x')\<rparr>), data, x) \<in> measure (\<lambda>(data, x). length data - pos x)" by simp
qed simp

declare exec_loop.simps [simp del]

lemma exec_loop_end:
  "length data \<le> pos x \<Longrightarrow> marks_set x \<le> 1 \<Longrightarrow> exec_loop data x = Inr (flush data x, length data)"
  by (simp add: exec_loop.simps)

lemma exec_loop_overflow:
  "pos x < length data \<Longrightarrow> overflows x \<Longrightarrow> exec_loop data x = Inr ((count_byte x)\<lparr>hp_errno := HPE_HEADER_OVERFLOW\<rparr>, pos x)"
  by (simp add: exec_loop.simps)

lemma exec_loop_byte:
  "pos x < length data \<Longrightarrow> \<not> overflows x \<Longrightarrow> run_byte data (data ! pos x) (count_byte x) = (x', r) \<Longrightarrow>
   exec_loop data x =
     (case r of
        Next \<Rightarrow> exec_loop data (x'\<lparr>pos := Suc (pos x')\<rparr>)
      | Fails e \<Rightarrow> Inr (x'\<lparr>hp_errno := e\<rparr>, pos x')
      | Leaves n \<Rightarrow> Inr (x', n)
      | _ \<Rightarrow> Inl Assert_failed)"
  by (subst exec_loop.simps) simp

text \<open>The states in which the data of a callback may go on from one buffer to the next.\<close>

definition url_state :: "parse_state \<Rightarrow> bool" where
  "url_state s \<longleftrightarrow> s \<in> {s_req_path, s_req_schema, s_req_schema_slash, s_req_schema_slash_slash, s_req_server_start,
     s_req_server, s_req_server_with_at, s_req_query_string_start, s_req_query_string, s_req_fragment_start,
     s_req_fragment}"

definition enter :: "raw_parser \<Rightarrow> exec" where
  "enter p = raw_parser.extend p (exec.fields 0
     (if hp_state p = s_header_field then Some 0 else None)
     (if hp_state p = s_header_value then Some 0 else None)
     (if url_state (hp_state p) then Some 0 else None)
     None
     (if hp_state p = s_res_status then Some 0 else None) [])"

definition http_parser_execute :: "raw_parser \<Rightarrow> bytes \<Rightarrow> fault + raw_parser \<times> parser_event list \<times> nat" where
  "http_parser_execute p data =
     (if hp_errno p \<noteq> HPE_OK then Inr (p, [], 0)
      else if data = [] then
        (case hp_state p of
           s_body_identity_eof \<Rightarrow> Inr (p, [Message_complete (crow_method (hp_method p))], 0)
         | s_dead \<Rightarrow> Inr (p, [], 0)
         | s_start_req_or_res \<Rightarrow> Inr (p, [], 0)
         | s_start_res \<Rightarrow> Inr (p, [], 0)
         | s_start_req \<Rightarrow> Inr (p, [], 0)
         | _ \<Rightarrow> Inr (p\<lparr>hp_errno := HPE_INVALID_EOF_STATE\<rparr>, [], 1))
      else
        (case exec_loop data (enter p) of
           Inl f \<Rightarrow> Inl f
         | Inr (x, n) \<Rightarrow> Inr (raw_parser.truncate x, called x, n)))"

end
