(* ===== verification/Http_Safety.thy ===== *)
theory Http_Safety
  imports Http_Run
begin

text \<open>
  What holds of the parser between two bytes, and that every step keeps it: no assertion fails, the
  lengths stay in their 64 bits, a mark is set exactly while data of its kind are read, and
  the parser of a server never gets into the states of a response.
\<close>

section \<open>The invariant\<close>

definition response_state :: "parse_state \<Rightarrow> bool" where
  "response_state s \<longleftrightarrow> s \<in> {s_start_req_or_res, s_res_or_resp_H, s_start_res, s_res_H, s_res_HT, s_res_HTT, s_res_HTTP,
     s_res_first_http_major, s_res_http_major, s_res_first_http_minor, s_res_http_minor, s_res_first_status_code,
     s_res_status_code, s_res_status_start, s_res_status, s_res_line_almost_done, s_body_identity_eof}"

definition name_state :: "header_states \<Rightarrow> bool" where
  "name_state h \<longleftrightarrow> h \<in> {h_general, h_C, h_CO, h_CON, h_matching_connection, h_matching_proxy_connection,
     h_matching_content_length, h_matching_transfer_encoding, h_matching_upgrade, h_connection, h_content_length,
     h_transfer_encoding, h_upgrade}"

text \<open>\<open>k\<close> is the count of the bytes of a chunk's size that were read.\<close>

definition wf_state :: "nat \<Rightarrow> 'a raw_parser_scheme \<Rightarrow> bool" where
  "wf_state k x =
     (case hp_state x of
        s_req_method \<Rightarrow> hp_index x \<le> length (method_string (hp_method x))
      | s_header_field \<Rightarrow> name_state (hp_header_state x)
      | s_header_value \<Rightarrow> hp_header_state x \<noteq> h_connection \<and> hp_header_state x \<noteq> h_transfer_encoding
      | s_chunk_size_start \<Rightarrow> f_chunked x \<and> nread x = k
      | s_chunk_size \<Rightarrow> f_chunked x \<and> content_length x < ULLONG_MAX
      | s_chunk_parameters \<Rightarrow> f_chunked x \<and> content_length x < ULLONG_MAX
      | s_chunk_size_almost_done \<Rightarrow> f_chunked x \<and> content_length x < ULLONG_MAX
      | s_chunk_data \<Rightarrow> f_chunked x \<and> 0 < content_length x \<and> content_length x < ULLONG_MAX
      | s_chunk_data_almost_done \<Rightarrow> f_chunked x \<and> content_length x = 0
      | s_chunk_data_done \<Rightarrow> f_chunked x
      | s_body_identity \<Rightarrow> 0 < content_length x \<and> content_length x < ULLONG_MAX
      | _ \<Rightarrow> True)"

definition wf_raw :: "nat \<Rightarrow> 'a raw_parser_scheme \<Rightarrow> bool" where
  "wf_raw k x \<longleftrightarrow> content_length x \<le> ULLONG_MAX \<and> wf_state k x \<and>
     (hp_type x = HTTP_REQUEST \<longrightarrow> \<not> response_state (hp_state x))"

definition body_state :: "parse_state \<Rightarrow> bool" where
  "body_state s \<longleftrightarrow> s \<in> {s_body_identity, s_body_identity_eof, s_chunk_data, s_chunk_data_almost_done}"

definition behind :: "nat \<Rightarrow> nat option \<Rightarrow> bool" where
  "behind p m \<longleftrightarrow> (case m of None \<Rightarrow> True | Some k \<Rightarrow> k \<le> p)"

definition marks_ok :: "exec \<Rightarrow> bool" where
  "marks_ok x \<longleftrightarrow>
     (header_field_mark x \<noteq> None \<longleftrightarrow> hp_state x = s_header_field) \<and>
     (header_value_mark x \<noteq> None \<longleftrightarrow> hp_state x = s_header_value) \<and>
     (url_mark x \<noteq> None \<longleftrightarrow> url_state (hp_state x)) \<and>
     (body_mark x \<noteq> None \<longrightarrow> body_state (hp_state x)) \<and>
     (status_mark x \<noteq> None \<longleftrightarrow> hp_state x = s_res_status) \<and>
     behind (pos x) (header_field_mark x) \<and> behind (pos x) (header_value_mark x) \<and> behind (pos x) (url_mark x) \<and>
     behind (pos x) (body_mark x)"

definition wf_exec :: "nat \<Rightarrow> exec \<Rightarrow> bool" where
  "wf_exec k x \<longleftrightarrow> wf_raw k x \<and> marks_ok x"

text \<open>How a step may end.\<close>

definition sound :: "exec \<times> outcome \<Rightarrow> bool" where
  "sound yr =
     (case snd yr of
        Asserts \<Rightarrow> False
      | Fails e \<Rightarrow> e \<noteq> HPE_OK
      | Again \<Rightarrow> wf_exec 1 (fst yr)
      | Next \<Rightarrow> wf_exec 0 (fst yr)
      | Leaves n \<Rightarrow> wf_exec 0 (fst yr) \<and> marks_set (fst yr) = 0 \<and> n = pos (fst yr) + 1)"

lemma sound_simps [simp]:
  "\<not> sound (x, Asserts)" "sound (x, Fails e) \<longleftrightarrow> e \<noteq> HPE_OK" "sound (x, Again) \<longleftrightarrow> wf_exec 1 x"
  "sound (x, Next) \<longleftrightarrow> wf_exec 0 x" "sound (x, Leaves n) \<longleftrightarrow> wf_exec 0 x \<and> marks_set x = 0 \<and> n = pos x + 1"
  by (simp_all add: sound_def)

lemma behind_simps [simp]: "behind p None" "behind p (Some k) \<longleftrightarrow> k \<le> p" "behind p (mark m p) \<longleftrightarrow> behind p m"
  by (simp_all add: behind_def mark_def split: option.split)

lemma mark_simps [simp]: "mark m p \<noteq> None" "mark (Some k) p = Some k" "mark None p = Some p"
  by (simp_all add: mark_def split: option.split)

lemma behind_later: "behind p m \<Longrightarrow> p \<le> q \<Longrightarrow> behind q m"
  by (auto simp: behind_def split: option.splits)

lemma behind_mark_later: "behind p m \<Longrightarrow> p \<le> q \<Longrightarrow> behind q (mark m p)"
  by (auto simp: behind_def mark_def split: option.splits)

lemma parse_url_char_cases: "parse_url_char s ch = s_dead \<or> url_state (parse_url_char s ch)"
  by (cases s) (simp_all add: parse_url_char.simps url_state_def)

section \<open>One step\<close>

lemmas wf_defs = wf_exec_def wf_raw_def wf_state_def marks_ok_def response_state_def url_state_def body_state_def

lemma new_message_states: "NEW_MESSAGE x \<in> {s_dead, s_start_req, s_start_res}"
  "hp_type x = HTTP_REQUEST \<Longrightarrow> NEW_MESSAGE x \<noteq> s_start_res"
  by (simp_all add: NEW_MESSAGE_def)

lemma complete_message_wf:
  assumes "content_length x \<le> ULLONG_MAX" and "header_field_mark x = None" "header_value_mark x = None" "url_mark x = None"
    "body_mark x = None" "status_mark x = None"
  shows "wf_exec k (complete_message x)" "marks_set (complete_message x) = 0" "pos (complete_message x) = pos x"
  using new_message_states [of x] assms
  by (auto simp: wf_defs complete_message_def notify_def marks_set_def)

lemma method_length [simp]: "Suc 0 \<le> length (method_string m)" "length (method_string m) \<le> 11"
  by (cases m; simp)+

lemma sound_start:
  "wf_exec 1 x \<Longrightarrow> hp_state x = s_dead \<Longrightarrow> sound (step_dead ch x)"
  "wf_exec 1 x \<Longrightarrow> hp_state x = s_start_req_or_res \<Longrightarrow> sound (step_start_req_or_res ch x)"
  "wf_exec 1 x \<Longrightarrow> hp_state x = s_res_or_resp_H \<Longrightarrow> sound (step_res_or_resp_H ch x)"
  "wf_exec 1 x \<Longrightarrow> hp_state x = s_start_res \<Longrightarrow> sound (step_start_res ch x)"
  "wf_exec 1 x \<Longrightarrow> hp_state x = s_start_req \<Longrightarrow> sound (step_start_req ch x)"
  by (simp_all add: step_defs call_defs wf_defs Let_def split: option.split)

lemma c_at_not_null: "c_at (method_string m) i \<noteq> CHR 0x00 \<longleftrightarrow> i < length (method_string m)"
proof -
  have "list_all (\<lambda>c. c \<noteq> CHR 0x00) (method_string m)" by (cases m) simp_all
  then show ?thesis by (auto simp: c_at_def list_all_length)
qed

text \<open>Where one method gives way to another, the other one is longer than what was read.\<close>

lemma other_method_length: "other_method m i ch = Some m' \<Longrightarrow> Suc i \<le> length (method_string m')"
  by (auto simp: other_method_def split: if_splits)

lemma sound_req_method:
  assumes "wf_exec 1 x" and "hp_state x = s_req_method"
  shows "sound (step_req_method ch x)"
proof -
  have i: "hp_index x \<le> length (method_string (hp_method x))" using assms by (simp add: wf_defs)
  then have "Suc (hp_index x) mod 256 = Suc (hp_index x)"
    using le_trans [OF i method_length(2)] by (intro mod_less) simp
  moreover have "ch \<noteq> CHR 0x00 \<Longrightarrow> ch = c_at (method_string (hp_method x)) (hp_index x) \<Longrightarrow>
    Suc (hp_index x) \<le> length (method_string (hp_method x))"
    using c_at_not_null [of "hp_method x" "hp_index x"] by simp
  ultimately show ?thesis
    using assms other_method_length [of "hp_method x" "hp_index x" ch]
    by (simp add: step_req_method_def wf_defs Let_def split: option.split)
qed

lemma url_state_facts:
  assumes "url_state s"
  shows "\<not> response_state s" "\<not> body_state s" "s \<noteq> s_header_field" "s \<noteq> s_header_value" "s \<noteq> s_res_status"
  using assms by (auto simp: url_state_def response_state_def body_state_def)

lemma url_state_wf: "url_state (hp_state x) \<Longrightarrow> wf_state k x"
  by (auto simp: url_state_def wf_state_def)

lemma sound_url_char:
  assumes "content_length x \<le> ULLONG_MAX" "header_field_mark x = None" "header_value_mark x = None" "url_mark x \<noteq> None"
    "body_mark x = None" "status_mark x = None" "behind (pos x) (url_mark x)"
  shows "sound (url_char ch x)"
proof (cases "parse_url_char (hp_state x) ch = s_dead")
  case False
  then have "url_state (parse_url_char (hp_state x) ch)" using parse_url_char_cases by blast
  with assms url_state_facts [OF this] show ?thesis
    by (simp add: url_char_def wf_exec_def wf_raw_def marks_ok_def url_state_wf Let_def)
qed (simp add: url_char_def)

lemma sound_url:
  "wf_exec 1 x \<Longrightarrow> hp_state x = s_req_spaces_before_url \<Longrightarrow> sound (step_spaces_before_url ch x)"
  "wf_exec 1 x \<Longrightarrow> url_state (hp_state x) \<Longrightarrow> sound (step_schema ch x)"
  "wf_exec 1 x \<Longrightarrow> url_state (hp_state x) \<Longrightarrow> sound (step_url data ch x)"
proof -
  show "wf_exec 1 x \<Longrightarrow> hp_state x = s_req_spaces_before_url \<Longrightarrow> sound (step_spaces_before_url ch x)"
    unfolding step_spaces_before_url_def Let_def
    by (simp, intro conjI impI sound_url_char) (simp_all add: wf_exec_def wf_raw_def wf_state_def marks_ok_def url_state_def body_state_def)
  have u: "sound (url_char ch x)" if "wf_exec 1 x" "url_state (hp_state x)"
    using that url_state_facts [OF that(2)] by (intro sound_url_char) (simp_all add: wf_exec_def wf_raw_def marks_ok_def)
  show "wf_exec 1 x \<Longrightarrow> url_state (hp_state x) \<Longrightarrow> sound (step_schema ch x)"
    using u by (simp add: step_schema_def)
  have "wf_exec 0 (call_url data (x\<lparr>hp_state := s_req_http_start\<rparr>))"
    "wf_exec 0 (call_url data (x\<lparr>http_major := 0, http_minor := 9, hp_state := s_req_line_almost_done\<rparr>))"
    "wf_exec 0 (call_url data (x\<lparr>http_major := 0, http_minor := 9, hp_state := s_header_field_start\<rparr>))"
    if "wf_exec 1 x" "url_state (hp_state x)"
    using that url_state_facts [OF that(2)]
    by (auto simp: call_url_def wf_exec_def wf_raw_def marks_ok_def wf_state_def response_state_def url_state_def)
  with u show "wf_exec 1 x \<Longrightarrow> url_state (hp_state x) \<Longrightarrow> sound (step_url data ch x)"
    by (simp add: step_url_def)
qed

lemma sound_line:
  "wf_exec 1 x \<Longrightarrow> hp_state x = s_req_http_start \<Longrightarrow> sound (step_req_http_start ch x)"
  "wf_exec 1 x \<Longrightarrow> hp_state x = s_req_first_http_major \<Longrightarrow> sound (first_major n s_req_http_major ch x)"
  "wf_exec 1 x \<Longrightarrow> hp_state x = s_req_http_major \<Longrightarrow> sound (more_major s_req_first_http_minor ch x)"
  "wf_exec 1 x \<Longrightarrow> hp_state x = s_req_first_http_minor \<Longrightarrow> sound (first_minor s_req_http_minor ch x)"
  "wf_exec 1 x \<Longrightarrow> hp_state x = s_req_http_minor \<Longrightarrow> sound (step_req_http_minor ch x)"
  "wf_exec 1 x \<Longrightarrow> hp_state x = s_req_line_almost_done \<Longrightarrow> sound (step_req_line_almost_done ch x)"
  "wf_exec 1 x \<Longrightarrow> hp_state x = s_res_first_http_major \<Longrightarrow> sound (first_major n s_res_http_major ch x)"
  "wf_exec 1 x \<Longrightarrow> hp_state x = s_res_http_major \<Longrightarrow> sound (more_major s_res_first_http_minor ch x)"
  "wf_exec 1 x \<Longrightarrow> hp_state x = s_res_first_http_minor \<Longrightarrow> sound (first_minor s_res_http_minor ch x)"
  "wf_exec 1 x \<Longrightarrow> hp_state x = s_res_http_minor \<Longrightarrow> sound (step_res_http_minor ch x)"
  "wf_exec 1 x \<Longrightarrow> hp_state x = s_res_first_status_code \<Longrightarrow> sound (step_res_first_status_code ch x)"
  "wf_exec 1 x \<Longrightarrow> hp_state x = s_res_status_code \<Longrightarrow> sound (step_res_status_code ch x)"
  "wf_exec 1 x \<Longrightarrow> hp_state x = s_res_status_start \<Longrightarrow> sound (step_res_status_start ch x)"
  "wf_exec 1 x \<Longrightarrow> hp_state x = s_res_status \<Longrightarrow> sound (step_res_status ch x)"
  by (simp_all add: step_defs call_defs wf_defs Let_def)

lemma sound_header_field_start:
  "wf_exec 1 x \<Longrightarrow> hp_state x = s_header_field_start \<Longrightarrow> sound (step_header_field_start ch x)"
  by (simp add: step_header_field_start_def wf_defs name_state_def split: option.split)

text \<open>In a name, only the states of names are matched.\<close>

lemma match_word_name: "name_state m \<Longrightarrow> name_state (hp_header_state x) \<Longrightarrow> name_state (hp_header_state (match_word w m c x))"
  by (simp add: match_word_def name_state_def Let_def)

lemma field_letter_name:
  "name_state (hp_header_state x) \<Longrightarrow> \<exists>y. field_letter ch c x = Some y \<and> name_state (hp_header_state y)"
proof -
  assume n: "name_state (hp_header_state x)"
  note match_word_name [OF _ n]
  with n show ?thesis
    by (cases "hp_header_state x") (simp_all add: field_letter_def name_state_def Let_def)
qed

lemma frame_wf:
  "hp_state x = s_header_field \<Longrightarrow> wf_exec 1 x \<Longrightarrow> name_state h \<Longrightarrow> wf_exec 0 (x\<lparr>hp_index := i, hp_header_state := h\<rparr>)"
  by (simp add: wf_defs)

lemma sound_header_field:
  assumes "wf_exec 1 x" and "hp_state x = s_header_field"
  shows "sound (step_header_field data ch x)"
proof (cases "token ch")
  case None
  with assms show ?thesis by (simp add: step_header_field_def call_defs wf_defs)
next
  case (Some c)
  from assms field_letter_name [of x ch c] obtain y where y: "field_letter ch c x = Some y" "name_state (hp_header_state y)"
    by (auto simp: wf_defs)
  from field_letter_frame [OF y(1)] obtain i h where "y = x\<lparr>hp_index := i, hp_header_state := h\<rparr>" by blast
  with y Some assms frame_wf [of x h i] show ?thesis by (simp add: step_header_field_def)
qed

lemma digit_small: "is_digit c \<Longrightarrow> digit_val c < 10"
  by (auto simp: is_digit_def digit_val_def)

lemma sound_header_value_start:
  assumes "wf_exec 1 x" and "hp_state x = s_header_value_start \<or> hp_state x = s_header_value_discard_ws"
  shows "sound (step_header_value_start ch x)"
proof -
  have d: "is_digit ch \<Longrightarrow> digit_val ch \<le> ULLONG_MAX" using digit_small [of ch] by (simp add: ULLONG_MAX_def)
  from assms(2) show ?thesis
    using assms(1) d by (elim disjE; cases "hp_header_state x") (simp_all add: step_header_value_start_def wf_defs Let_def)
qed

lemma sound_discard_ws: "wf_exec 1 x \<Longrightarrow> hp_state x = s_header_value_discard_ws \<Longrightarrow> sound (step_discard_ws ch x)"
  using sound_header_value_start [of x ch] by (simp add: step_discard_ws_def wf_defs)

text \<open>In a value, the states of the two words that are looked for do not come back.\<close>

lemma match_word_value:
  "m \<noteq> h_connection \<Longrightarrow> m \<noteq> h_transfer_encoding \<Longrightarrow> hp_header_state x \<noteq> h_connection \<Longrightarrow>
   hp_header_state x \<noteq> h_transfer_encoding \<Longrightarrow> hp_state x = s_header_value \<Longrightarrow> wf_exec 1 x \<Longrightarrow> wf_exec 0 (match_word w m c x)"
  by (simp add: match_word_def wf_defs Let_def)

lemma sound_header_value:
  assumes "wf_exec 1 x" and "hp_state x = s_header_value"
  shows "sound (step_header_value data ch x)"
proof -
  have "(content_length x * 10 + digit_val ch) mod 2 ^ 64 \<le> ULLONG_MAX" by (simp add: ULLONG_MAX_def)
  with assms match_word_value [of _ x] show ?thesis
    by (cases "hp_header_state x") (simp_all add: step_header_value_def call_defs wf_defs Let_def)
qed

lemma sound_header_end:
  "wf_exec 1 x \<Longrightarrow> hp_state x = s_header_value_lws \<Longrightarrow> sound (step_header_value_lws ch x)"
  "wf_exec 1 x \<Longrightarrow> hp_state x = s_header_value_discard_lws \<Longrightarrow> sound (step_discard_lws data ch x)"
  "wf_exec 1 x \<Longrightarrow> hp_state x = s_header_almost_done \<Longrightarrow> sound (expect b s_header_value_lws x)"
  "wf_exec 1 x \<Longrightarrow> hp_state x = s_header_value_discard_ws_almost_done \<Longrightarrow> sound (expect b s_header_value_discard_lws x)"
  by (simp_all add: step_defs call_defs wf_defs split: header_states.split)

lemma sound_headers_end:
  assumes "wf_exec 1 x"
  shows "hp_state x = s_headers_almost_done \<Longrightarrow> sound (step_headers_almost_done ch x)"
    and "hp_state x = s_headers_done \<Longrightarrow> sound (step_headers_done ch x)"
    and "hp_state x = s_message_done \<Longrightarrow> wf_exec 0 (complete_message x)"
proof -
  show "hp_state x = s_headers_almost_done \<Longrightarrow> sound (step_headers_almost_done ch x)"
    using assms complete_message_wf(1) [of x 0] complete_message_wf(2,3) [of x] by (simp add: step_headers_almost_done_def notify_def wf_defs)
  show "hp_state x = s_headers_done \<Longrightarrow> sound (step_headers_done ch x)"
    using assms complete_message_wf(1) [of "x\<lparr>nread := 0\<rparr>" 0] complete_message_wf(2,3) [of "x\<lparr>nread := 0\<rparr>"]
    by (simp add: step_headers_done_def Let_def) (simp add: wf_defs)
  show "hp_state x = s_message_done \<Longrightarrow> wf_exec 0 (complete_message x)"
    using assms complete_message_wf(1) [of x 0] complete_message_wf(2,3) [of x] by (simp add: wf_defs)
qed

lemma unhex_small: "unhex c = Some v \<Longrightarrow> v < 16"
  by (auto simp: unhex_def Let_def split: if_splits)

lemma chunk_size_bound:
  assumes "\<not> (ULLONG_MAX - 16) div 16 < n" and "v < 16"
  shows "(n * 16 + v) mod 2 ^ 64 < ULLONG_MAX"
proof -
  have "n * 16 + v < 2 ^ 64 - 1" using assms by (simp add: ULLONG_MAX_def)
  then show ?thesis by (simp add: ULLONG_MAX_def)
qed

lemma sound_body:
  assumes "wf_exec 1 x" and "pos x < length data"
  shows "hp_state x = s_body_identity \<Longrightarrow> sound (step_body_identity data x)"
    and "hp_state x = s_body_identity_eof \<Longrightarrow> sound (step_body_identity_eof data x)"
    and "hp_state x = s_chunk_data \<Longrightarrow> sound (step_chunk_data data x)"
  using assms
  by (auto simp: step_defs call_defs wf_defs Let_def intro!: behind_mark_later)

lemma sound_chunks:
  "wf_exec 1 x \<Longrightarrow> hp_state x = s_chunk_size_start \<Longrightarrow> sound (step_chunk_size_start ch x)"
  "wf_exec 1 x \<Longrightarrow> hp_state x = s_chunk_size \<Longrightarrow> sound (step_chunk_size ch x)"
  "wf_exec 1 x \<Longrightarrow> hp_state x = s_chunk_parameters \<Longrightarrow> sound (step_chunk_parameters ch x)"
  "wf_exec 1 x \<Longrightarrow> hp_state x = s_chunk_size_almost_done \<Longrightarrow> sound (step_chunk_size_almost_done ch x)"
  "wf_exec 1 x \<Longrightarrow> hp_state x = s_chunk_data_almost_done \<Longrightarrow> sound (step_chunk_data_almost_done data ch x)"
  "wf_exec 1 x \<Longrightarrow> hp_state x = s_chunk_data_done \<Longrightarrow> sound (step_chunk_data_done ch x)"
proof -
  have u: "unhex ch = Some v \<Longrightarrow> v < ULLONG_MAX" "unhex ch = Some v \<Longrightarrow> v \<le> ULLONG_MAX" for v
    using unhex_small [of ch v] by (simp_all add: ULLONG_MAX_def)
  have b: "unhex ch = Some v \<Longrightarrow> \<not> (ULLONG_MAX - 16) div 16 < n \<Longrightarrow> (n * 16 + v) mod 2 ^ 64 < ULLONG_MAX" for n v
    using unhex_small chunk_size_bound by blast
  show "wf_exec 1 x \<Longrightarrow> hp_state x = s_chunk_size_start \<Longrightarrow> sound (step_chunk_size_start ch x)"
    using u by (simp add: step_chunk_size_start_def wf_defs split: option.split)
  show "wf_exec 1 x \<Longrightarrow> hp_state x = s_chunk_size \<Longrightarrow> sound (step_chunk_size ch x)"
    using b less_imp_le [OF b] by (simp add: step_chunk_size_def wf_defs split: option.split)
  show "wf_exec 1 x \<Longrightarrow> hp_state x = s_chunk_parameters \<Longrightarrow> sound (step_chunk_parameters ch x)"
    "wf_exec 1 x \<Longrightarrow> hp_state x = s_chunk_size_almost_done \<Longrightarrow> sound (step_chunk_size_almost_done ch x)"
    "wf_exec 1 x \<Longrightarrow> hp_state x = s_chunk_data_almost_done \<Longrightarrow> sound (step_chunk_data_almost_done data ch x)"
    "wf_exec 1 x \<Longrightarrow> hp_state x = s_chunk_data_done \<Longrightarrow> sound (step_chunk_data_done ch x)"
    by (simp_all add: step_defs call_defs wf_defs)
qed

lemma sound_expect:
  "wf_exec 1 x \<Longrightarrow> hp_state x \<in> {s_res_H, s_res_HT, s_res_HTT, s_res_HTTP, s_res_line_almost_done, s_req_http_H, s_req_http_HT,
     s_req_http_HTT, s_req_http_HTTP} \<Longrightarrow>
   s \<in> {s_res_HT, s_res_HTT, s_res_HTTP, s_res_first_http_major} \<and> response_state (hp_state x) \<or>
   s \<in> {s_header_field_start, s_req_http_HT, s_req_http_HTT, s_req_http_HTTP, s_req_first_http_major} \<Longrightarrow>
   sound (expect b s x)"
  by (cases "hp_state x") (auto simp: expect_def wf_defs)

lemmas step_sound = sound_start sound_req_method sound_url sound_line sound_header_field_start sound_header_field
  sound_header_value_start sound_discard_ws sound_header_value sound_header_end sound_headers_end sound_body sound_chunks sound_expect

lemma exec_state_sound:
  assumes "wf_exec 1 x" and "pos x < length data"
  shows "sound (exec_state data ch x)"
  using assms
  by (cases "hp_state x") (simp_all add: exec_state_def step_sound url_state_def response_state_def del: One_nat_def)

section \<open>Whole runs\<close>

lemma run_byte_sound:
  assumes "wf_exec 1 x" and "pos x < length data" and r: "run_byte data ch x = (y, r)"
  shows "sound (y, r) \<and> r \<noteq> Again"
proof (rule run_byte_induct [where P = "\<lambda>x. wf_exec 1 x \<and> pos x < length data" and Q = "\<lambda>y r. sound (y, r) \<and> r \<noteq> Again", OF _ _ r])
  fix x x' r
  assume x: "wf_exec 1 x \<and> pos x < length data" and e: "exec_state data ch x = (x', r)"
  then have "sound (x', r)" using exec_state_sound [of x data ch] by simp
  with x e exec_state_pos [of x data ch x' r]
  show "if r = Again then wf_exec 1 x' \<and> pos x' < length data else sound (x', r) \<and> r \<noteq> Again" by auto
qed (use assms in simp)

lemma count_byte_wf: "wf_exec 0 x \<Longrightarrow> wf_exec 1 (count_byte x)"
  by (cases "hp_state x") (simp_all add: count_byte_def PARSING_HEADER_def wf_defs)

lemma next_byte_wf: "wf_exec 0 x \<Longrightarrow> wf_exec 0 (x\<lparr>pos := Suc (pos x)\<rparr>)"
  by (cases "hp_state x")
    (auto simp: wf_exec_def wf_raw_def wf_state_def marks_ok_def behind_def split: option.splits)

lemma marks_ok_one: "marks_ok x \<Longrightarrow> marks_set x \<le> 1"
  by (cases "hp_state x") (auto simp: marks_ok_def marks_set_def url_state_def body_state_def)

lemma flush_raw: "raw_parser.truncate (flush data x) = raw_parser.truncate x"
  by (simp add: flush_def call_defs raw_parser.defs)

lemma wf_raw_truncate: "wf_raw k (raw_parser.truncate x) \<longleftrightarrow> wf_raw k x"
  by (cases "hp_state x") (simp_all add: wf_raw_def wf_state_def raw_parser.defs)

text \<open>What a parser is between two buffers.\<close>

definition wf_parser :: "raw_parser \<Rightarrow> bool" where
  "wf_parser p \<longleftrightarrow> hp_errno p \<noteq> HPE_OK \<or> wf_raw 0 p"

lemma exec_loop_sound:
  "wf_exec 0 x \<Longrightarrow> pos x \<le> length data \<Longrightarrow>
   \<exists>y n. exec_loop data x = Inr (y, n) \<and> n \<le> length data \<and> wf_parser (raw_parser.truncate y)"
proof (induction data x rule: exec_loop.induct)
  case (1 data x)
  consider (finished) "length data \<le> pos x" | (overflow) "pos x < length data" "overflows x"
    | (byte) "pos x < length data" "\<not> overflows x"
    by linarith
  then show ?case
  proof cases
    case finished
    have "wf_raw 0 (raw_parser.truncate x)" using 1(2) by (simp add: wf_raw_truncate wf_exec_def)
    with exec_loop_end [OF finished] 1(2) marks_ok_one [of x] show ?thesis
      by (simp add: wf_parser_def flush_raw wf_exec_def)
  next
    case overflow
    with exec_loop_overflow [OF overflow] show ?thesis by (simp add: wf_parser_def raw_parser.defs)
  next
    case byte
    obtain x' r where r: "run_byte data (data ! pos x) (count_byte x) = (x', r)" by fastforce
    have p: "pos (count_byte x) < length data" using byte by (simp add: count_byte_def)
    note s = run_byte_sound [OF count_byte_wf [OF 1(2)] p r] and p' = run_byte_pos [OF p r]
      and loop = exec_loop_byte [OF byte r]
    show ?thesis
    proof (cases r)
      case Next
      with s p' next_byte_wf [of x'] have "wf_exec 0 (x'\<lparr>pos := Suc (pos x')\<rparr>)" "Suc (pos x') \<le> length data" by simp_all
      with 1(1) [of x' r] byte r Next loop show ?thesis by simp
    next
      case (Fails e)
      with s p' loop show ?thesis by (simp add: wf_parser_def raw_parser.defs)
    next
      case (Leaves n)
      with s p' loop show ?thesis by (simp add: wf_parser_def wf_raw_truncate wf_exec_def)
    qed (use s in simp_all)
  qed
qed

lemma enter_wf: "wf_raw 0 p \<Longrightarrow> wf_exec 0 (enter p)"
  by (cases "hp_state p")
    (simp_all add: enter_def raw_parser.defs exec.defs wf_exec_def wf_raw_def wf_state_def marks_ok_def url_state_def)

lemma execute_safe:
  assumes "wf_parser p"
  shows "\<exists>p' evs n. http_parser_execute p data = Inr (p', evs, n) \<and> wf_parser p' \<and> n \<le> max 1 (length data)"
proof (cases "hp_errno p = HPE_OK \<and> data \<noteq> []")
  case True
  with assms exec_loop_sound [OF enter_wf [of p], of data] show ?thesis
    by (fastforce simp: http_parser_execute_def wf_parser_def enter_def raw_parser.defs exec.defs)
next
  case False
  with assms show ?thesis
    by (cases "hp_state p") (auto simp: http_parser_execute_def wf_parser_def wf_raw_def wf_state_def)
qed

lemma init_wf: "wf_parser (http_parser_init t)"
  by (cases t) (simp_all add: wf_parser_def wf_raw_def wf_state_def http_parser_init_def response_state_def)

end
