(* ===== verification/Crow_Routing.thy ===== *)
theory Crow_Routing
  imports Crow_Http Crow_Query Pinocchio_Config "HOL-Library.AList"
begin

text \<open>
  \<^verbatim>\<open>include/crow/routing.h\<close> and the compile-time tags of \<^verbatim>\<open>utility.h\<close>: the trie of
  rules, its optimisation, the search for the rule of a URL, and the router.

  The nodes live in one vector, and a pointer to a node is its index there. A child table is the
  list of its entries in the order of iteration. \<^verbatim>\<open>strtod\<close> is a parameter \<open>dbl\<close>: for the
  text behind a position the value, how many bytes it took and whether it is out of range.
\<close>

section \<open>Parameters\<close>

datatype param_type = P_INT | P_UINT | P_DOUBLE | P_STRING | P_PATH

record 'd routing_params =
  int_params :: "int list"
  uint_params :: "int list"
  double_params :: "'d list"
  string_params :: "bytes list"

definition no_params :: "'d routing_params" where
  "no_params = \<lparr>int_params = [], uint_params = [], double_params = [], string_params = []\<rparr>"

text \<open>\<^verbatim>\<open>strtoll\<close> and \<^verbatim>\<open>strtoull\<close> where the search calls them, at a digit or a sign:
  the value, the bytes taken (0 when there is no digit) and \<^verbatim>\<open>ERANGE\<close>.\<close>

definition signed_digits :: "bytes \<Rightarrow> bool \<times> bytes \<times> nat" where
  "signed_digits s =
     (case s of
        [] \<Rightarrow> (False, [], 0)
      | c # u \<Rightarrow>
          if c = CHR ''-'' \<or> c = CHR ''+''
          then (let ds = takeWhile is_digit u
                in (c = CHR ''-'', ds, if ds = [] then 0 else Suc (length ds)))
          else (let ds = takeWhile is_digit s in (False, ds, length ds)))"

definition strtoll_at :: "bytes \<Rightarrow> int \<times> nat \<times> bool" where
  "strtoll_at s =
     (case signed_digits s of
        (neg, ds, n) \<Rightarrow>
          (let v = (if neg then - int (digits_value 0 ds) else int (digits_value 0 ds))
           in (clamp_long v, n, v < LONG_MIN \<or> LONG_MAX < v)))"

definition ULONG_MAX :: int where
  "ULONG_MAX = 2 ^ 64 - 1"

definition strtoull_at :: "bytes \<Rightarrow> int \<times> nat \<times> bool" where
  "strtoull_at s =
     (case signed_digits s of
        (neg, ds, n) \<Rightarrow>
          (let v = int (digits_value 0 ds)
           in (if ULONG_MAX < v then ULONG_MAX else if neg then (- v) mod 2 ^ 64 else v,
               n, ULONG_MAX < v)))"

section \<open>The trie\<close>

record node =
  rule_index :: nat
  param_childrens :: "param_type \<Rightarrow> nat"
  node_children :: "(bytes \<times> nat) list"

definition empty_node :: node where
  "empty_node = \<lparr>rule_index = 0, param_childrens = (\<lambda>t. 0), node_children = []\<rparr>"

type_synonym trie = "node list"

definition new_trie :: trie where
  "new_trie = [empty_node]"

definition param_types :: "param_type list" where
  "param_types = [P_INT, P_UINT, P_DOUBLE, P_STRING, P_PATH]"

definition IsSimpleNode :: "node \<Rightarrow> bool" where
  "IsSimpleNode nd \<longleftrightarrow> rule_index nd = 0 \<and> list_all (\<lambda>t. param_childrens nd t = 0) param_types"

section \<open>Adding a rule\<close>

definition param_traits :: "(param_type \<times> bytes) list" where
  "param_traits =
     [(P_INT, ''<int>''), (P_UINT, ''<uint>''), (P_DOUBLE, ''<float>''), (P_DOUBLE, ''<double>''),
      (P_STRING, ''<str>''), (P_STRING, ''<string>''), (P_PATH, ''<path>'')]"

text \<open>\<^verbatim>\<open>url.compare(i, n, name) == 0\<close> for the piece of the URL from \<open>i\<close>.\<close>

definition piece_is :: "bytes \<Rightarrow> nat \<Rightarrow> bytes \<Rightarrow> bool" where
  "piece_is url i nm \<longleftrightarrow> take (length nm) (drop i url) = nm"

definition match_param :: "bytes \<Rightarrow> nat \<Rightarrow> (param_type \<times> nat) option" where
  "match_param url i =
     map_option (\<lambda>x. (fst x, length (snd x))) (find (\<lambda>x. piece_is url i (snd x)) param_traits)"

definition param_step :: "param_type \<Rightarrow> nat \<Rightarrow> trie \<Rightarrow> nat \<times> trie" where
  "param_step ty idx t =
     (let t' = (if param_childrens (t ! idx) ty = 0
                then (t @ [empty_node])[idx := (t ! idx)\<lparr>param_childrens := (param_childrens (t ! idx))(ty := length t)\<rparr>]
                else t)
      in (param_childrens (t' ! idx) ty, t'))"

definition piece_step :: "char \<Rightarrow> nat \<Rightarrow> trie \<Rightarrow> nat \<times> trie" where
  "piece_step c idx t =
     (let t' = (if map_of (node_children (t ! idx)) [c] = None
                then (t @ [empty_node])[idx := (t ! idx)\<lparr>node_children := node_children (t ! idx) @ [([c], length t)]\<rparr>]
                else t)
      in (the (map_of (node_children (t' ! idx)) [c]), t'))"

text \<open>
  The loop over a rule; \<open>i\<close> is its index. Behind a \<^verbatim>\<open><\<close> that opens no known parameter
  \<^verbatim>\<open>i--\<close> undoes the step of the loop, which then comes back to the same place: \<open>None\<close> is the
  loop that does not end.
\<close>

partial_function (option) add_loop :: "bytes \<Rightarrow> nat \<Rightarrow> nat \<Rightarrow> trie \<Rightarrow> (nat \<times> trie) option" where
  "add_loop url i idx t =
     (if length url \<le> i then Some (idx, t)
      else if url ! i = CHR ''<'' then
        (case match_param url i of
           None \<Rightarrow> add_loop url i idx t
         | Some (ty, n) \<Rightarrow> (case param_step ty idx t of (idx', t') \<Rightarrow> add_loop url (i + n) idx' t'))
      else (case piece_step (url ! i) idx t of (idx', t') \<Rightarrow> add_loop url (Suc i) idx' t'))"

datatype add_result = Added trie | Rule_exists bytes trie

definition trie_add :: "bytes \<Rightarrow> nat \<Rightarrow> trie \<Rightarrow> add_result option" where
  "trie_add url r t =
     (case add_loop url 0 0 t of
        None \<Rightarrow> None
      | Some (idx, t') \<Rightarrow>
          Some (if rule_index (t' ! idx) \<noteq> 0 then Rule_exists (''handler already exists for '' @ url) t'
                else Added (t'[idx := (t' ! idx)\<lparr>rule_index := r\<rparr>])))"

section \<open>Optimisation\<close>

fun merged_children :: "trie \<Rightarrow> (bytes \<times> nat) list \<Rightarrow> (bytes \<times> nat) list \<Rightarrow> (bytes \<times> nat) list" where
  "merged_children t [] acc = acc"
| "merged_children t ((k, x) # kvs) acc =
     merged_children t kvs
       (fold (\<lambda>(k', y) acc. AList.update (k @ k') y acc) (node_children (t ! x)) acc)"

text \<open>The recursion is given fuel; what is enough is shown below.\<close>

fun optimizeNode :: "nat \<Rightarrow> nat \<Rightarrow> trie \<Rightarrow> trie option"
  and optimizeAll :: "nat \<Rightarrow> nat list \<Rightarrow> trie \<Rightarrow> trie option"
where
  "optimizeNode 0 idx t = None"
| "optimizeNode (Suc n) idx t =
     (case optimizeAll n (filter (\<lambda>x. x \<noteq> 0) (map (param_childrens (t ! idx)) param_types)) t of
        None \<Rightarrow> None
      | Some t1 \<Rightarrow>
          let kids = node_children (t1 ! idx)
          in if kids = [] then Some t1
             else if list_all (\<lambda>kv. IsSimpleNode (t1 ! snd kv)) kids
             then optimizeNode n idx (t1[idx := (t1 ! idx)\<lparr>node_children := merged_children t1 kids []\<rparr>])
             else optimizeAll n (map snd kids) t1)"
| "optimizeAll n [] t = Some t"
| "optimizeAll n (x # xs) t =
     (case optimizeNode n x t of None \<Rightarrow> None | Some t' \<Rightarrow> optimizeAll n xs t')"

datatype validation = Valid_trie trie | Head_not_simple

definition trie_validate :: "trie \<Rightarrow> validation option" where
  "trie_validate t =
     (if \<not> IsSimpleNode (t ! 0) then Some Head_not_simple
      else map_option Valid_trie (optimizeNode (Suc ((length t + 1) * (length t + 1))) 0 t))"

section \<open>Finding a rule\<close>

definition update_found :: "nat \<times> 'p \<Rightarrow> nat \<times> 'p \<Rightarrow> nat \<times> 'p" where
  "update_found found ret =
     (if fst ret \<noteq> 0 \<and> (fst found = 0 \<or> fst ret < fst found) then ret else found)"

text \<open>A parameter read at a position: the position behind it and the parameters with its value.\<close>

definition read_int :: "bytes \<Rightarrow> nat \<Rightarrow> 'd routing_params \<Rightarrow> (nat \<times> 'd routing_params) option" where
  "read_int url pos ps =
     (let c = url ! pos
      in if is_digit c \<or> c = CHR ''+'' \<or> c = CHR ''-'' then
           (case strtoll_at (drop pos url) of
              (v, n, erange) \<Rightarrow>
                if \<not> erange \<and> n \<noteq> 0 then Some (pos + n, ps\<lparr>int_params := int_params ps @ [v]\<rparr>) else None)
         else None)"

definition read_uint :: "bytes \<Rightarrow> nat \<Rightarrow> 'd routing_params \<Rightarrow> (nat \<times> 'd routing_params) option" where
  "read_uint url pos ps =
     (let c = url ! pos
      in if is_digit c \<or> c = CHR ''+'' then
           (case strtoull_at (drop pos url) of
              (v, n, erange) \<Rightarrow>
                if \<not> erange \<and> n \<noteq> 0 then Some (pos + n, ps\<lparr>uint_params := uint_params ps @ [v]\<rparr>) else None)
         else None)"

definition read_double ::
  "(bytes \<Rightarrow> 'd \<times> nat \<times> bool) \<Rightarrow> bytes \<Rightarrow> nat \<Rightarrow> 'd routing_params \<Rightarrow> (nat \<times> 'd routing_params) option"
where
  "read_double dbl url pos ps =
     (let c = url ! pos
      in if is_digit c \<or> c = CHR ''+'' \<or> c = CHR ''-'' \<or> c = CHR ''.'' then
           (case dbl (drop pos url) of
              (v, n, erange) \<Rightarrow>
                if \<not> erange \<and> n \<noteq> 0 then Some (pos + n, ps\<lparr>double_params := double_params ps @ [v]\<rparr>) else None)
         else None)"

definition read_string :: "bytes \<Rightarrow> nat \<Rightarrow> 'd routing_params \<Rightarrow> (nat \<times> 'd routing_params) option" where
  "read_string url pos ps =
     (let s = takeWhile (\<lambda>c. c \<noteq> CHR ''/'') (drop pos url)
      in if s \<noteq> [] then Some (pos + length s, ps\<lparr>string_params := string_params ps @ [s]\<rparr>) else None)"

definition read_path :: "bytes \<Rightarrow> nat \<Rightarrow> 'd routing_params \<Rightarrow> (nat \<times> 'd routing_params) option" where
  "read_path url pos ps =
     (if length url \<noteq> pos
      then Some (length url, ps\<lparr>string_params := string_params ps @ [drop pos url]\<rparr>) else None)"

definition read_param ::
  "(bytes \<Rightarrow> 'd \<times> nat \<times> bool) \<Rightarrow> param_type \<Rightarrow> bytes \<Rightarrow> nat \<Rightarrow> 'd routing_params \<Rightarrow>
   (nat \<times> 'd routing_params) option"
where
  "read_param dbl ty url pos ps =
     (case ty of
        P_INT \<Rightarrow> read_int url pos ps
      | P_UINT \<Rightarrow> read_uint url pos ps
      | P_DOUBLE \<Rightarrow> read_double dbl url pos ps
      | P_STRING \<Rightarrow> read_string url pos ps
      | P_PATH \<Rightarrow> read_path url pos ps)"

text \<open>The recursive calls of \<^verbatim>\<open>find\<close> at a node, in their order: node, position, parameters.\<close>

definition find_moves ::
  "(bytes \<Rightarrow> 'd \<times> nat \<times> bool) \<Rightarrow> node \<Rightarrow> bytes \<Rightarrow> nat \<Rightarrow> 'd routing_params \<Rightarrow>
   (nat \<times> nat \<times> 'd routing_params) list"
where
  "find_moves dbl nd url pos ps =
     concat (map (\<lambda>ty.
       if param_childrens nd ty \<noteq> 0 then
         (case read_param dbl ty url pos ps of
            None \<Rightarrow> []
          | Some (pos', ps') \<Rightarrow> [(param_childrens nd ty, pos', ps')])
       else []) param_types) @
     map (\<lambda>kv. (snd kv, pos + length (fst kv), ps))
       (filter (\<lambda>kv. piece_is url pos (fst kv)) (node_children nd))"

text \<open>\<open>None\<close> is fuel that was not enough: one more than the length of the URL is.\<close>

fun trie_find ::
  "nat \<Rightarrow> (bytes \<Rightarrow> 'd \<times> nat \<times> bool) \<Rightarrow> trie \<Rightarrow> bytes \<Rightarrow> nat \<Rightarrow> nat \<Rightarrow> 'd routing_params \<Rightarrow>
   (nat \<times> 'd routing_params) option"
where
  "trie_find 0 dbl t url idx pos ps = None"
| "trie_find (Suc n) dbl t url idx pos ps =
     (if pos = length url then Some (rule_index (t ! idx), ps)
      else map_option (foldl update_found (0, no_params))
             (those (map (\<lambda>mv. trie_find n dbl t url (fst mv) (fst (snd mv)) (snd (snd mv)))
               (find_moves dbl (t ! idx) url pos ps))))"

section \<open>Tags: the types of the parameters of a rule\<close>

text \<open>\<open>None\<close> is a rule that does not compile.\<close>

function get_parameter_tag :: "bytes \<Rightarrow> nat option" where
  "get_parameter_tag [] = Some 0"
| "get_parameter_tag (c # cs) =
     (if c = CHR ''<'' then
        (if CHR ''>'' \<notin> set cs then None
         else
          (let rest = get_parameter_tag (dropWhile (\<lambda>c. c \<noteq> CHR ''>'') cs);
               is = (\<lambda>nm. take (length nm) (c # cs) = nm);
               tag = (\<lambda>n. map_option (\<lambda>r. (r * 6 + n) mod 2 ^ 64) rest)
           in if is ''<int>'' then tag 1
              else if is ''<uint>'' then tag 2
              else if is ''<float>'' \<or> is ''<double>'' then tag 3
              else if is ''<str>'' \<or> is ''<string>'' then tag 4
              else if is ''<path>'' then tag 5
              else None))
      else get_parameter_tag cs)"
  by pat_completeness auto

termination
  by (relation "measure length") (auto simp: le_imp_less_Suc length_dropWhile_le)

datatype arg_type = A_int64 | A_uint64 | A_double | A_string

definition single_tag_to_type :: "nat \<Rightarrow> arg_type" where
  "single_tag_to_type n = (if n = 1 then A_int64 else if n = 2 then A_uint64 else if n = 3 then A_double else A_string)"

fun tag_arguments :: "nat \<Rightarrow> arg_type list" where
  "tag_arguments n = (if n = 0 then [] else single_tag_to_type (n mod 6) # tag_arguments (n div 6))"

declare tag_arguments.simps [simp del]

fun parameter_tag :: "arg_type \<Rightarrow> nat" where
  "parameter_tag A_int64 = 1"
| "parameter_tag A_uint64 = 2"
| "parameter_tag A_double = 3"
| "parameter_tag A_string = 4"

fun compute_parameter_tag_from_args_list :: "arg_type list \<Rightarrow> nat" where
  "compute_parameter_tag_from_args_list [] = 0"
| "compute_parameter_tag_from_args_list (a # as) =
     compute_parameter_tag_from_args_list as * 6 + parameter_tag a"

text \<open>Both \<^verbatim>\<open>sa\<close> and \<^verbatim>\<open>sb\<close> are taken from \<^verbatim>\<open>a\<close>.\<close>

fun is_parameter_tag_compatible :: "nat \<Rightarrow> nat \<Rightarrow> bool" where
  "is_parameter_tag_compatible a b =
     (if a = 0 then b = 0
      else if b = 0 then a = 0
      else
        (let sa = (if a mod 6 = 5 then 4 else a mod 6);
             sb = (if a mod 6 = 5 then 4 else a mod 6)
         in if sa \<noteq> sb then False else is_parameter_tag_compatible (a div 6) (b div 6)))"

declare is_parameter_tag_compatible.simps [simp del]

section \<open>Calling a handler\<close>

datatype 'd arg = Arg_int int | Arg_uint int | Arg_double 'd | Arg_string bytes

text \<open>Each argument is the next parameter of its type; \<open>None\<close> reads beyond the end of a vector.\<close>

definition nth_opt :: "'a list \<Rightarrow> nat \<Rightarrow> 'a option" where
  "nth_opt xs i = (if i < length xs then Some (xs ! i) else None)"

fun call_args ::
  "arg_type list \<Rightarrow> nat \<Rightarrow> nat \<Rightarrow> nat \<Rightarrow> nat \<Rightarrow> 'd routing_params \<Rightarrow> 'd arg list option"
where
  "call_args [] i u d s ps = Some []"
| "call_args (A_int64 # as) i u d s ps =
     (case nth_opt (int_params ps) i of None \<Rightarrow> None
      | Some v \<Rightarrow> map_option ((#) (Arg_int v)) (call_args as (Suc i) u d s ps))"
| "call_args (A_uint64 # as) i u d s ps =
     (case nth_opt (uint_params ps) u of None \<Rightarrow> None
      | Some v \<Rightarrow> map_option ((#) (Arg_uint v)) (call_args as i (Suc u) d s ps))"
| "call_args (A_double # as) i u d s ps =
     (case nth_opt (double_params ps) d of None \<Rightarrow> None
      | Some v \<Rightarrow> map_option ((#) (Arg_double v)) (call_args as i u (Suc d) s ps))"
| "call_args (A_string # as) i u d s ps =
     (case nth_opt (string_params ps) s of None \<Rightarrow> None
      | Some v \<Rightarrow> map_option ((#) (Arg_string v)) (call_args as i u d (Suc s) ps))"

text \<open>How a handler ends: its response, an exception, undefined behaviour, the end of the process, or not at all.\<close>

datatype 'r handled = Responds 'r | Throws | Undefined | Aborts | Blocks

section \<open>Rules and the router\<close>

text \<open>The handler of a rule works on the state of the program, \<open>'s\<close>.\<close>

record ('d, 's) rule =
  rule_text :: bytes
  rule_name :: bytes
  rule_methods :: "32 word"
  rule_args :: "arg_type list"
  rule_handler :: "(http_request \<Rightarrow> 'd arg list \<Rightarrow> 's \<Rightarrow> 'd response handled \<times> 's) option"

definition method_bit :: "http_method \<Rightarrow> 32 word" where
  "method_bit m = push_bit (method_num m) 1"

definition new_rule :: "bytes \<Rightarrow> ('d, 's) rule option" where
  "new_rule url =
     map_option (\<lambda>tag. \<lparr>rule_text = url, rule_name = [], rule_methods = method_bit M_GET,
       rule_args = tag_arguments tag, rule_handler = None\<rparr>) (get_parameter_tag url)"

definition set_name :: "bytes \<Rightarrow> ('d, 's) rule \<Rightarrow> ('d, 's) rule" where
  "set_name nm r = r\<lparr>rule_name := nm\<rparr>"

fun set_methods :: "http_method \<Rightarrow> http_method list \<Rightarrow> ('d, 's) rule \<Rightarrow> ('d, 's) rule" where
  "set_methods m [] r = r\<lparr>rule_methods := method_bit m\<rparr>"
| "set_methods m (m' # ms) r =
     (let r' = set_methods m' ms r in r'\<lparr>rule_methods := or (rule_methods r') (method_bit m)\<rparr>)"

definition rule_validate :: "('d, 's) rule \<Rightarrow> bytes option" where
  "rule_validate r =
     (if rule_handler r = None
      then Some (rule_name r @ (if rule_name r \<noteq> [] then '': '' else []) @ ''no handler for url '' @ rule_text r)
      else None)"

definition rule_handle ::
  "http_request \<Rightarrow> 'd routing_params \<Rightarrow> ('d, 's) rule \<Rightarrow> 's \<Rightarrow> 'd response handled \<times> 's"
where
  "rule_handle req ps r st =
     (case call_args (rule_args r) 0 0 0 0 ps of
        None \<Rightarrow> (Undefined, st)
      | Some as \<Rightarrow>
          (case rule_handler r of
             None \<Rightarrow> (Throws, st)
           | Some f \<Rightarrow> f req as st))"

record ('d, 's) router =
  router_rules :: "('d, 's) rule option list"
  router_trie :: trie

definition RULE_SPECIAL_REDIRECT_SLASH :: nat where
  "RULE_SPECIAL_REDIRECT_SLASH = 1"

definition new_router :: "('d, 's) router" where
  "new_router = \<lparr>router_rules = [None, None], router_trie = new_trie\<rparr>"

text \<open>\<open>None\<close> does not return; the error is the exception's text.\<close>

definition internal_add_rule_object ::
  "bytes \<Rightarrow> ('d, 's) rule \<Rightarrow> ('d, 's) router \<Rightarrow> (bytes option \<times> ('d, 's) router) option"
where
  "internal_add_rule_object url r rt =
     (let rs = router_rules rt @ [Some r]
      in case trie_add url (length rs - 1) (router_trie rt) of
           None \<Rightarrow> None
         | Some (Rule_exists e t) \<Rightarrow> Some (Some e, \<lparr>router_rules = rs, router_trie = t\<rparr>)
         | Some (Added t) \<Rightarrow>
             if 1 < length url \<and> last url = CHR ''/'' then
               (case trie_add (butlast url) RULE_SPECIAL_REDIRECT_SLASH t of
                  None \<Rightarrow> None
                | Some (Rule_exists e t') \<Rightarrow> Some (Some e, \<lparr>router_rules = rs, router_trie = t'\<rparr>)
                | Some (Added t') \<Rightarrow> Some (None, \<lparr>router_rules = rs, router_trie = t'\<rparr>))
             else Some (None, \<lparr>router_rules = rs, router_trie = t\<rparr>))"

fun first_invalid :: "('d, 's) rule option list \<Rightarrow> bytes option" where
  "first_invalid [] = None"
| "first_invalid (None # rs) = first_invalid rs"
| "first_invalid (Some r # rs) = (case rule_validate r of Some e \<Rightarrow> Some e | None \<Rightarrow> first_invalid rs)"

definition router_validate :: "('d, 's) router \<Rightarrow> (bytes option \<times> ('d, 's) router) option" where
  "router_validate rt =
     (case trie_validate (router_trie rt) of
        None \<Rightarrow> None
      | Some Head_not_simple \<Rightarrow> Some (Some ''Internal error: Trie header should be simple!'', rt)
      | Some (Valid_trie t) \<Rightarrow> Some (first_invalid (router_rules rt), rt\<lparr>router_trie := t\<rparr>))"

definition add_header :: "bytes \<Rightarrow> bytes \<Rightarrow> 'd response \<Rightarrow> 'd response" where
  "add_header k v r = r\<lparr>rs_headers := headers_emplace k v (rs_headers r)\<rparr>"

text \<open>The responses come as they are when \<^verbatim>\<open>end\<close> is called on them.\<close>

definition redirect_response :: "http_request \<Rightarrow> 'd response" where
  "redirect_response req =
     (let host = get_header_value (rq_headers req) ''Host''
      in if host = [] then add_header ''Location'' (rq_url req @ ''/'') (response_code 301)
         else add_header ''Location'' (''http://'' @ host @ rq_url req @ ''/'') (response_code 301))"

datatype 'd routed = Routed "'d response handled" | Corrupted_trie

definition router_handle ::
  "(bytes \<Rightarrow> 'd \<times> nat \<times> bool) \<Rightarrow> http_request \<Rightarrow> ('d, 's) router \<Rightarrow> 's \<Rightarrow> ('d routed \<times> 's) option"
where
  "router_handle dbl req rt st =
     (case trie_find (Suc (length (rq_url req))) dbl (router_trie rt) (rq_url req) 0 0 no_params of
        None \<Rightarrow> None
      | Some (i, ps) \<Rightarrow> Some
          (if i = 0 then (Routed (Responds (response_code 404)), st)
           else if length (router_rules rt) \<le> i then (Corrupted_trie, st)
           else if i = RULE_SPECIAL_REDIRECT_SLASH then (Routed (Responds (redirect_response req)), st)
           else
             (case router_rules rt ! i of
                None \<Rightarrow> (Routed Undefined, st)
              | Some r \<Rightarrow>
                  if and (rule_methods r) (method_bit (rq_method req)) = 0
                  then (Routed (Responds (response_code 404)), st)
                  else
                    (case rule_handle req ps r st of
                       (Throws, st') \<Rightarrow> (Routed (Responds (response_code 500)), st')
                     | (o', st') \<Rightarrow> (Routed o', st')))))"

end
