(* ===== verification/Crow_Connection.thy ===== *)
theory Crow_Connection
  imports Crow_Parser Crow_Routing
begin

text \<open>
  \<^verbatim>\<open>http_connection.h\<close>: one connection, without middlewares, as the program instantiates it.
  Every callback of the socket, the parser and the timer is an operation on its state that returns
  the effects it asks for; what the socket then does is the environment of a step relation.
\<close>

record 'd connection =
  c_open :: bool
  c_closing :: bool
  c_keep_alive :: bool
  c_reading :: bool
  c_writing :: bool
  c_after :: bool
  c_read_later :: bool
  c_parser :: http_parser
  c_response :: "'d response"
  c_body_copy :: bytes

definition new_connection :: "'d connection" where
  "new_connection = \<lparr>c_open = True, c_closing = False, c_keep_alive = False, c_reading = False, c_writing = False,
     c_after = False, c_read_later = False, c_parser = new_http_parser, c_response = new_response, c_body_copy = []\<rparr>"

datatype conn_effect = Read_some | Write_all bytes | Close_socket | Start_timer | Cancel_timer | Delete_this

text \<open>How a callback can fail to return normally.\<close>

datatype stuck = Uncaught_exception | Undefined_access | Handler_aborts | Handler_blocks | Endless_search

text \<open>What a connection is given: the format of numbers, the name of the server and the date.\<close>

record 'd server_config =
  cf_fmt :: "'d \<Rightarrow> bytes"
  cf_name :: bytes
  cf_date :: bytes

type_synonym ('d, 's) handler = "http_request \<Rightarrow> 's \<Rightarrow> ('d routed \<times> 's) option"

section \<open>Reading, writing, the timer\<close>

definition do_read :: "'d connection \<Rightarrow> 'd connection \<times> conn_effect list" where
  "do_read c = (c\<lparr>c_reading := True\<rparr>, [Read_some])"

definition do_write :: "bytes \<Rightarrow> 'd connection \<Rightarrow> 'd connection \<times> conn_effect list" where
  "do_write bs c = (c\<lparr>c_writing := True\<rparr>, [Write_all bs])"

definition start_deadline :: "conn_effect list" where
  "start_deadline = [Cancel_timer, Start_timer]"

text \<open>The destructor cancels the timer.\<close>

definition check_destroy :: "'d connection \<Rightarrow> conn_effect list" where
  "check_destroy c = (if \<not> c_reading c \<and> \<not> c_writing c then [Cancel_timer, Delete_this] else [])"

definition conn_start :: "'d connection \<Rightarrow> 'd connection \<times> conn_effect list" where
  "conn_start c = (case do_read c of (c', es) \<Rightarrow> (c', start_deadline @ es))"

definition on_deadline :: "'d connection \<Rightarrow> 'd connection \<times> conn_effect list" where
  "on_deadline c = (if \<not> c_open c then (c, []) else (c\<lparr>c_open := False\<rparr>, [Close_socket]))"

section \<open>A request\<close>

definition continue_100 :: bytes where
  "continue_100 = ''HTTP/1.1 100 Continue'' @ crlf @ crlf"

definition handle_header :: "'d connection \<Rightarrow> 'd connection \<times> conn_effect list" where
  "handle_header c =
     (if check_version 1 1 (c_parser c) \<and> header_count ''expect'' (ps_headers (c_parser c)) \<noteq> 0 \<and>
         get_header_value (ps_headers (c_parser c)) ''expect'' = ''100-continue''
      then do_write continue_100 c else (c, []))"

text \<open>
  \<^verbatim>\<open>complete_request\<close>: the body that goes out is kept while it is written, and the response
  takes what was kept before. A read that waited for the response is started.
\<close>

definition finish_request :: "'d server_config \<Rightarrow> 'd connection \<Rightarrow> 'd connection \<times> conn_effect list" where
  "finish_request cf c =
     (let c1 = c\<lparr>c_after := False\<rparr>
      in if \<not> c_open c then (c1, [])
         else
           let out = snd (complete_request (cf_fmt cf) (cf_name cf) (cf_date cf) (c_keep_alive c) (c_response c));
               r = final_response (cf_fmt cf) (c_response c);
               c2 = c1\<lparr>c_response := r\<lparr>rs_body := c_body_copy c\<rparr>, c_body_copy := rs_body r\<rparr>
           in (case do_write out c2 of
                 (c3, es) \<Rightarrow>
                   if c_read_later c3
                   then (case do_read (c3\<lparr>c_read_later := False\<rparr>) of (c4, es') \<Rightarrow> (c4, es @ start_deadline @ es'))
                   else (c3, es)))"

text \<open>The handler is given a request when no response is there yet. What it returns becomes the
  response, which ends unless it has; \<^verbatim>\<open>Keep-Alive\<close> is set on the response after it has gone out.\<close>

definition respond :: "'d server_config \<Rightarrow> 'd response \<Rightarrow> 'd connection \<Rightarrow> 'd connection \<times> conn_effect list" where
  "respond cf r c =
     (case response_end r of
        (r', called) \<Rightarrow>
          (case (if called then finish_request cf (c\<lparr>c_response := r'\<rparr>) else (c\<lparr>c_response := r'\<rparr>, [])) of
             (c', es) \<Rightarrow>
               (if c_keep_alive c'
                then c'\<lparr>c_response := (c_response c')\<lparr>rs_headers :=
                       headers_set ''connection'' ''Keep-Alive'' (rs_headers (c_response c'))\<rparr>\<rparr>
                else c', es)))"

text \<open>
  \<^verbatim>\<open>handle\<close>. The line of the log asks the socket for its peer, which throws when the socket is
  closed or the peer is gone (\<open>peer\<close> is False).
\<close>

definition conn_handle ::
  "'d server_config \<Rightarrow> ('d, 's) handler \<Rightarrow> bool \<Rightarrow> http_request \<Rightarrow> 'd connection \<Rightarrow> 's \<Rightarrow>
   stuck + 'd connection \<times> 's \<times> conn_effect list"
where
  "conn_handle cf h peer req c st =
     (let f = handle_flags (http_version (c_parser c)) (c_closing c) (rq_headers req);
          c1 = c\<lparr>c_keep_alive := add_keep_alive f, c_closing := close_connection f,
                 c_response := (if invalid_request f then response_code 400 else c_response c)\<rparr>
      in if \<not> c_open c \<or> \<not> peer then Inl Uncaught_exception
         else if invalid_request f \<or> completed (c_response c)
         then (case finish_request cf (c1\<lparr>c_after := False\<rparr>) of (c2, es) \<Rightarrow> Inr (c2, st, Cancel_timer # es))
         else
           (case h req st of
              None \<Rightarrow> Inl Endless_search
            | Some (Corrupted_trie, st') \<Rightarrow> Inl Uncaught_exception
            | Some (Routed Throws, st') \<Rightarrow> Inl Uncaught_exception
            | Some (Routed Undefined, st') \<Rightarrow> Inl Undefined_access
            | Some (Routed Aborts, st') \<Rightarrow> Inl Handler_aborts
            | Some (Routed Blocks, st') \<Rightarrow> Inl Handler_blocks
            | Some (Routed (Responds r), st') \<Rightarrow>
                (case respond cf r (c1\<lparr>c_after := True\<rparr>) of (c2, es) \<Rightarrow> Inr (c2, st', Cancel_timer # es))))"

text \<open>One event of the parser, and all those of a buffer.\<close>

fun conn_event ::
  "'d server_config \<Rightarrow> ('d, 's) handler \<Rightarrow> bool \<Rightarrow> parser_event \<Rightarrow> 'd connection \<Rightarrow> 's \<Rightarrow>
   stuck + 'd connection \<times> 's \<times> conn_effect list"
where
  "conn_event cf h peer (Headers_complete v) c st =
     (case handle_header (c\<lparr>c_parser := gather (Headers_complete v) (c_parser c)\<rparr>) of (c', es) \<Rightarrow> Inr (c', st, es))"
| "conn_event cf h peer (Message_complete m) c st =
     (case on_message_complete (c_parser c) of
        Inl f \<Rightarrow> Inl Undefined_access
      | Inr p \<Rightarrow> conn_handle cf h peer (to_request m p) (c\<lparr>c_parser := p\<rparr>) st)"
| "conn_event cf h peer e c st = Inr (c\<lparr>c_parser := gather e (c_parser c)\<rparr>, st, [])"

fun feed ::
  "'d server_config \<Rightarrow> ('d, 's) handler \<Rightarrow> bool \<Rightarrow> parser_event list \<Rightarrow> 'd connection \<Rightarrow> 's \<Rightarrow>
   stuck + 'd connection \<times> 's \<times> conn_effect list"
where
  "feed cf h peer [] c st = Inr (c, st, [])"
| "feed cf h peer (e # evs) c st =
     (case conn_event cf h peer e c st of
        Inl x \<Rightarrow> Inl x
      | Inr (c1, st1, es1) \<Rightarrow>
          (case feed cf h peer evs c1 st1 of
             Inl x \<Rightarrow> Inl x
           | Inr (c2, st2, es2) \<Rightarrow> Inr (c2, st2, es1 @ es2)))"

section \<open>Completions\<close>

text \<open>What a read ends with: the events of its bytes and whether all of them were parsed, or an error.\<close>

datatype read_result = Got "parser_event list" bool | Read_error

text \<open>\<^verbatim>\<open>parser_.done()\<close> at the end gives no event for a request.\<close>

definition on_read ::
  "'d server_config \<Rightarrow> ('d, 's) handler \<Rightarrow> bool \<Rightarrow> read_result \<Rightarrow> 'd connection \<Rightarrow> 's \<Rightarrow>
   stuck + 'd connection \<times> 's \<times> conn_effect list"
where
  "on_read cf h peer res c st =
     (case (case res of Got evs ok \<Rightarrow> feed cf h peer evs c st | Read_error \<Rightarrow> Inr (c, st, [])) of
        Inl x \<Rightarrow> Inl x
      | Inr (c1, st1, es) \<Rightarrow>
          if \<not> (case res of Got evs ok \<Rightarrow> ok \<and> c_open c1 \<and> \<not> c_closing c1 | Read_error \<Rightarrow> False)
          then (let c2 = c1\<lparr>c_open := False, c_reading := False\<rparr>
                in Inr (c2, st1, es @ [Cancel_timer, Close_socket] @ check_destroy c2))
          else if \<not> c_after c1
          then (case do_read c1 of (c2, es') \<Rightarrow> Inr (c2, st1, es @ start_deadline @ es'))
          else Inr (c1\<lparr>c_read_later := True\<rparr>, st1, es))"

definition on_write :: "bool \<Rightarrow> 'd connection \<Rightarrow> 'd connection \<times> conn_effect list" where
  "on_write ok c =
     (let c1 = c\<lparr>c_writing := False, c_response := response_clear (c_response c), c_body_copy := []\<rparr>
      in if ok
         then (if c_closing c1 then (c1\<lparr>c_open := False\<rparr>, Close_socket # check_destroy c1) else (c1, []))
         else (c1, check_destroy c1))"

section \<open>The connection and its environment\<close>

text \<open>The operations under way, what was handed to the socket, whether a write was started while
  another was under way, and how a callback failed, if one has.\<close>

record ('d, 's) conn_system =
  conn :: "'d connection"
  app :: 's
  reads_out :: nat
  writes_out :: "bytes list"
  wire :: "bytes list"
  timer_set :: bool
  destroyed :: bool
  overlapped :: bool
  stuck_at :: "stuck option"

fun apply_effect :: "conn_effect \<Rightarrow> ('d, 's) conn_system \<Rightarrow> ('d, 's) conn_system" where
  "apply_effect Read_some s = s\<lparr>reads_out := Suc (reads_out s)\<rparr>"
| "apply_effect (Write_all bs) s =
     s\<lparr>overlapped := overlapped s \<or> writes_out s \<noteq> [], writes_out := writes_out s @ [bs], wire := wire s @ [bs]\<rparr>"
| "apply_effect Close_socket s = s"
| "apply_effect Start_timer s = s\<lparr>timer_set := True\<rparr>"
| "apply_effect Cancel_timer s = s\<lparr>timer_set := False\<rparr>"
| "apply_effect Delete_this s = s\<lparr>destroyed := True\<rparr>"

definition started :: "'s \<Rightarrow> ('d, 's) conn_system" where
  "started st =
     (case conn_start new_connection of
        (c, es) \<Rightarrow> fold apply_effect es
          \<lparr>conn = c, app = st, reads_out = 0, writes_out = [], wire = [], timer_set = False, destroyed = False,
           overlapped = False, stuck_at = None\<rparr>)"

text \<open>An operation that is under way ends, in any order and with any result; the timer fires.\<close>

definition runs :: "('d, 's) conn_system \<Rightarrow> bool" where
  "runs s \<longleftrightarrow> \<not> destroyed s \<and> stuck_at s = None"

inductive conn_step ::
  "'d server_config \<Rightarrow> ('d, 's) handler \<Rightarrow> ('d, 's) conn_system \<Rightarrow> ('d, 's) conn_system \<Rightarrow> bool"
  for cf h
where
  read_ends: "runs s \<Longrightarrow> reads_out s = Suc n \<Longrightarrow> on_read cf h peer res (conn s) (app s) = Inr (c, st, es) \<Longrightarrow>
    conn_step cf h s (fold apply_effect es (s\<lparr>conn := c, app := st, reads_out := n\<rparr>))"
| read_sticks: "runs s \<Longrightarrow> reads_out s = Suc n \<Longrightarrow> on_read cf h peer res (conn s) (app s) = Inl x \<Longrightarrow>
    conn_step cf h s (s\<lparr>stuck_at := Some x\<rparr>)"
| write_ends: "runs s \<Longrightarrow> writes_out s = ws @ w # ws' \<Longrightarrow> on_write ok (conn s) = (c, es) \<Longrightarrow>
    conn_step cf h s (fold apply_effect es (s\<lparr>conn := c, writes_out := ws @ ws'\<rparr>))"
| timer_fires: "runs s \<Longrightarrow> timer_set s \<Longrightarrow> on_deadline (conn s) = (c, es) \<Longrightarrow>
    conn_step cf h s (fold apply_effect es (s\<lparr>conn := c, timer_set := False\<rparr>))"

inductive_cases conn_stepE: "conn_step cf h s s'"

inductive conn_reachable :: "'d server_config \<Rightarrow> ('d, 's) handler \<Rightarrow> 's \<Rightarrow> ('d, 's) conn_system \<Rightarrow> bool"
  for cf h st
where
  reach_start: "conn_reachable cf h st (started st)"
| reach_step: "conn_reachable cf h st s \<Longrightarrow> conn_step cf h s s' \<Longrightarrow> conn_reachable cf h st s'"

end
