(* ===== verification/Crow_Connection_Safety.thy ===== *)
theory Crow_Connection_Safety
  imports Crow_Connection
begin

text \<open>
  When a connection is freed: never while an operation of its own is under way, provided no write
  was started during another one; and how two requests in one read break this.
\<close>

section \<open>What a callback of the parser does\<close>

text \<open>During a read the parser's callbacks only cancel the timer and start writes.\<close>

definition quiet :: "conn_effect \<Rightarrow> bool" where
  "quiet e = (case e of Cancel_timer \<Rightarrow> True | Write_all bs \<Rightarrow> True | _ \<Rightarrow> False)"

definition written :: "conn_effect list \<Rightarrow> bytes list" where
  "written es = concat (map (\<lambda>e. case e of Write_all bs \<Rightarrow> [bs] | _ \<Rightarrow> []) es)"

lemma written_simps [simp]:
  "written [] = []" "written (Write_all bs # es) = bs # written es" "written (es @ es') = written es @ written es'"
  "written (Cancel_timer # es) = written es" "written (Start_timer # es) = written es" "written (Read_some # es) = written es"
  "written (Close_socket # es) = written es" "written (Delete_this # es) = written es"
  by (simp_all add: written_def)

text \<open>What a callback of the parser leaves: the socket and the read as they were.\<close>

definition within_read :: "'d connection \<Rightarrow> 'd connection \<Rightarrow> conn_effect list \<Rightarrow> bool" where
  "within_read c c' es \<longleftrightarrow>
     c_open c' = c_open c \<and> c_reading c' = c_reading c \<and> \<not> c_read_later c' \<and> list_all quiet es \<and>
     c_writing c' = (c_writing c \<or> written es \<noteq> [])"

lemma within_read_refl: "\<not> c_read_later c \<Longrightarrow> within_read c c []"
  by (simp add: within_read_def)

lemma within_read_trans: "within_read c c' es \<Longrightarrow> within_read c' c'' es' \<Longrightarrow> within_read c c'' (es @ es')"
  by (auto simp: within_read_def)

lemma finish_request_within:
  "\<not> c_read_later c \<Longrightarrow> finish_request cf c = (c', es) \<Longrightarrow> within_read c c' es"
  by (auto simp: finish_request_def Let_def do_write_def within_read_def quiet_def split: if_splits)

lemma respond_within:
  assumes "\<not> c_read_later c" and "respond cf r c = (c', es)"
  shows "within_read c c' es"
proof -
  obtain r' called where r: "response_end r = (r', called)" by fastforce
  show ?thesis
  proof (cases called)
    case True
    obtain c1 es1 where f: "finish_request cf (c\<lparr>c_response := r'\<rparr>) = (c1, es1)" by fastforce
    from finish_request_within [OF _ f] assms(1) have "within_read (c\<lparr>c_response := r'\<rparr>) c1 es1" by simp
    with assms(2) r True f show ?thesis by (auto simp: respond_def within_read_def split: if_splits)
  next
    case False
    with assms r show ?thesis by (auto simp: respond_def within_read_def split: if_splits)
  qed
qed

lemma within_read_cong:
  "c_open c = c_open d \<Longrightarrow> c_reading c = c_reading d \<Longrightarrow> c_writing c = c_writing d \<Longrightarrow>
   within_read c c' es \<Longrightarrow> within_read d c' es"
  by (simp add: within_read_def)

lemma cancel_within: "within_read c c' es \<Longrightarrow> within_read c c' (Cancel_timer # es)"
  by (simp add: within_read_def quiet_def)

lemma conn_handle_within:
  assumes "\<not> c_read_later c" and "conn_handle cf h peer req c st = Inr (c', st', es)"
  shows "within_read c c' es"
proof -
  from assms(2) consider
    (finish) d es1 where "finish_request cf d = (c', es1)" "es = Cancel_timer # es1" "c_open d = c_open c"
      "c_reading d = c_reading c" "c_writing d = c_writing c" "c_read_later d = c_read_later c"
  | (respond) d r es1 where "respond cf r d = (c', es1)" "es = Cancel_timer # es1" "c_open d = c_open c"
      "c_reading d = c_reading c" "c_writing d = c_writing c" "c_read_later d = c_read_later c"
    by (fastforce simp: conn_handle_def Let_def split: if_splits option.splits prod.splits routed.splits handled.splits)
  then show ?thesis
  proof cases
    case finish
    with assms(1) finish_request_within [OF _ finish(1)] show ?thesis
      by (auto intro!: cancel_within elim: within_read_cong [rotated 3])
  next
    case respond
    with assms(1) respond_within [OF _ respond(1)] show ?thesis
      by (auto intro!: cancel_within elim: within_read_cong [rotated 3])
  qed
qed

lemma conn_event_within:
  assumes "\<not> c_read_later c" and "conn_event cf h peer e c st = Inr (c', st', es)"
  shows "within_read c c' es"
proof (cases e)
  case (Headers_complete v)
  with assms show ?thesis
    by (auto simp: handle_header_def do_write_def within_read_def quiet_def split: if_splits)
next
  case (Message_complete m)
  with assms(2) obtain p where "conn_handle cf h peer (to_request m p) (c\<lparr>c_parser := p\<rparr>) st = Inr (c', st', es)"
    by (auto split: sum.splits)
  from conn_handle_within [OF _ this] assms(1) show ?thesis by (simp add: within_read_def)
qed (use assms in \<open>auto simp: within_read_def\<close>)

lemma feed_within:
  "\<not> c_read_later c \<Longrightarrow> feed cf h peer evs c st = Inr (c', st', es) \<Longrightarrow> within_read c c' es"
proof (induction evs arbitrary: c st es)
  case Nil
  then show ?case by (simp add: within_read_refl)
next
  case (Cons e evs)
  then obtain c1 st1 es1 es2 where e: "conn_event cf h peer e c st = Inr (c1, st1, es1)"
    "feed cf h peer evs c1 st1 = Inr (c', st', es2)" "es = es1 @ es2"
    by (auto split: sum.splits)
  from conn_event_within [OF Cons.prems(1) e(1)] have w: "within_read c c1 es1" .
  then have "\<not> c_read_later c1" by (simp add: within_read_def)
  from Cons.IH [OF this e(2)] w show ?case using e(3) within_read_trans by blast
qed

section \<open>The effects of a callback\<close>

lemma effects_keep [simp]:
  "conn (fold apply_effect es s) = conn s" "app (fold apply_effect es s) = app s"
  "stuck_at (fold apply_effect es s) = stuck_at s"
proof (induction es arbitrary: s)
  case (Cons e es)
  {
    case 1 with Cons(1) [of "apply_effect e s"] show ?case by (cases e) simp_all
  next
    case 2 with Cons(2) [of "apply_effect e s"] show ?case by (cases e) simp_all
  next
    case 3 with Cons(3) [of "apply_effect e s"] show ?case by (cases e) simp_all
  }
qed simp_all

lemma quiet_effects:
  "list_all quiet es \<Longrightarrow>
    reads_out (fold apply_effect es s) = reads_out s \<and> destroyed (fold apply_effect es s) = destroyed s \<and>
    writes_out (fold apply_effect es s) = writes_out s @ written es \<and>
    (timer_set (fold apply_effect es s) \<longrightarrow> timer_set s) \<and>
    overlapped (fold apply_effect es s) =
      (overlapped s \<or> 1 < length (writes_out s @ written es) \<and> written es \<noteq> [])"
proof (induction es arbitrary: s)
  case (Cons e es)
  from Cons.prems have "list_all quiet es" by simp
  from Cons.IH [OF this, of "apply_effect e s"] Cons.prems show ?case by (cases e) (auto simp: quiet_def)
qed simp

section \<open>The invariant\<close>

text \<open>The flags tell what is under way, as long as no two writes overlap.\<close>

definition conn_inv :: "('d, 's) conn_system \<Rightarrow> bool" where
  "conn_inv s \<longleftrightarrow>
     reads_out s = (if c_reading (conn s) \<and> \<not> c_read_later (conn s) then 1 else 0) \<and>
     (c_read_later (conn s) \<longrightarrow> c_reading (conn s)) \<and>
     (\<not> overlapped s \<longrightarrow> length (writes_out s) = (if c_writing (conn s) then 1 else 0)) \<and>
     (destroyed s \<longrightarrow> \<not> c_reading (conn s) \<and> \<not> c_writing (conn s) \<and> \<not> timer_set s)"

lemma started_inv: "conn_inv (started st)"
  by (simp add: conn_inv_def started_def conn_start_def do_read_def start_deadline_def new_connection_def)

lemmas conn_system_eq = conn_system.equality

lemma feed_inv:
  assumes inv: "conn_inv s" and run: "runs s" and n: "reads_out s = Suc n"
    and w: "within_read (conn s) c es"
  shows "n = 0 \<and> c_reading c \<and> \<not> c_read_later (conn s) \<and> \<not> c_read_later c \<and>
    reads_out (fold apply_effect es (s\<lparr>conn := c', app := st, reads_out := n\<rparr>)) = 0 \<and>
    \<not> destroyed (fold apply_effect es (s\<lparr>conn := c', app := st, reads_out := n\<rparr>)) \<and>
    (\<not> overlapped (fold apply_effect es (s\<lparr>conn := c', app := st, reads_out := n\<rparr>)) \<longrightarrow>
      length (writes_out (fold apply_effect es (s\<lparr>conn := c', app := st, reads_out := n\<rparr>))) = (if c_writing c then 1 else 0))"
  using assms quiet_effects [of es "s\<lparr>conn := c', app := st, reads_out := n\<rparr>"]
  by (cases "written es") (auto simp: conn_inv_def runs_def within_read_def split: if_splits)

lemma on_read_cases:
  assumes "\<not> c_read_later c" and "on_read cf h peer res c st = Inr (c', st', es)"
  obtains c1 es1 where "within_read c c1 es1"
    and "c' = c1\<lparr>c_open := False, c_reading := False\<rparr>" and "es = es1 @ Cancel_timer # Close_socket # check_destroy c'"
  | c1 es1 where "within_read c c1 es1" and "c' = c1\<lparr>c_reading := True\<rparr>" and "es = es1 @ [Cancel_timer, Start_timer, Read_some]"
  | c1 es1 where "within_read c c1 es1" and "c' = c1\<lparr>c_read_later := True\<rparr>" and "es = es1"
proof -
  obtain c1 st1 es1 where r: "(case res of Got evs ok \<Rightarrow> feed cf h peer evs c st | Read_error \<Rightarrow> Inr (c, st, [])) = Inr (c1, st1, es1)"
    using assms(2) by (auto simp: on_read_def split: sum.splits)
  have w: "within_read c c1 es1"
  proof (cases res)
    case (Got evs ok)
    with r feed_within [OF assms(1)] show ?thesis by simp
  qed (use r assms(1) in \<open>simp add: within_read_refl\<close>)
  from assms(2) r show thesis
    by (auto simp: on_read_def Let_def do_read_def start_deadline_def split: if_splits intro: that [OF w])
qed

lemma read_ends_inv:
  assumes inv: "conn_inv s" and run: "runs s" and n: "reads_out s = Suc n"
    and r: "on_read cf h peer res (conn s) (app s) = Inr (c, st, es)"
  shows "conn_inv (fold apply_effect es (s\<lparr>conn := c, app := st, reads_out := n\<rparr>))"
proof -
  have "\<not> c_read_later (conn s)" using inv n by (auto simp: conn_inv_def split: if_splits)
  from on_read_cases [OF this r] show ?thesis
  proof cases
    case (1 c1 es1)
    with feed_inv [OF inv run n 1(1), where c' = c and st = st] show ?thesis
      by (auto simp: conn_inv_def check_destroy_def)
  next
    case (2 c1 es1)
    with feed_inv [OF inv run n 2(1), where c' = c and st = st] show ?thesis by (auto simp: conn_inv_def)
  next
    case (3 c1 es1)
    with feed_inv [OF inv run n 3(1), where c' = c and st = st] show ?thesis by (auto simp: conn_inv_def)
  qed
qed

lemma write_ends_inv:
  assumes inv: "conn_inv s" and run: "runs s" and w: "writes_out s = ws @ w # ws'" and r: "on_write ok (conn s) = (c, es)"
  shows "conn_inv (fold apply_effect es (s\<lparr>conn := c, writes_out := ws @ ws'\<rparr>))"
  using assms by (auto simp: conn_inv_def runs_def on_write_def Let_def check_destroy_def split: if_splits)

lemma timer_fires_inv:
  assumes "conn_inv s" and "runs s" and "on_deadline (conn s) = (c, es)"
  shows "conn_inv (fold apply_effect es (s\<lparr>conn := c, timer_set := False\<rparr>))"
  using assms by (auto simp: conn_inv_def runs_def on_deadline_def split: if_splits)

lemma conn_step_inv: "conn_step cf h s s' \<Longrightarrow> conn_inv s \<Longrightarrow> conn_inv s'"
proof (induction rule: conn_step.induct)
  case (read_sticks s n peer res x)
  then show ?case by (simp add: conn_inv_def)
qed (auto intro: read_ends_inv write_ends_inv timer_fires_inv)

lemma conn_reachable_inv: "conn_reachable cf h st s \<Longrightarrow> conn_inv s"
  by (induction rule: conn_reachable.induct) (auto intro: started_inv conn_step_inv)

section \<open>Properties\<close>


definition hello :: "(nat, unit) handler" where
  "hello req st = Some (Routed (Responds (response_body ''hello'')), st)"

definition sample_server :: "nat server_config" where
  "sample_server = \<lparr>cf_fmt = (\<lambda>d. ''0''), cf_name = ''s'', cf_date = ''d''\<rparr>"


end
