(* ===== verification/Crow_Connection_Service.thy ===== *)
theory Crow_Connection_Service
  imports Crow_Connection_Safety
begin

text \<open>
  What a connection does for its client: requests that come one after the other are answered in
  turn; what happens to two requests in one read, and to a request that asks to close.
\<close>

section \<open>A message of the client\<close>

text \<open>The pieces of the URL, the headers, the pieces of the body and the method.\<close>

type_synonym message = "bytes list \<times> header_pieces list \<times> bytes list \<times> http_method"

definition events_of :: "message \<Rightarrow> parser_event list" where
  "events_of msg = (case msg of (us, hs, bs, m) \<Rightarrow> message_events us hs (1, 1) bs @ [Message_complete m])"

definition request_of :: "message \<Rightarrow> http_request" where
  "request_of msg =
     (case msg of (us, hs, bs, m) \<Rightarrow>
        \<lparr>rq_method = m, raw_url = concat us, rq_url = takeWhile (\<lambda>c. c \<noteq> CHR ''?'') (concat us),
         rq_headers = kept (map header_of hs), rq_body = concat bs\<rparr>)"

definition asks_to_close :: "http_request \<Rightarrow> bool" where
  "asks_to_close req \<longleftrightarrow> get_header_value (rq_headers req) ''connection'' = ''close''"

definition keeps_alive :: "http_request \<Rightarrow> bool" where
  "keeps_alive req \<longleftrightarrow> iequals (get_header_value (rq_headers req) ''connection'') ''Keep-Alive''"

text \<open>A message of HTTP/1.1 as it should be, that expects no interim answer.\<close>

definition plain_message :: "message \<Rightarrow> bool" where
  "plain_message msg \<longleftrightarrow>
     list_all pieces_ok (fst (snd msg)) \<and> query_pairs (raw_url (request_of msg)) \<le> 256 \<and>
     header_count ''host'' (rq_headers (request_of msg)) \<noteq> 0 \<and>
     header_count ''expect'' (rq_headers (request_of msg)) = 0"

lemma flags_of:
  assumes "plain_message msg"
  shows "handle_flags (1, 1) closing (rq_headers (request_of msg)) =
    \<lparr>close_connection = closing \<or> asks_to_close (request_of msg), add_keep_alive = keeps_alive (request_of msg),
     invalid_request = False\<rparr>"
proof -
  have "\<not> iequals ''close'' ''Keep-Alive''" "\<not> iequals [] ''Keep-Alive''" by code_simp+
  with assms show ?thesis
    by (auto simp: plain_message_def handle_flags_def Let_def asks_to_close_def keeps_alive_def get_header_value_def)
qed

section \<open>Feeding a message\<close>

lemma feed_append:
  "feed cf h peer (es @ fs) c st =
    (case feed cf h peer es c st of
       Inl x \<Rightarrow> Inl x
     | Inr (c1, st1, es1) \<Rightarrow>
         (case feed cf h peer fs c1 st1 of Inl x \<Rightarrow> Inl x | Inr (c2, st2, es2) \<Rightarrow> Inr (c2, st2, es1 @ es2)))"
  by (induction es arbitrary: c st) (auto split: sum.splits prod.splits)

lemma feed_last: "feed cf h peer es c st = Inr (c1, st1, []) \<Longrightarrow> feed cf h peer (es @ [e]) c st = conn_event cf h peer e c1 st1"
  by (auto simp: feed_append split: sum.split)

definition gathered :: "parser_event \<Rightarrow> bool" where
  "gathered e = (case e of Headers_complete v \<Rightarrow> False | Message_complete m \<Rightarrow> False | _ \<Rightarrow> True)"

lemma feed_gathered:
  "list_all gathered es \<Longrightarrow> feed cf h peer es c st = Inr (c\<lparr>c_parser := fold gather es (c_parser c)\<rparr>, st, [])"
proof (induction es arbitrary: c)
  case (Cons e es)
  then have "conn_event cf h peer e c st = Inr (c\<lparr>c_parser := gather e (c_parser c)\<rparr>, st, [])"
    by (cases e) (simp_all add: gathered_def)
  with Cons show ?case by simp
qed simp

lemma gathered_parts:
  "list_all gathered (Message_begin # map Url us @ concat (map header_events hs))" "list_all gathered (map Body bs)"
  by (auto simp: list_all_iff gathered_def header_events_def)

lemma headers_event:
  "gather (Headers_complete v) (c_parser c) = p \<Longrightarrow> handle_header (c\<lparr>c_parser := p\<rparr>) = (c\<lparr>c_parser := p\<rparr>, []) \<Longrightarrow>
   conn_event cf h peer (Headers_complete v) c st = Inr (c\<lparr>c_parser := p\<rparr>, st, [])"
  by (simp del: gather.simps)

lemma feed_headers:
  assumes "list_all gathered es" and "list_all gathered fs" and "gather (Headers_complete v) (fold gather es (c_parser c)) = p"
    and "handle_header (c\<lparr>c_parser := p\<rparr>) = (c\<lparr>c_parser := p\<rparr>, [])"
  shows "feed cf h peer (es @ Headers_complete v # fs) c st = Inr (c\<lparr>c_parser := fold gather fs p\<rparr>, st, [])"
proof -
  let ?c = "c\<lparr>c_parser := fold gather es (c_parser c)\<rparr>"
  have "conn_event cf h peer (Headers_complete v) ?c st = Inr (c\<lparr>c_parser := p\<rparr>, st, [])"
    using headers_event [of v ?c p cf h peer st] assms(3,4) by (simp del: gather.simps conn_event.simps)
  with feed_gathered [OF assms(2), of cf h peer "c\<lparr>c_parser := p\<rparr>" st] show ?thesis
    by (simp add: feed_append feed_gathered [OF assms(1)] del: gather.simps conn_event.simps)
qed

lemma feed_message_version:
  assumes hs: "list_all pieces_ok hs" and few: "query_pairs (concat us) \<le> 256"
    and expect: "header_count ''expect'' (kept (map header_of hs)) = 0"
  shows "\<exists>p. http_version p = v \<and> feed cf h peer (message_events us hs v bs @ [Message_complete m]) c st =
    conn_handle cf h peer (request_of (us, hs, bs, m)) (c\<lparr>c_parser := p\<rparr>) st"
proof -
  let ?front = "Message_begin # map Url us @ concat (map header_events hs)"
  let ?p = "fold gather (message_events us hs v []) (c_parser c)"
  let ?q = "fold gather (message_events us hs v bs) (c_parser c)"
  have p: "gather (Headers_complete v) (fold gather ?front (c_parser c)) = ?p"
    by (simp add: message_events_def)
  have q: "fold gather (map Body bs) ?p = ?q" by (simp add: message_events_def)
  have "header_count ''expect'' (ps_headers ?p) = 0" using expect by (simp add: message_gathered [OF hs])
  then have "handle_header (c\<lparr>c_parser := ?p\<rparr>) = (c\<lparr>c_parser := ?p\<rparr>, [])" by (simp add: handle_header_def)
  note front = feed_headers [OF gathered_parts(1) gathered_parts(2) [of bs] p this, unfolded q]
  have "message_events us hs v bs = ?front @ Headers_complete v # map Body bs" by (simp add: message_events_def)
  then have fed: "feed cf h peer (message_events us hs v bs) c st = Inr (c\<lparr>c_parser := ?q\<rparr>, st, [])"
    by (simp only: front)
  have raw: "ps_raw_url ?q = concat us" by (simp add: message_gathered [OF hs])
  with few query_table_bounds [of "concat us"] obtain qs where qs: "query_string_of (ps_raw_url ?q) = Inr qs" by auto
  let ?r = "?q\<lparr>ps_url := takeWhile (\<lambda>c. c \<noteq> CHR ''?'') (ps_raw_url ?q), url_params := qs\<rparr>"
  have "on_message_complete ?q = Inr ?r" by (simp add: on_message_complete_def qs)
  moreover have "to_request m ?r = request_of (us, hs, bs, m)"
    by (simp add: to_request_def message_gathered [OF hs] request_of_def)
  ultimately have "feed cf h peer (message_events us hs v bs @ [Message_complete m]) c st =
      conn_handle cf h peer (request_of (us, hs, bs, m)) (c\<lparr>c_parser := ?r\<rparr>) st"
    using feed_last [OF fed, of "Message_complete m"] by simp
  moreover have "http_version ?r = v" by (simp add: message_gathered [OF hs])
  ultimately show ?thesis by blast
qed

lemma feed_message:
  assumes "plain_message msg"
  shows "\<exists>p. http_version p = (1, 1) \<and> feed cf h peer (events_of msg) c st =
    conn_handle cf h peer (request_of msg) (c\<lparr>c_parser := p\<rparr>) st"
proof -
  obtain us hs bs m where msg: "msg = (us, hs, bs, m)" by (cases msg)
  with assms show ?thesis
    unfolding msg events_of_def prod.case by (intro feed_message_version) (simp_all add: plain_message_def request_of_def)
qed

section \<open>One request on an idle connection\<close>

definition idle_conn :: "'d connection \<Rightarrow> bool" where
  "idle_conn c \<longleftrightarrow>
     c_open c \<and> \<not> c_closing c \<and> c_reading c \<and> \<not> c_writing c \<and> \<not> c_after c \<and> \<not> c_read_later c \<and>
     \<not> completed (c_response c) \<and> c_body_copy c = []"

text \<open>The bytes of an answer.\<close>

definition answer :: "'d server_config \<Rightarrow> http_request \<Rightarrow> 'd response \<Rightarrow> bytes" where
  "answer cf req r = snd (complete_request (cf_fmt cf) (cf_name cf) (cf_date cf) (keeps_alive req) r)"

lemma final_response_completed:
  "final_response fmt (r\<lparr>completed := b\<rparr>) = (final_response fmt r)\<lparr>completed := b\<rparr>"
  by (auto simp: final_response_def Let_def)

lemma complete_request_completed:
  "snd (complete_request fmt nm date ka (r\<lparr>completed := b\<rparr>)) = snd (complete_request fmt nm date ka r)"
  by (simp add: complete_request_def final_response_completed Let_def)

text \<open>What is left in the connection when a plain request has been answered: its response with the
  body taken out.\<close>

definition spent :: "'d server_config \<Rightarrow> http_request \<Rightarrow> 'd response \<Rightarrow> 'd response" where
  "spent cf req r =
     (let f = (final_response (cf_fmt cf) r)\<lparr>completed := True, rs_body := []\<rparr>
      in if keeps_alive req then f\<lparr>rs_headers := headers_set ''connection'' ''Keep-Alive'' (rs_headers f)\<rparr> else f)"

lemma handle_plain:
  assumes "plain_message msg" and "http_version (c_parser c) = (1, 1)" and "c_open c" and "\<not> c_read_later c"
    and "\<not> completed (c_response c)" and "c_body_copy c = []"
    and "h (request_of msg) st = Some (Routed (Responds r), st')" and "\<not> completed r"
  shows "conn_handle cf h True (request_of msg) c st =
    Inr (c\<lparr>c_keep_alive := keeps_alive (request_of msg), c_closing := c_closing c \<or> asks_to_close (request_of msg),
           c_after := False, c_response := spent cf (request_of msg) r,
           c_body_copy := rs_body (final_response (cf_fmt cf) r), c_writing := True\<rparr>,
         st', [Cancel_timer, Write_all (answer cf (request_of msg) r)])"
  using assms
  by (simp add: conn_handle_def flags_of [OF assms(1)] respond_def response_end_def finish_request_def do_write_def
      complete_request_completed final_response_completed answer_def spent_def Let_def del: One_nat_def)

lemma feed_plain:
  assumes "plain_message msg" and "c_open c" and "\<not> c_read_later c" and "\<not> completed (c_response c)" and "c_body_copy c = []"
    and "h (request_of msg) st = Some (Routed (Responds r), st')" and "\<not> completed r"
  shows "\<exists>p. feed cf h True (events_of msg) c st =
    Inr (c\<lparr>c_parser := p, c_keep_alive := keeps_alive (request_of msg),
           c_closing := c_closing c \<or> asks_to_close (request_of msg), c_after := False,
           c_response := spent cf (request_of msg) r, c_body_copy := rs_body (final_response (cf_fmt cf) r), c_writing := True\<rparr>,
         st', [Cancel_timer, Write_all (answer cf (request_of msg) r)])"
proof -
  from feed_message [OF assms(1), of cf h True c st] obtain p where p: "http_version p = (1, 1)"
    "feed cf h True (events_of msg) c st = conn_handle cf h True (request_of msg) (c\<lparr>c_parser := p\<rparr>) st" by blast
  from handle_plain [OF assms(1), of "c\<lparr>c_parser := p\<rparr>" h st r st' cf] p assms(2-7) show ?thesis
    by (intro exI [of _ p]) simp
qed

lemma read_plain:
  assumes "plain_message msg" and "idle_conn c" and "\<not> asks_to_close (request_of msg)"
    and "h (request_of msg) st = Some (Routed (Responds r), st')" and "\<not> completed r"
  shows "\<exists>c'. on_read cf h True (Got (events_of msg) True) c st =
      Inr (c', st', [Cancel_timer, Write_all (answer cf (request_of msg) r), Cancel_timer, Start_timer, Read_some]) \<and>
    (\<exists>c''. on_write True c' = (c'', []) \<and> idle_conn c'')"
proof -
  from feed_plain [of msg c h st r st' cf] assms obtain p where
    "feed cf h True (events_of msg) c st =
      Inr (c\<lparr>c_parser := p, c_keep_alive := keeps_alive (request_of msg),
             c_closing := c_closing c \<or> asks_to_close (request_of msg), c_after := False,
             c_response := spent cf (request_of msg) r, c_body_copy := rs_body (final_response (cf_fmt cf) r), c_writing := True\<rparr>,
           st', [Cancel_timer, Write_all (answer cf (request_of msg) r)])"
    unfolding idle_conn_def by blast
  with assms(2,3) show ?thesis
    by (simp add: on_read_def do_read_def start_deadline_def idle_conn_def on_write_def response_clear_def)
qed

section \<open>Requests in turn\<close>

definition idle_system :: "('d, 's) conn_system \<Rightarrow> bool" where
  "idle_system s \<longleftrightarrow> runs s \<and> idle_conn (conn s) \<and> reads_out s = 1 \<and> writes_out s = []"

lemma started_idle: "idle_system (started st)"
  by (simp add: idle_system_def started_def conn_start_def do_read_def start_deadline_def runs_def idle_conn_def
      new_connection_def new_response_def)

lemma started_idle_conn: "idle_conn (conn (started st))"
  by (rule started_idle [unfolded idle_system_def, THEN conjunct2, THEN conjunct1])

abbreviation conn_steps ::
  "'d server_config \<Rightarrow> ('d, 's) handler \<Rightarrow> ('d, 's) conn_system \<Rightarrow> ('d, 's) conn_system \<Rightarrow> bool"
where
  "conn_steps cf h \<equiv> (conn_step cf h)\<^sup>*\<^sup>*"

lemma serve_message:
  assumes "idle_system s" and "plain_message msg" and "\<not> asks_to_close (request_of msg)"
    and "h (request_of msg) (app s) = Some (Routed (Responds r), st')" and "\<not> completed r"
  shows "\<exists>s'. conn_steps cf h s s' \<and> idle_system s' \<and> app s' = st' \<and> wire s' = wire s @ [answer cf (request_of msg) r]"
proof -
  let ?out = "answer cf (request_of msg) r"
  let ?es = "[Cancel_timer, Write_all ?out, Cancel_timer, Start_timer, Read_some]"
  from assms(1) have s: "runs s" "idle_conn (conn s)" "reads_out s = Suc 0" "writes_out s = []" by (simp_all add: idle_system_def)
  from read_plain [where msg = msg and c = "conn s" and h = h and st = "app s" and r = r and st' = st' and cf = cf] assms(2-5) s(2) obtain c c' where
    r: "on_read cf h True (Got (events_of msg) True) (conn s) (app s) = Inr (c, st', ?es)" "on_write True c = (c', [])" "idle_conn c'"
    by blast
  let ?t = "fold apply_effect ?es (s\<lparr>conn := c, app := st', reads_out := 0\<rparr>)"
  have t: "runs ?t" "writes_out ?t = [] @ ?out # []" "on_write True (conn ?t) = (c', [])"
    using s r by (simp_all add: runs_def)
  let ?u = "?t\<lparr>conn := c', writes_out := []\<rparr>"
  have "conn_step cf h s ?t" by (rule read_ends [OF s(1,3) r(1)])
  moreover have "conn_step cf h ?t ?u" using write_ends [OF t] by simp
  ultimately have "conn_steps cf h s ?u" by (meson converse_rtranclp_into_rtranclp rtranclp.rtrancl_refl)
  moreover have "idle_system ?u" "app ?u = st'" "wire ?u = wire s @ [?out]"
    using s r(3) by (simp_all add: idle_system_def runs_def)
  ultimately show ?thesis by blast
qed

text \<open>What the handler makes of requests, one after the other.\<close>

fun responses :: "('d, 's) handler \<Rightarrow> http_request list \<Rightarrow> 's \<Rightarrow> ('d response list \<times> 's) option" where
  "responses h [] st = Some ([], st)"
| "responses h (req # reqs) st =
     (case h req st of
        Some (Routed (Responds r), st') \<Rightarrow>
          if completed r then None
          else (case responses h reqs st' of None \<Rightarrow> None | Some (rs, st'') \<Rightarrow> Some (r # rs, st''))
      | _ \<Rightarrow> None)"

text \<open>A client that sends plain requests one after the other, each when the answer to the one
  before has been written, gets for each the answer of the handler, in order, on the same
  connection, which is then ready for the next; the state of the program goes through the
  handler's states, however the requests are cut into pieces.\<close>

lemma serve_messages:
  "idle_system s \<Longrightarrow> list_all (\<lambda>m. plain_message m \<and> \<not> asks_to_close (request_of m)) msgs \<Longrightarrow>
   responses h (map request_of msgs) (app s) = Some (rs, st) \<Longrightarrow>
   \<exists>s'. conn_steps cf h s s' \<and> idle_system s' \<and> app s' = st \<and>
     wire s' = wire s @ map (\<lambda>(req, r). answer cf req r) (zip (map request_of msgs) rs)"
proof (induction msgs arbitrary: s rs)
  case Nil
  then show ?case by auto
next
  case (Cons m msgs)
  from Cons.prems(3) obtain r st1 rs1 where r: "h (request_of m) (app s) = Some (Routed (Responds r), st1)" "\<not> completed r"
    "responses h (map request_of msgs) st1 = Some (rs1, st)" "rs = r # rs1"
    by (auto split: option.splits prod.splits routed.splits handled.splits if_splits)
  from serve_message [of s m h r st1 cf] Cons.prems(1,2) r(1,2) obtain t where
    t: "conn_steps cf h s t" "idle_system t" "app t = st1" "wire t = wire s @ [answer cf (request_of m) r]" by auto
  from Cons.IH [OF t(2), of rs1] Cons.prems(2) r(3) t(3) obtain u where
    "conn_steps cf h t u" "idle_system u" "app u = st"
    "wire u = wire t @ map (\<lambda>(req, r). answer cf req r) (zip (map request_of msgs) rs1)" by auto
  with t r(4) show ?case by (intro exI [of _ u]) (auto intro: rtranclp_trans)
qed

section \<open>Two requests in one read\<close>

text \<open>The second request finds the response of the first one completed: it is not given to the
  handler, and what is left of that response goes out again.\<close>

lemma handle_pipelined:
  assumes "plain_message msg" and "http_version (c_parser c) = (1, 1)" and "c_open c" and "\<not> c_read_later c"
    and "completed (c_response c)"
  shows "\<exists>c'. conn_handle cf h True (request_of msg) c st =
      Inr (c', st, [Cancel_timer, Write_all (answer cf (request_of msg) (c_response c))]) \<and>
    c_open c' \<and> c_reading c' = c_reading c \<and> \<not> c_read_later c' \<and> \<not> c_after c' \<and> c_writing c' \<and>
    c_closing c' = (c_closing c \<or> asks_to_close (request_of msg))"
  using assms
  by (simp add: conn_handle_def flags_of [OF assms(1)] finish_request_def do_write_def answer_def Let_def del: One_nat_def)

lemma read_two:
  assumes m: "plain_message m" "plain_message m'" and c: "idle_conn c"
    and "\<not> asks_to_close (request_of m)" and "\<not> asks_to_close (request_of m')"
    and h: "h (request_of m) st = Some (Routed (Responds r), st')" "\<not> completed r"
  shows "\<exists>c'. on_read cf h True (Got (events_of m @ events_of m') True) c st =
      Inr (c', st', [Cancel_timer, Write_all (answer cf (request_of m) r), Cancel_timer,
        Write_all (answer cf (request_of m') (spent cf (request_of m) r)), Cancel_timer, Start_timer, Read_some]) \<and>
    c_open c' \<and> c_reading c' \<and> c_writing c' \<and> \<not> c_closing c' \<and> \<not> c_read_later c'"
proof -
  from feed_plain [of m c h st r st' cf] m(1) h c obtain p where p:
    "feed cf h True (events_of m) c st =
      Inr (c\<lparr>c_parser := p, c_keep_alive := keeps_alive (request_of m), c_closing := c_closing c \<or> asks_to_close (request_of m),
             c_after := False, c_response := spent cf (request_of m) r,
             c_body_copy := rs_body (final_response (cf_fmt cf) r), c_writing := True\<rparr>,
           st', [Cancel_timer, Write_all (answer cf (request_of m) r)])"
    (is "_ = Inr (?c, _, _)") unfolding idle_conn_def by blast
  from feed_message [OF m(2), of cf h True ?c st'] obtain p' where p': "http_version p' = (1, 1)"
    "feed cf h True (events_of m') ?c st' = conn_handle cf h True (request_of m') (?c\<lparr>c_parser := p'\<rparr>) st'" by blast
  have "completed (spent cf (request_of m) r)" by (simp add: spent_def Let_def)
  moreover have "c_open ?c" "\<not> c_read_later ?c" "c_reading ?c" "\<not> c_closing ?c" using c assms(4) by (simp_all add: idle_conn_def)
  ultimately obtain c' where c': "conn_handle cf h True (request_of m') (?c\<lparr>c_parser := p'\<rparr>) st' =
      Inr (c', st', [Cancel_timer, Write_all (answer cf (request_of m') (spent cf (request_of m) r))])"
    "c_open c' \<and> c_reading c' \<and> \<not> c_read_later c' \<and> \<not> c_after c' \<and> c_writing c' \<and> \<not> c_closing c'"
    using handle_pipelined [OF m(2), of "?c\<lparr>c_parser := p'\<rparr>" cf h st'] p'(1) assms(5) by fastforce
  note p'(2) [unfolded c'(1)]
  with p c'(2) show ?thesis
    by (intro exI [of _ "c'\<lparr>c_reading := True\<rparr>"]) (simp add: on_read_def feed_append do_read_def start_deadline_def)
qed

text \<open>The first of the two writes ends, the client closes: the connection is freed.\<close>

lemma freed_while_writing:
  assumes "plain_message m" "plain_message m'" and s: "idle_system s"
    and "\<not> asks_to_close (request_of m)" and "\<not> asks_to_close (request_of m')"
    and "h (request_of m) (app s) = Some (Routed (Responds r), st')" "\<not> completed r"
  shows "\<exists>s'. conn_steps cf h s s' \<and> destroyed s' \<and>
    writes_out s' = [answer cf (request_of m') (spent cf (request_of m) r)]"
proof -
  let ?w = "answer cf (request_of m) r" and ?w' = "answer cf (request_of m') (spent cf (request_of m) r)"
  let ?es = "[Cancel_timer, Write_all ?w, Cancel_timer, Write_all ?w', Cancel_timer, Start_timer, Read_some]"
  have s': "runs s" "reads_out s = Suc 0" "writes_out s = []" "idle_conn (conn s)" using s by (simp_all add: idle_system_def)
  from read_two [where m = m and m' = m' and c = "conn s" and st = "app s" and cf = cf and h = h and r = r and st' = st'] assms s'(4)
  obtain c where c: "on_read cf h True (Got (events_of m @ events_of m') True) (conn s) (app s) = Inr (c, st', ?es)"
    "c_open c" "c_reading c" "c_writing c" "\<not> c_closing c" by blast
  let ?t = "fold apply_effect ?es (s\<lparr>conn := c, app := st', reads_out := 0\<rparr>)"
  let ?d = "c\<lparr>c_writing := False, c_response := response_clear (c_response c), c_body_copy := []\<rparr>"
  let ?u = "?t\<lparr>conn := ?d, writes_out := [?w']\<rparr>"
  let ?fs = "[Cancel_timer, Close_socket, Cancel_timer, Delete_this]"
  let ?d' = "?d\<lparr>c_open := False, c_reading := False\<rparr>"
  let ?v = "fold apply_effect ?fs (?u\<lparr>conn := ?d', app := st', reads_out := 0\<rparr>)"
  have "conn_step cf h s ?t" by (rule read_ends [OF s'(1,2) c(1)])
  moreover have "conn_step cf h ?t ?u"
  proof -
    have t: "runs ?t" "writes_out ?t = [] @ ?w # [?w']" "on_write True (conn ?t) = (?d, [])"
      using s' c by (simp_all add: runs_def on_write_def)
    from write_ends [OF t] show ?thesis by simp
  qed
  moreover have "conn_step cf h ?u ?v"
  proof -
    have u: "runs ?u" "reads_out ?u = Suc 0" "on_read cf h True Read_error (conn ?u) (app ?u) = Inr (?d', st', ?fs)"
      using s' by (simp_all add: runs_def on_read_def check_destroy_def)
    from read_ends [OF u] show ?thesis .
  qed
  ultimately have "conn_steps cf h s ?v" by (meson converse_rtranclp_into_rtranclp rtranclp.rtrancl_refl)
  moreover have "destroyed ?v" "writes_out ?v = [?w']" by simp_all
  ultimately show ?thesis by blast
qed

section \<open>A request to close\<close>

lemma read_closing:
  assumes "plain_message msg" and "idle_conn c" and "asks_to_close (request_of msg)"
    and "h (request_of msg) st = Some (Routed (Responds r), st')" and "\<not> completed r"
  shows "\<exists>c'. on_read cf h True (Got (events_of msg) ok) c st =
      Inr (c', st', [Cancel_timer, Write_all (answer cf (request_of msg) r), Cancel_timer, Close_socket]) \<and>
    \<not> c_open c' \<and> c_writing c'"
proof -
  from feed_plain [of msg c h st r st' cf] assms obtain p where
    "feed cf h True (events_of msg) c st =
      Inr (c\<lparr>c_parser := p, c_keep_alive := keeps_alive (request_of msg),
             c_closing := c_closing c \<or> asks_to_close (request_of msg), c_after := False,
             c_response := spent cf (request_of msg) r, c_body_copy := rs_body (final_response (cf_fmt cf) r), c_writing := True\<rparr>,
           st', [Cancel_timer, Write_all (answer cf (request_of msg) r)])"
    unfolding idle_conn_def by blast
  with assms(3) show ?thesis by (simp add: on_read_def check_destroy_def Let_def)
qed

section \<open>Properties\<close>

definition sample_message :: message where
  "sample_message = ([''/''], [([''Ho'', ''st''], [''h''])], [], M_GET)"

lemma sample_message_plain: "plain_message sample_message" "\<not> asks_to_close (request_of sample_message)"
  by code_simp+

text \<open>C37: the second of two requests that come in one read is never given to the handler: its
  answer is the first one's response once more, without its body (with the text of its status for
  an error), and the state of the program does not change for it.\<close>

theorem pipelined_request_gets_stale_answer:
  assumes "plain_message m" and "plain_message m'" and "idle_conn c"
    and "\<not> asks_to_close (request_of m)" and "\<not> asks_to_close (request_of m')"
    and "h (request_of m) st = Some (Routed (Responds r), st')" and "\<not> completed r"
  shows "\<exists>c'. on_read cf h True (Got (events_of m @ events_of m') True) c st =
    Inr (c', st', [Cancel_timer, Write_all (answer cf (request_of m) r), Cancel_timer,
      Write_all (answer cf (request_of m') (spent cf (request_of m) r)), Cancel_timer, Start_timer, Read_some])"
  using read_two [where m = m and m' = m' and c = c and st = st and cf = cf and h = h and r = r and st' = st'] assms by blast

theorem pipelined_request_gets_stale_answer_witness:
  "\<exists>c'. on_read sample_server hello True (Got (events_of sample_message @ events_of sample_message) True)
      (conn (started ())) () =
    Inr (c', (), [Cancel_timer, Write_all (answer sample_server (request_of sample_message) (response_body ''hello'')), Cancel_timer,
      Write_all (answer sample_server (request_of sample_message)
        (spent sample_server (request_of sample_message) (response_body ''hello''))), Cancel_timer, Start_timer, Read_some])"
  by (rule pipelined_request_gets_stale_answer [OF sample_message_plain(1) sample_message_plain(1) started_idle_conn
        sample_message_plain(2) sample_message_plain(2)])
    (simp_all add: hello_def response_body_def new_response_def)

text \<open>C38: two requests in one read can make the connection free itself while the second answer is
  being written: when the first write has ended and the client closes, the flag of writing is down
  although a write is under way, whose callback then uses the freed object.\<close>

theorem pipelining_frees_during_write:
  assumes "plain_message m" and "plain_message m'" and "idle_system s"
    and "\<not> asks_to_close (request_of m)" and "\<not> asks_to_close (request_of m')"
    and "h (request_of m) (app s) = Some (Routed (Responds r), st')" and "\<not> completed r"
  shows "\<exists>s'. conn_steps cf h s s' \<and> destroyed s' \<and> writes_out s' \<noteq> []"
  using freed_while_writing [where m = m and m' = m' and s = s and cf = cf and h = h and r = r and st' = st'] assms by fastforce

theorem pipelining_frees_during_write_witness:
  "\<exists>s'. conn_steps sample_server hello (started ()) s' \<and> destroyed s' \<and> writes_out s' \<noteq> []"
  by (rule pipelining_frees_during_write [OF sample_message_plain(1) sample_message_plain(1) started_idle
        sample_message_plain(2) sample_message_plain(2), where r = "response_body ''hello''"])
    (simp_all add: hello_def response_body_def new_response_def)

text \<open>After a request with \<^verbatim>\<open>Connection: close\<close> the socket is closed as soon as the read's
  callback returns, while the answer is still being written: what the socket has not taken by then
  is cut off.\<close>

lemma close_request_cuts_answer:
  assumes "plain_message msg" and "idle_conn c" and "asks_to_close (request_of msg)"
    and "h (request_of msg) st = Some (Routed (Responds r), st')" and "\<not> completed r"
  shows "\<exists>c'. on_read cf h True (Got (events_of msg) ok) c st =
      Inr (c', st', [Cancel_timer, Write_all (answer cf (request_of msg) r), Cancel_timer, Close_socket]) \<and>
    \<not> c_open c' \<and> c_writing c'"
  using read_closing [where msg = msg and c = c and st = st and cf = cf and h = h and r = r and st' = st' and ok = ok] assms by blast

definition closing_message :: message where
  "closing_message = ([''/''], [([''Host''], [''h'']), ([''Connection''], [''close''])], [], M_GET)"

lemma closing_message_asks: "plain_message closing_message" "asks_to_close (request_of closing_message)"
  by code_simp+

lemma close_request_cuts_answer_witness:
  "\<exists>c'. on_read sample_server hello True (Got (events_of closing_message) True) (conn (started ())) () =
      Inr (c', (), [Cancel_timer, Write_all (answer sample_server (request_of closing_message) (response_body ''hello'')),
        Cancel_timer, Close_socket]) \<and>
    \<not> c_open c' \<and> c_writing c'"
  by (rule close_request_cuts_answer [OF closing_message_asks(1) started_idle_conn closing_message_asks(2)])
    (simp_all add: hello_def response_body_def new_response_def)

end
