(* ===== verification/Http_Events.thy ===== *)
theory Http_Events
  imports Crow_Connection_Service
begin

text \<open>
  Events that differ only in how their data are cut. The parser hands on the data of one callback in
  as many pieces as there are buffers; what is gathered from them is the same.
\<close>

fun merge :: "parser_event \<Rightarrow> parser_event \<Rightarrow> parser_event option" where
  "merge (Url s) (Url t) = Some (Url (s @ t))"
| "merge (Header_field s) (Header_field t) = Some (Header_field (s @ t))"
| "merge (Header_value s) (Header_value t) = Some (Header_value (s @ t))"
| "merge (Body s) (Body t) = Some (Body (s @ t))"
| "merge _ _ = None"

definition add_event :: "parser_event \<Rightarrow> parser_event list \<Rightarrow> parser_event list" where
  "add_event e es =
     (case es of
        [] \<Rightarrow> [e]
      | f # fs \<Rightarrow> (case merge e f of None \<Rightarrow> e # es | Some g \<Rightarrow> g # fs))"

text \<open>Neighbours that can be merged are.\<close>

fun joined :: "parser_event list \<Rightarrow> parser_event list" where
  "joined [] = []"
| "joined (e # es) = add_event e (joined es)"

lemma merge_assoc: "merge e f = Some g \<Longrightarrow> merge g h = (case merge f h of None \<Rightarrow> None | Some k \<Rightarrow> merge e k)"
  by (cases e; cases f; cases h) auto

lemma merge_none: "merge e f = Some g \<Longrightarrow> merge f h = None \<Longrightarrow> merge g h = None"
  by (cases e; cases f; cases h) auto

lemma merge_some: "merge e f = Some g \<Longrightarrow> merge f h = Some k \<Longrightarrow> \<exists>l. merge e k = Some l \<and> merge g h = Some l"
  by (cases e; cases f; cases h) auto

lemma merge_none_some: "merge e f = None \<Longrightarrow> merge f h = Some k \<Longrightarrow> merge e k = None"
  by (cases e; cases f; cases h) auto

lemma add_event_merged:
  assumes "merge e f = Some g"
  shows "add_event e (add_event f es) = add_event g es"
proof (cases es)
  case Nil
  with assms show ?thesis by (simp add: add_event_def)
next
  case (Cons h hs)
  show ?thesis
  proof (cases "merge f h")
    case None
    with assms Cons merge_none [OF assms None] show ?thesis by (simp add: add_event_def)
  next
    case (Some k)
    from merge_some [OF assms Some] obtain l where "merge e k = Some l" "merge g h = Some l" by blast
    with Cons Some show ?thesis by (simp add: add_event_def)
  qed
qed

lemma join_append: "joined (es @ fs) = foldr add_event es (joined fs)"
  by (induction es) simp_all

lemma foldr_join: "foldr add_event (joined es) fs = foldr add_event es fs"
proof (induction es)
  case (Cons e es)
  have "foldr add_event (add_event e (joined es)) fs = add_event e (foldr add_event (joined es) fs)"
  proof (cases "joined es")
    case Nil
    then show ?thesis by (simp add: add_event_def)
  next
    case (Cons f gs)
    then show ?thesis
      by (cases "merge e f") (simp_all add: add_event_def [of e "f # gs"] add_event_merged)
  qed
  with Cons show ?case by simp
qed simp

lemma join_cong: "joined es = joined es' \<Longrightarrow> joined fs = joined fs' \<Longrightarrow> joined (es @ fs) = joined (es' @ fs')"
  using foldr_join [of es "joined fs"] foldr_join [of es' "joined fs'"] by (simp add: join_append)

lemma join_left: "joined es = joined es' \<Longrightarrow> joined (es @ fs) = joined (es' @ fs)"
  by (rule join_cong [OF _ refl])

lemma join_right: "joined fs = joined fs' \<Longrightarrow> joined (es @ fs) = joined (es @ fs')"
  by (rule join_cong [OF refl])

lemma join_merge: "merge e f = Some g \<Longrightarrow> joined (es @ e # f # fs) = joined (es @ g # fs)"
  by (simp add: join_append add_event_merged)

lemma join_join [simp]: "joined (joined es) = joined es"
  using foldr_join [of es "[]"] join_append [of "joined es" "[]"] join_append [of es "[]"] by simp

section \<open>What is gathered\<close>

lemma merge_gathered: "merge e f = Some g \<Longrightarrow> gathered e \<and> gathered f \<and> gathered g"
  by (cases e; cases f) (auto simp: gathered_def)

lemma merge_gather: "merge e f = Some g \<Longrightarrow> gather f (gather e p) = gather g p"
  by (cases e; cases f; cases p) (auto simp: on_url_def on_header_field_def on_header_value_def on_body_def)

lemma conn_event_gathered: "gathered e \<Longrightarrow> conn_event cf h peer e c st = Inr (c\<lparr>c_parser := gather e (c_parser c)\<rparr>, st, [])"
  by (cases e) (simp_all add: gathered_def)

lemma conn_event_merged:
  assumes "merge e f = Some g"
  shows "feed cf h peer (e # f # es) c st = feed cf h peer (g # es) c st"
  using merge_gathered [OF assms] merge_gather [OF assms] by (simp add: conn_event_gathered split: sum.split)

lemma feed_add_event: "feed cf h peer (add_event e es) c st = feed cf h peer (e # es) c st"
proof (cases es)
  case (Cons f fs)
  then show ?thesis
    by (cases "merge e f") (simp_all add: add_event_def conn_event_merged del: feed.simps)
qed (simp add: add_event_def)

text \<open>A connection does not see how the data are cut.\<close>

lemma feed_join: "feed cf h peer (joined es) c st = feed cf h peer es c st"
proof (induction es arbitrary: c st)
  case (Cons e es)
  then show ?case
    by (simp add: feed_add_event split: sum.split)
qed simp

lemma feed_same: "joined es = joined fs \<Longrightarrow> feed cf h peer es c st = feed cf h peer fs c st"
  using feed_join [of cf h peer es c st] feed_join [of cf h peer fs c st] by simp

end
