(* ===== verification/Http_Bytes.thy ===== *)
theory Http_Bytes
  imports Http_Safety Http_Events
begin

text \<open>
  The parser a byte at a time: a run over a buffer does what runs over its single bytes do, one after
  the other, so it makes no difference how the bytes of a client are cut into buffers.
\<close>

definition unsent :: "bytes \<Rightarrow> exec \<Rightarrow> parser_event list" where
  "unsent data x =
     marked Header_field data (header_field_mark x) (pos x) @ marked Header_value data (header_value_mark x) (pos x) @
     marked Url data (url_mark x) (pos x) @ marked Body data (body_mark x) (pos x)"

lemma called_flush: "called (flush data x) = called x @ unsent data x"
  by (simp add: flush_def call_defs unsent_def)

text \<open>The same parser at the start of a buffer of one byte, with the events \<open>cy\<close>.\<close>

definition zeroed :: "exec \<Rightarrow> parser_event list \<Rightarrow> exec" where
  "zeroed x cy = x\<lparr>pos := 0, header_field_mark := map_option (\<lambda>_. 0) (header_field_mark x),
     header_value_mark := map_option (\<lambda>_. 0) (header_value_mark x), url_mark := map_option (\<lambda>_. 0) (url_mark x),
     body_mark := None, status_mark := map_option (\<lambda>_. 0) (status_mark x), called := cy\<rparr>"

fun outcome_of_one :: "outcome \<Rightarrow> outcome" where
  "outcome_of_one (Leaves n) = Leaves 1"
| "outcome_of_one r = r"

text \<open>What both have called and will call is the same, given what was called before.\<close>

definition agree :: "parser_event list \<Rightarrow> bytes \<Rightarrow> char \<Rightarrow> exec \<Rightarrow> parser_event list \<Rightarrow> bool" where
  "agree S data ch x cy \<longleftrightarrow> joined (called x @ unsent data x) = joined (S @ cy @ unsent [ch] (zeroed x cy))"

definition follows :: "parser_event list \<Rightarrow> bytes \<Rightarrow> char \<Rightarrow> exec \<times> outcome \<Rightarrow> exec \<times> outcome \<Rightarrow> bool" where
  "follows S data ch xr yr \<longleftrightarrow>
     (\<exists>cy. yr = (zeroed (fst xr) cy, outcome_of_one (snd xr)) \<and>
       ((case snd xr of Fails e \<Rightarrow> False | _ \<Rightarrow> True) \<longrightarrow> agree S data ch (fst xr) cy \<and> body_mark (fst xr) = None))"

text \<open>What is seen of the events of a parser.\<close>

definition sight where
  "sight x = (called x, header_field_mark x, header_value_mark x, url_mark x, body_mark x, pos x)"

lemma agree_sight: "sight x = sight x' \<Longrightarrow> agree S data ch x cy = agree S data ch x' cy"
  by (simp add: sight_def agree_def unsent_def zeroed_def)

definition news :: "exec \<Rightarrow> exec \<Rightarrow> parser_event list" where
  "news x x' = drop (length (called x)) (called x')"

text \<open>A step that changes nothing of that, and one that calls for what begins here.\<close>

lemma follows_quiet:
  assumes "agree S data ch x cy" and "body_mark x = None" and "sight (fst xr) = sight x"
  shows "follows S data ch xr (map_prod (\<lambda>x. zeroed x cy) outcome_of_one xr)"
proof -
  obtain x' r where s: "xr = (x', r)" by fastforce
  have "agree S data ch x' cy" "body_mark x' = None"
    using assms agree_sight [of x' x S data ch cy] s by (simp_all add: sight_def)
  with s show ?thesis by (auto simp: follows_def)
qed

lemma follows_quietI:
  "agree S data ch x cy \<Longrightarrow> body_mark x = None \<Longrightarrow> sight (fst xr) = sight x \<Longrightarrow>
   map_prod (\<lambda>x. zeroed x cy) outcome_of_one xr = yr \<Longrightarrow> follows S data ch xr yr"
  using follows_quiet by blast

definition unmarked :: "exec \<Rightarrow> bool" where
  "unmarked x \<longleftrightarrow> header_field_mark x = None \<and> header_value_mark x = None \<and> url_mark x = None \<and> body_mark x = None"

definition here :: "nat \<Rightarrow> nat option \<Rightarrow> bool" where
  "here p m \<longleftrightarrow> m = None \<or> m = Some p"

definition fresh :: "exec \<Rightarrow> exec \<Rightarrow> bool" where
  "fresh x x' \<longleftrightarrow> called x' = called x @ news x x' \<and> here (pos x') (header_field_mark x') \<and>
     here (pos x') (header_value_mark x') \<and> here (pos x') (url_mark x') \<and> body_mark x' = None"

lemma slice_empty [simp]: "slice data n n = []"
  by (simp add: slice_def)

lemma marked_here: "here p m \<Longrightarrow> marked e data m p = marked e [ch] (map_option (\<lambda>_. 0) m) 0"
  by (auto simp: here_def marked_def)

lemma follows_fresh:
  assumes "agree S data ch x cy" and "unmarked x" and "fresh x (fst xr)"
  shows "follows S data ch xr (map_prod (\<lambda>x'. zeroed x' (cy @ news x x')) outcome_of_one xr)"
proof -
  obtain x' r where s: "xr = (x', r)" by fastforce
  have j: "joined (called x) = joined (S @ cy)"
    using assms(1,2) by (simp add: agree_def unmarked_def unsent_def zeroed_def marked_def)
  have "unsent data x' = unsent [ch] (zeroed x' (cy @ news x x'))"
    using assms(3) s by (simp add: unsent_def zeroed_def fresh_def marked_here [of _ _ _ data ch] marked_def [of Body])
  then have "agree S data ch x' (cy @ news x x')"
    using assms(3) s join_left [OF j, of "news x x' @ unsent data x'"] by (simp add: agree_def fresh_def)
  with assms(3) s show ?thesis by (auto simp: follows_def fresh_def)
qed

lemma mark_zeroed: "mark (map_option (\<lambda>_. 0) m) 0 = map_option (\<lambda>_. 0) (mark m p)"
  by (simp add: mark_def split: option.split)

lemma zeroed_keeps:
  "http_message_needs_eof (zeroed x cy) = http_message_needs_eof x"
  "http_should_keep_alive (zeroed x cy) = http_should_keep_alive x"
  "NEW_MESSAGE (zeroed x cy) = NEW_MESSAGE x"
  by (simp_all add: NEW_MESSAGE_def http_should_keep_alive_def http_message_needs_eof_def zeroed_def)

lemma match_word_zeroed: "match_word w m c (zeroed x cy) = zeroed (match_word w m c x) cy"
  by (simp add: match_word_def zeroed_def Let_def)

lemma zeroed_simps [simp]:
  "hp_header_state (zeroed x cy) = hp_header_state x" "hp_index (zeroed x cy) = hp_index x" "hp_state (zeroed x cy) = hp_state x"
  by (simp_all add: zeroed_def)

lemma zeroed_updates:
  "(zeroed x cy)\<lparr>hp_index := i, hp_header_state := h\<rparr> = zeroed (x\<lparr>hp_index := i, hp_header_state := h\<rparr>) cy"
  "(zeroed x cy)\<lparr>hp_header_state := h\<rparr> = zeroed (x\<lparr>hp_header_state := h\<rparr>) cy"
  by (simp_all add: zeroed_def)

lemma field_letter_zeroed: "field_letter ch c (zeroed x cy) = map_option (\<lambda>x. zeroed x cy) (field_letter ch c x)"
  by (cases "hp_header_state x") (simp_all add: field_letter_def match_word_zeroed zeroed_updates Let_def)

section \<open>Steps that call nothing\<close>

lemma quiet_zeroed:
  "step_dead ch (zeroed x cy) = map_prod (\<lambda>x. zeroed x cy) outcome_of_one (step_dead ch x)"
  "step_res_or_resp_H ch (zeroed x cy) = map_prod (\<lambda>x. zeroed x cy) outcome_of_one (step_res_or_resp_H ch x)"
  "step_req_method ch (zeroed x cy) = map_prod (\<lambda>x. zeroed x cy) outcome_of_one (step_req_method ch x)"
  "url_char ch (zeroed x cy) = map_prod (\<lambda>x. zeroed x cy) outcome_of_one (url_char ch x)"
  "step_schema ch (zeroed x cy) = map_prod (\<lambda>x. zeroed x cy) outcome_of_one (step_schema ch x)"
  "step_req_http_start ch (zeroed x cy) = map_prod (\<lambda>x. zeroed x cy) outcome_of_one (step_req_http_start ch x)"
  "first_major n s ch (zeroed x cy) = map_prod (\<lambda>x. zeroed x cy) outcome_of_one (first_major n s ch x)"
  "more_major s ch (zeroed x cy) = map_prod (\<lambda>x. zeroed x cy) outcome_of_one (more_major s ch x)"
  "first_minor s ch (zeroed x cy) = map_prod (\<lambda>x. zeroed x cy) outcome_of_one (first_minor s ch x)"
  "step_req_http_minor ch (zeroed x cy) = map_prod (\<lambda>x. zeroed x cy) outcome_of_one (step_req_http_minor ch x)"
  "step_req_line_almost_done ch (zeroed x cy) = map_prod (\<lambda>x. zeroed x cy) outcome_of_one (step_req_line_almost_done ch x)"
  "step_res_http_minor ch (zeroed x cy) = map_prod (\<lambda>x. zeroed x cy) outcome_of_one (step_res_http_minor ch x)"
  "step_res_first_status_code ch (zeroed x cy) = map_prod (\<lambda>x. zeroed x cy) outcome_of_one (step_res_first_status_code ch x)"
  "step_res_status_code ch (zeroed x cy) = map_prod (\<lambda>x. zeroed x cy) outcome_of_one (step_res_status_code ch x)"
  "step_res_status_start ch (zeroed x cy) = map_prod (\<lambda>x. zeroed x cy) outcome_of_one (step_res_status_start ch x)"
  "step_res_status ch (zeroed x cy) = map_prod (\<lambda>x. zeroed x cy) outcome_of_one (step_res_status ch x)"
  "step_header_value_lws ch (zeroed x cy) = map_prod (\<lambda>x. zeroed x cy) outcome_of_one (step_header_value_lws ch x)"
  "step_chunk_size_start ch (zeroed x cy) = map_prod (\<lambda>x. zeroed x cy) outcome_of_one (step_chunk_size_start ch x)"
  "step_chunk_size ch (zeroed x cy) = map_prod (\<lambda>x. zeroed x cy) outcome_of_one (step_chunk_size ch x)"
  "step_chunk_parameters ch (zeroed x cy) = map_prod (\<lambda>x. zeroed x cy) outcome_of_one (step_chunk_parameters ch x)"
  "step_chunk_size_almost_done ch (zeroed x cy) = map_prod (\<lambda>x. zeroed x cy) outcome_of_one (step_chunk_size_almost_done ch x)"
  "step_chunk_data_done ch (zeroed x cy) = map_prod (\<lambda>x. zeroed x cy) outcome_of_one (step_chunk_data_done ch x)"
  "expect b s (zeroed x cy) = map_prod (\<lambda>x. zeroed x cy) outcome_of_one (expect b s x)"
  by (simp_all add: zeroed_def step_defs mark_zeroed [of _ "pos x"] call_status_def Let_def split: option.split header_states.split)

lemma quiet_sight:
  "sight (fst (step_dead ch x)) = sight x"
  "sight (fst (step_res_or_resp_H ch x)) = sight x"
  "sight (fst (step_req_method ch x)) = sight x"
  "sight (fst (url_char ch x)) = sight x"
  "sight (fst (step_schema ch x)) = sight x"
  "sight (fst (step_req_http_start ch x)) = sight x"
  "sight (fst (first_major n s ch x)) = sight x"
  "sight (fst (more_major s ch x)) = sight x"
  "sight (fst (first_minor s ch x)) = sight x"
  "sight (fst (step_req_http_minor ch x)) = sight x"
  "sight (fst (step_req_line_almost_done ch x)) = sight x"
  "sight (fst (step_res_http_minor ch x)) = sight x"
  "sight (fst (step_res_first_status_code ch x)) = sight x"
  "sight (fst (step_res_status_code ch x)) = sight x"
  "sight (fst (step_res_status_start ch x)) = sight x"
  "sight (fst (step_res_status ch x)) = sight x"
  "sight (fst (step_header_value_lws ch x)) = sight x"
  "sight (fst (step_chunk_size_start ch x)) = sight x"
  "sight (fst (step_chunk_size ch x)) = sight x"
  "sight (fst (step_chunk_parameters ch x)) = sight x"
  "sight (fst (step_chunk_size_almost_done ch x)) = sight x"
  "sight (fst (step_chunk_data_done ch x)) = sight x"
  "sight (fst (expect b s x)) = sight x"
  by (simp_all add: sight_def step_defs call_status_def Let_def split: option.split header_states.split)

section \<open>Steps that call where nothing is marked\<close>

lemma fresh_zeroed:
  "step_start_req_or_res ch (zeroed x cy) = map_prod (\<lambda>x'. zeroed x' (cy @ news x x')) outcome_of_one (step_start_req_or_res ch x)"
  "step_start_res ch (zeroed x cy) = map_prod (\<lambda>x'. zeroed x' (cy @ news x x')) outcome_of_one (step_start_res ch x)"
  "step_start_req ch (zeroed x cy) = map_prod (\<lambda>x'. zeroed x' (cy @ news x x')) outcome_of_one (step_start_req ch x)"
  "step_spaces_before_url ch (zeroed x cy) = map_prod (\<lambda>x'. zeroed x' (cy @ news x x')) outcome_of_one (step_spaces_before_url ch x)"
  "step_header_field_start ch (zeroed x cy) = map_prod (\<lambda>x'. zeroed x' (cy @ news x x')) outcome_of_one (step_header_field_start ch x)"
  by (simp_all add: zeroed_def step_defs mark_zeroed [of _ "pos x"] call_defs news_def Let_def split: option.split)

lemma fresh_zeroed_values:
  "step_header_value_start ch (zeroed x cy) = map_prod (\<lambda>x'. zeroed x' (cy @ news x x')) outcome_of_one (step_header_value_start ch x)"
  by (cases "hp_header_state x")
    (simp_all add: step_header_value_start_def Let_def, simp_all add: zeroed_def mark_zeroed [of _ "pos x"] news_def)

lemma complete_message_zeroed: "complete_message (zeroed x cy) = zeroed (complete_message x) (cy @ news x (complete_message x))"
  by (simp add: complete_message_def zeroed_keeps) (simp add: notify_def zeroed_def news_def)

lemma news_fresh:
  "unmarked x \<Longrightarrow> fresh x (fst (step_start_req_or_res ch x))"
  "unmarked x \<Longrightarrow> fresh x (fst (step_start_res ch x))"
  "unmarked x \<Longrightarrow> fresh x (fst (step_start_req ch x))"
  "unmarked x \<Longrightarrow> fresh x (fst (step_spaces_before_url ch x))"
  "unmarked x \<Longrightarrow> fresh x (fst (step_header_field_start ch x))"
  "unmarked x \<Longrightarrow> fresh x (fst (step_header_value_start ch x))"
  by (simp_all add: step_defs fresh_def unmarked_def here_def call_defs news_def Let_def split: option.split header_states.split)

lemma complete_message_fresh: "unmarked x \<Longrightarrow> fresh x (complete_message x)"
  by (simp add: fresh_def unmarked_def here_def complete_message_def notify_def news_def)

lemma news_same: "news x x = []"
  by (simp add: news_def)

lemma zeroed_updates2:
  "(zeroed x cy)\<lparr>nread := n\<rparr> = zeroed (x\<lparr>nread := n\<rparr>) cy"
  "(zeroed x cy)\<lparr>hp_state := s\<rparr> = zeroed (x\<lparr>hp_state := s\<rparr>) cy"
  "(zeroed x cy)\<lparr>content_length := n\<rparr> = zeroed (x\<lparr>content_length := n\<rparr>) cy"
  "(zeroed x cy)\<lparr>hp_state := s, hp_header_state := h\<rparr> = zeroed (x\<lparr>hp_state := s, hp_header_state := h\<rparr>) cy"
  by (simp_all add: zeroed_def)

lemma zeroed_selectors [simp]:
  "upgrade (zeroed x cy) = upgrade x" "f_skipbody (zeroed x cy) = f_skipbody x" "f_chunked (zeroed x cy) = f_chunked x"
  "f_trailing (zeroed x cy) = f_trailing x" "content_length (zeroed x cy) = content_length x" "hp_type (zeroed x cy) = hp_type x"
  "pos (zeroed x cy) = 0"
  by (simp_all add: zeroed_def)

lemma news_nread: "news x (complete_message (x\<lparr>nread := n\<rparr>)) = news (x\<lparr>nread := n\<rparr>) (complete_message (x\<lparr>nread := n\<rparr>))"
  by (simp add: news_def)

lemma fresh_zeroed_headers:
  "step_headers_almost_done ch (zeroed x cy) = map_prod (\<lambda>x'. zeroed x' (cy @ news x x')) outcome_of_one (step_headers_almost_done ch x)"
  "step_headers_done ch (zeroed x cy) = map_prod (\<lambda>x'. zeroed x' (cy @ news x x')) outcome_of_one (step_headers_done ch x)"
  "step_discard_lws [ch] ch (zeroed x cy) = map_prod (\<lambda>x'. zeroed x' (cy @ news x x')) outcome_of_one (step_discard_lws data ch x)"
    if "unmarked x"
proof -
  show "step_headers_almost_done ch (zeroed x cy) = map_prod (\<lambda>x'. zeroed x' (cy @ news x x')) outcome_of_one (step_headers_almost_done ch x)"
    by (simp add: step_headers_almost_done_def complete_message_zeroed news_same) (simp add: notify_def zeroed_def news_def)
  show "step_headers_done ch (zeroed x cy) = map_prod (\<lambda>x'. zeroed x' (cy @ news x x')) outcome_of_one (step_headers_done ch x)"
    by (simp add: step_headers_done_def Let_def zeroed_keeps zeroed_updates2 complete_message_zeroed news_same news_nread)
      (simp add: zeroed_def news_def)
  show "step_discard_lws [ch] ch (zeroed x cy) = map_prod (\<lambda>x'. zeroed x' (cy @ news x x')) outcome_of_one (step_discard_lws data ch x)"
    using that by (simp add: step_discard_lws_def call_header_value_def unmarked_def zeroed_def news_def marked_def)
qed

lemma news_fresh_headers:
  assumes "unmarked x"
  shows "fresh x (fst (step_headers_almost_done ch x))" "fresh x (fst (step_headers_done ch x))"
    "fresh x (fst (step_discard_lws data ch x))"
  using assms
  by (simp_all add: step_defs fresh_def unmarked_def here_def call_defs news_def marked_def Let_def)

section \<open>Steps that end a callback's data\<close>

lemma follows_close:
  assumes "agree S data ch x cy" and "called (fst xr) = called x @ unsent data x" and "unmarked (fst xr)"
  shows "follows S data ch xr (map_prod (\<lambda>x'. zeroed x' (cy @ unsent [ch] (zeroed x cy))) outcome_of_one xr)"
proof -
  obtain x' r where s: "xr = (x', r)" by fastforce
  have "agree S data ch x' (cy @ unsent [ch] (zeroed x cy))"
    using assms s by (simp add: agree_def unmarked_def unsent_def zeroed_def marked_def)
  with assms(3) s show ?thesis by (auto simp: follows_def unmarked_def)
qed

lemma follows_closeI:
  "agree S data ch x cy \<Longrightarrow> called (fst xr) = called x @ unsent data x \<Longrightarrow> unmarked (fst xr) \<Longrightarrow>
   map_prod (\<lambda>x'. zeroed x' (cy @ unsent [ch] (zeroed x cy))) outcome_of_one xr = yr \<Longrightarrow> follows S data ch xr yr"
  using follows_close by blast

lemma url_state_not: "url_state s \<Longrightarrow> s \<noteq> s_header_field \<and> s \<noteq> s_header_value \<and> \<not> body_state s"
  using url_state_facts by blast

lemma follows_url:
  assumes "wf_exec 1 x" and "agree S data ch x cy" and "url_state (hp_state x)"
  shows "follows S data ch (step_url data ch x) (step_url [ch] ch (zeroed x cy))"
proof (cases "ch = CHR '' '' \<or> ch = CR \<or> ch = LF")
  case True
  have m: "header_field_mark x = None" "header_value_mark x = None" "body_mark x = None"
    using assms(1) url_state_not [OF assms(3)] by (simp_all add: wf_exec_def marks_ok_def)
  show ?thesis
  proof (rule follows_closeI [OF assms(2)])
    show "called (fst (step_url data ch x)) = called x @ unsent data x"
      using True m by (elim disjE; simp add: step_url_def call_url_def unsent_def unmarked_def marked_def)
    show "unmarked (fst (step_url data ch x))"
      using True m by (elim disjE; simp add: step_url_def call_url_def unsent_def unmarked_def marked_def)
    show "map_prod (\<lambda>x'. zeroed x' (cy @ unsent [ch] (zeroed x cy))) outcome_of_one (step_url data ch x) =
      step_url [ch] ch (zeroed x cy)"
      using True m by (elim disjE; simp add: step_url_def call_url_def zeroed_def unsent_def marked_def)
  qed
next
  case False
  then have "step_url data ch x = url_char ch x" "step_url [ch] ch (zeroed x cy) = url_char ch (zeroed x cy)"
    by (simp_all add: step_url_def)
  moreover have "body_mark x = None" using assms(1) url_state_not [OF assms(3)] by (simp add: wf_exec_def marks_ok_def)
  ultimately show ?thesis
    using follows_quiet [OF assms(2) _ quiet_sight(4)] by (simp add: quiet_zeroed)
qed

lemma follows_header_field:
  assumes "wf_exec 1 x" and "agree S data ch x cy" and "hp_state x = s_header_field"
  shows "follows S data ch (step_header_field data ch x) (step_header_field [ch] ch (zeroed x cy))"
proof (cases "token ch")
  case None
  have m: "url_mark x = None" "header_value_mark x = None" "body_mark x = None"
    using assms(1,3) by (simp_all add: wf_exec_def marks_ok_def url_state_def body_state_def)
  show ?thesis
  proof (cases "ch = CHR '':'' \<or> ch = CR \<or> ch = LF")
    case True
    show ?thesis
    proof (rule follows_closeI [OF assms(2)])
      show "called (fst (step_header_field data ch x)) = called x @ unsent data x"
        using True m None by (elim disjE; simp add: step_header_field_def call_header_field_def unsent_def unmarked_def marked_def)
    show "unmarked (fst (step_header_field data ch x))"
        using True m None by (elim disjE; simp add: step_header_field_def call_header_field_def unsent_def unmarked_def marked_def)
      show "map_prod (\<lambda>x'. zeroed x' (cy @ unsent [ch] (zeroed x cy))) outcome_of_one (step_header_field data ch x) =
        step_header_field [ch] ch (zeroed x cy)"
        using True m None by (elim disjE; simp add: step_header_field_def call_header_field_def zeroed_def unsent_def marked_def)
    qed
  next
    case False
    with None show ?thesis by (auto simp: step_header_field_def follows_def)
  qed
next
  case (Some c)
  show ?thesis
  proof (rule follows_quietI [OF assms(2)])
    show "body_mark x = None" using assms(1,3) by (simp add: wf_exec_def marks_ok_def body_state_def)
    have "field_letter ch c x = Some y \<Longrightarrow> sight y = sight x" for y
      using field_letter_frame [of ch c x y] by (auto simp: sight_def)
    with Some show "sight (fst (step_header_field data ch x)) = sight x"
      by (simp add: step_header_field_def split: option.split)
    show "map_prod (\<lambda>x. zeroed x cy) outcome_of_one (step_header_field data ch x) = step_header_field [ch] ch (zeroed x cy)"
      using Some by (simp add: step_header_field_def field_letter_zeroed split: option.split)
  qed
qed

lemma follows_header_value:
  assumes "wf_exec 1 x" and "agree S data ch x cy" and "hp_state x = s_header_value"
  shows "follows S data ch (step_header_value data ch x) (step_header_value [ch] ch (zeroed x cy))"
proof (cases "ch = CR \<or> ch = LF")
  case True
  have m: "url_mark x = None" "header_field_mark x = None" "body_mark x = None"
    using assms(1,3) by (simp_all add: wf_exec_def marks_ok_def url_state_def body_state_def)
  show ?thesis
  proof (rule follows_closeI [OF assms(2)])
    show "called (fst (step_header_value data ch x)) = called x @ unsent data x"
      using True m by (elim disjE; simp add: step_header_value_def call_header_value_def unsent_def unmarked_def marked_def)
    show "unmarked (fst (step_header_value data ch x))"
      using True m by (elim disjE; simp add: step_header_value_def call_header_value_def unsent_def unmarked_def marked_def)
    show "map_prod (\<lambda>x'. zeroed x' (cy @ unsent [ch] (zeroed x cy))) outcome_of_one (step_header_value data ch x) =
      step_header_value [ch] ch (zeroed x cy)"
      using True m by (elim disjE; simp add: step_header_value_def call_header_value_def zeroed_def unsent_def marked_def)
  qed
next
  case False
  show ?thesis
  proof (rule follows_quietI [OF assms(2)])
    show "body_mark x = None" using assms(1,3) by (simp add: wf_exec_def marks_ok_def body_state_def)
    have w: "sight (match_word w m c x) = sight x" for w m c using match_word_frame [of w m c x] by (auto simp: sight_def)
    show "sight (fst (step_header_value data ch x)) = sight x"
      using False by (cases "hp_header_state x") (simp_all add: step_header_value_def w Let_def, simp_all add: sight_def)
    show "map_prod (\<lambda>x. zeroed x cy) outcome_of_one (step_header_value data ch x) = step_header_value [ch] ch (zeroed x cy)"
      using False
      by (cases "hp_header_state x")
        (simp_all add: step_header_value_def match_word_zeroed zeroed_updates zeroed_updates2 Let_def)
  qed
qed

lemma follows_chunk_data_almost_done:
  assumes "wf_exec 1 x" and "agree S data ch x cy" and "hp_state x = s_chunk_data_almost_done"
  shows "follows S data ch (step_chunk_data_almost_done data ch x) (step_chunk_data_almost_done [ch] ch (zeroed x cy))"
proof (cases "ch = CR \<and> f_chunked x \<and> content_length x = 0")
  case True
  have m: "url_mark x = None" "header_field_mark x = None" "header_value_mark x = None"
    using assms(1,3) by (simp_all add: wf_exec_def marks_ok_def url_state_def)
  show ?thesis
  proof (rule follows_closeI [OF assms(2)])
    show "called (fst (step_chunk_data_almost_done data ch x)) = called x @ unsent data x"
      using True m by (auto simp: step_chunk_data_almost_done_def call_body_def unsent_def unmarked_def marked_def)
    show "unmarked (fst (step_chunk_data_almost_done data ch x))"
      using True m by (auto simp: step_chunk_data_almost_done_def call_body_def unsent_def unmarked_def marked_def)
    show "map_prod (\<lambda>x'. zeroed x' (cy @ unsent [ch] (zeroed x cy))) outcome_of_one (step_chunk_data_almost_done data ch x) =
      step_chunk_data_almost_done [ch] ch (zeroed x cy)"
      using True m by (auto simp: step_chunk_data_almost_done_def call_body_def zeroed_def unsent_def marked_def)
  qed
next
  case False
  with assms(1,3) show ?thesis by (auto simp: step_chunk_data_almost_done_def follows_def wf_defs)
qed

section \<open>Any step, and one byte\<close>

text \<open>The states that take more than one byte at once.\<close>

definition bulk :: "parse_state \<Rightarrow> bool" where
  "bulk s \<longleftrightarrow> s \<in> {s_body_identity, s_body_identity_eof, s_chunk_data}"

lemma exec_state_follows:
  assumes wf: "wf_exec 1 x" and "\<not> bulk (hp_state x)" and ag: "agree S data ch x cy"
  shows "follows S data ch (exec_state data ch x) (exec_state [ch] ch (zeroed x cy))"
proof -
  have b: "body_mark x = None" if "\<not> body_state (hp_state x)" using wf that by (simp add: wf_exec_def marks_ok_def)
  have u: "unmarked x" if "\<not> body_state (hp_state x)" "\<not> url_state (hp_state x)" "hp_state x \<noteq> s_header_field"
      "hp_state x \<noteq> s_header_value"
    using wf that by (simp add: wf_exec_def marks_ok_def unmarked_def)
  note q = follows_quiet [OF ag b] quiet_zeroed quiet_sight
  note f = follows_fresh [OF ag u] fresh_zeroed fresh_zeroed_values fresh_zeroed_headers news_fresh news_fresh_headers
  note c = follows_url [OF wf ag] follows_header_field [OF wf ag] follows_header_value [OF wf ag]
    follows_chunk_data_almost_done [OF wf ag]
  have m: "follows S data ch (complete_message x, Next) (complete_message (zeroed x cy), Next)" if "unmarked x"
    using follows_fresh [OF ag that, of "(complete_message x, Next)"] complete_message_fresh [OF that]
    by (simp add: complete_message_zeroed)
  have w: "follows S data ch (step_discard_ws ch x) (step_discard_ws ch (zeroed x cy))" if n: "unmarked x"
  proof -
    have "follows S data ch (step_header_value_start ch x) (step_header_value_start ch (zeroed x cy))"
      using follows_fresh [OF ag n news_fresh(6) [OF n]] by (simp add: fresh_zeroed_values)
    moreover have "follows S data ch (x\<lparr>hp_state := s\<rparr>, Next) (zeroed (x\<lparr>hp_state := s\<rparr>) cy, Next)" for s
      using follows_quiet [OF ag, of "(x\<lparr>hp_state := s\<rparr>, Next)"] n by (simp add: sight_def unmarked_def)
    moreover have "follows S data ch (x, Next) (zeroed x cy, Next)"
      using follows_quiet [OF ag, of "(x, Next)"] n by (simp add: unmarked_def)
    ultimately show ?thesis by (auto simp: step_discard_ws_def zeroed_updates2)
  qed
  have d: "follows S data ch (step_discard_lws data ch x) (step_discard_lws [ch] ch (zeroed x cy))" if n: "unmarked x"
    using follows_fresh [OF ag n, of "step_discard_lws data ch x"] news_fresh_headers(3) [OF n, of data ch]
    by (simp add: fresh_zeroed_headers(3) [OF n, of ch cy data])
  show ?thesis
    using assms(2)
    by (cases "hp_state x")
      (simp_all add: exec_state_def q f c m w d u bulk_def url_state_def body_state_def)
qed

lemma again_not_bulk: "exec_state data ch x = (x', Again) \<Longrightarrow> \<not> bulk (hp_state x')"
  by (cases "hp_state x")
    (auto simp: exec_state_def step_defs call_defs bulk_def Let_def split: if_splits option.splits header_states.splits)

lemma run_byte_follows:
  "wf_exec 1 x \<Longrightarrow> pos x < length data \<Longrightarrow> \<not> bulk (hp_state x) \<Longrightarrow> agree S data ch x cy \<Longrightarrow>
   follows S data ch (run_byte data ch x) (run_byte [ch] ch (zeroed x cy))"
proof (induction "rank (hp_state x)" arbitrary: x cy rule: less_induct)
  case less
  obtain x1 r1 where e: "exec_state data ch x = (x1, r1)" by fastforce
  from exec_state_follows [OF less.prems(1,3,4)] e obtain cy1 where
    e': "exec_state [ch] ch (zeroed x cy) = (zeroed x1 cy1, outcome_of_one r1)"
      "(case r1 of Fails e \<Rightarrow> False | _ \<Rightarrow> True) \<longrightarrow> agree S data ch x1 cy1 \<and> body_mark x1 = None"
    by (auto simp: follows_def)
  show ?case
  proof (cases "r1 = Again")
    case True
    have "wf_exec 1 x1" using exec_state_sound [OF less.prems(1,2), of ch] e True by simp
    moreover have "pos x1 < length data" using exec_state_pos [OF less.prems(2) e] by simp
    ultimately have "follows S data ch (run_byte data ch x1) (run_byte [ch] ch (zeroed x1 cy1))"
      using less.hyps [OF exec_state_again] again_not_bulk e e'(2) True by simp
    with e e'(1) True show ?thesis
      by (simp add: run_byte.simps [of data ch x] run_byte.simps [of "[ch]" ch "zeroed x cy"])
  next
    case False
    then have "outcome_of_one r1 \<noteq> Again" by (cases r1) simp_all
    with e e' False show ?thesis
      by (auto simp: run_byte.simps [of data ch x] run_byte.simps [of "[ch]" ch "zeroed x cy"] follows_def)
  qed
qed

text \<open>A run over one byte, with how it ended.\<close>

definition one_byte :: "raw_parser \<Rightarrow> char \<Rightarrow> raw_parser \<times> parser_event list \<times> outcome" where
  "one_byte p c =
     (let x = enter p
      in if overflows x
         then (raw_parser.truncate ((count_byte x)\<lparr>hp_errno := HPE_HEADER_OVERFLOW\<rparr>), [], Fails HPE_HEADER_OVERFLOW)
         else
           (case run_byte [c] c (count_byte x) of
              (y, Next) \<Rightarrow> (raw_parser.truncate y, called (flush [c] (y\<lparr>pos := 1\<rparr>)), Next)
            | (y, Fails e) \<Rightarrow> (raw_parser.truncate (y\<lparr>hp_errno := e\<rparr>), called y, Fails e)
            | (y, r) \<Rightarrow> (raw_parser.truncate y, called y, r)))"

lemma map_zero: "(m \<noteq> None \<longleftrightarrow> b) \<Longrightarrow> map_option (\<lambda>_. 0) m = (if b then Some 0 else None)"
  by (cases m) auto

lemma enter_zeroed:
  assumes "wf_exec k x"
  shows "enter (raw_parser.truncate x) = zeroed x []"
proof -
  have m: "map_option (\<lambda>_. 0) (header_field_mark x) = (if hp_state x = s_header_field then Some 0 else None)"
    "map_option (\<lambda>_. 0) (header_value_mark x) = (if hp_state x = s_header_value then Some 0 else None)"
    "map_option (\<lambda>_. 0) (url_mark x) = (if url_state (hp_state x) then Some 0 else None)"
    "map_option (\<lambda>_. 0) (status_mark x) = (if hp_state x = s_res_status then Some 0 else None)"
    using assms by (intro map_zero; simp add: wf_exec_def marks_ok_def)+
  show ?thesis
    unfolding zeroed_def m by (cases x) (simp add: enter_def raw_parser.defs exec.defs)
qed

lemma count_zeroed: "count_byte (zeroed x cy) = zeroed (count_byte x) cy" "overflows (zeroed x cy) = overflows x"
  by (simp_all add: count_byte_def overflows_def zeroed_def)

lemma truncate_zeroed: "raw_parser.truncate (zeroed x cy) = raw_parser.truncate x"
  "raw_parser.truncate ((zeroed x cy)\<lparr>hp_errno := e\<rparr>) = raw_parser.truncate (x\<lparr>hp_errno := e\<rparr>)"
  by (simp_all add: zeroed_def raw_parser.defs)

lemma slice_snoc: "m \<le> n \<Longrightarrow> n < length data \<Longrightarrow> slice data m (Suc n) = slice data m n @ [data ! n]"
  by (simp add: slice_def Suc_diff_le take_Suc_conv_app_nth)

lemma join_snoc:
  assumes "\<And>s t. merge (e s) (e t) = Some (e (s @ t))"
  shows "joined (es @ [e (s @ t)]) = joined (es @ [e s, e t])"
  using join_merge [OF assms, of es s t "[]"] by simp

text \<open>The byte that a step has taken is one more byte of the data that are unsent.\<close>

lemma advance_one:
  assumes "\<And>s t. merge (e s) (e t) = Some (e (s @ t))" and "m \<le> n" "n < length data"
    and "joined (A @ [e (slice data m n)]) = joined (B @ [e []])"
  shows "joined (A @ [e (slice data m (Suc n))]) = joined (B @ [e [data ! n]])"
proof -
  have "joined (A @ [e (slice data m (Suc n))]) = joined ((A @ [e (slice data m n)]) @ [e [data ! n]])"
    using join_snoc [of e A "slice data m n" "[data ! n]"] assms(1) by (simp add: slice_snoc [OF assms(2,3)])
  also have "\<dots> = joined ((B @ [e []]) @ [e [data ! n]])" by (rule join_left [OF assms(4)])
  also have "\<dots> = joined (B @ [e [data ! n]])" using join_snoc [of e B "[]" "[data ! n]"] assms(1) by simp
  finally show ?thesis .
qed

lemma merge_kinds: "merge (Url s) (Url t) = Some (Url (s @ t))" "merge (Header_field s) (Header_field t) = Some (Header_field (s @ t))"
  "merge (Header_value s) (Header_value t) = Some (Header_value (s @ t))" "merge (Body s) (Body t) = Some (Body (s @ t))"
  by simp_all

lemma slice_one [simp]: "slice [c] 0 (Suc 0) = [c]"
  by (simp add: slice_def)

lemma advance:
  assumes "marks_ok x" and "body_mark x = None" and "pos x < length data" and ag: "agree S data (data ! pos x) x cy"
  shows "joined (called x @ unsent data (x\<lparr>pos := Suc (pos x)\<rparr>)) =
    joined (S @ cy @ unsent [data ! pos x] ((zeroed x cy)\<lparr>pos := 1\<rparr>))"
proof -
  let ?c = "data ! pos x"
  consider (none) "header_field_mark x = None" "header_value_mark x = None" "url_mark x = None"
    | (field) m where "header_field_mark x = Some m" "m \<le> pos x" "header_value_mark x = None" "url_mark x = None"
    | (val) m where "header_field_mark x = None" "header_value_mark x = Some m" "m \<le> pos x" "url_mark x = None"
    | (url) m where "header_field_mark x = None" "header_value_mark x = None" "url_mark x = Some m" "m \<le> pos x"
    using assms(1) url_state_not [of "hp_state x"] by (fastforce simp: marks_ok_def behind_def split: option.splits)
  then show ?thesis
  proof cases
    case none
    with assms(2) ag show ?thesis by (simp add: agree_def unsent_def zeroed_def marked_def)
  next
    case field
    with assms(2) ag advance_one [of Header_field, OF merge_kinds(2) field(2) assms(3), of "called x" "S @ cy"] show ?thesis
      by (simp add: agree_def unsent_def zeroed_def marked_def)
  next
    case val
    with assms(2) ag advance_one [of Header_value, OF merge_kinds(3) val(3) assms(3), of "called x" "S @ cy"] show ?thesis
      by (simp add: agree_def unsent_def zeroed_def marked_def)
  next
    case url
    with assms(2) ag advance_one [of Url, OF merge_kinds(1) url(4) assms(3), of "called x" "S @ cy"] show ?thesis
      by (simp add: agree_def unsent_def zeroed_def marked_def)
  qed
qed

end
