(* ===== verification/Http_Split.thy ===== *)
theory Http_Split
  imports Http_Bytes
begin

text \<open>
  A run over a buffer is the run over its bytes one at a time, and so a stream may be cut into buffers
  anywhere.
\<close>

section \<open>Byte by byte\<close>

text \<open>The bytes of a list in their order, until one of them ends the run.\<close>

fun by_bytes :: "raw_parser \<Rightarrow> bytes \<Rightarrow> raw_parser \<times> parser_event list \<times> outcome \<times> nat" where
  "by_bytes p [] = (p, [], Next, 0)"
| "by_bytes p (c # cs) =
     (case one_byte p c of
        (p', es, r) \<Rightarrow>
          if r = Next
          then (case by_bytes p' cs of (q, fs, r', n) \<Rightarrow> (q, es @ fs, r', Suc n))
          else (p', es, r, case r of Leaves n \<Rightarrow> 1 | _ \<Rightarrow> 0))"

lemma by_bytes_append:
  "by_bytes p a = (p', es, Next, n) \<Longrightarrow> by_bytes p' b = (q, fs, r, m) \<Longrightarrow> by_bytes p (a @ b) = (q, es @ fs, r, n + m)"
  by (induction a arbitrary: p es n) (auto split: prod.splits if_splits)

lemma by_bytes_stops:
  "by_bytes p a = (p', es, r, n) \<Longrightarrow> r \<noteq> Next \<Longrightarrow> by_bytes p (a @ b) = (p', es, r, n)"
  by (induction a arbitrary: p es n) (auto split: prod.splits if_splits)

lemma by_bytes_one: "one_byte p c = (p', es, Next) \<Longrightarrow> by_bytes p [c] = (p', es, Next, 1)"
  by simp

section \<open>The steps over many bytes\<close>

lemma run_byte_next: "exec_state data ch x = (x', Next) \<Longrightarrow> run_byte data ch x = (x', Next)"
  by (simp add: run_byte.simps)

lemma run_byte_again: "exec_state data ch x = (x', Again) \<Longrightarrow> run_byte data ch x = run_byte data ch x'"
  by (simp add: run_byte.simps [of data ch x])

lemma enter_bulk: "bulk (hp_state p) \<Longrightarrow> enter p = raw_parser.extend p (exec.fields 0 None None None None None [])"
  by (auto simp: enter_def bulk_def url_state_def)

lemma count_bulk: "bulk (hp_state x) \<Longrightarrow> count_byte x = x" "bulk (hp_state x) \<Longrightarrow> \<not> overflows x"
  by (auto simp: count_byte_def overflows_def PARSING_HEADER_def bulk_def)

lemma one_byte_bulk:
  "bulk (hp_state p) \<Longrightarrow> run_byte [c] c (raw_parser.extend p (exec.fields 0 None None None None None [])) = (y, Next) \<Longrightarrow>
   one_byte p c = (raw_parser.truncate y, called (flush [c] (y\<lparr>pos := 1\<rparr>)), Next)"
  using count_bulk [of "enter p"] by (simp add: one_byte_def enter_bulk Let_def) (simp add: raw_parser.defs exec.defs)

lemma one_byte_identity:
  "hp_state p = s_body_identity \<Longrightarrow> 1 < content_length p \<Longrightarrow> content_length p < ULLONG_MAX \<Longrightarrow>
   one_byte p c = (p\<lparr>content_length := content_length p - 1\<rparr>, [Body [c]], Next)"
  by (subst one_byte_bulk [OF _ run_byte_next])
    (simp_all add: bulk_def exec_state_def step_body_identity_def raw_parser.defs exec.defs flush_def call_defs
      mark_def marked_def del: One_nat_def, (cases p, simp)?)


definition done_body :: "raw_parser \<Rightarrow> raw_parser" where
  "done_body p = raw_parser.truncate (complete_message ((enter p)\<lparr>content_length := 0, hp_state := s_message_done\<rparr>))"

lemma complete_message_called:
  "complete_message (y\<lparr>called := es\<rparr>) = (complete_message y)\<lparr>called := es @ [Message_complete (crow_method (hp_method y))]\<rparr>"
  by (simp add: complete_message_def notify_def NEW_MESSAGE_def http_should_keep_alive_def http_message_needs_eof_def)

lemma complete_message_frame: "unmarked (complete_message y) = unmarked y" "pos (complete_message y) = pos y"
  by (simp_all add: complete_message_def notify_def unmarked_def)

lemma flush_unmarked: "unmarked y \<Longrightarrow> called (flush data y) = called y"
  by (simp add: called_flush unsent_def marked_def unmarked_def)

lemma one_byte_identity_last:
  assumes "hp_state p = s_body_identity" and "content_length p = 1"
  shows "one_byte p c = (done_body p, [Body [c], Message_complete (crow_method (hp_method p))], Next)"
proof -
  let ?x = "raw_parser.extend p (exec.fields 0 None None None None None [])"
  let ?y = "?x\<lparr>content_length := 0, hp_state := s_message_done\<rparr>"
  have e: "?x = enter p" using assms(1) by (simp add: enter_bulk bulk_def)
  have "(1::nat) < ULLONG_MAX" by (simp add: ULLONG_MAX_def)
  then have "exec_state [c] c ?x = (?y\<lparr>called := [Body [c]]\<rparr>, Again)"
    using assms by (simp add: exec_state_def step_body_identity_def call_body_def mark_def marked_def
        raw_parser.defs exec.defs)
  then have "run_byte [c] c ?x = (complete_message (?y\<lparr>called := [Body [c]]\<rparr>), Next)"
    by (simp add: run_byte_again run_byte_next exec_state_def)
  then have r: "run_byte [c] c ?x = ((complete_message ?y)\<lparr>called := [Body [c], Message_complete (crow_method (hp_method p))]\<rparr>, Next)"
    by (simp add: complete_message_called) (simp add: raw_parser.defs exec.defs)
  have u: "unmarked ((complete_message ?y)\<lparr>called := es, pos := 1\<rparr>)" for es
  proof -
    have "unmarked ?y" by (simp add: unmarked_def raw_parser.defs exec.defs)
    then show ?thesis using complete_message_frame(1) [of ?y] by (simp add: unmarked_def)
  qed
  have "one_byte p c = (raw_parser.truncate ((complete_message ?y)\<lparr>called := [Body [c], Message_complete (crow_method (hp_method p))]\<rparr>),
     [Body [c], Message_complete (crow_method (hp_method p))], Next)"
    using one_byte_bulk [OF _ r] assms(1) flush_unmarked [OF u] by (simp add: bulk_def)
  then show ?thesis by (simp add: done_body_def flip: e) (simp add: raw_parser.defs)
qed

lemma one_byte_eof:
  assumes "hp_state p = s_body_identity_eof"
  shows "one_byte p c = (p, [Body [c]], Next)"
proof -
  let ?x = "raw_parser.extend p (exec.fields 0 None None None None None [])"
  have "run_byte [c] c ?x = (?x\<lparr>body_mark := Some 0\<rparr>, Next)"
    using assms by (intro run_byte_next)
      (simp add: exec_state_def step_body_identity_eof_def mark_def raw_parser.defs exec.defs)
  then show ?thesis
    using assms by (subst one_byte_bulk)
      (assumption | simp add: bulk_def flush_def call_defs marked_def raw_parser.defs exec.defs)+
qed

lemma one_byte_chunk:
  assumes "hp_state p = s_chunk_data" and "f_chunked p" and "0 < content_length p" and "content_length p < ULLONG_MAX"
  shows "one_byte p c =
     (p\<lparr>content_length := content_length p - 1,
        hp_state := if content_length p = 1 then s_chunk_data_almost_done else s_chunk_data\<rparr>, [Body [c]], Next)"
proof -
  let ?x = "raw_parser.extend p (exec.fields 0 None None None None None [])"
  let ?s = "if content_length p = 1 then s_chunk_data_almost_done else s_chunk_data"
  have "run_byte [c] c ?x = (?x\<lparr>content_length := content_length p - 1, hp_state := ?s, body_mark := Some 0\<rparr>, Next)"
    using assms by (intro run_byte_next)
      (simp add: exec_state_def step_chunk_data_def Let_def mark_def raw_parser.defs exec.defs, linarith?)
  then show ?thesis
    using assms by (subst one_byte_bulk)
      (assumption | simp add: bulk_def flush_def call_defs marked_def raw_parser.defs exec.defs)+
qed

definition pieces :: "bytes \<Rightarrow> parser_event list" where
  "pieces cs = map (\<lambda>c. Body [c]) cs"

lemma by_bytes_identity:
  "hp_state p = s_body_identity \<Longrightarrow> length cs < content_length p \<Longrightarrow> content_length p < ULLONG_MAX \<Longrightarrow>
   by_bytes p cs = (p\<lparr>content_length := content_length p - length cs\<rparr>, pieces cs, Next, length cs)"
  by (induction cs arbitrary: p) (simp_all add: one_byte_identity pieces_def)

lemma by_bytes_identity_last:
  assumes "hp_state p = s_body_identity" and "length cs = content_length p" and "0 < content_length p" "content_length p < ULLONG_MAX"
  shows "by_bytes p cs = (done_body p, pieces cs @ [Message_complete (crow_method (hp_method p))], Next, length cs)"
proof (cases cs rule: rev_cases)
  case Nil
  with assms show ?thesis by simp
next
  case (snoc ds c)
  with assms have "by_bytes p ds = (p\<lparr>content_length := 1\<rparr>, pieces ds, Next, length ds)" by (simp add: by_bytes_identity)
  moreover have "done_body (p\<lparr>content_length := 1\<rparr>) = done_body p"
    by (simp add: done_body_def enter_def complete_message_def notify_def NEW_MESSAGE_def http_should_keep_alive_def
      http_message_needs_eof_def raw_parser.defs exec.defs)
  ultimately show ?thesis
    using assms snoc one_byte_identity_last [of "p\<lparr>content_length := 1\<rparr>" c]
    by (simp add: by_bytes_append [where b = "[c]"] pieces_def)
qed

lemma by_bytes_eof: "hp_state p = s_body_identity_eof \<Longrightarrow> by_bytes p cs = (p, pieces cs, Next, length cs)"
  by (induction cs) (simp_all add: one_byte_eof pieces_def)

lemma by_bytes_chunk:
  "hp_state p = s_chunk_data \<Longrightarrow> f_chunked p \<Longrightarrow> length cs \<le> content_length p \<Longrightarrow> cs \<noteq> [] \<Longrightarrow> content_length p < ULLONG_MAX \<Longrightarrow>
   by_bytes p cs =
     (p\<lparr>content_length := content_length p - length cs,
        hp_state := if content_length p = length cs then s_chunk_data_almost_done else s_chunk_data\<rparr>,
      pieces cs, Next, length cs)"
proof (induction cs arbitrary: p)
  case (Cons c cs)
  then show ?case
    by (cases "cs = []") (auto simp: one_byte_chunk pieces_def)
qed simp


section \<open>The loop\<close>

lemma exec_state_pos_same: "\<not> bulk (hp_state x) \<Longrightarrow> exec_state data ch x = (y, r) \<Longrightarrow> pos y = pos x"
  by (cases "hp_state x")
    (auto simp: exec_state_def bulk_def step_pos_simps prod_eq_iff dest!: arg_cong [of "exec_state data ch x" _ "\<lambda>z. pos (fst z)"])

lemma run_byte_pos_same:
  assumes "\<not> bulk (hp_state x)" and "run_byte data ch x = (y, r)"
  shows "pos y = pos x"
proof (rule run_byte_induct [where P = "\<lambda>y. pos y = pos x \<and> \<not> bulk (hp_state y)" and Q = "\<lambda>y r. pos y = pos x", OF _ _ assms(2)])
  fix y y' r'
  assume "pos y = pos x \<and> \<not> bulk (hp_state y)" and "exec_state data ch y = (y', r')"
  with exec_state_pos_same [of y data ch y' r'] again_not_bulk [of data ch y y']
  show "if r' = Again then pos y' = pos x \<and> \<not> bulk (hp_state y') else pos y' = pos x" by auto
qed (use assms(1) in simp)

lemma slice_append: "m \<le> n \<Longrightarrow> n \<le> k \<Longrightarrow> slice data m k = slice data m n @ slice data n k"
  using take_add [of "n - m" "k - n" "drop m data"] by (simp add: slice_def)

lemma join_pieces: "joined (A @ Body s # pieces cs) = joined (A @ [Body (s @ cs)])"
proof (induction cs arbitrary: s)
  case (Cons c cs)
  have "joined (A @ Body s # Body [c] # pieces cs) = joined (A @ Body (s @ [c]) # pieces cs)"
    by (rule join_merge) simp
  with Cons [of "s @ [c]"] show ?case by (simp add: pieces_def)
qed (simp add: pieces_def)

lemma join_only_pieces: "cs \<noteq> [] \<Longrightarrow> joined (A @ pieces cs) = joined (A @ [Body cs])"
  using join_pieces [of A "[hd cs]" "tl cs"] by (cases cs) (simp_all add: pieces_def)

text \<open>What a run over the rest of the buffer does.\<close>

definition bytewise :: "bytes \<Rightarrow> exec \<Rightarrow> bool" where
  "bytewise data x \<longleftrightarrow>
     (\<exists>y n fs r. by_bytes (raw_parser.truncate x) (drop (pos x) data) = (raw_parser.truncate y, fs, r, n) \<and>
        exec_loop data x = Inr (y, pos x + n) \<and>
        (r = Next \<and> pos x + n = length data \<or> r = Leaves 1 \<and> 0 < n \<or> (\<exists>e. e \<noteq> HPE_OK \<and> r = Fails e \<and> hp_errno y = e)) \<and>
        ((\<forall>e. r \<noteq> Fails e) \<longrightarrow> hp_errno y = hp_errno x \<and> joined (called y) = joined (called x @ unsent data x @ fs)))"

lemma bytewise_later:
  assumes "by_bytes (raw_parser.truncate x) cs = (raw_parser.truncate x', es, Next, length cs)"
    and "drop (pos x) data = cs @ drop (pos x') data" and "pos x' = pos x + length cs"
    and "exec_loop data x = exec_loop data x'" and "hp_errno x' = hp_errno x"
    and "joined (called x' @ unsent data x') = joined (called x @ unsent data x @ es)"
    and "bytewise data x'"
  shows "bytewise data x"
proof -
  from assms(7) obtain y n fs r where b: "by_bytes (raw_parser.truncate x') (drop (pos x') data) = (raw_parser.truncate y, fs, r, n)"
    "exec_loop data x' = Inr (y, pos x' + n)"
    "r = Next \<and> pos x' + n = length data \<or> r = Leaves 1 \<and> 0 < n \<or> (\<exists>e. e \<noteq> HPE_OK \<and> r = Fails e \<and> hp_errno y = e)"
    "(\<forall>e. r \<noteq> Fails e) \<longrightarrow> hp_errno y = hp_errno x' \<and> joined (called y) = joined (called x' @ unsent data x' @ fs)"
    by (auto simp: bytewise_def)
  have "by_bytes (raw_parser.truncate x) (drop (pos x) data) = (raw_parser.truncate y, es @ fs, r, length cs + n)"
    unfolding assms(2) by (rule by_bytes_append [OF assms(1) b(1)])
  moreover have "exec_loop data x = Inr (y, pos x + (length cs + n))" using assms(3,4) b(2) by simp
  moreover have "joined (called x' @ unsent data x' @ fs) = joined (called x @ unsent data x @ es @ fs)"
    using join_left [OF assms(6), of fs] by simp
  ultimately show ?thesis unfolding bytewise_def using b(3,4) assms(3,5) by (intro exI conjI) (assumption | force)+
qed

lemma bytewise_end:
  assumes "length data = pos x" and "marks_ok x"
  shows "bytewise data x"
proof -
  have "exec_loop data x = Inr (flush data x, pos x + 0)"
    using assms marks_ok_one by (simp add: exec_loop_end)
  moreover have "hp_errno (flush data x) = hp_errno x" by (simp add: flush_def call_defs)
  ultimately show ?thesis
    using assms(1) unfolding bytewise_def
    by (intro exI [of _ "flush data x"] exI [of _ 0] exI [of _ "[]"] exI [of _ Next]) (simp add: flush_raw called_flush)
qed


text \<open>The steps that jump.\<close>

lemma drop_slice: "m \<le> n \<Longrightarrow> drop m data = slice data m n @ drop n data"
  using append_take_drop_id [of "n - m" "drop m data"] by (simp add: slice_def)

lemma slice_length: "m \<le> n \<Longrightarrow> n \<le> length data \<Longrightarrow> length (slice data m n) = n - m"
  by (simp add: slice_def)

lemma bulk_marks: "marks_ok x \<Longrightarrow> bulk (hp_state x) \<Longrightarrow>
  header_field_mark x = None \<and> header_value_mark x = None \<and> url_mark x = None"
  by (cases "hp_state x") (simp_all add: marks_ok_def bulk_def url_state_def)

text \<open>The data of a body that is being read, up to \<open>n\<close>.\<close>

lemma join_body:
  assumes "marks_ok x" and "bulk (hp_state x)" and "pos x < n" and "n \<le> length data"
  shows "joined (called x @ marked Body data (mark (body_mark x) (pos x)) n @ B) =
    joined (called x @ unsent data x @ pieces (slice data (pos x) n) @ B)"
proof -
  have n: "slice data (pos x) n \<noteq> []" using slice_length [of "pos x" n data] assms(3,4) by auto
  have "joined (called x @ marked Body data (mark (body_mark x) (pos x)) n) = joined (called x @ unsent data x @ pieces (slice data (pos x) n))"
  proof (cases "body_mark x")
    case None
    with join_only_pieces [OF n, of "called x"] bulk_marks [OF assms(1,2)] show ?thesis
      by (simp add: marked_def mark_def unsent_def)
  next
    case (Some m)
    with assms(1) have "m \<le> pos x" by (simp add: marks_ok_def behind_def)
    with Some join_pieces [of "called x" "slice data m (pos x)" "slice data (pos x) n"] bulk_marks [OF assms(1,2)] assms(3)
    show ?thesis by (simp add: marked_def mark_def unsent_def slice_append [of m "pos x" n])
  qed
  from join_left [OF this, of B] show ?thesis by simp
qed

lemma bytewise_jump:
  assumes "marks_ok x" and "bulk (hp_state x)" and "pos x < n" "n \<le> length data"
    and e: "exec_state data (data ! pos x) x = (x', Next)" "pos x' = n - 1" "hp_errno x' = hp_errno x"
    and b: "by_bytes (raw_parser.truncate x) (slice data (pos x) n) =
      (raw_parser.truncate x', pieces (slice data (pos x) n), Next, length (slice data (pos x) n))"
    and c: "called x' = called x" "header_field_mark x' = None" "header_value_mark x' = None" "url_mark x' = None"
      "body_mark x' = mark (body_mark x) (pos x)"
    and "next": "bytewise data (x'\<lparr>pos := n\<rparr>)"
  shows "bytewise data x"
proof (rule bytewise_later [where x' = "x'\<lparr>pos := n\<rparr>"])
  show "by_bytes (raw_parser.truncate x) (slice data (pos x) n) =
    (raw_parser.truncate (x'\<lparr>pos := n\<rparr>), pieces (slice data (pos x) n), Next, length (slice data (pos x) n))"
    using b by (simp add: raw_parser.defs)
  show "exec_loop data x = exec_loop data (x'\<lparr>pos := n\<rparr>)"
    using exec_loop_byte [of x data x' Next] run_byte_next [OF e(1)] assms(2-4) e(2) count_bulk [OF assms(2)] by simp
  show "joined (called (x'\<lparr>pos := n\<rparr>) @ unsent data (x'\<lparr>pos := n\<rparr>)) =
    joined (called x @ unsent data x @ pieces (slice data (pos x) n))"
    using join_body [OF assms(1-4), of "[]"] c by (simp add: unsent_def marked_def [of _ _ None])
  show "drop (pos x) data = slice data (pos x) n @ drop (pos (x'\<lparr>pos := n\<rparr>)) data"
    using drop_slice [of "pos x" n data] assms(3) by simp
  show "pos (x'\<lparr>pos := n\<rparr>) = pos x + length (slice data (pos x) n)"
    using slice_length [of "pos x" n data] assms(3,4) by simp
  show "hp_errno (x'\<lparr>pos := n\<rparr>) = hp_errno x" using e(3) by simp
qed (rule "next")

text \<open>One iteration whose end a body is, in a state that takes it at once.\<close>

lemma bytewise_identity_rest:
  assumes "marks_ok x" and s: "hp_state x = s_body_identity" and p: "pos x < length data"
    and l: "length data - pos x < content_length x" "content_length x < ULLONG_MAX"
    and IH: "\<And>x'. run_byte data (data ! pos x) x = (x', Next) \<Longrightarrow> pos x' = length data - 1 \<Longrightarrow> bytewise data (x'\<lparr>pos := length data\<rparr>)"
  shows "bytewise data x"
proof -
  have m: "marks_ok x" "bulk (hp_state x)" using assms(1,2) by (simp_all add: bulk_def)
  let ?k = "length data - pos x"
  let ?x' = "x\<lparr>body_mark := mark (body_mark x) (pos x), content_length := content_length x - ?k, pos := length data - 1\<rparr>"
  have e: "exec_state data (data ! pos x) x = (?x', Next)"
    using l p s by (simp add: exec_state_def step_body_identity_def Let_def)
  have b: "by_bytes (raw_parser.truncate x) (slice data (pos x) (length data)) =
      (raw_parser.truncate ?x', pieces (slice data (pos x) (length data)), Next, length (slice data (pos x) (length data)))"
    using by_bytes_identity [of "raw_parser.truncate x" "slice data (pos x) (length data)"] s l p
      slice_length [of "pos x" "length data" data] by (simp add: raw_parser.defs)
  show ?thesis
    by (rule bytewise_jump [OF m p order_refl e _ _ b]) (use IH [OF run_byte_next [OF e]] bulk_marks [OF m] in simp_all)
qed

lemma complete_message_raw:
  "raw_parser.truncate u = raw_parser.truncate v \<Longrightarrow> raw_parser.truncate (complete_message u) = raw_parser.truncate (complete_message v)"
  by (simp add: raw_parser.defs complete_message_def notify_def NEW_MESSAGE_def http_should_keep_alive_def
      http_message_needs_eof_def)

lemma bytewise_identity_all:
  assumes "marks_ok x" and s: "hp_state x = s_body_identity" and p: "pos x < length data"
    and l: "content_length x \<le> length data - pos x" "0 < content_length x" "content_length x < ULLONG_MAX"
    and IH: "\<And>x'. run_byte data (data ! pos x) x = (x', Next) \<Longrightarrow> pos x' = pos x + content_length x - 1 \<Longrightarrow>
      bytewise data (x'\<lparr>pos := pos x + content_length x\<rparr>)"
  shows "bytewise data x"
proof -
  have m: "marks_ok x" "bulk (hp_state x)" using assms(1,2) by (simp_all add: bulk_def)
  let ?n = "pos x + content_length x"
  let ?cs = "slice data (pos x) ?n"
  let ?x1 = "x\<lparr>body_mark := mark (body_mark x) (pos x), content_length := 0, pos := ?n - 1, hp_state := s_message_done\<rparr>"
  let ?y = "complete_message (call_body data ?n ?x1)"
  have n: "pos x < ?n" "?n \<le> length data" "length ?cs = content_length x"
    using l p slice_length [of "pos x" ?n data] by simp_all
  have "exec_state data (data ! pos x) x = (call_body data ?n ?x1, Again)"
    using l p s by (simp add: exec_state_def step_body_identity_def Let_def)
  then have e: "run_byte data (data ! pos x) x = (?y, Next)"
    by (simp add: run_byte_again run_byte_next exec_state_def call_body_def)
  have y: "called ?y = called x @ marked Body data (mark (body_mark x) (pos x)) ?n @ [Message_complete (crow_method (hp_method x))]"
    "pos ?y = ?n - 1" "hp_errno ?y = hp_errno x" "unsent data (?y\<lparr>pos := ?n\<rparr>) = []"
    using bulk_marks [OF m] by (simp_all add: complete_message_def notify_def call_body_def unsent_def marked_def)
  have d: "raw_parser.truncate ?y = done_body (raw_parser.truncate x)"
    unfolding done_body_def by (rule complete_message_raw) (simp add: enter_def call_body_def raw_parser.defs exec.defs)
  show ?thesis
  proof (rule bytewise_later [where x' = "?y\<lparr>pos := ?n\<rparr>"])
    show "by_bytes (raw_parser.truncate x) ?cs = (raw_parser.truncate (?y\<lparr>pos := ?n\<rparr>),
        pieces ?cs @ [Message_complete (crow_method (hp_method x))], Next, length ?cs)"
      using by_bytes_identity_last [of "raw_parser.truncate x" ?cs] s l n(3) d by (simp add: raw_parser.defs)
    show "drop (pos x) data = ?cs @ drop (pos (?y\<lparr>pos := ?n\<rparr>)) data" using drop_slice [of "pos x" ?n data] n(1) by simp
    show "pos (?y\<lparr>pos := ?n\<rparr>) = pos x + length ?cs" using n(3) by simp
    show "exec_loop data x = exec_loop data (?y\<lparr>pos := ?n\<rparr>)"
      using exec_loop_byte [of x data ?y Next] e p y(2) l(2) count_bulk [OF m(2)] by simp
    show "joined (called (?y\<lparr>pos := ?n\<rparr>) @ unsent data (?y\<lparr>pos := ?n\<rparr>)) =
        joined (called x @ unsent data x @ pieces ?cs @ [Message_complete (crow_method (hp_method x))])"
      using join_body [OF m n(1,2), of "[Message_complete (crow_method (hp_method x))]"] y(1,4) by simp
    show "hp_errno (?y\<lparr>pos := ?n\<rparr>) = hp_errno x" using y(3) by simp
    show "bytewise data (?y\<lparr>pos := ?n\<rparr>)" by (rule IH [OF e y(2)])
  qed
qed

lemma bytewise_eof:
  assumes "marks_ok x" and s: "hp_state x = s_body_identity_eof" and p: "pos x < length data"
    and IH: "\<And>x'. run_byte data (data ! pos x) x = (x', Next) \<Longrightarrow> pos x' = length data - 1 \<Longrightarrow> bytewise data (x'\<lparr>pos := length data\<rparr>)"
  shows "bytewise data x"
proof -
  have m: "marks_ok x" "bulk (hp_state x)" using assms(1,2) by (simp_all add: bulk_def)
  let ?x' = "x\<lparr>body_mark := mark (body_mark x) (pos x), pos := length data - 1\<rparr>"
  have e: "exec_state data (data ! pos x) x = (?x', Next)"
    using s by (simp add: exec_state_def step_body_identity_eof_def)
  have b: "by_bytes (raw_parser.truncate x) (slice data (pos x) (length data)) =
      (raw_parser.truncate ?x', pieces (slice data (pos x) (length data)), Next, length (slice data (pos x) (length data)))"
    using by_bytes_eof [of "raw_parser.truncate x"] s by (simp add: raw_parser.defs)
  show ?thesis
    by (rule bytewise_jump [OF m p order_refl e _ _ b]) (use IH [OF run_byte_next [OF e]] bulk_marks [OF m] in simp_all)
qed

lemma bytewise_chunk:
  assumes "marks_ok x" and s: "hp_state x = s_chunk_data" "f_chunked x" and p: "pos x < length data"
    and l: "0 < content_length x" "content_length x < ULLONG_MAX"
    and IH: "\<And>x' n. run_byte data (data ! pos x) x = (x', Next) \<Longrightarrow> pos x' = n - 1 \<Longrightarrow> pos x < n \<Longrightarrow> n \<le> length data \<Longrightarrow>
      bytewise data (x'\<lparr>pos := n\<rparr>)"
  shows "bytewise data x"
proof -
  have m: "marks_ok x" "bulk (hp_state x)" using assms(1,2) by (simp_all add: bulk_def)
  let ?k = "min (content_length x) (length data - pos x)"
  let ?cs = "slice data (pos x) (pos x + ?k)"
  let ?x' = "x\<lparr>body_mark := mark (body_mark x) (pos x), content_length := content_length x - ?k, pos := pos x + ?k - 1,
    hp_state := if content_length x = ?k then s_chunk_data_almost_done else s_chunk_data\<rparr>"
  have k: "pos x < pos x + ?k" "pos x + ?k \<le> length data" "0 < ?k" "?k \<le> content_length x" using p l by linarith+
  then have cs: "length ?cs = ?k" "?cs \<noteq> []" using slice_length [of "pos x" "pos x + ?k" data] by auto
  have e: "exec_state data (data ! pos x) x = (?x', Next)"
    using s l k(4) by (simp add: exec_state_def step_chunk_data_def Let_def)
  have b: "by_bytes (raw_parser.truncate x) ?cs = (raw_parser.truncate ?x', pieces ?cs, Next, length ?cs)"
    using by_bytes_chunk [of "raw_parser.truncate x" ?cs] s l k cs by (simp add: raw_parser.defs)
  show ?thesis
    by (rule bytewise_jump [OF m k(1,2) e _ _ b]) (use IH [OF run_byte_next [OF e] _ k(1,2)] bulk_marks [OF m] in simp_all)
qed

section \<open>Any iteration\<close>

lemma join_empty:
  assumes "\<And>s t. merge (e s) (e t) = Some (e (s @ t))"
  shows "joined (A @ [e s, e []]) = joined (A @ [e s])"
  using join_snoc [of e A s "[]"] assms by simp

lemma marks_cases:
  assumes "marks_ok x"
  obtains (none) "header_field_mark x = None" "header_value_mark x = None" "url_mark x = None"
  | (field) m where "header_field_mark x = Some m" "m \<le> pos x" "header_value_mark x = None" "url_mark x = None" "body_mark x = None"
  | (val) m where "header_field_mark x = None" "header_value_mark x = Some m" "m \<le> pos x" "url_mark x = None" "body_mark x = None"
  | (url) m where "header_field_mark x = None" "header_value_mark x = None" "url_mark x = Some m" "m \<le> pos x" "body_mark x = None"
  using assms
  by (cases "hp_state x")
    (auto simp: marks_ok_def url_state_def body_state_def behind_def)

lemma agree_start:
  assumes "marks_ok x"
  shows "agree (called x @ unsent data x) data ch x []"
  using assms
proof (cases rule: marks_cases)
  case none
  then show ?thesis by (simp add: agree_def unsent_def zeroed_def marked_def)
next
  case (field m)
  with join_empty [of Header_field "called x" "slice data m (pos x)"] show ?thesis
    by (simp add: agree_def unsent_def zeroed_def marked_def)
next
  case (val m)
  with join_empty [of Header_value "called x" "slice data m (pos x)"] show ?thesis
    by (simp add: agree_def unsent_def zeroed_def marked_def)
next
  case (url m)
  with join_empty [of Url "called x" "slice data m (pos x)"] show ?thesis
    by (simp add: agree_def unsent_def zeroed_def marked_def)
qed

lemma count_frame: "pos (count_byte x) = pos x" "called (count_byte x) = called x" "unsent data (count_byte x) = unsent data x"
  "hp_errno (count_byte x) = hp_errno x" "hp_state (count_byte x) = hp_state x" "marks_ok (count_byte x) = marks_ok x"
  by (simp_all add: count_byte_def unsent_def marks_ok_def)

lemma unmarked_pending: "unmarked x \<Longrightarrow> unsent data x = []"
  by (simp add: unmarked_def unsent_def marked_def)

lemma marks_none: "marks_set x = 0 \<Longrightarrow> unmarked x"
  by (auto simp: marks_set_def unmarked_def split: if_splits)

lemma exec_state_errno: "exec_state data ch x = (y, r) \<Longrightarrow> hp_errno y = hp_errno x"
proof -
  have f: "field_letter ch c x = Some y \<Longrightarrow> hp_errno y = hp_errno x" for c y using field_letter_frame [of ch c x y] by auto
  have m: "hp_errno (match_word w n c x) = hp_errno x" for w n c using match_word_frame [of w n c x] by auto
  have "hp_errno (fst (exec_state data ch x)) = hp_errno x"
    by (cases "hp_state x")
      (simp_all add: exec_state_def step_defs call_defs Let_def f m split: option.split header_states.split)
  then show "exec_state data ch x = (y, r) \<Longrightarrow> hp_errno y = hp_errno x" by simp
qed

lemma run_byte_errno:
  assumes "run_byte data ch x = (y, r)"
  shows "hp_errno y = hp_errno x"
proof (rule run_byte_induct [where P = "\<lambda>y. hp_errno y = hp_errno x" and Q = "\<lambda>y r. hp_errno y = hp_errno x", OF _ _ assms])
  fix y y' r'
  assume "hp_errno y = hp_errno x" and "exec_state data ch y = (y', r')"
  with exec_state_errno [of data ch y y' r'] show "if r' = Again then hp_errno y' = hp_errno x else hp_errno y' = hp_errno x" by simp
qed simp


text \<open>An iteration in any of the other states does what the same byte does alone.\<close>

lemma iteration_one_byte:
  assumes wf: "wf_exec 0 x" and p: "pos x < length data" and o: "\<not> overflows x" and b: "\<not> bulk (hp_state x)"
    and r: "run_byte data (data ! pos x) (count_byte x) = (y, r)"
  shows "\<exists>es. (case r of
       Next \<Rightarrow> one_byte (raw_parser.truncate x) (data ! pos x) = (raw_parser.truncate y, es, Next) \<and>
         joined (called y @ unsent data (y\<lparr>pos := Suc (pos y)\<rparr>)) = joined (called x @ unsent data x @ es)
     | Fails e \<Rightarrow> one_byte (raw_parser.truncate x) (data ! pos x) = (raw_parser.truncate (y\<lparr>hp_errno := e\<rparr>), es, Fails e)
     | Leaves n \<Rightarrow> one_byte (raw_parser.truncate x) (data ! pos x) = (raw_parser.truncate y, es, Leaves 1) \<and>
         joined (called y) = joined (called x @ unsent data x @ es)
     | _ \<Rightarrow> True)"
proof -
  let ?c = "data ! pos x" and ?x = "count_byte x" and ?S = "called x @ unsent data x"
  have m: "marks_ok x" using wf by (simp add: wf_exec_def)
  have p': "pos ?x < length data" using p by (simp add: count_frame)
  have wf': "wf_exec 1 ?x" by (rule count_byte_wf [OF wf])
  have "agree ?S data ?c ?x []"
    using agree_start [of ?x data ?c] m by (simp add: count_frame)
  from run_byte_follows [OF wf' p' _ this] b r obtain cy where
    one: "run_byte [?c] ?c (zeroed ?x []) = (zeroed y cy, outcome_of_one r)"
    and ag: "(case r of Fails e \<Rightarrow> False | _ \<Rightarrow> True) \<longrightarrow> agree ?S data ?c y cy \<and> body_mark y = None"
    by (auto simp: follows_def count_frame)
  have y: "pos y = pos x" using run_byte_pos_same [OF _ r] b by (simp add: count_frame)
  have s: "sound (y, r)" using run_byte_sound [OF wf' p' r] by simp
  have e: "enter (raw_parser.truncate x) = zeroed x []" by (rule enter_zeroed [OF wf])
  have ob: "one_byte (raw_parser.truncate x) ?c =
    (case (zeroed y cy, outcome_of_one r) of
       (y, Next) \<Rightarrow> (raw_parser.truncate y, called (flush [?c] (y\<lparr>pos := 1\<rparr>)), Next)
     | (y, Fails e) \<Rightarrow> (raw_parser.truncate (y\<lparr>hp_errno := e\<rparr>), called y, Fails e)
     | (y, r) \<Rightarrow> (raw_parser.truncate y, called y, r))"
    unfolding one_byte_def Let_def e count_zeroed one using o by simp
  show ?thesis
  proof (cases r)
    case Next
    with s have "marks_ok y" by (simp add: sound_def wf_exec_def)
    moreover have "agree ?S data (data ! pos y) y cy" "body_mark y = None" using ag Next y by simp_all
    ultimately have "joined (called y @ unsent data (y\<lparr>pos := Suc (pos y)\<rparr>)) =
        joined (?S @ cy @ unsent [?c] ((zeroed y cy)\<lparr>pos := 1\<rparr>))"
      using advance [of y data ?S cy] p y by simp
    then show ?thesis using ob Next by (simp add: truncate_zeroed called_flush) (simp add: zeroed_def)
  next
    case (Fails k)
    then show ?thesis using ob by (simp add: truncate_zeroed)
  next
    case (Leaves n)
    with s have u: "unmarked y" by (simp add: sound_def marks_none)
    then have "unmarked (zeroed y cy)" by (simp add: unmarked_def zeroed_def)
    with u ag Leaves have "joined (called y) = joined (?S @ cy)" by (simp add: agree_def unmarked_pending)
    then show ?thesis using ob Leaves by (simp add: truncate_zeroed) (simp add: zeroed_def)
  qed simp_all
qed

lemma pending_moves: "called (y\<lparr>pos := n\<rparr>) = called y" "hp_errno (y\<lparr>pos := n\<rparr>) = hp_errno y"
  "raw_parser.truncate (y\<lparr>pos := n\<rparr>) = raw_parser.truncate y"
  by (simp_all add: raw_parser.defs)

lemma bytewise_other:
  assumes wf: "wf_exec 0 x" and p: "pos x < length data" and o: "\<not> overflows x" and b: "\<not> bulk (hp_state x)"
    and IH: "\<And>x'. run_byte data (data ! pos x) (count_byte x) = (x', Next) \<Longrightarrow> bytewise data (x'\<lparr>pos := Suc (pos x')\<rparr>)"
  shows "bytewise data x"
proof -
  obtain y r where r: "run_byte data (data ! pos x) (count_byte x) = (y, r)" by fastforce
  note one = iteration_one_byte [OF wf p o b r] and loop = exec_loop_byte [OF p o r]
  have p': "pos (count_byte x) < length data" using p by (simp add: count_frame)
  have s: "sound (y, r)" "r \<noteq> Again" using run_byte_sound [OF count_byte_wf [OF wf] p' r] by simp_all
  have y: "pos y = pos x" using run_byte_pos_same [OF _ r] b by (simp add: count_frame)
  have n: "hp_errno y = hp_errno x" using run_byte_errno [OF r] by (simp add: count_frame)
  have d: "drop (pos x) data = [data ! pos x] @ drop (Suc (pos x)) data" using Cons_nth_drop_Suc [OF p] by simp
  show ?thesis
  proof (cases r)
    case Next
    with one obtain es where es: "one_byte (raw_parser.truncate x) (data ! pos x) = (raw_parser.truncate y, es, Next)"
      "joined (called y @ unsent data (y\<lparr>pos := Suc (pos y)\<rparr>)) = joined (called x @ unsent data x @ es)" by auto
    show ?thesis
      by (rule bytewise_later [where cs = "[data ! pos x]" and x' = "y\<lparr>pos := Suc (pos y)\<rparr>" and es = es])
        (use es d y n loop Next IH r in \<open>simp_all add: pending_moves\<close>)
  next
    case (Fails e)
    with one obtain es where "one_byte (raw_parser.truncate x) (data ! pos x) = (raw_parser.truncate (y\<lparr>hp_errno := e\<rparr>), es, Fails e)"
      by auto
    with loop Fails s y show ?thesis unfolding bytewise_def d
      by (intro exI [of _ "y\<lparr>hp_errno := e\<rparr>"] exI [of _ 0] exI [of _ es] exI [of _ "Fails e"]) (simp add: sound_def)
  next
    case (Leaves k)
    with one obtain es where "one_byte (raw_parser.truncate x) (data ! pos x) = (raw_parser.truncate y, es, Leaves 1)"
      "joined (called y) = joined (called x @ unsent data x @ es)" by auto
    with loop Leaves s y n show ?thesis unfolding bytewise_def d
      by (intro exI [of _ y] exI [of _ 1] exI [of _ es] exI [of _ "Leaves 1"]) (simp add: sound_def)
  qed (use s in \<open>simp_all add: sound_def\<close>)
qed

lemma bytewise_overflow:
  assumes wf: "wf_exec 0 x" and p: "pos x < length data" and o: "overflows x"
  shows "bytewise data x"
proof -
  have e: "enter (raw_parser.truncate x) = zeroed x []" by (rule enter_zeroed [OF wf])
  have "one_byte (raw_parser.truncate x) (data ! pos x) =
    (raw_parser.truncate ((count_byte x)\<lparr>hp_errno := HPE_HEADER_OVERFLOW\<rparr>), [], Fails HPE_HEADER_OVERFLOW)"
    unfolding one_byte_def Let_def e count_zeroed using o by (simp add: truncate_zeroed)
  then have "by_bytes (raw_parser.truncate x) (drop (pos x) data) =
    (raw_parser.truncate ((count_byte x)\<lparr>hp_errno := HPE_HEADER_OVERFLOW\<rparr>), [], Fails HPE_HEADER_OVERFLOW, 0)"
    using Cons_nth_drop_Suc [OF p] by (simp flip: Cons_nth_drop_Suc [OF p])
  with exec_loop_overflow [OF p o] show ?thesis unfolding bytewise_def
    by (intro exI [of _ "(count_byte x)\<lparr>hp_errno := HPE_HEADER_OVERFLOW\<rparr>"] exI [of _ 0] exI [of _ "[]"]
        exI [of _ "Fails HPE_HEADER_OVERFLOW"]) simp
qed

lemma loop_bytewise: "wf_exec 0 x \<Longrightarrow> pos x \<le> length data \<Longrightarrow> bytewise data x"
proof (induction data x rule: exec_loop.induct)
  case (1 data x)
  then have m: "marks_ok x" by (simp add: wf_exec_def)
  have later: "bytewise data (x'\<lparr>pos := Suc (pos x')\<rparr>)"
    if "pos x < length data" "\<not> overflows x" "run_byte data (data ! pos x) (count_byte x) = (x', Next)" for x'
  proof -
    have p: "pos (count_byte x) < length data" using that(1) by (simp add: count_frame)
    have "sound (x', Next)" "pos x' < length data"
      using run_byte_sound [OF count_byte_wf [OF 1(2)] p that(3)] run_byte_pos [OF p that(3)] by simp_all
    with next_byte_wf [of x'] have "wf_exec 0 (x'\<lparr>pos := Suc (pos x')\<rparr>)" "Suc (pos x') \<le> length data"
      by (simp_all add: sound_def)
    with 1(1) [of x' Next] that show ?thesis by simp
  qed
  consider (finished) "length data = pos x" | (overflow) "pos x < length data" "overflows x"
    | (bulk) "pos x < length data" "bulk (hp_state x)"
    | (other) "pos x < length data" "\<not> overflows x" "\<not> bulk (hp_state x)"
    using 1(3) by linarith
  then show ?case
  proof cases
    case finished
    then show ?thesis by (rule bytewise_end [OF _ m])
  next
    case overflow
    then show ?thesis by (rule bytewise_overflow [OF 1(2)])
  next
    case other
    then show ?thesis using later by (intro bytewise_other [OF 1(2)])
  next
    case bulk
    note c = count_bulk [OF bulk(2)]
    have g: "0 < length data" using bulk(1) by linarith
    have ih: "run_byte data (data ! pos x) x = (x', Next) \<Longrightarrow> pos x' = n - 1 \<Longrightarrow> 0 < n \<Longrightarrow> bytewise data (x'\<lparr>pos := n\<rparr>)" for x' n
      using later [of x'] bulk(1) c by simp
    have w: "hp_state x = s_body_identity \<Longrightarrow> 0 < content_length x \<and> content_length x < ULLONG_MAX"
      "hp_state x = s_chunk_data \<Longrightarrow> f_chunked x \<and> 0 < content_length x \<and> content_length x < ULLONG_MAX"
      using 1(2) by (simp_all add: wf_exec_def wf_raw_def wf_state_def)
    from bulk(2) consider "hp_state x = s_body_identity" | "hp_state x = s_body_identity_eof" | "hp_state x = s_chunk_data"
      by (auto simp: bulk_def)
    then show ?thesis
    proof cases
      case 1
      show ?thesis
      proof (cases "content_length x \<le> length data - pos x")
        case True
        show ?thesis
          by (rule bytewise_identity_all [OF m 1 bulk(1) True _ _ ih]) (use w(1) [OF 1] in simp_all)
      next
        case False
        show ?thesis
          by (rule bytewise_identity_rest [OF m 1 bulk(1) _ _ ih]) (use w(1) [OF 1] False g in simp_all)
      qed
    next
      case 2
      show ?thesis
        by (rule bytewise_eof [OF m 2 bulk(1) ih]) (use g in simp_all)
    next
      case 3
      show ?thesis
        by (rule bytewise_chunk [OF m 3 _ bulk(1) _ _ ih]) (use w(2) [OF 3] in simp_all)
    qed
  qed
qed


section \<open>Whole buffers\<close>

text \<open>The empty data with which a buffer is entered make no difference.\<close>

lemma enter_frame: "pos (enter p) = 0" "raw_parser.truncate (enter p) = p" "called (enter p) = []" "hp_errno (enter p) = hp_errno p"
  "hp_state (enter p) = hp_state p"
  by (simp_all add: enter_def raw_parser.defs exec.defs)

lemma enter_pending: "unsent data (enter p) = unsent data' (enter p)"
  by (auto simp: enter_def unsent_def marked_def raw_parser.defs exec.defs slice_def)

lemma enter_pending_bulk: "bulk (hp_state p) \<Longrightarrow> unsent data (enter p) = []"
  by (simp add: enter_bulk unsent_def marked_def raw_parser.defs exec.defs)

lemma one_byte_entered:
  assumes wf: "wf_raw 0 p" and o: "one_byte p c = (q, es, r)" and r: "\<forall>e. r \<noteq> Fails e"
  shows "joined (unsent data (enter p) @ es) = joined es"
proof (cases "bulk (hp_state p)")
  case True
  then show ?thesis by (simp add: enter_pending_bulk)
next
  case False
  let ?x = "enter p"
  have wf': "wf_exec 0 ?x" by (rule enter_wf [OF wf])
  have ov: "\<not> overflows ?x"
  proof
    assume "overflows ?x"
    with o r show False by (auto simp: one_byte_def)
  qed
  obtain y r' where b: "run_byte [c] c (count_byte ?x) = (y, r')" by fastforce
  have b': "run_byte [c] ([c] ! pos ?x) (count_byte ?x) = (y, r')" using b by (simp add: enter_frame)
  have p: "pos ?x < length [c]" by (simp add: enter_frame)
  have s: "sound (y, r')" "r' \<noteq> Again" "pos y = 0"
    using run_byte_sound [OF count_byte_wf [OF wf'], of "[c]"] run_byte_pos_same [OF _ b] b False
    by (simp_all add: count_frame enter_frame)
  note one = iteration_one_byte [OF wf' p ov _ b', simplified enter_frame, OF False]
  have pe: "unsent [c] ?x = unsent data ?x" by (rule enter_pending)
  show ?thesis
  proof (cases r')
    case Next
    with o ov b have "es = called y @ unsent [c] (y\<lparr>pos := 1\<rparr>)"
      by (simp add: one_byte_def called_flush)
    with one o Next s(3) pe show ?thesis by simp
  next
    case (Leaves n)
    with o ov b have "es = called y" by (simp add: one_byte_def)
    with one o Leaves pe show ?thesis by simp
  next
    case (Fails e)
    with o ov b r show ?thesis by (auto simp: one_byte_def)
  qed (use s in \<open>simp_all add: sound_def\<close>)
qed

text \<open>What a call for a buffer returns, from its bytes one at a time.\<close>

definition ends_with :: "outcome \<Rightarrow> nat \<Rightarrow> nat \<Rightarrow> raw_parser \<Rightarrow> bool" where
  "ends_with r n l q \<longleftrightarrow> r = Next \<and> n = l \<or> r = Leaves 1 \<and> 0 < n \<or> (\<exists>e. e \<noteq> HPE_OK \<and> r = Fails e \<and> hp_errno q = e)"

lemma execute_by_bytes:
  assumes "wf_parser p" and ok: "hp_errno p = HPE_OK" and d: "data \<noteq> []"
  shows "\<exists>q es fs n r. http_parser_execute p data = Inr (q, es, n) \<and> by_bytes p data = (q, fs, r, n) \<and>
    ends_with r n (length data) q \<and> ((\<forall>e. r \<noteq> Fails e) \<longrightarrow> hp_errno q = HPE_OK \<and> joined es = joined fs)"
proof -
  have wf: "wf_raw 0 p" using assms(1,2) by (simp add: wf_parser_def)
  have "bytewise data (enter p)" using loop_bytewise [OF enter_wf [OF wf]] by (simp add: enter_frame)
  then obtain y n fs r where b: "by_bytes p data = (raw_parser.truncate y, fs, r, n)" "exec_loop data (enter p) = Inr (y, n)"
    "r = Next \<and> n = length data \<or> r = Leaves 1 \<and> 0 < n \<or> (\<exists>e. e \<noteq> HPE_OK \<and> r = Fails e \<and> hp_errno y = e)"
    "(\<forall>e. r \<noteq> Fails e) \<longrightarrow> hp_errno y = HPE_OK \<and> joined (called y) = joined (unsent data (enter p) @ fs)"
    using ok by (auto simp: bytewise_def enter_frame)
  obtain c cs where c: "data = c # cs" using d by (cases data) simp_all
  obtain q es r1 where o: "one_byte p c = (q, es, r1)" using prod_cases3 by blast
  have "joined (unsent data (enter p) @ fs) = joined fs" if nf: "\<forall>e. r \<noteq> Fails e"
  proof -
    have "\<exists>gs. fs = es @ gs" "\<forall>e. r1 \<noteq> Fails e"
      using b(1) c o nf by (auto split: if_splits prod.splits)
    then show ?thesis using join_left [OF one_byte_entered [OF wf o]] by fastforce
  qed
  with b ok d have "http_parser_execute p data = Inr (raw_parser.truncate y, called y, n)"
    "(\<forall>e. r \<noteq> Fails e) \<longrightarrow> hp_errno y = HPE_OK \<and> joined (called y) = joined fs"
    by (simp_all add: http_parser_execute_def)
  moreover have "hp_errno (raw_parser.truncate y) = hp_errno y" by (simp add: raw_parser.defs)
  ultimately show ?thesis using b(1,3) unfolding ends_with_def
    by (intro exI conjI) (assumption | simp)+
qed

section \<open>Streams\<close>

text \<open>
  The buffers that a connection reads, each handed to \<^verbatim>\<open>HTTPParser::feed\<close>, until one is not
  taken as a whole.
\<close>

fun feed_buffers :: "raw_parser \<Rightarrow> bytes list \<Rightarrow> fault + raw_parser \<times> parser_event list \<times> bool" where
  "feed_buffers p [] = Inr (p, [], True)"
| "feed_buffers p (b # bs) =
     (case http_parser_execute p b of
        Inl f \<Rightarrow> Inl f
      | Inr (q, es, n) \<Rightarrow>
          if n \<noteq> length b then Inr (q, es, False)
          else
            (case feed_buffers q bs of
               Inl f \<Rightarrow> Inl f
             | Inr (q', fs, ok) \<Rightarrow> Inr (q', es @ fs, ok)))"

lemma by_bytes_length: "by_bytes p cs = (q, es, r, n) \<Longrightarrow> n \<le> length cs \<and> ((\<exists>e. r = Fails e) \<longrightarrow> n < length cs)"
  by (induction cs arbitrary: p es n) (fastforce split: prod.splits if_splits outcome.splits)+

lemma feed_buffers_by_bytes:
  "wf_parser p \<Longrightarrow> hp_errno p = HPE_OK \<Longrightarrow> [] \<notin> set bs \<Longrightarrow> by_bytes p (concat bs) = (q, fs, r, n) \<Longrightarrow>
   r = Next \<or> (\<exists>e. r = Fails e) \<or> n = length (concat bs) \<Longrightarrow>
   \<exists>gs. feed_buffers p bs = Inr (q, gs, \<forall>e. r \<noteq> Fails e) \<and> ((\<forall>e. r \<noteq> Fails e) \<longrightarrow> joined gs = joined fs)"
proof (induction bs arbitrary: p q fs r n)
  case (Cons b bs)
  then have b: "b \<noteq> []" by auto
  from execute_by_bytes [OF Cons.prems(1,2) b] obtain q1 es fs1 n1 r1 where
    e: "http_parser_execute p b = Inr (q1, es, n1)" "by_bytes p b = (q1, fs1, r1, n1)" "ends_with r1 n1 (length b) q1"
      "(\<forall>e. r1 \<noteq> Fails e) \<longrightarrow> hp_errno q1 = HPE_OK \<and> joined es = joined fs1" by blast
  have "wf_parser q1" using execute_safe [OF Cons.prems(1), of b] e(1) by auto
  show ?case
  proof (cases "r1 = Next")
    case True
    obtain q2 fs2 r2 n2 where r2: "by_bytes q1 (concat bs) = (q2, fs2, r2, n2)" using prod_cases4 by blast
    have n1: "n1 = length b" using True e(3) by (auto simp: ends_with_def)
    have c: "by_bytes p (b @ concat bs) = (q2, fs1 @ fs2, r2, n1 + n2)"
      using by_bytes_append [OF _ r2] e(2) True by simp
    with Cons.prems(4,5) n1 have q: "q = q2" "fs = fs1 @ fs2" "r = r2" "r2 = Next \<or> (\<exists>e. r2 = Fails e) \<or> n2 = length (concat bs)"
      by auto
    from Cons.IH [OF \<open>wf_parser q1\<close> _ _ r2 q(4)] Cons.prems(3) e(4) True obtain gs where
      "feed_buffers q1 bs = Inr (q2, gs, \<forall>e. r2 \<noteq> Fails e)" "(\<forall>e. r2 \<noteq> Fails e) \<longrightarrow> joined gs = joined fs2" by auto
    with e(1,4) n1 q True show ?thesis by (auto intro: join_cong)
  next
    case False
    have c: "(q, fs, r, n) = (q1, fs1, r1, n1)"
      using by_bytes_stops [OF e(2) False, of "concat bs"] Cons.prems(4) by simp
    note l = by_bytes_length [OF e(2)]
    show ?thesis
    proof (cases "\<exists>e. r1 = Fails e")
      case True
      with l have "n1 \<noteq> length b" by auto
      with c e(1) True show ?thesis by auto
    next
      case no: False
      with False c Cons.prems(5) have n: "n1 = length (concat (b # bs))" by auto
      with l have "concat bs = []" by simp
      with Cons.prems(3) have "bs = []" by (cases bs) auto
      with n c e(1,4) no show ?thesis by auto
    qed
  qed
qed simp

lemma buffers_cut_anywhere:
  assumes "wf_parser p" and "hp_errno p = HPE_OK" and "[] \<notin> set bs" and "bs \<noteq> []"
    and "http_parser_execute p (concat bs) = Inr (q, es, n)"
    and "n = length (concat bs) \<or> hp_errno q \<noteq> HPE_OK"
  shows "\<exists>gs. feed_buffers p bs = Inr (q, gs, n = length (concat bs)) \<and> (hp_errno q = HPE_OK \<longrightarrow> joined gs = joined es)"
proof -
  have "concat bs \<noteq> []" using assms(3,4) by (cases bs) auto
  from execute_by_bytes [OF assms(1,2) this] assms(5) obtain fs r where
    b: "by_bytes p (concat bs) = (q, fs, r, n)" "ends_with r n (length (concat bs)) q"
      "(\<forall>e. r \<noteq> Fails e) \<longrightarrow> hp_errno q = HPE_OK \<and> joined es = joined fs" by auto
  have r: "r = Next \<or> (\<exists>e. r = Fails e) \<or> n = length (concat bs)" "(\<forall>e. r \<noteq> Fails e) \<longleftrightarrow> n = length (concat bs)"
    "(\<forall>e. r \<noteq> Fails e) \<longleftrightarrow> hp_errno q = HPE_OK"
    using assms(6) b(2,3) by_bytes_length [OF b(1)] by (auto simp: ends_with_def)
  from feed_buffers_by_bytes [OF assms(1-3) b(1) r(1)] r(2,3) b(3) show ?thesis by auto
qed

end
