(* ===== verification/Http_Stream.thy ===== *)
theory Http_Stream
  imports Http_Split
begin

text \<open>
  The parser of a server over the buffers of a connection, from its start.
\<close>

section \<open>The kind of the parser\<close>

lemma exec_state_type:
  assumes "hp_type x = HTTP_REQUEST" and "wf_exec k x" and e: "exec_state data ch x = (y, r)"
  shows "hp_type y = HTTP_REQUEST"
proof -
  have f: "field_letter ch c x = Some y \<Longrightarrow> hp_type y = hp_type x" for c y using field_letter_frame [of ch c x y] by auto
  have m: "hp_type (match_word w n c x) = hp_type x" for w n c using match_word_frame [of w n c x] by auto
  have "\<not> response_state (hp_state x)" using assms(1,2) by (simp add: wf_exec_def wf_raw_def)
  then have "hp_type (fst (exec_state data ch x)) = HTTP_REQUEST"
    using assms(1)
    by (cases "hp_state x")
      (simp_all add: exec_state_def response_state_def step_defs call_defs Let_def f m split: option.split header_states.split)
  with e show ?thesis by simp
qed

lemma run_byte_type:
  assumes "hp_type x = HTTP_REQUEST" and "wf_exec 1 x" and "pos x < length data" and r: "run_byte data ch x = (y, r)"
  shows "hp_type y = HTTP_REQUEST"
proof (rule run_byte_induct [where P = "\<lambda>x. hp_type x = HTTP_REQUEST \<and> wf_exec 1 x \<and> pos x < length data"
      and Q = "\<lambda>y r. hp_type y = HTTP_REQUEST", OF _ _ r])
  fix x x' r
  assume x: "hp_type x = HTTP_REQUEST \<and> wf_exec 1 x \<and> pos x < length data" and e: "exec_state data ch x = (x', r)"
  with exec_state_type [of x 1 data ch x' r] exec_state_sound [of x data ch] exec_state_pos [of x data ch x' r]
  show "if r = Again then hp_type x' = HTTP_REQUEST \<and> wf_exec 1 x' \<and> pos x' < length data else hp_type x' = HTTP_REQUEST"
    by (auto simp: sound_def)
qed (use assms in simp)

lemma exec_loop_type:
  "hp_type x = HTTP_REQUEST \<Longrightarrow> wf_exec 0 x \<Longrightarrow> exec_loop data x = Inr (y, n) \<Longrightarrow> hp_type y = HTTP_REQUEST"
proof (induction data x rule: exec_loop.induct)
  case (1 data x)
  consider (finished) "length data \<le> pos x" | (overflow) "pos x < length data" "overflows x"
    | (byte) "pos x < length data" "\<not> overflows x"
    by linarith
  then show ?case
  proof cases
    case finished
    with 1(2,4) show ?thesis by (auto simp: exec_loop.simps [of data x] flush_def call_defs split: if_splits)
  next
    case overflow
    with 1(2,4) exec_loop_overflow [OF overflow] show ?thesis by (auto simp: count_byte_def)
  next
    case byte
    obtain x' r where r: "run_byte data (data ! pos x) (count_byte x) = (x', r)" by fastforce
    have p: "pos (count_byte x) < length data" using byte by (simp add: count_frame)
    have "hp_type (count_byte x) = HTTP_REQUEST" using 1(2) by (simp add: count_byte_def)
    from run_byte_type [OF this count_byte_wf [OF 1(3)] p r] have t: "hp_type x' = HTTP_REQUEST" .
    note s = run_byte_sound [OF count_byte_wf [OF 1(3)] p r] and loop = exec_loop_byte [OF byte r]
    show ?thesis
    proof (cases "r = Next")
      case True
      with s have "wf_exec 0 (x'\<lparr>pos := Suc (pos x')\<rparr>)" using next_byte_wf [of x'] by (simp add: sound_def)
      with 1(1) [of x' r] 1(4) byte r True loop t show ?thesis by simp
    next
      case False
      with loop 1(4) t show ?thesis by (cases r) auto
    qed
  qed
qed

lemma execute_type:
  assumes "hp_type p = HTTP_REQUEST" and "wf_parser p" and "http_parser_execute p data = Inr (q, es, n)"
  shows "hp_type q = HTTP_REQUEST"
proof (cases "hp_errno p = HPE_OK \<and> data \<noteq> []")
  case True
  then have w: "wf_exec 0 (enter p)" "hp_type (enter p) = HTTP_REQUEST"
    using assms(1,2) enter_wf by (simp_all add: wf_parser_def) (simp add: enter_def raw_parser.defs exec.defs)
  with True assms(3) show ?thesis
    by (auto simp: http_parser_execute_def raw_parser.defs dest!: exec_loop_type [OF w(2,1)] split: sum.splits)
next
  case False
  with assms(1,3) show ?thesis by (cases "hp_state p") (auto simp: http_parser_execute_def split: if_splits)
qed

lemma execute_whole:
  assumes "wf_parser p" and "hp_errno p = HPE_OK" and "http_parser_execute p data = Inr (q, es, length data)"
  shows "hp_errno q = HPE_OK"
proof (cases "data = []")
  case True
  with assms show ?thesis by (cases "hp_state p") (auto simp: http_parser_execute_def)
next
  case False
  from execute_by_bytes [OF assms(1,2) False] assms(3) obtain fs r where
    b: "by_bytes p data = (q, fs, r, length data)" "ends_with r (length data) (length data) q"
      "(\<forall>e. r \<noteq> Fails e) \<longrightarrow> hp_errno q = HPE_OK" by auto
  with by_bytes_length [OF b(1)] show ?thesis by auto
qed

lemma feed_buffers_wf:
  "wf_parser p \<Longrightarrow> hp_errno p = HPE_OK \<Longrightarrow> hp_type p = HTTP_REQUEST \<Longrightarrow>
   \<exists>q es ok. feed_buffers p bs = Inr (q, es, ok) \<and> hp_type q = HTTP_REQUEST \<and> wf_parser q \<and> (ok \<longrightarrow> hp_errno q = HPE_OK)"
proof (induction bs arbitrary: p)
  case (Cons b bs)
  from execute_safe [OF Cons.prems(1), of b] obtain q es n where
    e: "http_parser_execute p b = Inr (q, es, n)" "wf_parser q" by blast
  have t: "hp_type q = HTTP_REQUEST" by (rule execute_type [OF Cons.prems(3,1) e(1)])
  show ?case
  proof (cases "n = length b")
    case True
    with execute_whole [OF Cons.prems(1,2)] e(1) have "hp_errno q = HPE_OK" by simp
    from Cons.IH [OF e(2) this t] e(1) True show ?thesis by auto
  next
    case False
    with e t show ?thesis by (intro exI [of _ q] exI [of _ es] exI [of _ False]) simp
  qed
qed (simp, intro exI [of _ True] TrueI)

section \<open>What the parser also takes\<close>

lemmas run_defs =
  http_parser_execute_def exec_loop.simps run_byte.simps exec_state_def step_defs call_defs enter_def count_byte_def
  overflows_def PARSING_HEADER_def HTTP_MAX_HEADER_SIZE_def raw_parser.defs exec.defs http_parser_init_def url_state_def Let_def
  is_alpha_def lower_def method_of_letter_def c_at_def parse_url_char.simps is_url_char_def is_digit_def digit_val_def
  field_letter_def match_word_def char_of_def NEW_MESSAGE_def http_should_keep_alive_def http_message_needs_eof_def
  unhex_def mark_def marked_def slice_def flush_def marks_set_def token_def bit_Suc_0_iff

text \<open>\<^verbatim>\<open>parser_.done()\<close>, which \<^verbatim>\<open>do_read\<close> calls when a read has failed, makes no callback for a parser of requests.\<close>

lemma done_is_silent:
  assumes "wf_parser p" and "hp_type p = HTTP_REQUEST"
  shows "\<exists>q n. http_parser_execute p [] = Inr (q, [], n)"
proof (cases "hp_errno p = HPE_OK")
  case True
  with assms have "\<not> response_state (hp_state p)" by (simp add: wf_parser_def wf_raw_def)
  with True show ?thesis by (cases "hp_state p") (simp_all add: http_parser_execute_def response_state_def)
qed (simp add: http_parser_execute_def)

text \<open>The table of hexadecimal digits has entries for half of the bytes: the others count as the digit 0.\<close>

lemma high_byte_is_digit_zero: "128 \<le> (of_char c :: nat) \<Longrightarrow> unhex c = Some 0"
  by (simp add: unhex_def Let_def)

text \<open>Blanks inside a length do not end it.\<close>

definition spaced :: bytes where
  "spaced = ''POST / HTTP/1.1'' @ [CR, LF] @ ''Content-Length: 1 2'' @ [CR, LF, CR, LF]"

lemma spaced_length_is_one_number:
  "\<exists>q es. http_parser_execute (http_parser_init HTTP_REQUEST) spaced = Inr (q, es, length spaced) \<and> content_length q = 12 \<and>
     hp_state q = s_body_identity"
  by (simp add: run_defs spaced_def other_method_def ULLONG_MAX_def)

text \<open>Of two lengths the last one counts.\<close>

definition twice_counted :: bytes where
  "twice_counted = ''POST / HTTP/1.1'' @ [CR, LF] @ ''Content-Length: 9'' @ [CR, LF] @ ''Content-Length: 2'' @ [CR, LF, CR, LF]"

lemma last_length_wins:
  "\<exists>q es. http_parser_execute (http_parser_init HTTP_REQUEST) twice_counted = Inr (q, es, length twice_counted) \<and>
     content_length q = 2 \<and> hp_state q = s_body_identity"
  by (simp add: run_defs twice_counted_def other_method_def ULLONG_MAX_def)

section \<open>Properties\<close>

definition sample_pieces :: "bytes list" where
  "sample_pieces = [''GE'', ''T /a?b HTT'', ''P/1.1'' @ [CR], [LF] @ ''Host: h'' @ [CR, LF, CR], [LF]]"

text \<open>C17: Whatever a client sends, in whatever pieces, the parser of a server returns: no assertion of
  \<^verbatim>\<open>http_parser_execute\<close> fails (such as the ones on the count of chunk-size bytes, on the flag of
  chunks and on the single mark), it stays a parser of requests, and as long as it has taken every buffer as a
  whole it is well formed: in no state of a response, with the index inside the name of the method, with a
  length below 2^64 - 1 that is not 0 while a body is read.\<close>

theorem parser_well_formed:
  "\<exists>q es ok. feed_buffers (http_parser_init HTTP_REQUEST) bs = Inr (q, es, ok) \<and> hp_type q = HTTP_REQUEST \<and>
     (ok \<longrightarrow> hp_errno q = HPE_OK \<and> wf_raw 0 q)"
proof -
  have "hp_errno (http_parser_init HTTP_REQUEST) = HPE_OK" "hp_type (http_parser_init HTTP_REQUEST) = HTTP_REQUEST"
    by (simp_all add: http_parser_init_def)
  from feed_buffers_wf [OF init_wf this] show ?thesis by (fastforce simp: wf_parser_def)
qed

theorem parser_well_formed_witness:
  "\<exists>q es. feed_buffers (http_parser_init HTTP_REQUEST) sample_pieces = Inr (q, es, True) \<and> hp_type q = HTTP_REQUEST \<and>
     hp_errno q = HPE_OK \<and> wf_raw 0 q"
proof -
  have "\<exists>q es. feed_buffers (http_parser_init HTTP_REQUEST) sample_pieces = Inr (q, es, True)"
    by (simp add: run_defs sample_pieces_def)
  with parser_well_formed [of sample_pieces] show ?thesis by auto
qed



end
