(* ===== verification/Http_Message.thy ===== *)
theory Http_Message
  imports Http_Stream
begin

text \<open>
  Requests as a client writes them, and what the parser makes of their bytes.
\<close>

section \<open>Reading a piece of a message\<close>

text \<open>The bytes are taken one after the other and make these events, but for the cuts in their data.\<close>

definition reads :: "raw_parser \<Rightarrow> bytes \<Rightarrow> raw_parser \<Rightarrow> parser_event list \<Rightarrow> bool" where
  "reads p cs q es \<longleftrightarrow> (\<exists>fs. by_bytes p cs = (q, fs, Next, length cs) \<and> joined fs = joined es)"

lemma reads_append: "reads p a q es \<Longrightarrow> reads q b r fs \<Longrightarrow> reads p (a @ b) r (es @ fs)"
  unfolding reads_def using by_bytes_append by (fastforce intro: join_cong)

lemma reads_Nil: "reads p [] p []"
  by (simp add: reads_def)

lemma reads_one: "one_byte p c = (q, es, Next) \<Longrightarrow> reads p [c] q es"
  by (simp add: reads_def)

lemma reads_Cons: "one_byte p c = (q, es, Next) \<Longrightarrow> reads q cs r fs \<Longrightarrow> reads p (c # cs) r (es @ fs)"
  using reads_append [OF reads_one, of p c q es cs r fs] by simp

lemma reads_joined: "reads p cs q es \<Longrightarrow> joined es = joined fs \<Longrightarrow> reads p cs q fs"
  by (simp add: reads_def)

definition room :: "raw_parser \<Rightarrow> nat \<Rightarrow> bool" where
  "room p n \<longleftrightarrow> nread p + n \<le> HTTP_MAX_HEADER_SIZE"

lemma room_less: "room p 1 \<Longrightarrow> Suc (nread p) < 4294967296 \<and> nread p < HTTP_MAX_HEADER_SIZE"
  by (simp add: room_def HTTP_MAX_HEADER_SIZE_def)

lemma room_weaken: "room p n \<Longrightarrow> m \<le> n \<Longrightarrow> room p m"
  by (simp add: room_def)

lemma one_byte_plain:
  assumes "room p 1" and "PARSING_HEADER (hp_state p)"
    and "run_byte [c] c ((enter p)\<lparr>nread := nread p + 1\<rparr>) = (y, Next)"
  shows "one_byte p c = (raw_parser.truncate y, called (flush [c] (y\<lparr>pos := 1\<rparr>)), Next)"
proof -
  have n: "nread (enter p) = nread p" by (simp add: enter_def raw_parser.defs exec.defs)
  have "\<not> overflows (enter p)" "count_byte (enter p) = (enter p)\<lparr>nread := nread p + 1\<rparr>"
    using assms(1,2) room_less [OF assms(1)] by (simp_all add: overflows_def count_byte_def enter_frame n room_def)
  with assms(3) show ?thesis by (simp add: one_byte_def)
qed

lemma one_byte_plainI:
  assumes "room p 1" and "PARSING_HEADER (hp_state p)"
    and "exec_state [c] c ((enter p)\<lparr>nread := nread p + 1\<rparr>) = (y, Next)"
    and "raw_parser.truncate y = q" and "called (flush [c] (y\<lparr>pos := 1\<rparr>)) = es"
  shows "one_byte p c = (q, es, Next)"
  using one_byte_plain [OF assms(1,2) run_byte_next [OF assms(3)]] assms(4,5) by simp

lemmas byte_simps = enter_def raw_parser.defs exec.defs flush_def call_defs mark_def marked_def slice_def

section \<open>The method\<close>

lemma one_start:
  assumes "hp_state p = s_start_req" and "room p 1" and "method_of_letter c = Some m"
  shows "one_byte p c =
    (p\<lparr>f_chunked := False, f_connection_keep_alive := False, f_connection_close := False, f_trailing := False,
       f_upgrade := False, f_skipbody := False, hp_state := s_req_method, hp_index := 1, nread := nread p + 1,
       content_length := ULLONG_MAX, hp_method := m\<rparr>, [Message_begin], Next)"
proof -
  have c: "is_alpha c" "c \<noteq> CR" "c \<noteq> LF"
    using assms(3) by (auto simp: method_of_letter_def is_alpha_def lower_def char_of_def bit_Suc_0_iff split: if_splits)
  show ?thesis
    by (rule one_byte_plainI [OF assms(2)])
      (simp add: assms c PARSING_HEADER_def exec_state_def step_start_req_def byte_simps url_state_def)+
qed

text \<open>The method and the state after one more letter.\<close>

definition next_method :: "parser_method \<Rightarrow> nat \<Rightarrow> char \<Rightarrow> (parser_method \<times> parse_state) option" where
  "next_method m i c =
     (if c = CHR 0x00 then None
      else if c = CHR '' '' \<and> c_at (method_string m) i = CHR 0x00 then Some (m, s_req_spaces_before_url)
      else if c = c_at (method_string m) i then Some (m, s_req_method)
      else map_option (\<lambda>m. (m, s_req_method)) (other_method m i c))"

lemma one_method:
  assumes "hp_state p = s_req_method" and "room p 1" and m: "next_method (hp_method p) (hp_index p) c = Some (m, s)"
  shows "one_byte p c =
    (p\<lparr>hp_state := s, hp_index := Suc (hp_index p) mod 256, nread := nread p + 1, hp_method := m\<rparr>, [], Next)"
proof -
  let ?x = "(enter p)\<lparr>nread := nread p + 1\<rparr>"
  have x: "hp_method ?x = hp_method p" "hp_index ?x = hp_index p" "hp_state ?x = s_req_method"
    using assms(1) by (simp_all add: enter_def raw_parser.defs exec.defs)
  have "step_req_method c ?x = (?x\<lparr>hp_state := s, hp_index := Suc (hp_index p) mod 256, hp_method := m\<rparr>, Next)"
    using m x unfolding step_req_method_def next_method_def Let_def
    by (auto split: if_splits option.splits)
  then have "exec_state [c] c ?x = (?x\<lparr>hp_state := s, hp_index := Suc (hp_index p) mod 256, hp_method := m\<rparr>, Next)"
    using x by (simp add: exec_state_def)
  from one_byte_plainI [OF assms(2) _ this] assms(1) show ?thesis
    by (simp add: PARSING_HEADER_def byte_simps url_state_def)
qed


definition begun :: "raw_parser \<Rightarrow> parser_method \<Rightarrow> nat \<Rightarrow> raw_parser" where
  "begun p m n = p\<lparr>f_chunked := False, f_connection_keep_alive := False, f_connection_close := False, f_trailing := False,
     f_upgrade := False, f_skipbody := False, hp_state := s_req_spaces_before_url, hp_index := n, nread := nread p + n,
     content_length := ULLONG_MAX, hp_method := m\<rparr>"

lemma reads_method:
  assumes "hp_state p = s_start_req" and "room p (Suc (length (method_string m)))"
  shows "reads p (method_string m @ '' '') (begun p m (Suc (length (method_string m)))) [Message_begin]"
proof -
  have "by_bytes p (method_string m @ '' '') = (begun p m (Suc (length (method_string m))), [Message_begin], Next, Suc (length (method_string m)))"
    using assms
    by (cases m)
      (simp_all add: one_start one_method method_of_letter_def next_method_def other_method_def c_at_def room_def begun_def)
  then show ?thesis by (simp add: reads_def)
qed

section \<open>The URL\<close>

lemma url_char_plain: "parse_url_char s c \<noteq> s_dead \<Longrightarrow> c \<noteq> CHR '' '' \<and> c \<noteq> CR \<and> c \<noteq> LF"
  by (auto simp: parse_url_char.simps)

lemma url_dead: "parse_url_char s_dead c = s_dead"
  by (simp add: parse_url_char.simps)

lemma url_run_dead: "foldl parse_url_char s_dead cs = s_dead"
  by (induction cs) (simp_all add: url_dead)

lemma one_url_first:
  assumes "hp_state p = s_req_spaces_before_url" and "hp_method p \<noteq> HTTP_CONNECT" and "room p 1"
    and "parse_url_char s_req_spaces_before_url c = s" "s \<noteq> s_dead"
  shows "one_byte p c = (p\<lparr>hp_state := s, nread := nread p + 1\<rparr>, [Url [c]], Next)"
  by (rule one_byte_plainI [OF assms(3)])
    (use assms url_char_plain [of s_req_spaces_before_url c] in
      \<open>simp add: PARSING_HEADER_def exec_state_def step_spaces_before_url_def url_char_def byte_simps url_state_def; fail\<close>)+

lemma one_url_more:
  assumes "url_state (hp_state p)" and "room p 1" and "parse_url_char (hp_state p) c = s" "s \<noteq> s_dead"
  shows "one_byte p c = (p\<lparr>hp_state := s, nread := nread p + 1\<rparr>, [Url [c]], Next)"
proof -
  let ?x = "(enter p)\<lparr>nread := nread p + 1\<rparr>"
  have u: "url_mark (enter p) = Some 0" "header_field_mark (enter p) = None" "header_value_mark (enter p) = None"
    "body_mark (enter p) = None" "hp_state (enter p) = hp_state p"
    using assms(1) by (auto simp: enter_def raw_parser.defs exec.defs url_state_def)
  have "exec_state [c] c ?x = url_char c ?x"
    using assms(1) url_char_plain [of "hp_state p" c] assms(3,4) u(5)
    by (auto simp: url_state_def exec_state_def step_url_def step_schema_def)
  also have "\<dots> = (?x\<lparr>hp_state := s\<rparr>, Next)" using assms(3,4) u(5) by (simp add: url_char_def)
  finally have e: "exec_state [c] c ?x = (?x\<lparr>hp_state := s\<rparr>, Next)" .
  have h: "PARSING_HEADER (hp_state p)" using assms(1) by (auto simp: url_state_def PARSING_HEADER_def)
  show ?thesis
  proof (rule one_byte_plainI [OF assms(2) h e])
    show "raw_parser.truncate (?x\<lparr>hp_state := s\<rparr>) = p\<lparr>hp_state := s, nread := nread p + 1\<rparr>"
      by (simp add: enter_def raw_parser.defs exec.defs)
    show "called (flush [c] (?x\<lparr>hp_state := s, pos := 1\<rparr>)) = [Url [c]]"
      using u by (simp add: flush_def call_defs marked_def enter_frame slice_def)
  qed
qed

text \<open>A URL that the automaton accepts, for any method but \<^verbatim>\<open>CONNECT\<close>.\<close>

definition ends_url :: "parse_state \<Rightarrow> bool" where
  "ends_url s \<longleftrightarrow> s \<in> {s_req_path, s_req_server, s_req_server_with_at, s_req_query_string_start, s_req_query_string,
     s_req_fragment_start, s_req_fragment}"

definition url_ok :: "bytes \<Rightarrow> bool" where
  "url_ok url \<longleftrightarrow> ends_url (foldl parse_url_char s_req_spaces_before_url url)"

lemma one_url_end:
  assumes "ends_url (hp_state p)" and "room p 1"
  shows "one_byte p CHR '' '' = (p\<lparr>hp_state := s_req_http_start, nread := nread p + 1\<rparr>, [Url []], Next)"
proof -
  let ?x = "(enter p)\<lparr>nread := nread p + 1\<rparr>"
  have u: "url_mark (enter p) = Some 0" "header_field_mark (enter p) = None" "header_value_mark (enter p) = None"
    "body_mark (enter p) = None" "hp_state (enter p) = hp_state p" "PARSING_HEADER (hp_state p)"
    using assms(1) by (auto simp: enter_def raw_parser.defs exec.defs url_state_def ends_url_def PARSING_HEADER_def)
  have "exec_state [CHR '' ''] CHR '' '' ?x = (call_url [CHR '' ''] (?x\<lparr>hp_state := s_req_http_start\<rparr>), Next)"
    using assms(1) u(5) by (auto simp: ends_url_def exec_state_def step_url_def)
  then show ?thesis
    by (rule one_byte_plainI [OF assms(2) u(6)])
      (use u in \<open>simp_all add: call_url_def flush_def call_defs marked_def enter_frame slice_def\<close>,
        simp add: enter_def raw_parser.defs exec.defs)
qed

lemma url_state_run: "s \<noteq> s_dead \<Longrightarrow> parse_url_char s' c = s \<Longrightarrow> url_state s"
  using parse_url_char_cases [of s' c] by (auto simp: url_state_def)

lemma reads_url_rest:
  "url_state (hp_state p) \<Longrightarrow> room p (Suc (length cs)) \<Longrightarrow> ends_url (foldl parse_url_char (hp_state p) cs) \<Longrightarrow>
   reads p (cs @ '' '') (p\<lparr>hp_state := s_req_http_start, nread := nread p + Suc (length cs)\<rparr>) [Url cs]"
proof (induction cs arbitrary: p)
  case Nil
  then show ?case using reads_one [OF one_url_end [of p]] by (simp add: room_def)
next
  case (Cons c cs)
  let ?s = "parse_url_char (hp_state p) c"
  have s: "?s \<noteq> s_dead" using Cons.prems(3) url_run_dead [of cs] by (auto simp: ends_url_def)
  have r: "room p 1" using Cons.prems(2) by (simp add: room_def)
  have "reads p ((c # cs) @ '' '')
      (p\<lparr>hp_state := s_req_http_start, nread := nread p + Suc (length (c # cs))\<rparr>) ([Url [c]] @ [Url cs])"
    using reads_Cons [OF one_url_more [OF Cons.prems(1) r refl s] Cons.IH] url_state_run [OF s refl] Cons.prems(2,3)
    by (simp add: room_def)
  then show ?case by (rule reads_joined) (simp add: add_event_def)
qed

lemma reads_url:
  assumes "hp_state p = s_req_spaces_before_url" and "hp_method p \<noteq> HTTP_CONNECT" and "room p (Suc (length url))" and "url_ok url"
  shows "reads p (url @ '' '') (p\<lparr>hp_state := s_req_http_start, nread := nread p + Suc (length url)\<rparr>) [Url url]"
proof (cases url)
  case Nil
  with assms(4) show ?thesis by (simp add: url_ok_def ends_url_def)
next
  case (Cons c cs)
  let ?s = "parse_url_char s_req_spaces_before_url c"
  have s: "?s \<noteq> s_dead" using assms(4) Cons url_run_dead [of cs] by (auto simp: url_ok_def ends_url_def)
  have r: "room p 1" using assms(3) by (simp add: room_def)
  have "reads p ((c # cs) @ '' '')
      (p\<lparr>hp_state := s_req_http_start, nread := nread p + Suc (length url)\<rparr>) ([Url [c]] @ [Url cs])"
    using reads_Cons [OF one_url_first [OF assms(1,2) r refl s] reads_url_rest] url_state_run [OF s refl] assms(3,4) Cons
    by (simp add: room_def url_ok_def)
  then show ?thesis unfolding Cons by (rule reads_joined) (simp add: add_event_def)
qed

section \<open>The version\<close>

lemma one_version:
  assumes "room p 1"
  shows "hp_state p = s_req_http_start \<Longrightarrow> one_byte p CHR ''H'' = (p\<lparr>hp_state := s_req_http_H, nread := nread p + 1\<rparr>, [], Next)"
    "hp_state p = s_req_http_H \<Longrightarrow> one_byte p CHR ''T'' = (p\<lparr>hp_state := s_req_http_HT, nread := nread p + 1\<rparr>, [], Next)"
    "hp_state p = s_req_http_HT \<Longrightarrow> one_byte p CHR ''T'' = (p\<lparr>hp_state := s_req_http_HTT, nread := nread p + 1\<rparr>, [], Next)"
    "hp_state p = s_req_http_HTT \<Longrightarrow> one_byte p CHR ''P'' = (p\<lparr>hp_state := s_req_http_HTTP, nread := nread p + 1\<rparr>, [], Next)"
    "hp_state p = s_req_http_HTTP \<Longrightarrow> one_byte p CHR ''/'' = (p\<lparr>hp_state := s_req_first_http_major, nread := nread p + 1\<rparr>, [], Next)"
    "hp_state p = s_req_first_http_major \<Longrightarrow>
     one_byte p CHR ''1'' = (p\<lparr>hp_state := s_req_http_major, nread := nread p + 1, http_major := 1\<rparr>, [], Next)"
    "hp_state p = s_req_http_major \<Longrightarrow> one_byte p CHR ''.'' = (p\<lparr>hp_state := s_req_first_http_minor, nread := nread p + 1\<rparr>, [], Next)"
    "hp_state p = s_req_first_http_minor \<Longrightarrow>
     one_byte p CHR ''1'' = (p\<lparr>hp_state := s_req_http_minor, nread := nread p + 1, http_minor := 1\<rparr>, [], Next)"
    "hp_state p = s_req_http_minor \<Longrightarrow> one_byte p CR = (p\<lparr>hp_state := s_req_line_almost_done, nread := nread p + 1\<rparr>, [], Next)"
    "hp_state p = s_req_line_almost_done \<Longrightarrow> one_byte p LF = (p\<lparr>hp_state := s_header_field_start, nread := nread p + 1\<rparr>, [], Next)"
  by (rule one_byte_plainI [OF assms],
      (simp add: PARSING_HEADER_def exec_state_def step_req_http_start_def expect_def first_major_def more_major_def first_minor_def
        step_req_http_minor_def step_req_line_almost_done_def is_digit_def digit_val_def byte_simps url_state_def; fail)+)+

definition version_line :: bytes where
  "version_line = ''HTTP/1.1'' @ [CR, LF]"

lemma reads_version:
  assumes "hp_state p = s_req_http_start" and "room p (length version_line)"
  shows "reads p version_line
    (p\<lparr>hp_state := s_header_field_start, nread := nread p + length version_line, http_major := 1, http_minor := 1\<rparr>) []"
  using assms by (simp add: reads_def version_line_def room_def one_version)

section \<open>The name of a header\<close>

text \<open>The names that the parser knows, and the letters of a name as it compares them.\<close>

definition known_names :: "bytes list" where
  "known_names = [''connection'', ''proxy-connection'', ''content-length'', ''transfer-encoding'', ''upgrade'']"

definition lower_name :: "bytes \<Rightarrow> bytes" where
  "lower_name n = map (\<lambda>c. the (token c)) n"

definition part_of :: "nat \<Rightarrow> bytes \<Rightarrow> bytes \<Rightarrow> nat \<Rightarrow> bool" where
  "part_of k word w i \<longleftrightarrow> k \<le> length w \<and> length w < length word \<and> w = take (length w) word \<and> i = length w - 1"

text \<open>What the state and the index tell of the letters \<open>w\<close> that were read.\<close>

definition name_inv :: "bytes \<Rightarrow> header_states \<Rightarrow> nat \<Rightarrow> bool" where
  "name_inv w h i \<longleftrightarrow>
     (case h of
        h_general \<Rightarrow> list_all (\<lambda>word. take (length w) word \<noteq> w) known_names
      | h_C \<Rightarrow> w = ''c'' \<and> i = 0
      | h_CO \<Rightarrow> w = ''co'' \<and> i = 1
      | h_CON \<Rightarrow> w = ''con'' \<and> i = 2
      | h_matching_connection \<Rightarrow> part_of 4 ''connection'' w i
      | h_matching_proxy_connection \<Rightarrow> part_of 1 ''proxy-connection'' w i
      | h_matching_content_length \<Rightarrow> part_of 4 ''content-length'' w i
      | h_matching_transfer_encoding \<Rightarrow> part_of 1 ''transfer-encoding'' w i
      | h_matching_upgrade \<Rightarrow> part_of 1 ''upgrade'' w i
      | h_connection \<Rightarrow> w = ''connection'' \<or> w = ''proxy-connection''
      | h_content_length \<Rightarrow> w = ''content-length''
      | h_transfer_encoding \<Rightarrow> w = ''transfer-encoding''
      | h_upgrade \<Rightarrow> w = ''upgrade''
      | _ \<Rightarrow> False)"

lemma take_longer: "take (length w) word \<noteq> w \<Longrightarrow> take (Suc (length w)) word \<noteq> w @ [c]"
  by (metis append_eq_conv_conj append_take_drop_id butlast_snoc butlast_take length_append_singleton
      nat_le_linear take_all take_append diff_Suc_1 length_take min.absorb2 take_butlast)

lemma part_diverges: "part_of k word w i \<Longrightarrow> take k word' \<noteq> take k word \<Longrightarrow> take (length w) word' \<noteq> w"
  unfolding part_of_def by (metis min.absorb1 take_take)

lemma part_next: "part_of k word w i \<Longrightarrow> take (Suc (length w)) word = w @ [word ! length w]"
  unfolding part_of_def by (metis take_Suc_conv_app_nth)

lemma part_done: "part_of k word w i \<Longrightarrow> Suc (length w) = length word \<Longrightarrow> w @ [word ! length w] = word"
  using part_next [of k word w i] by simp

lemma match_word_part:
  assumes "part_of k word w (hp_index x)" and "length word < 256" and "0 < k"
  shows "c \<noteq> word ! length w \<Longrightarrow> hp_header_state (match_word word h c x) = h_general"
    and "c = word ! length w \<Longrightarrow> Suc (length w) = length word \<Longrightarrow> hp_header_state (match_word word h c x) = h"
    and "c = word ! length w \<Longrightarrow> Suc (length w) \<noteq> length word \<Longrightarrow>
      hp_header_state (match_word word h c x) = hp_header_state x \<and> part_of k word (w @ [c]) (hp_index (match_word word h c x))"
proof -
  have w: "0 < length w" "length w < length word" "hp_index x = length w - 1"
    using assms(1,3) by (auto simp: part_of_def)
  then have i: "Suc (hp_index x) mod 256 = length w" "c_at word (length w) = word ! length w"
    using assms(2) by (simp_all add: c_at_def)
  show "c \<noteq> word ! length w \<Longrightarrow> hp_header_state (match_word word h c x) = h_general"
    using i by (simp add: match_word_def Let_def)
  show "c = word ! length w \<Longrightarrow> Suc (length w) = length word \<Longrightarrow> hp_header_state (match_word word h c x) = h"
    using i w by (auto simp: match_word_def Let_def)
  show "c = word ! length w \<Longrightarrow> Suc (length w) \<noteq> length word \<Longrightarrow>
      hp_header_state (match_word word h c x) = hp_header_state x \<and> part_of k word (w @ [c]) (hp_index (match_word word h c x))"
    using i w assms(1) part_next [OF assms(1)] by (auto simp: match_word_def Let_def part_of_def)
qed

lemma known_word_step:
  assumes "part_of k word w (hp_index x)" and "0 < k" and "word \<in> set known_names"
    and s: "\<forall>w' i. name_inv w' (hp_header_state x) i = part_of k word w' i" and h: "\<forall>i. name_inv word h i"
    and d: "\<forall>word' \<in> set known_names. word' \<noteq> word \<longrightarrow> take k word' \<noteq> take k word"
  shows "name_inv (w @ [c]) (hp_header_state (match_word word h c x)) (hp_index (match_word word h c x))"
proof -
  have l: "length word < 256" using assms(3) by (auto simp: known_names_def)
  note m = match_word_part [OF assms(1) l assms(2), of c h]
  show ?thesis
  proof (cases "c = word ! length w")
    case True
    then show ?thesis using m(2,3) s h part_done [OF assms(1)] by (cases "Suc (length w) = length word") auto
  next
    case False
    have "take (Suc (length w)) word' \<noteq> w @ [c]" if "word' \<in> set known_names" for word'
    proof (cases "word' = word")
      case True
      with False part_next [OF assms(1)] show ?thesis by simp
    next
      case False
      with d that show ?thesis using take_longer [OF part_diverges [OF assms(1)]] by blast
    qed
    then show ?thesis using m(1) [OF False] by (simp add: name_inv_def list_all_iff)
  qed
qed

lemma name_general: "take (length w) word \<noteq> w \<Longrightarrow> take (length (w @ [c])) word \<noteq> w @ [c]"
  using take_longer [of w word c] by simp

text \<open>The automaton of names knows what was read.\<close>

lemma field_letter_name_inv:
  assumes "name_inv w (hp_header_state x) (hp_index x)" and "ch \<noteq> CHR '' ''"
  shows "\<exists>y. field_letter ch c x = Some y \<and> name_inv (w @ [c]) (hp_header_state y) (hp_index y)"
proof -
  have known: "''connection'' \<in> set known_names" "''proxy-connection'' \<in> set known_names" "''content-length'' \<in> set known_names"
    "''transfer-encoding'' \<in> set known_names" "''upgrade'' \<in> set known_names" by (simp_all add: known_names_def)
  have take4: "\<forall>word' \<in> set known_names. word' \<noteq> word \<longrightarrow> take 4 word' \<noteq> take 4 word" if "word \<in> {''connection'', ''content-length''}" for word
    using that by (auto simp: known_names_def)
  have take1: "\<forall>word' \<in> set known_names. word' \<noteq> word \<longrightarrow> take 1 word' \<noteq> take 1 word"
    if "word \<in> {''proxy-connection'', ''transfer-encoding'', ''upgrade''}" for word
    using that by (auto simp: known_names_def)
  show ?thesis
  proof (cases "hp_header_state x")
    case h_general
    with assms(1) show ?thesis
      by (auto simp: field_letter_def name_inv_def known_names_def simp del: take_Suc_Cons dest: take_longer)
  next
    case h_C
    with assms(1) show ?thesis by (simp add: field_letter_def name_inv_def known_names_def Let_def)
  next
    case h_CO
    with assms(1) show ?thesis by (simp add: field_letter_def name_inv_def known_names_def Let_def)
  next
    case h_CON
    with assms(1) show ?thesis by (simp add: field_letter_def name_inv_def known_names_def Let_def part_of_def)
  next
    case h_matching_connection
    then have n: "\<forall>w' i. name_inv w' (hp_header_state x) i = part_of 4 ''connection'' w' i" by (simp add: name_inv_def)
    with assms(1) have "part_of 4 ''connection'' w (hp_index x)" by simp
    from known_word_step [OF this _ known(1) n _ take4] h_matching_connection show ?thesis
      by (simp add: field_letter_def Let_def name_inv_def)
  next
    case h_matching_proxy_connection
    then have n: "\<forall>w' i. name_inv w' (hp_header_state x) i = part_of 1 ''proxy-connection'' w' i" by (simp add: name_inv_def)
    with assms(1) have "part_of 1 ''proxy-connection'' w (hp_index x)" by simp
    from known_word_step [OF this _ known(2) n _ take1] h_matching_proxy_connection show ?thesis
      by (simp add: field_letter_def Let_def name_inv_def)
  next
    case h_matching_content_length
    then have n: "\<forall>w' i. name_inv w' (hp_header_state x) i = part_of 4 ''content-length'' w' i" by (simp add: name_inv_def)
    with assms(1) have "part_of 4 ''content-length'' w (hp_index x)" by simp
    from known_word_step [OF this _ known(3) n _ take4] h_matching_content_length show ?thesis
      by (simp add: field_letter_def Let_def name_inv_def)
  next
    case h_matching_transfer_encoding
    then have n: "\<forall>w' i. name_inv w' (hp_header_state x) i = part_of 1 ''transfer-encoding'' w' i" by (simp add: name_inv_def)
    with assms(1) have "part_of 1 ''transfer-encoding'' w (hp_index x)" by simp
    from known_word_step [OF this _ known(4) n _ take1] h_matching_transfer_encoding show ?thesis
      by (simp add: field_letter_def Let_def name_inv_def)
  next
    case h_matching_upgrade
    then have n: "\<forall>w' i. name_inv w' (hp_header_state x) i = part_of 1 ''upgrade'' w' i" by (simp add: name_inv_def)
    with assms(1) have "part_of 1 ''upgrade'' w (hp_index x)" by simp
    from known_word_step [OF this _ known(5) n _ take1] h_matching_upgrade show ?thesis
      by (simp add: field_letter_def Let_def name_inv_def)
  next
    case h_connection
    with assms show ?thesis by (auto simp: field_letter_def name_inv_def known_names_def Let_def)
  next
    case h_content_length
    with assms show ?thesis by (auto simp: field_letter_def name_inv_def known_names_def Let_def)
  next
    case h_transfer_encoding
    with assms show ?thesis by (auto simp: field_letter_def name_inv_def known_names_def Let_def)
  next
    case h_upgrade
    with assms show ?thesis by (auto simp: field_letter_def name_inv_def known_names_def Let_def)
  qed (use assms(1) in \<open>simp_all add: name_inv_def\<close>)
qed

section \<open>One header\<close>

text \<open>What no header changes that is not about the length, the connection or the coding of the body.\<close>

definition core where
  "core p = (hp_type p, f_chunked p, f_trailing p, f_upgrade p, f_skipbody p, http_major p, http_minor p, hp_method p, hp_errno p)"

definition between :: "raw_parser \<Rightarrow> bool" where
  "between p \<longleftrightarrow>
     hp_state p = s_header_field_start \<or> hp_state p = s_header_value_lws \<and> hp_header_state p \<noteq> h_transfer_encoding_chunked"

text \<open>No header so far asks to close.\<close>

definition stays_open :: "raw_parser \<Rightarrow> bool" where
  "stays_open p \<longleftrightarrow> \<not> f_connection_close p \<and> \<not> (hp_state p = s_header_value_lws \<and> hp_header_state p = h_connection_close)"

lemma one_byte_againI:
  assumes "room p 1" and "PARSING_HEADER (hp_state p)"
    and "exec_state [c] c ((enter p)\<lparr>nread := nread p + 1\<rparr>) = (x1, Again)" and "exec_state [c] c x1 = (y, Next)"
  shows "one_byte p c = (raw_parser.truncate y, called (flush [c] (y\<lparr>pos := 1\<rparr>)), Next)"
  using one_byte_plain [OF assms(1,2)] run_byte_again [OF assms(3)] run_byte_next [OF assms(4)] by simp

definition first_state :: "char \<Rightarrow> header_states" where
  "first_state c =
     (if c = CHR ''c'' then h_C
      else if c = CHR ''p'' then h_matching_proxy_connection
      else if c = CHR ''t'' then h_matching_transfer_encoding
      else if c = CHR ''u'' then h_matching_upgrade
      else h_general)"

lemma first_state_inv: "name_inv [t] (first_state t) 0"
  by (simp add: first_state_def name_inv_def part_of_def known_names_def)

lemma token_plain: "token c = Some t \<Longrightarrow> c \<noteq> CR \<and> c \<noteq> LF \<and> c \<noteq> CHR '' '' \<and> c \<noteq> CHR 0x09 \<and> c \<noteq> CHR '':''"
  by (auto simp: token_def is_alpha_def lower_def is_digit_def char_of_def bit_Suc_0_iff split: if_splits)

lemma field_start_step:
  "token c = Some t \<Longrightarrow> step_header_field_start c x =
    (x\<lparr>header_field_mark := mark (header_field_mark x) (pos x), hp_index := 0, hp_state := s_header_field,
       hp_header_state := first_state t\<rparr>, Next)"
  using token_plain [of c t] by (simp add: step_header_field_start_def first_state_def)

lemma one_name_first:
  assumes "between p" and "room p 1" and t: "token c = Some t"
  shows "\<exists>q. one_byte p c = (q, [Header_field [c]], Next) \<and> core q = core p \<and> content_length q = content_length p \<and>
    nread q = nread p + 1 \<and> hp_state q = s_header_field \<and> name_inv [t] (hp_header_state q) (hp_index q) \<and>
    (stays_open p \<longrightarrow> \<not> f_connection_close q)"
proof (cases "hp_state p = s_header_field_start")
  case True
  let ?x = "(enter p)\<lparr>nread := nread p + 1\<rparr>"
  let ?q = "p\<lparr>nread := nread p + 1, hp_index := 0, hp_state := s_header_field, hp_header_state := first_state t\<rparr>"
  have "one_byte p c = (?q, [Header_field [c]], Next)"
    by (rule one_byte_plainI [OF assms(2)])
      (simp add: True PARSING_HEADER_def exec_state_def field_start_step [OF t] byte_simps url_state_def; fail)+
  then show ?thesis using first_state_inv [of t] by (simp add: core_def stays_open_def)
next
  case False
  then have p: "hp_state p = s_header_value_lws" "hp_header_state p \<noteq> h_transfer_encoding_chunked"
    using assms(1) by (simp_all add: between_def)
  let ?x = "(enter p)\<lparr>nread := nread p + 1\<rparr>"
  let ?k = "f_connection_keep_alive p \<or> hp_header_state p = h_connection_keep_alive"
  let ?d = "f_connection_close p \<or> hp_header_state p = h_connection_close"
  let ?x1 = "?x\<lparr>f_connection_keep_alive := ?k, f_connection_close := ?d, hp_state := s_header_field_start\<rparr>"
  have "exec_state [c] c ?x = (?x1, Again)"
    using p token_plain [OF t]
    by (cases "hp_header_state p")
      (simp_all add: exec_state_def step_header_value_lws_def enter_def url_state_def raw_parser.defs exec.defs)
  from one_byte_againI [OF assms(2) _ this] p(1) have
    "one_byte p c = (p\<lparr>nread := nread p + 1, f_connection_keep_alive := ?k, f_connection_close := ?d, hp_index := 0,
       hp_state := s_header_field, hp_header_state := first_state t\<rparr>, [Header_field [c]], Next)"
    by (simp add: PARSING_HEADER_def exec_state_def field_start_step [OF t] byte_simps url_state_def)
  then show ?thesis using first_state_inv [of t] p(1) by (simp add: core_def stays_open_def)
qed

lemma enter_field: "hp_state p = s_header_field \<Longrightarrow> enter p = raw_parser.extend p (exec.fields 0 (Some 0) None None None None [])"
  by (simp add: enter_def url_state_def)

lemma one_name_more:
  assumes "hp_state p = s_header_field" and "room p 1" and t: "token c = Some t" and n: "name_inv w (hp_header_state p) (hp_index p)"
  shows "\<exists>q. one_byte p c = (q, [Header_field [c]], Next) \<and> core q = core p \<and> content_length q = content_length p \<and>
    nread q = nread p + 1 \<and> hp_state q = s_header_field \<and> name_inv (w @ [t]) (hp_header_state q) (hp_index q) \<and>
    f_connection_close q = f_connection_close p"
proof -
  let ?x = "(enter p)\<lparr>nread := nread p + 1\<rparr>"
  have x: "hp_header_state ?x = hp_header_state p" "hp_index ?x = hp_index p" "hp_state ?x = s_header_field"
    using assms(1) by (simp_all add: enter_def raw_parser.defs exec.defs)
  from field_letter_name_inv [of w ?x c t] n x token_plain [OF t] obtain y where
    y: "field_letter c t ?x = Some y" "name_inv (w @ [t]) (hp_header_state y) (hp_index y)" by auto
  from field_letter_frame [OF y(1)] obtain i h where f: "y = ?x\<lparr>hp_index := i, hp_header_state := h\<rparr>" by blast
  have e: "exec_state [c] c ?x = (y, Next)" using x(3) t y(1) by (simp add: exec_state_def step_header_field_def)
  have "one_byte p c = (p\<lparr>nread := nread p + 1, hp_index := i, hp_header_state := h\<rparr>, [Header_field [c]], Next)"
    by (rule one_byte_plainI [OF assms(2) _ e])
      (simp_all add: f assms(1) PARSING_HEADER_def byte_simps url_state_def)
  then show ?thesis using y(2) f assms(1) by (simp add: core_def)
qed

lemma one_name_end:
  assumes "hp_state p = s_header_field" and "room p 1"
  shows "one_byte p CHR '':'' = (p\<lparr>hp_state := s_header_value_discard_ws, nread := nread p + 1\<rparr>, [Header_field []], Next)"
proof -
  have "token CHR '':'' = None" by (simp add: token_def is_alpha_def lower_def is_digit_def char_of_def bit_Suc_0_iff)
  then show ?thesis
    by (intro one_byte_plainI [OF assms(2)])
      (simp add: assms(1) PARSING_HEADER_def exec_state_def step_header_field_def byte_simps url_state_def; fail)+
qed

definition token_name :: "bytes \<Rightarrow> bool" where
  "token_name n \<longleftrightarrow> n \<noteq> [] \<and> list_all (\<lambda>c. token c \<noteq> None) n"

lemma reads_name_rest:
  "hp_state p = s_header_field \<Longrightarrow> room p (Suc (length n)) \<Longrightarrow> list_all (\<lambda>c. token c \<noteq> None) n \<Longrightarrow>
   name_inv w (hp_header_state p) (hp_index p) \<Longrightarrow>
   \<exists>q. reads p (n @ '':'') q [Header_field n] \<and> core q = core p \<and> content_length q = content_length p \<and>
     nread q = nread p + Suc (length n) \<and> hp_state q = s_header_value_discard_ws \<and>
     name_inv (w @ lower_name n) (hp_header_state q) (hp_index q) \<and> f_connection_close q = f_connection_close p"
proof (induction n arbitrary: p w)
  case Nil
  then show ?case using reads_one [OF one_name_end [of p]] by (auto simp: room_def core_def lower_name_def)
next
  case (Cons c n)
  then obtain t where t: "token c = Some t" by auto
  have "room p 1" using Cons.prems(2) by (simp add: room_def)
  from one_name_more [OF Cons.prems(1) this t Cons.prems(4)] obtain p1 where p1: "one_byte p c = (p1, [Header_field [c]], Next)"
    "core p1 = core p" "content_length p1 = content_length p" "nread p1 = nread p + 1" "hp_state p1 = s_header_field"
    "name_inv (w @ [t]) (hp_header_state p1) (hp_index p1)" "f_connection_close p1 = f_connection_close p" by blast
  from Cons.IH [OF p1(5) _ _ p1(6)] Cons.prems(2,3) p1 obtain q where q: "reads p1 (n @ '':'') q [Header_field n]" "core q = core p"
    "content_length q = content_length p" "nread q = nread p + Suc (length (c # n))" "hp_state q = s_header_value_discard_ws"
    "name_inv (w @ lower_name (c # n)) (hp_header_state q) (hp_index q)" "f_connection_close q = f_connection_close p"
    by (auto simp: room_def lower_name_def t)
  have "reads p ((c # n) @ '':'') q ([Header_field [c]] @ [Header_field n])"
    using reads_Cons [OF p1(1) q(1)] by simp
  then have "reads p ((c # n) @ '':'') q [Header_field (c # n)]" by (rule reads_joined) (simp add: add_event_def)
  with q show ?case by blast
qed

lemma reads_name:
  assumes "between p" and "room p (Suc (length n))" and "token_name n"
  shows "\<exists>q. reads p (n @ '':'') q [Header_field n] \<and> core q = core p \<and> content_length q = content_length p \<and>
     nread q = nread p + Suc (length n) \<and> hp_state q = s_header_value_discard_ws \<and>
     name_inv (lower_name n) (hp_header_state q) (hp_index q) \<and> (stays_open p \<longrightarrow> \<not> f_connection_close q)"
proof -
  from assms(3) obtain c n' t where n: "n = c # n'" "token c = Some t" "list_all (\<lambda>c. token c \<noteq> None) n'"
    by (cases n) (auto simp: token_name_def)
  have "room p 1" using assms(2) by (simp add: room_def)
  from one_name_first [OF assms(1) this n(2)] obtain p1 where p1: "one_byte p c = (p1, [Header_field [c]], Next)"
    "core p1 = core p" "content_length p1 = content_length p" "nread p1 = nread p + 1" "hp_state p1 = s_header_field"
    "name_inv [t] (hp_header_state p1) (hp_index p1)" "stays_open p \<longrightarrow> \<not> f_connection_close p1" by blast
  from reads_name_rest [OF p1(5) _ n(3) p1(6)] assms(2) n(1,2) p1 obtain q where q: "reads p1 (n' @ '':'') q [Header_field n']" "core q = core p"
    "content_length q = content_length p" "nread q = nread p + Suc (length n)" "hp_state q = s_header_value_discard_ws"
    "name_inv (lower_name n) (hp_header_state q) (hp_index q)" "stays_open p \<longrightarrow> \<not> f_connection_close q"
    by (auto simp: room_def lower_name_def)
  have "reads p (n @ '':'') q ([Header_field [c]] @ [Header_field n'])"
    using reads_Cons [OF p1(1) q(1)] n(1) by simp
  then have "reads p (n @ '':'') q [Header_field n]" by (rule reads_joined) (simp add: add_event_def n(1))
  with q show ?thesis by blast
qed

definition plain_value :: "char \<Rightarrow> bool" where
  "plain_value c \<longleftrightarrow> c \<noteq> CR \<and> c \<noteq> LF"

definition value_state :: "header_states \<Rightarrow> bool" where
  "value_state h \<longleftrightarrow> h \<in> {h_general, h_matching_connection_keep_alive, h_matching_connection_close, h_connection_keep_alive,
     h_connection_close}"

lemma one_blank:
  assumes "hp_state p = s_header_value_discard_ws" and "room p 1"
  shows "one_byte p CHR '' '' = (p\<lparr>nread := nread p + 1\<rparr>, [], Next)"
  by (rule one_byte_plainI [OF assms(2)])
    (simp add: assms(1) PARSING_HEADER_def exec_state_def step_discard_ws_def byte_simps url_state_def; fail)+

lemma one_value_first:
  assumes "hp_state p = s_header_value_discard_ws" and "room p 1" and "plain_value c" and "c \<noteq> CHR '' ''" "c \<noteq> CHR 0x09"
    and "hp_header_state p \<notin> {h_content_length, h_transfer_encoding, h_upgrade}"
  shows "\<exists>h. one_byte p c = (p\<lparr>nread := nread p + 1, hp_index := 0, hp_state := s_header_value, hp_header_state := h\<rparr>,
      [Header_value [c]], Next) \<and> value_state h \<and> (hp_header_state p \<noteq> h_connection \<longrightarrow> h = h_general)"
proof -
  let ?x = "(enter p)\<lparr>nread := nread p + 1\<rparr>"
  have x: "hp_header_state ?x = hp_header_state p" "hp_state ?x = s_header_value_discard_ws" "header_value_mark ?x = None" "pos ?x = 0"
    using assms(1) by (simp_all add: enter_def raw_parser.defs exec.defs)
  define h where "h = (if hp_header_state p \<noteq> h_connection then h_general
    else if lower c = CHR ''k'' then h_matching_connection_keep_alive
    else if lower c = CHR ''c'' then h_matching_connection_close else h_general)"
  then have h: "value_state h" "hp_header_state p \<noteq> h_connection \<longrightarrow> h = h_general" by (simp_all add: value_state_def)
  have "step_header_value_start c ?x =
      (?x\<lparr>header_value_mark := Some 0, hp_state := s_header_value, hp_index := 0, hp_header_state := h\<rparr>, Next)"
    using assms(6) x by (cases "hp_header_state p") (simp_all add: step_header_value_start_def Let_def mark_def h_def)
  then have e: "exec_state [c] c ?x =
      (?x\<lparr>header_value_mark := Some 0, hp_state := s_header_value, hp_index := 0, hp_header_state := h\<rparr>, Next)"
    using assms(3-5) x(2) by (simp add: exec_state_def step_discard_ws_def plain_value_def)
  have "one_byte p c = (p\<lparr>nread := nread p + 1, hp_index := 0, hp_state := s_header_value, hp_header_state := h\<rparr>, [Header_value [c]], Next)"
    by (rule one_byte_plainI [OF assms(2) _ e]) (simp_all add: assms(1) PARSING_HEADER_def byte_simps url_state_def)
  with h show ?thesis by blast
qed

lemma match_word_states: "hp_header_state (match_word w h c x) \<in> {h_general, h, hp_header_state x}"
  by (simp add: match_word_def Let_def)

lemma one_value_more:
  assumes "hp_state p = s_header_value" and "room p 1" and "plain_value c" and "value_state (hp_header_state p)"
  shows "\<exists>i h. one_byte p c = (p\<lparr>nread := nread p + 1, hp_index := i, hp_header_state := h\<rparr>, [Header_value [c]], Next) \<and>
    value_state h \<and> (hp_header_state p = h_general \<longrightarrow> h = h_general)"
proof -
  let ?x = "(enter p)\<lparr>nread := nread p + 1\<rparr>"
  have x: "hp_header_state ?x = hp_header_state p" "hp_state ?x = s_header_value"
    using assms(1) by (simp_all add: enter_def raw_parser.defs exec.defs)
  have f: "(\<exists>i h. match_word w m d ?x = ?x\<lparr>hp_index := i, hp_header_state := h\<rparr> \<and> value_state h)"
    if "value_state m" for w m d
  proof -
    obtain i h where "match_word w m d ?x = ?x\<lparr>hp_index := i, hp_header_state := h\<rparr>" using match_word_frame by blast
    moreover from this have "h \<in> {h_general, m, hp_header_state p}" using match_word_states [of w m d ?x] x by simp
    ultimately show ?thesis using that assms(4) by (auto simp: value_state_def)
  qed
  have g: "\<exists>i h. ?x\<lparr>hp_header_state := k\<rparr> = ?x\<lparr>hp_index := i, hp_header_state := h\<rparr> \<and> value_state h" if "value_state k" for k
    using exec_same(2) [where x = ?x and h = k] that by metis
  have s: "\<exists>i h. ?x = ?x\<lparr>hp_index := i, hp_header_state := h\<rparr> \<and> value_state h \<and> (hp_header_state p = h_general \<longrightarrow> h = h_general)"
    using exec_same(3) [where x = ?x] x assms(4) by metis
  have v: "value_state h_general" "value_state h_connection_keep_alive" "value_state h_connection_close" by (simp_all add: value_state_def)
  have "\<exists>y. step_header_value [c] c ?x = (y, Next) \<and>
      (\<exists>i h. y = ?x\<lparr>hp_index := i, hp_header_state := h\<rparr> \<and> value_state h \<and> (hp_header_state p = h_general \<longrightarrow> h = h_general))"
    using assms(3,4) x f [OF v(2)] f [OF v(3)] g [OF v(1)] s
    by (cases "hp_header_state p") (simp_all add: step_header_value_def plain_value_def value_state_def Let_def)
  then obtain i h where e: "step_header_value [c] c ?x = (?x\<lparr>hp_index := i, hp_header_state := h\<rparr>, Next)"
    and h: "value_state h" "hp_header_state p = h_general \<longrightarrow> h = h_general" by blast
  have e': "exec_state [c] c ?x = (?x\<lparr>hp_index := i, hp_header_state := h\<rparr>, Next)" using e x(2) by (simp add: exec_state_def)
  have "one_byte p c = (p\<lparr>nread := nread p + 1, hp_index := i, hp_header_state := h\<rparr>, [Header_value [c]], Next)"
    by (rule one_byte_plainI [OF assms(2) _ e']) (simp_all add: assms(1) PARSING_HEADER_def byte_simps url_state_def)
  with h show ?thesis by blast
qed

lemma one_value_end:
  assumes "hp_state p = s_header_value" and "room p 1"
  shows "one_byte p CR = (p\<lparr>nread := nread p + 1, hp_state := s_header_almost_done\<rparr>, [Header_value []], Next)"
  by (rule one_byte_plainI [OF assms(2)])
    (simp add: assms(1) PARSING_HEADER_def exec_state_def step_header_value_def byte_simps url_state_def; fail)+

lemma one_line_end:
  assumes "hp_state p = s_header_almost_done" and "room p 1"
  shows "one_byte p LF = (p\<lparr>nread := nread p + 1, hp_state := s_header_value_lws\<rparr>, [], Next)"
  by (rule one_byte_plainI [OF assms(2)])
    (simp add: assms(1) PARSING_HEADER_def exec_state_def expect_def byte_simps url_state_def; fail)+

lemma reads_value_end:
  assumes "hp_state p = s_header_value" and "room p 2"
  shows "reads p [CR, LF] (p\<lparr>nread := nread p + 2, hp_state := s_header_value_lws\<rparr>) [Header_value []]"
proof -
  have r: "room p 1" using assms(2) by (simp add: room_def)
  have r': "room (p\<lparr>nread := nread p + 1, hp_state := s_header_almost_done\<rparr>) 1" using assms(2) by (simp add: room_def)
  from reads_Cons [OF one_value_end [OF assms(1) r] reads_one [OF one_line_end [OF _ r']]] show ?thesis by simp
qed

section \<open>Headers\<close>

definition value_ok :: "bytes \<Rightarrow> bool" where
  "value_ok v \<longleftrightarrow> v \<noteq> [] \<and> hd v \<noteq> CHR '' '' \<and> hd v \<noteq> CHR 0x09 \<and> list_all plain_value v"

definition header_text :: "bytes \<times> bytes \<Rightarrow> bytes" where
  "header_text h = fst h @ '': '' @ snd h @ [CR, LF]"

text \<open>A header that says nothing of the body.\<close>

definition header_ok :: "bytes \<times> bytes \<Rightarrow> bool" where
  "header_ok h \<longleftrightarrow> token_name (fst h) \<and> value_ok (snd h) \<and>
     lower_name (fst h) \<notin> {''content-length'', ''transfer-encoding'', ''upgrade''}"

definition connection_header :: "bytes \<times> bytes \<Rightarrow> bool" where
  "connection_header h \<longleftrightarrow> lower_name (fst h) \<in> {''connection'', ''proxy-connection''}"

lemma reads_value_rest:
  "hp_state p = s_header_value \<Longrightarrow> room p (length v + 2) \<Longrightarrow> list_all plain_value v \<Longrightarrow> value_state (hp_header_state p) \<Longrightarrow>
   \<exists>q. reads p (v @ [CR, LF]) q [Header_value v] \<and> core q = core p \<and> content_length q = content_length p \<and>
     nread q = nread p + length v + 2 \<and> hp_state q = s_header_value_lws \<and> value_state (hp_header_state q) \<and>
     (hp_header_state p = h_general \<longrightarrow> hp_header_state q = h_general) \<and> f_connection_close q = f_connection_close p"
proof (induction v arbitrary: p)
  case Nil
  then have "room p 2" by (simp add: room_def)
  from reads_value_end [OF Nil.prems(1) this] Nil.prems(4) show ?case
    by (intro exI [of _ "p\<lparr>nread := nread p + 2, hp_state := s_header_value_lws\<rparr>"]) (simp add: core_def)
next
  case (Cons c v)
  have "room p 1" "plain_value c" using Cons.prems(2,3) by (simp_all add: room_def)
  from one_value_more [OF Cons.prems(1) this Cons.prems(4)] obtain i h where
    o: "one_byte p c = (p\<lparr>nread := nread p + 1, hp_index := i, hp_header_state := h\<rparr>, [Header_value [c]], Next)" "value_state h"
      "hp_header_state p = h_general \<longrightarrow> h = h_general" by blast
  let ?p = "p\<lparr>nread := nread p + 1, hp_index := i, hp_header_state := h\<rparr>"
  from Cons.IH [of ?p] Cons.prems o(2,3) obtain q where q: "reads ?p (v @ [CR, LF]) q [Header_value v]"
    "core q = core p" "content_length q = content_length p" "nread q = nread p + length (c # v) + 2" "hp_state q = s_header_value_lws"
    "value_state (hp_header_state q)" "hp_header_state p = h_general \<longrightarrow> hp_header_state q = h_general"
    "f_connection_close q = f_connection_close p" by (auto simp: room_def core_def)
  have "reads p ((c # v) @ [CR, LF]) q ([Header_value [c]] @ [Header_value v])"
    using reads_Cons [OF o(1) q(1)] by simp
  then have "reads p ((c # v) @ [CR, LF]) q [Header_value (c # v)]" by (rule reads_joined) (simp add: add_event_def)
  with q show ?case by blast
qed

lemma reads_value:
  assumes "hp_state p = s_header_value_discard_ws" and "room p (length v + 3)" and "value_ok v"
    and "hp_header_state p \<notin> {h_content_length, h_transfer_encoding, h_upgrade}"
  shows "\<exists>q. reads p ('' '' @ v @ [CR, LF]) q [Header_value v] \<and> core q = core p \<and> content_length q = content_length p \<and>
     nread q = nread p + length v + 3 \<and> hp_state q = s_header_value_lws \<and> value_state (hp_header_state q) \<and>
     (hp_header_state p \<noteq> h_connection \<longrightarrow> hp_header_state q = h_general) \<and> f_connection_close q = f_connection_close p"
proof -
  from assms(3) obtain c v' where v: "v = c # v'" "plain_value c" "c \<noteq> CHR '' ''" "c \<noteq> CHR 0x09" "list_all plain_value v'"
    by (cases v) (auto simp: value_ok_def)
  let ?p = "p\<lparr>nread := nread p + 1\<rparr>"
  have r: "room p 1" "room ?p 1" using assms(2) by (simp_all add: room_def)
  from one_value_first [of ?p c] assms(1,4) r(2) v(2-4) obtain h where
    o: "one_byte ?p c = (?p\<lparr>nread := nread ?p + 1, hp_index := 0, hp_state := s_header_value, hp_header_state := h\<rparr>, [Header_value [c]], Next)"
      "value_state h" "hp_header_state p \<noteq> h_connection \<longrightarrow> h = h_general" by auto
  let ?q = "?p\<lparr>nread := nread ?p + 1, hp_index := 0, hp_state := s_header_value, hp_header_state := h\<rparr>"
  have p1: "core ?q = core p" "content_length ?q = content_length p" "nread ?q = nread p + 2" "hp_state ?q = s_header_value"
    "hp_header_state ?q = h" "f_connection_close ?q = f_connection_close p" "room ?q (length v' + 2)"
    using assms(2) v(1) by (simp_all add: core_def room_def)
  from reads_value_rest [OF p1(4,7) v(5)] o(2) obtain q where
    q: "reads ?q (v' @ [CR, LF]) q [Header_value v']" "core q = core p" "content_length q = content_length p"
      "nread q = nread p + 2 + length v' + 2" "hp_state q = s_header_value_lws" "value_state (hp_header_state q)"
      "h = h_general \<longrightarrow> hp_header_state q = h_general" "f_connection_close q = f_connection_close p"
    unfolding p1(1-3,5,6) by blast
  have "reads p ('' '' @ v @ [CR, LF]) q ([] @ [Header_value [c]] @ [Header_value v'])"
    using reads_Cons [OF one_blank [OF assms(1) r(1)] reads_Cons [OF o(1) q(1)]] v(1) by simp
  then have "reads p ('' '' @ v @ [CR, LF]) q [Header_value v]" by (rule reads_joined) (simp add: add_event_def v(1))
  moreover have "nread q = nread p + length v + 3" using q(4) v(1) by simp
  ultimately show ?thesis using q o(3) by blast
qed

lemma name_inv_known:
  "name_inv w h i \<Longrightarrow> h = h_content_length \<Longrightarrow> w = ''content-length''"
  "name_inv w h i \<Longrightarrow> h = h_transfer_encoding \<Longrightarrow> w = ''transfer-encoding''"
  "name_inv w h i \<Longrightarrow> h = h_upgrade \<Longrightarrow> w = ''upgrade''"
  "name_inv w h i \<Longrightarrow> h = h_connection \<Longrightarrow> w \<in> {''connection'', ''proxy-connection''}"
  by (auto simp: name_inv_def)

lemma name_inv_content_length: "name_inv ''content-length'' h i \<Longrightarrow> h = h_content_length"
  by (cases h) (simp_all add: name_inv_def known_names_def part_of_def)

lemma reads_header:
  assumes "between p" and "room p (length (header_text h))" and "header_ok h"
  shows "\<exists>q. reads p (header_text h) q [Header_field (fst h), Header_value (snd h)] \<and> core q = core p \<and>
     content_length q = content_length p \<and> nread q = nread p + length (header_text h) \<and> between q \<and>
     (stays_open p \<and> \<not> connection_header h \<longrightarrow> stays_open q)"
proof -
  have r: "room p (Suc (length (fst h)))" using assms(2) by (simp add: room_def header_text_def)
  have n: "token_name (fst h)" "value_ok (snd h)" using assms(3) by (simp_all add: header_ok_def)
  from reads_name [OF assms(1) r n(1)] obtain p1 where p1: "reads p (fst h @ '':'') p1 [Header_field (fst h)]"
    "core p1 = core p" "content_length p1 = content_length p" "nread p1 = nread p + Suc (length (fst h))"
    "hp_state p1 = s_header_value_discard_ws" "name_inv (lower_name (fst h)) (hp_header_state p1) (hp_index p1)"
    "stays_open p \<longrightarrow> \<not> f_connection_close p1" by blast
  have "hp_header_state p1 \<notin> {h_content_length, h_transfer_encoding, h_upgrade}"
    using name_inv_known(1-3) [OF p1(6)] assms(3) by (auto simp: header_ok_def)
  from reads_value [OF p1(5) _ n(2) this] assms(2) p1(4) obtain q where
    q: "reads p1 ('' '' @ snd h @ [CR, LF]) q [Header_value (snd h)]" "core q = core p1" "content_length q = content_length p1"
      "nread q = nread p1 + length (snd h) + 3" "hp_state q = s_header_value_lws" "value_state (hp_header_state q)"
      "hp_header_state p1 \<noteq> h_connection \<longrightarrow> hp_header_state q = h_general" "f_connection_close q = f_connection_close p1"
    by (auto simp: room_def header_text_def)
  have "reads p (header_text h) q [Header_field (fst h), Header_value (snd h)]"
    using reads_append [OF p1(1) q(1)] by (simp add: header_text_def)
  moreover have "between q" using q(5,6) by (auto simp: between_def value_state_def)
  moreover have "stays_open p \<and> \<not> connection_header h \<longrightarrow> stays_open q"
    using name_inv_known(4) [OF p1(6)] p1(7) q(7,8) by (auto simp: stays_open_def connection_header_def)
  ultimately show ?thesis using p1 q by (auto simp: header_text_def)
qed

lemma reads_headers:
  "between p \<Longrightarrow> room p (length (concat (map header_text hs))) \<Longrightarrow> list_all header_ok hs \<Longrightarrow>
   \<exists>q. reads p (concat (map header_text hs)) q (concat (map (\<lambda>h. [Header_field (fst h), Header_value (snd h)]) hs)) \<and>
     core q = core p \<and> content_length q = content_length p \<and> nread q = nread p + length (concat (map header_text hs)) \<and>
     between q \<and> (stays_open p \<and> \<not> list_ex connection_header hs \<longrightarrow> stays_open q)"
proof (induction hs arbitrary: p)
  case Nil
  then show ?case using reads_Nil [of p] by auto
next
  case (Cons h hs)
  have "room p (length (header_text h))" "header_ok h" using Cons.prems(2,3) by (simp_all add: room_def)
  from reads_header [OF Cons.prems(1) this] obtain p1 where p1: "reads p (header_text h) p1 [Header_field (fst h), Header_value (snd h)]"
    "core p1 = core p" "content_length p1 = content_length p" "nread p1 = nread p + length (header_text h)" "between p1"
    "stays_open p \<and> \<not> connection_header h \<longrightarrow> stays_open p1" by blast
  from Cons.IH [OF p1(5)] Cons.prems(2,3) p1(4) obtain q where
    q: "reads p1 (concat (map header_text hs)) q (concat (map (\<lambda>h. [Header_field (fst h), Header_value (snd h)]) hs))"
      "core q = core p1" "content_length q = content_length p1" "nread q = nread p1 + length (concat (map header_text hs))"
      "between q" "stays_open p1 \<and> \<not> list_ex connection_header hs \<longrightarrow> stays_open q" by (auto simp: room_def)
  have "reads p (concat (map header_text (h # hs))) q (concat (map (\<lambda>h. [Header_field (fst h), Header_value (snd h)]) (h # hs)))"
    using reads_append [OF p1(1) q(1)] by simp
  with p1 q show ?case by auto
qed

section \<open>The length of the body\<close>

lemma digit_plain: "is_digit c \<Longrightarrow> c \<noteq> CR \<and> c \<noteq> LF \<and> c \<noteq> CHR '' '' \<and> c \<noteq> CHR 0x09"
  by (auto simp: is_digit_def)

lemma one_digit_first:
  assumes "hp_state p = s_header_value_discard_ws" and "room p 1" and "is_digit c" and "hp_header_state p = h_content_length"
  shows "one_byte p c = (p\<lparr>nread := nread p + 1, hp_index := 0, hp_state := s_header_value, content_length := digit_val c\<rparr>,
    [Header_value [c]], Next)"
  by (rule one_byte_plainI [OF assms(2)])
    (simp add: assms digit_plain [OF assms(3)] PARSING_HEADER_def exec_state_def step_discard_ws_def step_header_value_start_def
      byte_simps url_state_def Let_def; fail)+

lemma one_digit_more:
  assumes "hp_state p = s_header_value" and "room p 1" and "is_digit c" and "hp_header_state p = h_content_length"
    and "content_length p * 10 + digit_val c < 2 ^ 60"
  shows "one_byte p c = (p\<lparr>nread := nread p + 1, content_length := content_length p * 10 + digit_val c\<rparr>, [Header_value [c]], Next)"
proof -
  have l: "\<not> (ULLONG_MAX - 10) div 10 < content_length p" "content_length p * 10 + digit_val c < 2 ^ 64"
    using assms(5) by (simp_all add: ULLONG_MAX_def)
  then have m: "(content_length p * 10 + digit_val c) mod 2 ^ 64 = content_length p * 10 + digit_val c" by simp
  show ?thesis
    by (rule one_byte_plainI [OF assms(2)])
      (simp add: assms(1,3,4) l(1) m digit_plain [OF assms(3)] PARSING_HEADER_def exec_state_def step_header_value_def
        byte_simps url_state_def Let_def del: power_numeral; fail)+
qed

lemma digits_value_grows: "a \<le> digits_value a ds"
proof (induction ds arbitrary: a)
  case (Cons c ds)
  have "a \<le> 10 * a + digit_val c" by simp
  also have "\<dots> \<le> digits_value (10 * a + digit_val c) ds" by (rule Cons)
  finally show ?case by simp
qed simp

lemma reads_digits:
  "hp_state p = s_header_value \<Longrightarrow> hp_header_state p = h_content_length \<Longrightarrow> room p (length ds + 2) \<Longrightarrow> list_all is_digit ds \<Longrightarrow>
   digits_value (content_length p) ds < 2 ^ 60 \<Longrightarrow>
   reads p (ds @ [CR, LF]) (p\<lparr>nread := nread p + length ds + 2, hp_state := s_header_value_lws,
     content_length := digits_value (content_length p) ds\<rparr>) [Header_value ds]"
proof (induction ds arbitrary: p)
  case Nil
  then have "room p 2" by (simp add: room_def)
  from reads_value_end [OF Nil.prems(1) this] show ?case by simp
next
  case (Cons c ds)
  have r: "room p 1" "is_digit c" using Cons.prems(3,4) by (simp_all add: room_def)
  have v: "content_length p * 10 + digit_val c < 2 ^ 60"
    using Cons.prems(5) digits_value_grows [of "10 * content_length p + digit_val c" ds] by (simp add: mult.commute)
  let ?p = "p\<lparr>nread := nread p + 1, content_length := content_length p * 10 + digit_val c\<rparr>"
  have "reads ?p (ds @ [CR, LF]) (?p\<lparr>nread := nread ?p + length ds + 2, hp_state := s_header_value_lws,
     content_length := digits_value (content_length ?p) ds\<rparr>) [Header_value ds]"
    using Cons.prems by (intro Cons.IH) (simp_all add: room_def mult.commute)
  from reads_Cons [OF one_digit_more [OF Cons.prems(1) r(1,2) Cons.prems(2) v] this]
  have "reads p ((c # ds) @ [CR, LF]) (p\<lparr>nread := nread p + length (c # ds) + 2, hp_state := s_header_value_lws,
     content_length := digits_value (content_length p) (c # ds)\<rparr>) ([Header_value [c]] @ [Header_value ds])"
    by (simp add: mult.commute)
  then show ?case by (rule reads_joined) (simp add: add_event_def)
qed

definition length_header :: "nat \<Rightarrow> bytes \<times> bytes" where
  "length_header n = (''Content-Length'', dec_of_nat n)"

lemma reads_length:
  assumes "between p" and "room p (length (header_text (length_header n)))" and "n < 2 ^ 60"
  shows "\<exists>q. reads p (header_text (length_header n)) q [Header_field (fst (length_header n)), Header_value (snd (length_header n))] \<and>
     core q = core p \<and> content_length q = n \<and> nread q = nread p + length (header_text (length_header n)) \<and>
     between q \<and> (stays_open p \<longrightarrow> stays_open q)"
proof -
  have t: "token_name ''Content-Length''" "lower_name ''Content-Length'' = ''content-length''"
    by (simp_all add: token_name_def lower_name_def token_def is_alpha_def lower_def is_digit_def char_of_def bit_Suc_0_iff)
  have "room p (Suc (length ''Content-Length''))" using assms(2) by (simp add: room_def header_text_def length_header_def)
  from reads_name [OF assms(1) this t(1)] t(2) obtain p1 where p1: "reads p (''Content-Length'' @ '':'') p1 [Header_field ''Content-Length'']"
    "core p1 = core p" "content_length p1 = content_length p" "nread p1 = nread p + Suc (length ''Content-Length'')"
    "hp_state p1 = s_header_value_discard_ws" "name_inv ''content-length'' (hp_header_state p1) (hp_index p1)"
    "stays_open p \<longrightarrow> \<not> f_connection_close p1" by auto
  have h: "hp_header_state p1 = h_content_length" by (rule name_inv_content_length [OF p1(6)])
  obtain c ds where d: "dec_of_nat n = c # ds" by (cases "dec_of_nat n") auto
  have ds: "is_digit c" "list_all is_digit ds" "digits_value (digit_val c) ds = n"
    using dec_of_nat_all_digits [of n] digits_value_dec_of_nat [of n] by (simp_all add: d)
  have r: "room p1 (length ds + 4)" using assms(2) p1(4) d by (simp add: room_def header_text_def length_header_def)
  let ?p2 = "p1\<lparr>nread := nread p1 + 1\<rparr>"
  let ?p3 = "?p2\<lparr>nread := nread ?p2 + 1, hp_index := 0, hp_state := s_header_value, content_length := digit_val c\<rparr>"
  let ?q = "?p3\<lparr>nread := nread ?p3 + length ds + 2, hp_state := s_header_value_lws, content_length := n\<rparr>"
  have b: "one_byte p1 CHR '' '' = (?p2, [], Next)" using r by (intro one_blank [OF p1(5)]) (simp add: room_def)
  have f: "one_byte ?p2 c = (?p3, [Header_value [c]], Next)"
    using r p1(5) h ds(1) by (intro one_digit_first) (simp_all add: room_def)
  have "reads ?p3 (ds @ [CR, LF]) ?q [Header_value ds]"
    using reads_digits [of ?p3 ds] r h ds assms(3) by (simp add: room_def)
  from reads_Cons [OF b reads_Cons [OF f this]]
  have "reads p1 ('' '' @ dec_of_nat n @ [CR, LF]) ?q ([] @ [Header_value [c]] @ [Header_value ds])" by (simp add: d)
  then have "reads p1 ('' '' @ dec_of_nat n @ [CR, LF]) ?q [Header_value (dec_of_nat n)]"
    by (rule reads_joined) (simp add: add_event_def d)
  with reads_append [OF p1(1) this]
  have "reads p (header_text (length_header n)) ?q [Header_field (fst (length_header n)), Header_value (snd (length_header n))]"
    by (simp add: header_text_def length_header_def)
  moreover have "core ?q = core p" using p1(2) by (simp add: core_def)
  moreover have "nread ?q = nread p + length (header_text (length_header n))"
    using p1(4) by (simp add: header_text_def length_header_def d)
  moreover have "between ?q" "stays_open p \<longrightarrow> stays_open ?q" using h p1(7) by (simp_all add: between_def stays_open_def)
  ultimately show ?thesis by (intro exI [of _ ?q]) simp
qed

section \<open>The end of the headers\<close>

lemma one_end_first:
  assumes "between p" and "room p 1"
  shows "\<exists>q. one_byte p CR = (q, [], Next) \<and> core q = core p \<and> content_length q = content_length p \<and>
    nread q = nread p + 1 \<and> hp_state q = s_headers_almost_done \<and> (stays_open p \<longrightarrow> \<not> f_connection_close q)"
proof (cases "hp_state p = s_header_field_start")
  case True
  have "one_byte p CR = (p\<lparr>nread := nread p + 1, hp_state := s_headers_almost_done\<rparr>, [], Next)"
    by (rule one_byte_plainI [OF assms(2)])
      (simp add: True PARSING_HEADER_def exec_state_def step_header_field_start_def byte_simps url_state_def; fail)+
  then show ?thesis by (simp add: core_def stays_open_def)
next
  case False
  then have p: "hp_state p = s_header_value_lws" "hp_header_state p \<noteq> h_transfer_encoding_chunked"
    using assms(1) by (simp_all add: between_def)
  let ?x = "(enter p)\<lparr>nread := nread p + 1\<rparr>"
  let ?k = "f_connection_keep_alive p \<or> hp_header_state p = h_connection_keep_alive"
  let ?d = "f_connection_close p \<or> hp_header_state p = h_connection_close"
  let ?x1 = "?x\<lparr>f_connection_keep_alive := ?k, f_connection_close := ?d, hp_state := s_header_field_start\<rparr>"
  have "exec_state [CR] CR ?x = (?x1, Again)"
    using p
    by (cases "hp_header_state p")
      (simp_all add: exec_state_def step_header_value_lws_def enter_def url_state_def raw_parser.defs exec.defs)
  from one_byte_againI [OF assms(2) _ this] p(1) have
    "one_byte p CR = (p\<lparr>nread := nread p + 1, f_connection_keep_alive := ?k, f_connection_close := ?d,
       hp_state := s_headers_almost_done\<rparr>, [], Next)"
    by (simp add: PARSING_HEADER_def exec_state_def step_header_field_start_def byte_simps url_state_def)
  then show ?thesis using p(1) by (simp add: core_def stays_open_def)
qed

definition plain_core :: "raw_parser \<Rightarrow> parser_method \<Rightarrow> bool" where
  "plain_core p m \<longleftrightarrow> m \<noteq> HTTP_CONNECT \<and> core p = (HTTP_REQUEST, False, False, False, False, 1, 1, m, HPE_OK)"

lemma plain_core_simps:
  "plain_core p m \<Longrightarrow> hp_type p = HTTP_REQUEST" "plain_core p m \<Longrightarrow> \<not> f_chunked p" "plain_core p m \<Longrightarrow> \<not> f_trailing p"
  "plain_core p m \<Longrightarrow> \<not> f_upgrade p" "plain_core p m \<Longrightarrow> \<not> f_skipbody p" "plain_core p m \<Longrightarrow> http_major p = 1"
  "plain_core p m \<Longrightarrow> http_minor p = 1" "plain_core p m \<Longrightarrow> hp_method p = m" "plain_core p m \<Longrightarrow> hp_errno p = HPE_OK"
  "plain_core p m \<Longrightarrow> m \<noteq> HTTP_CONNECT"
  by (simp_all add: plain_core_def core_def)

lemma one_byte_twiceI:
  assumes "room p 1" and "PARSING_HEADER (hp_state p)"
    and "exec_state [c] c ((enter p)\<lparr>nread := nread p + 1\<rparr>) = (x1, Again)" and "exec_state [c] c x1 = (y, Next)"
    and "raw_parser.truncate y = q" and "called (flush [c] (y\<lparr>pos := 1\<rparr>)) = es"
  shows "one_byte p c = (q, es, Next)"
  using one_byte_againI [OF assms(1-4)] assms(5,6) by simp

lemma one_end_body:
  assumes "hp_state p = s_headers_almost_done" and "room p 1" and c: "plain_core p m" and "0 < content_length p" "content_length p < ULLONG_MAX"
  shows "one_byte p LF = (p\<lparr>hp_state := s_body_identity, nread := 0, upgrade := False\<rparr>, [Headers_complete (1, 1)], Next)"
  by (rule one_byte_twiceI [OF assms(2)])
    (use assms(1,4,5) plain_core_simps [OF c] in \<open>simp add: PARSING_HEADER_def exec_state_def step_headers_almost_done_def
      step_headers_done_def Let_def byte_simps url_state_def; fail\<close>)+

lemma one_end_empty:
  assumes "hp_state p = s_headers_almost_done" and "room p 1" and c: "plain_core p m" and "content_length p = ULLONG_MAX"
  shows "one_byte p LF = (p\<lparr>hp_state := if f_connection_close p then s_dead else s_start_req, nread := 0, upgrade := False\<rparr>,
    [Headers_complete (1, 1), Message_complete (crow_method m)], Next)"
proof -
  have u: "ULLONG_MAX \<noteq> 0" by (simp add: ULLONG_MAX_def)
  show ?thesis
    by (rule one_byte_twiceI [OF assms(2)])
      (use assms(1,4) u plain_core_simps [OF c] in \<open>simp add: PARSING_HEADER_def exec_state_def step_headers_almost_done_def
        step_headers_done_def Let_def byte_simps url_state_def NEW_MESSAGE_def http_should_keep_alive_def http_message_needs_eof_def; fail\<close>)+
qed

lemma done_body_plain:
  assumes "plain_core p m"
  shows "done_body p = p\<lparr>content_length := 0, hp_state := if f_connection_close p then s_dead else s_start_req\<rparr>"
  using plain_core_simps [OF assms]
  by (simp add: done_body_def complete_message_def notify_def NEW_MESSAGE_def http_should_keep_alive_def http_message_needs_eof_def
      enter_def raw_parser.defs exec.defs)

section \<open>A whole request\<close>

definition all_headers :: "(bytes \<times> bytes) list \<Rightarrow> bytes \<Rightarrow> (bytes \<times> bytes) list" where
  "all_headers hs body = hs @ (if body = [] then [] else [length_header (length body)])"

definition request_line :: "parser_method \<Rightarrow> bytes \<Rightarrow> bytes" where
  "request_line m url = method_string m @ '' '' @ url @ '' '' @ version_line"

definition request_head :: "parser_method \<Rightarrow> bytes \<Rightarrow> (bytes \<times> bytes) list \<Rightarrow> bytes \<Rightarrow> bytes" where
  "request_head m url hs body = request_line m url @ concat (map header_text (all_headers hs body)) @ [CR, LF]"

definition request_text :: "parser_method \<Rightarrow> bytes \<Rightarrow> (bytes \<times> bytes) list \<Rightarrow> bytes \<Rightarrow> bytes" where
  "request_text m url hs body = request_head m url hs body @ body"

text \<open>The parser at the start of a message.\<close>

definition ready :: "raw_parser \<Rightarrow> bool" where
  "ready p \<longleftrightarrow> hp_state p = s_start_req \<and> nread p = 0 \<and> hp_errno p = HPE_OK \<and> hp_type p = HTTP_REQUEST \<and>
     content_length p \<le> ULLONG_MAX"

lemma ready_wf: "ready p \<Longrightarrow> wf_parser p" "ready p \<Longrightarrow> hp_errno p = HPE_OK"
  by (simp_all add: ready_def wf_parser_def wf_raw_def wf_state_def response_state_def)

lemma ready_init: "ready (http_parser_init HTTP_REQUEST)"
  by (simp add: ready_def http_parser_init_def)

lemma reads_request_line:
  assumes "ready p" and "m \<noteq> HTTP_CONNECT" and "url_ok url" and "room p (length (request_line m url))"
  shows "\<exists>q. reads p (request_line m url) q [Message_begin, Url url] \<and> plain_core q m \<and> content_length q = ULLONG_MAX \<and>
    nread q = nread p + length (request_line m url) \<and> between q \<and> stays_open q"
proof -
  let ?n = "Suc (length (method_string m))"
  let ?p1 = "begun p m ?n"
  let ?p2 = "?p1\<lparr>hp_state := s_req_http_start, nread := nread ?p1 + Suc (length url)\<rparr>"
  let ?q = "?p2\<lparr>hp_state := s_header_field_start, nread := nread ?p2 + length version_line, http_major := 1, http_minor := 1\<rparr>"
  have s: "hp_state p = s_start_req" using assms(1) by (simp add: ready_def)
  have 1: "reads p (method_string m @ '' '') ?p1 [Message_begin]"
    using assms(4) by (intro reads_method [OF s]) (simp add: room_def request_line_def)
  have 2: "reads ?p1 (url @ '' '') ?p2 [Url url]"
    using assms(2-4) by (intro reads_url) (simp_all add: room_def begun_def request_line_def)
  have 3: "reads ?p2 version_line ?q []"
    using assms(4) by (intro reads_version) (simp_all add: room_def begun_def request_line_def)
  from reads_append [OF 1 reads_append [OF 2 3]] have "reads p (request_line m url) ?q [Message_begin, Url url]"
    by (simp add: request_line_def)
  moreover have "plain_core ?q m" using assms(1,2) by (simp add: plain_core_def core_def begun_def ready_def)
  ultimately show ?thesis by (intro exI [of _ ?q]) (simp add: begun_def between_def stays_open_def request_line_def)
qed

lemma plain_core_cong: "core q = core p \<Longrightarrow> plain_core q m = plain_core p m"
  by (simp add: plain_core_def)

definition header_pairs :: "(bytes \<times> bytes) list \<Rightarrow> parser_event list" where
  "header_pairs hs = concat (map (\<lambda>h. [Header_field (fst h), Header_value (snd h)]) hs)"

lemma reads_all_headers:
  assumes "between p" and "plain_core p m" and "content_length p = ULLONG_MAX" and "list_all header_ok hs" and "length body < 2 ^ 60"
    and "room p (length (concat (map header_text (all_headers hs body))))"
  shows "\<exists>q. reads p (concat (map header_text (all_headers hs body))) q (header_pairs (all_headers hs body)) \<and>
    plain_core q m \<and> content_length q = (if body = [] then ULLONG_MAX else length body) \<and>
    nread q = nread p + length (concat (map header_text (all_headers hs body))) \<and> between q \<and>
    (stays_open p \<and> \<not> list_ex connection_header hs \<longrightarrow> stays_open q)"
proof -
  have "room p (length (concat (map header_text hs)))" using assms(6) by (simp add: room_def all_headers_def)
  from reads_headers [OF assms(1) this assms(4)] obtain p1 where p1: "reads p (concat (map header_text hs)) p1 (header_pairs hs)"
    "core p1 = core p" "content_length p1 = content_length p" "nread p1 = nread p + length (concat (map header_text hs))" "between p1"
    "stays_open p \<and> \<not> list_ex connection_header hs \<longrightarrow> stays_open p1" unfolding header_pairs_def by blast
  show ?thesis
  proof (cases "body = []")
    case True
    with p1 assms(2,3) plain_core_cong [OF p1(2)] show ?thesis by (intro exI [of _ p1]) (simp add: all_headers_def)
  next
    case False
    have "room p1 (length (header_text (length_header (length body))))"
      using assms(6) p1(4) False by (simp add: room_def all_headers_def)
    from reads_length [OF p1(5) this assms(5)] obtain q where
      q: "reads p1 (header_text (length_header (length body))) q (header_pairs [length_header (length body)])"
        "core q = core p1" "content_length q = length body" "nread q = nread p1 + length (header_text (length_header (length body)))"
        "between q" "stays_open p1 \<longrightarrow> stays_open q" unfolding header_pairs_def by auto
    from reads_append [OF p1(1) q(1)] have
      "reads p (concat (map header_text (all_headers hs body))) q (header_pairs (all_headers hs body))"
      using False by (simp add: all_headers_def header_pairs_def)
    with False p1 q assms(2) plain_core_cong [of q p] show ?thesis
      by (intro exI [of _ q]) (simp add: all_headers_def)
  qed
qed

text \<open>The last byte of a message, and no other, completes it.\<close>

definition reads_last :: "raw_parser \<Rightarrow> bytes \<Rightarrow> raw_parser \<Rightarrow> parser_event list \<Rightarrow> bool" where
  "reads_last p cs q es \<longleftrightarrow>
     (\<exists>a c p' fs gs m. cs = a @ [c] \<and> by_bytes p a = (p', fs, Next, length a) \<and> one_byte p' c = (q, gs, Next) \<and>
        joined (fs @ gs) = joined es \<and> Message_complete m \<in> set gs)"

lemma reads_lastI: "one_byte p c = (q, gs, Next) \<Longrightarrow> Message_complete m \<in> set gs \<Longrightarrow> reads_last p [c] q gs"
  unfolding reads_last_def by (intro exI [of _ "[]"]) auto

lemma reads_last_append:
  assumes "reads p a q es" and "reads_last q b r fs"
  shows "reads_last p (a @ b) r (es @ fs)"
proof -
  from assms(1) obtain gs where a: "by_bytes p a = (q, gs, Next, length a)" "joined gs = joined es" by (auto simp: reads_def)
  from assms(2) obtain b' c p' fs' gs' m where b: "b = b' @ [c]" "by_bytes q b' = (p', fs', Next, length b')" "one_byte p' c = (r, gs', Next)"
    "joined (fs' @ gs') = joined fs" "Message_complete m \<in> set gs'" by (auto simp: reads_last_def)
  have "a @ b = (a @ b') @ [c]" using b(1) by simp
  moreover have "by_bytes p (a @ b') = (p', gs @ fs', Next, length (a @ b'))" using by_bytes_append [OF a(1) b(2)] by simp
  moreover have "joined ((gs @ fs') @ gs') = joined (es @ fs)" using join_cong [OF a(2) b(4)] by simp
  ultimately show ?thesis unfolding reads_last_def using b(3,5) by blast
qed

lemma reads_last_reads:
  assumes "reads_last p cs q es"
  shows "reads p cs q es"
proof -
  from assms obtain a c p' fs gs where "cs = a @ [c]" "by_bytes p a = (p', fs, Next, length a)" "one_byte p' c = (q, gs, Next)"
    "joined (fs @ gs) = joined es" unfolding reads_last_def by blast
  with by_bytes_append [OF this(2) by_bytes_one [OF this(3)]] show ?thesis by (simp add: reads_def)
qed

lemma reads_last_body:
  assumes "hp_state p = s_body_identity" and "content_length p = length body" and "body \<noteq> []" and "length body < ULLONG_MAX"
  shows "reads_last p body (done_body p) [Body body, Message_complete (crow_method (hp_method p))]"
proof -
  obtain ds c where d: "body = ds @ [c]" using assms(3) by (cases body rule: rev_cases) auto
  let ?p = "p\<lparr>content_length := content_length p - length ds\<rparr>"
  have "by_bytes p ds = (?p, pieces ds, Next, length ds)"
    using assms d by (intro by_bytes_identity) simp_all
  moreover have "one_byte ?p c = (done_body ?p, [Body [c], Message_complete (crow_method (hp_method ?p))], Next)"
    using assms d by (intro one_byte_identity_last) simp_all
  moreover have "done_body ?p = done_body p"
    by (simp add: done_body_def enter_def complete_message_def notify_def NEW_MESSAGE_def http_should_keep_alive_def
      http_message_needs_eof_def raw_parser.defs exec.defs)
  moreover have "joined (pieces ds @ [Body [c], Message_complete (crow_method (hp_method p))]) =
      joined ([Body body] @ [Message_complete (crow_method (hp_method p))])"
    using join_left [OF join_only_pieces [OF assms(3), of "[]"]] d by (simp add: pieces_def)
  ultimately show ?thesis unfolding reads_last_def using d by fastforce
qed

lemma reads_end:
  assumes "between p" and "plain_core p m" and "content_length p = (if body = [] then ULLONG_MAX else length body)"
    and "length body < 2 ^ 60" and "room p 2"
  shows "\<exists>q. reads_last p ([CR, LF] @ body) q (Headers_complete (1, 1) # map Body (if body = [] then [] else [body]) @ [Message_complete (crow_method m)]) \<and>
    hp_errno q = HPE_OK \<and> (stays_open p \<longrightarrow> ready q)"
proof -
  have "room p 1" using assms(5) by (simp add: room_def)
  from one_end_first [OF assms(1) this] obtain p1 where p1: "one_byte p CR = (p1, [], Next)" "core p1 = core p"
    "content_length p1 = content_length p" "nread p1 = nread p + 1" "hp_state p1 = s_headers_almost_done"
    "stays_open p \<longrightarrow> \<not> f_connection_close p1" by blast
  have c: "plain_core p1 m" using assms(2) plain_core_cong [OF p1(2)] by simp
  have r: "room p1 1" using assms(5) p1(4) by (simp add: room_def)
  note k = plain_core_simps [OF c]
  show ?thesis
  proof (cases "body = []")
    case True
    let ?q = "p1\<lparr>hp_state := if f_connection_close p1 then s_dead else s_start_req, nread := 0, upgrade := False\<rparr>"
    have "one_byte p1 LF = (?q, [Headers_complete (1, 1), Message_complete (crow_method m)], Next)"
      using one_end_empty [OF p1(5) r c] assms(3) p1(3) True by simp
    from reads_lastI [OF this] have "reads_last p1 [LF] ?q [Headers_complete (1, 1), Message_complete (crow_method m)]" by simp
    from reads_last_append [OF reads_one [OF p1(1)] this] True k p1(6) assms(3) p1(3) show ?thesis
      by (intro exI [of _ ?q]) (simp add: ready_def)
  next
    case False
    have l: "0 < content_length p1" "content_length p1 < ULLONG_MAX" "content_length p1 = length body"
      using assms(3,4) p1(3) False by (simp_all add: ULLONG_MAX_def)
    let ?p2 = "p1\<lparr>hp_state := s_body_identity, nread := 0, upgrade := False\<rparr>"
    have o: "one_byte p1 LF = (?p2, [Headers_complete (1, 1)], Next)" by (rule one_end_body [OF p1(5) r c l(1,2)])
    have c2: "plain_core ?p2 m" using c by (simp add: plain_core_def core_def)
    have "reads_last ?p2 body (done_body ?p2) [Body body, Message_complete (crow_method (hp_method ?p2))]"
      using l False by (intro reads_last_body) simp_all
    from reads_last_append [OF reads_append [OF reads_one [OF p1(1)] reads_one [OF o]] this] False k p1(6) done_body_plain [OF c2]
    show ?thesis
      by (intro exI [of _ "done_body ?p2"]) (simp add: ready_def)
  qed
qed

text \<open>The message that is made of the bytes.\<close>

definition message_of :: "parser_method \<Rightarrow> bytes \<Rightarrow> (bytes \<times> bytes) list \<Rightarrow> bytes \<Rightarrow> message" where
  "message_of m url hs body =
     ([url], map (\<lambda>h. ([fst h], [snd h])) (all_headers hs body), if body = [] then [] else [body], crow_method m)"

lemma events_of_message:
  "events_of (message_of m url hs body) = [Message_begin, Url url] @ header_pairs (all_headers hs body) @
     (Headers_complete (1, 1) # map Body (if body = [] then [] else [body]) @ [Message_complete (crow_method m)])"
  by (simp add: message_of_def events_of_def message_events_def header_pairs_def header_events_def comp_def)

lemma reads_request:
  assumes "ready p" and "m \<noteq> HTTP_CONNECT" and "url_ok url" and "list_all header_ok hs" and "length body < 2 ^ 60"
    and "length (request_head m url hs body) \<le> HTTP_MAX_HEADER_SIZE"
  shows "\<exists>q. reads_last p (request_text m url hs body) q (events_of (message_of m url hs body)) \<and> hp_errno q = HPE_OK \<and>
    (\<not> list_ex connection_header hs \<longrightarrow> ready q)"
proof -
  have n: "nread p = 0" using assms(1) by (simp add: ready_def)
  have "room p (length (request_line m url))" using assms(6) n by (simp add: room_def request_head_def)
  from reads_request_line [OF assms(1-3) this] obtain p1 where p1: "reads p (request_line m url) p1 [Message_begin, Url url]"
    "plain_core p1 m" "content_length p1 = ULLONG_MAX" "nread p1 = nread p + length (request_line m url)" "between p1" "stays_open p1" by blast
  have "room p1 (length (concat (map header_text (all_headers hs body))))"
    using assms(6) n p1(4) by (simp add: room_def request_head_def)
  from reads_all_headers [OF p1(5,2,3) assms(4,5) this] obtain p2 where
    p2: "reads p1 (concat (map header_text (all_headers hs body))) p2 (header_pairs (all_headers hs body))"
      "plain_core p2 m" "content_length p2 = (if body = [] then ULLONG_MAX else length body)"
      "nread p2 = nread p1 + length (concat (map header_text (all_headers hs body)))" "between p2"
      "stays_open p1 \<and> \<not> list_ex connection_header hs \<longrightarrow> stays_open p2" by blast
  have "room p2 2" using assms(6) n p1(4) p2(4) by (simp add: room_def request_head_def)
  from reads_end [OF p2(5,2,3) assms(5) this] obtain q where
    q: "reads_last p2 ([CR, LF] @ body) q (Headers_complete (1, 1) # map Body (if body = [] then [] else [body]) @ [Message_complete (crow_method m)])"
      "hp_errno q = HPE_OK" "stays_open p2 \<longrightarrow> ready q" by blast
  from reads_last_append [OF p1(1) reads_last_append [OF p2(1) q(1)]]
  have "reads_last p (request_text m url hs body) q (events_of (message_of m url hs body))"
    by (simp add: events_of_message request_text_def request_head_def)
  with q(2,3) p1(6) p2(6) show ?thesis by blast
qed

section \<open>Properties\<close>

text \<open>C3: Every request that a client writes as HTTP/1.1 has it - any of the methods but \<^verbatim>\<open>CONNECT\<close>, a URL that the automaton of
  URLs accepts, headers whose names are tokens and whose values are not empty, a body with its length - comes out of the
  parser again, however its bytes are cut into buffers: the callbacks hand on this method, this URL, these headers and
  this body, in order, and the parser is at the start of the next message unless a header is about the connection.\<close>

theorem request_bytes_roundtrip:
  assumes "ready p" and "m \<noteq> HTTP_CONNECT" and "url_ok url" and "list_all header_ok hs" and "length body < 2 ^ 60"
    and "length (request_head m url hs body) \<le> HTTP_MAX_HEADER_SIZE"
    and "concat bs = request_text m url hs body" and "[] \<notin> set bs"
  shows "\<exists>q gs. feed_buffers p bs = Inr (q, gs, True) \<and> joined gs = joined (events_of (message_of m url hs body)) \<and>
    (\<not> list_ex connection_header hs \<longrightarrow> ready q)"
proof -
  from reads_request [OF assms(1-6)] reads_last_reads obtain q fs where
    q: "by_bytes p (concat bs) = (q, fs, Next, length (concat bs))" "joined fs = joined (events_of (message_of m url hs body))"
      "\<not> list_ex connection_header hs \<longrightarrow> ready q" unfolding reads_def assms(7) by blast
  from feed_buffers_by_bytes [OF ready_wf [OF assms(1)] assms(8) q(1)] q(2,3) show ?thesis by auto
qed

lemma url_ok_sample: "url_ok ''/gcm/send?a=b''"
  by (simp add: url_ok_def ends_url_def parse_url_char.simps is_url_char_def is_alpha_def lower_def char_of_def bit_Suc_0_iff)

lemma headers_ok_sample: "list_all header_ok [(''Host'', ''h''), (''Connection'', ''keep-alive'')]"
  by (simp add: header_ok_def token_name_def value_ok_def plain_value_def lower_name_def token_def is_alpha_def lower_def is_digit_def
      char_of_def bit_Suc_0_iff)

theorem request_bytes_roundtrip_witness:
  "\<exists>q gs. feed_buffers (http_parser_init HTTP_REQUEST)
       [take 30 (request_text HTTP_POST ''/gcm/send?a=b'' [(''Host'', ''h''), (''Connection'', ''keep-alive'')] ''body''),
        drop 30 (request_text HTTP_POST ''/gcm/send?a=b'' [(''Host'', ''h''), (''Connection'', ''keep-alive'')] ''body'')] = Inr (q, gs, True) \<and>
     joined gs = joined (events_of (message_of HTTP_POST ''/gcm/send?a=b'' [(''Host'', ''h''), (''Connection'', ''keep-alive'')] ''body''))"
proof -
  let ?hs = "[(''Host'', ''h''), (''Connection'', ''keep-alive'')]"
  let ?t = "request_text HTTP_POST ''/gcm/send?a=b'' ?hs ''body''"
  have d: "dec_of_nat (Suc (Suc (Suc (Suc 0)))) = ''4''" by (simp add: dec_of_nat.simps digit_char_def char_of_def bit_Suc_0_iff)
  have l: "length (request_head HTTP_POST ''/gcm/send?a=b'' ?hs ''body'') = 83" "length ?t = 87"
    by (simp_all add: request_text_def request_head_def request_line_def version_line_def all_headers_def header_text_def length_header_def d)
  have "[] \<notin> set [take 30 ?t, drop 30 ?t]" using l(2) by auto
  moreover have "concat [take 30 ?t, drop 30 ?t] = ?t" by simp
  moreover have "length (request_head HTTP_POST ''/gcm/send?a=b'' ?hs ''body'') \<le> HTTP_MAX_HEADER_SIZE"
    unfolding l(1) by (simp add: HTTP_MAX_HEADER_SIZE_def)
  moreover have "length ''body'' < 2 ^ 60" by simp
  ultimately show ?thesis
    using request_bytes_roundtrip [OF ready_init, of HTTP_POST "''/gcm/send?a=b''" ?hs "''body''" "[take 30 ?t, drop 30 ?t]"]
      url_ok_sample headers_ok_sample by auto
qed

end
