(* ===== verification/Http_Service.thy ===== *)
theory Http_Service
  imports Http_Message
begin

text \<open>
  Bytes on the socket of a connection: the parser and the connection together, from the buffers that
  are read to the answers that are written.
\<close>

section \<open>Events that are never cut\<close>

definition is_complete :: "parser_event \<Rightarrow> bool" where
  "is_complete e = (case e of Message_complete m \<Rightarrow> True | _ \<Rightarrow> False)"

definition is_headers :: "parser_event \<Rightarrow> bool" where
  "is_headers e = (case e of Headers_complete v \<Rightarrow> True | _ \<Rightarrow> False)"

definition solid :: "parser_event \<Rightarrow> bool" where
  "solid e \<longleftrightarrow> is_complete e \<or> is_headers e"

lemma merge_solid: "solid e \<Longrightarrow> merge e f = None" "solid f \<Longrightarrow> merge e f = None" "merge e f = Some g \<Longrightarrow> \<not> solid g"
  by (cases e; cases f; auto simp: solid_def is_complete_def is_headers_def)+

lemma join_solid: "solid e \<Longrightarrow> joined (a @ e # r) = joined a @ e # joined r"
proof (induction a)
  case Nil
  then show ?case by (cases "joined r") (simp_all add: add_event_def merge_solid(1))
next
  case (Cons x a)
  then have "joined ((x # a) @ e # r) = add_event x (joined a @ e # joined r)" by simp
  also have "\<dots> = add_event x (joined a) @ e # joined r"
    using Cons.prems by (cases "joined a") (simp_all add: add_event_def merge_solid(2) split: option.split)
  finally show ?case by simp
qed

lemma set_join:
  "solid e \<Longrightarrow> e \<in> set (joined es) \<longleftrightarrow> e \<in> set es"
proof (induction es)
  case (Cons x es)
  note sol = Cons.prems
  have "e \<in> set (add_event x fs) \<longleftrightarrow> e = x \<or> e \<in> set fs" for fs
  proof (cases fs)
    case (Cons f gs)
    show ?thesis
    proof (cases "merge x f")
      case (Some g)
      then have "\<not> solid g" "\<not> solid x" "\<not> solid f"
        using merge_solid(3) [OF Some] merge_solid(1) [of x f] merge_solid(2) [of f x] by auto
      with sol have "e \<noteq> g" "e \<noteq> x" "e \<noteq> f" by auto
      with Cons Some show ?thesis by (simp add: add_event_def)
    qed (use Cons in \<open>simp add: add_event_def\<close>)
  qed (simp add: add_event_def)
  with Cons show ?case by simp
qed simp

lemma none_join: "list_all (\<lambda>e. \<not> is_complete e) (joined es) \<longleftrightarrow> list_all (\<lambda>e. \<not> is_complete e) es"
  "list_all (\<lambda>e. \<not> is_headers e) (joined es) \<longleftrightarrow> list_all (\<lambda>e. \<not> is_headers e) es"
  using set_join [of _ es] by (auto simp: list_all_iff solid_def)

lemma first_unique:
  assumes "xs @ e # ys = xs' @ e' # ys'" and "P e" "P e'" and "list_all (\<lambda>x. \<not> P x) xs" "list_all (\<lambda>x. \<not> P x) xs'"
  shows "xs = xs' \<and> e = e' \<and> ys = ys'"
proof -
  have t: "takeWhile (\<lambda>x. \<not> P x) (zs @ z # us) = zs" if "P z" "list_all (\<lambda>x. \<not> P x) zs" for zs z us
    using that by (simp add: takeWhile_append2 list_all_iff)
  from t [OF assms(2,4), of ys] t [OF assms(3,5), of ys'] assms(1) have "xs = xs'" by simp
  with assms(1) show ?thesis by simp
qed

section \<open>What is gathered before the message is complete\<close>

lemma fold_gather_join: "fold gather (joined es) p = fold gather es p"
proof (induction es arbitrary: p)
  case (Cons e es)
  have "fold gather (add_event e fs) p = fold gather fs (gather e p)" for fs
    by (cases fs) (auto simp: add_event_def merge_gather simp del: gather.simps split: option.split)
  with Cons show ?case by (simp del: gather.simps)
qed simp

lemma gathered_iff: "gathered e \<longleftrightarrow> \<not> is_complete e \<and> \<not> is_headers e"
  by (cases e) (simp_all add: gathered_def is_complete_def is_headers_def)

definition front_of :: "message \<Rightarrow> parser_event list" where
  "front_of msg = (case msg of (us, hs, bs, m) \<Rightarrow> Message_begin # map Url us @ concat (map header_events hs))"

lemma events_front:
  "events_of (us, hs, bs, m) = front_of (us, hs, bs, m) @ Headers_complete (1, 1) # map Body bs @ [Message_complete m]"
  by (simp add: events_of_def message_events_def front_of_def)

lemma gathered_front: "list_all gathered (front_of msg)"
  by (cases msg) (simp add: front_of_def gathered_parts(1) [simplified])

lemma feed_early:
  assumes plain: "plain_message msg" and j: "joined (gs @ rest) = joined (events_of msg)"
    and early: "list_all (\<lambda>e. \<not> is_complete e) gs"
  shows "feed cf h peer gs c st = Inr (c\<lparr>c_parser := fold gather gs (c_parser c)\<rparr>, st, [])"
proof (cases "list_all (\<lambda>e. \<not> is_headers e) gs")
  case True
  with early show ?thesis by (intro feed_gathered) (simp add: gathered_iff list_all_iff)
next
  case False
  then obtain a e b where gs: "gs = a @ e # b" "is_headers e" "list_all (\<lambda>e. \<not> is_headers e) a"
    using split_list_first_prop [of gs is_headers] by (auto simp: list_all_iff)
  obtain us hs bs m where msg: "msg = (us, hs, bs, m)" by (cases msg)
  let ?tail = "map Body bs @ [Message_complete m]"
  have s: "solid e" "solid (Headers_complete (1, 1))" using gs(2) by (simp_all add: solid_def is_headers_def)
  have "joined a @ e # joined (b @ rest) = joined (front_of msg) @ Headers_complete (1, 1) # joined ?tail"
    using j unfolding gs(1) msg events_front by (simp add: join_solid [OF s(1)] join_solid [OF s(2)] del: One_nat_def)
  moreover have "list_all (\<lambda>e. \<not> is_headers e) (joined a)" "list_all (\<lambda>e. \<not> is_headers e) (joined (front_of msg))"
    using gs(3) gathered_front [of msg] unfolding none_join by (auto simp: gathered_iff list_all_iff)
  ultimately have u: "joined a = joined (front_of msg)" "e = Headers_complete (1, 1)" "joined (b @ rest) = joined ?tail"
    using first_unique [of "joined a" e "joined (b @ rest)" "joined (front_of msg)" "Headers_complete (1, 1)" "joined ?tail" is_headers] gs(2)
    by (simp_all add: is_headers_def)
  have "list_all (\<lambda>e. \<not> is_headers e) (joined (b @ rest))" unfolding u(3) none_join by (simp add: is_headers_def list_all_iff)
  then have "list_all (\<lambda>e. \<not> is_headers e) (b @ rest)" unfolding none_join .
  then have ab: "list_all gathered a" "list_all gathered b"
    using early gs by (auto simp: gathered_iff list_all_iff)
  let ?p = "gather (Headers_complete (1, 1)) (fold gather a (c_parser c))"
  have "?p = gather (Headers_complete (1, 1)) (fold gather (front_of msg) (c_parser c))"
    using fold_gather_join [of a "c_parser c"] fold_gather_join [of "front_of msg" "c_parser c"] u(1) by simp
  also have "\<dots> = fold gather (message_events us hs (1, 1) []) (c_parser c)" by (simp add: msg front_of_def message_events_def)
  finally have p: "?p = fold gather (message_events us hs (1, 1) []) (c_parser c)" .
  have hs: "list_all pieces_ok hs" "header_count ''expect'' (kept (map header_of hs)) = 0"
    using plain by (simp_all add: plain_message_def msg request_of_def)
  have "header_count ''expect'' (ps_headers ?p) = 0" unfolding p message_gathered [OF hs(1)] using hs(2) by simp
  then have "handle_header (c\<lparr>c_parser := ?p\<rparr>) = (c\<lparr>c_parser := ?p\<rparr>, [])" by (simp add: handle_header_def del: gather.simps)
  from feed_headers [OF ab refl this, of cf h peer st] show ?thesis unfolding gs(1) u(2) by (simp del: gather.simps)
qed

section \<open>A connection with its parser\<close>

text \<open>
  The callback of a read: \<^verbatim>\<open>parser_.feed\<close> on what has arrived, whose callbacks run the handlers, and
  what becomes of the connection. \<open>None\<close> is a callback that does not return.
\<close>

definition read_bytes ::
  "'d server_config \<Rightarrow> ('d, 's) handler \<Rightarrow> raw_parser \<times> ('d, 's) conn_system \<Rightarrow> bytes \<Rightarrow> (raw_parser \<times> ('d, 's) conn_system) option"
where
  "read_bytes cf h ps data =
     (case ps of (p, s) \<Rightarrow>
        (case http_parser_execute p data of
           Inl f \<Rightarrow> None
         | Inr (q, evs, n) \<Rightarrow>
             (case on_read cf h True (Got evs (n = length data)) (conn s) (app s) of
                Inl x \<Rightarrow> None
              | Inr (c, st, es) \<Rightarrow> Some (q, fold apply_effect es (s\<lparr>conn := c, app := st, reads_out := reads_out s - 1\<rparr>)))))"

fun read_all ::
  "'d server_config \<Rightarrow> ('d, 's) handler \<Rightarrow> raw_parser \<times> ('d, 's) conn_system \<Rightarrow> bytes list \<Rightarrow> (raw_parser \<times> ('d, 's) conn_system) option"
where
  "read_all cf h ps [] = Some ps"
| "read_all cf h ps (b # bs) = (case read_bytes cf h ps b of None \<Rightarrow> None | Some ps' \<Rightarrow> read_all cf h ps' bs)"

text \<open>The buffers of a request arrive, then the write that was started ends.\<close>

definition exchange ::
  "'d server_config \<Rightarrow> ('d, 's) handler \<Rightarrow> raw_parser \<times> ('d, 's) conn_system \<Rightarrow> bytes list \<Rightarrow> (raw_parser \<times> ('d, 's) conn_system) option"
where
  "exchange cf h ps bs =
     (case read_all cf h ps bs of
        None \<Rightarrow> None
      | Some (q, s) \<Rightarrow>
          (case on_write True (conn s) of (c, es) \<Rightarrow> Some (q, fold apply_effect es (s\<lparr>conn := c, writes_out := tl (writes_out s)\<rparr>))))"

fun exchanges ::
  "'d server_config \<Rightarrow> ('d, 's) handler \<Rightarrow> raw_parser \<times> ('d, 's) conn_system \<Rightarrow> bytes list list \<Rightarrow> (raw_parser \<times> ('d, 's) conn_system) option"
where
  "exchanges cf h ps [] = Some ps"
| "exchanges cf h ps (bs # bss) = (case exchange cf h ps bs of None \<Rightarrow> None | Some ps' \<Rightarrow> exchanges cf h ps' bss)"

lemma read_all_append:
  "read_all cf h ps (as @ bs) = (case read_all cf h ps as of None \<Rightarrow> None | Some ps' \<Rightarrow> read_all cf h ps' bs)"
  by (induction as arbitrary: ps) (simp_all split: option.split)

text \<open>A read that gives events only from before the end of the message leaves an idle connection idle.\<close>

definition with_events :: "parser_event list \<Rightarrow> 'd connection \<Rightarrow> 'd connection" where
  "with_events es c = c\<lparr>c_parser := fold gather es (c_parser c)\<rparr>"

lemma with_events_append: "with_events fs (with_events es c) = with_events (es @ fs) c"
  by (simp add: with_events_def)

lemma idle_with_events: "idle_conn (with_events es c) = idle_conn c"
  by (simp add: idle_conn_def with_events_def)

lemma on_read_early:
  assumes "idle_conn c" and "feed cf h True es c st = Inr (with_events es c, st, [])"
  shows "on_read cf h True (Got es True) c st = Inr (with_events es c, st, [Cancel_timer, Start_timer, Read_some])"
proof -
  have "(with_events es c)\<lparr>c_reading := True\<rparr> = with_events es c" using assms(1) by (simp add: idle_conn_def with_events_def)
  with assms show ?thesis
    by (simp add: on_read_def do_read_def start_deadline_def) (simp add: idle_conn_def with_events_def)
qed

lemma feed_more:
  assumes "feed cf h peer es c st = Inr (with_events es c, st, [])"
  shows "feed cf h peer fs (with_events es c) st = feed cf h peer (es @ fs) c st"
  by (auto simp: feed_append assms split: sum.split)

lemma read_all_early:
  assumes plain: "plain_message msg"
  shows "feed_buffers p bs = Inr (q, gs, True) \<Longrightarrow> joined ((G @ gs) @ rest) = joined (events_of msg) \<Longrightarrow>
    list_all (\<lambda>e. \<not> is_complete e) (G @ gs) \<Longrightarrow> idle_conn c \<Longrightarrow> idle_system s \<Longrightarrow> conn s = with_events G c \<Longrightarrow>
    \<exists>s'. read_all cf h (p, s) bs = Some (q, s') \<and> idle_system s' \<and> conn s' = with_events (G @ gs) c \<and> app s' = app s \<and>
      wire s' = wire s"
proof (induction bs arbitrary: p G gs s)
  case Nil
  then show ?case by auto
next
  case (Cons b bs)
  from Cons.prems(1) obtain q1 es fs where e: "http_parser_execute p b = Inr (q1, es, length b)"
    "feed_buffers q1 bs = Inr (q, fs, True)" "gs = es @ fs"
    by (auto split: sum.splits prod.splits if_splits)
  have f: "feed cf h True G c st = Inr (with_events G c, st, [])" "feed cf h True (G @ es) c st = Inr (with_events (G @ es) c, st, [])" for st
    using feed_early [OF plain, of G "es @ fs @ rest" cf h True c st] feed_early [OF plain, of "G @ es" "fs @ rest" cf h True c st]
      Cons.prems(2,3) e(3) by (simp_all add: with_events_def)
  have "feed cf h True es (with_events G c) st = Inr (with_events es (with_events G c), st, [])" for st
    using feed_more [OF f(1), of es] f(2) by (simp add: with_events_append)
  from on_read_early [OF _ this] Cons.prems(4) have
    r: "on_read cf h True (Got es True) (conn s) (app s) = Inr (with_events (G @ es) c, app s, [Cancel_timer, Start_timer, Read_some])"
    by (simp add: Cons.prems(6) idle_with_events with_events_append)
  let ?s = "fold apply_effect [Cancel_timer, Start_timer, Read_some] (s\<lparr>conn := with_events (G @ es) c, app := app s, reads_out := reads_out s - 1\<rparr>)"
  have s: "read_bytes cf h (p, s) b = Some (q1, ?s)" by (simp add: read_bytes_def e(1) r)
  have i: "idle_system ?s" "conn ?s = with_events (G @ es) c" "app ?s = app s" "wire ?s = wire s"
    using Cons.prems(4,5) by (simp_all add: idle_system_def runs_def idle_with_events)
  from Cons.IH [OF e(2), of "G @ es" ?s] Cons.prems(2-4) e(3) i s show ?case by auto
qed

section \<open>One request\<close>

lemma by_bytes_prefix:
  "by_bytes p (x @ y) = (q, fs, Next, n) \<Longrightarrow>
   \<exists>p1 f1 f2. by_bytes p x = (p1, f1, Next, length x) \<and> by_bytes p1 y = (q, f2, Next, length y) \<and> fs = f1 @ f2"
proof (induction x arbitrary: p fs n)
  case Nil
  have "by_bytes p y = (q, fs, Next, n) \<Longrightarrow> n = length y" for p y fs n
    by (induction y arbitrary: p fs n) (auto split: prod.splits if_splits outcome.splits)
  with Nil show ?case by auto
next
  case (Cons c x)
  obtain p' es r where o: "one_byte p c = (p', es, r)" using prod_cases3 by blast
  obtain q' gs r' n' where b: "by_bytes p' (x @ y) = (q', gs, r', n')" using prod_cases4 by blast
  have r: "r = Next" "q' = q" "r' = Next" "fs = es @ gs" using Cons.prems o b by (auto split: if_splits)
  from Cons.IH [of p' gs n'] b r obtain p1 f1 f2 where
    "by_bytes p' x = (p1, f1, Next, length x)" "by_bytes p1 y = (q, f2, Next, length y)" "gs = f1 @ f2" by auto
  with o r show ?case by auto
qed

lemma count_join: "length (filter is_complete (joined es)) = length (filter is_complete es)"
proof (induction es)
  case (Cons x es)
  have "length (filter is_complete (add_event x fs)) = length (filter is_complete (x # fs))" for fs
    by (cases fs; cases x; cases "hd fs") (auto simp: add_event_def is_complete_def)
  with Cons show ?case by simp
qed simp

lemma count_events: "length (filter is_complete (events_of msg)) = 1"
  by (cases msg) (auto simp: events_of_def message_events_def is_complete_def filter_concat comp_def header_events_def filter_empty_conv)

lemma not_yet_complete:
  assumes "joined (fs @ gs) = joined (events_of msg)" and "Message_complete m \<in> set gs"
  shows "list_all (\<lambda>e. \<not> is_complete e) fs"
proof -
  have "length (filter is_complete fs) + length (filter is_complete gs) = 1"
    using count_join [of "fs @ gs"] count_join [of "events_of msg"] count_events [of msg] assms(1) by simp
  moreover have "filter is_complete gs \<noteq> []" using assms(2) is_complete_def [of "Message_complete m"] by (auto simp: filter_empty_conv)
  ultimately have "length (filter is_complete fs) = 0" by (cases "filter is_complete gs") simp_all
  then show ?thesis by (simp add: list_all_iff filter_empty_conv)
qed

text \<open>The last buffer of a message, and those before it.\<close>

lemma buffers_of_message:
  assumes "ready p" and l: "reads_last p (concat bs) q (events_of msg)" and n: "[] \<notin> set bs"
  shows "\<exists>as b p1 gs hs. bs = as @ [b] \<and> feed_buffers p as = Inr (p1, gs, True) \<and>
    http_parser_execute p1 b = Inr (q, hs, length b) \<and> joined (gs @ hs) = joined (events_of msg) \<and>
    list_all (\<lambda>e. \<not> is_complete e) gs"
proof -
  from l obtain a ch p' fs gs0 m where a: "concat bs = a @ [ch]" "by_bytes p a = (p', fs, Next, length a)" "one_byte p' ch = (q, gs0, Next)"
    "joined (fs @ gs0) = joined (events_of msg)" "Message_complete m \<in> set gs0" unfolding reads_last_def by blast
  then obtain as b where bs: "bs = as @ [b]" by (cases bs rule: rev_cases) auto
  with n a(1) obtain b' where b: "b = b' @ [ch]" "a = concat as @ b'" by (cases b rule: rev_cases) auto
  from by_bytes_prefix [of p "concat as" b'] a(2) b(2) obtain p1 f1 f2 where
    f: "by_bytes p (concat as) = (p1, f1, Next, length (concat as))" "by_bytes p1 b' = (p', f2, Next, length b')" "fs = f1 @ f2" by auto
  note w = ready_wf [OF assms(1)]
  have "[] \<notin> set as" using n bs by simp
  from feed_buffers_by_bytes [OF w this f(1)] obtain gs where
    gs: "feed_buffers p as = Inr (p1, gs, True)" "joined gs = joined f1" by auto
  have "hp_type p = HTTP_REQUEST" using assms(1) by (simp add: ready_def)
  from feed_buffers_wf [OF w this, of as] gs(1) have w1: "wf_parser p1" "hp_errno p1 = HPE_OK" by auto
  have "by_bytes p1 b = (q, f2 @ gs0, Next, length b)" using by_bytes_append [OF f(2) by_bytes_one [OF a(3)]] by (simp add: b(1))
  then have "by_bytes p1 (concat [b]) = (q, f2 @ gs0, Next, length b)" by simp
  from feed_buffers_by_bytes [OF w1 _ this] b(1) obtain hs where
    hs: "feed_buffers p1 [b] = Inr (q, hs, True)" "joined hs = joined (f2 @ gs0)" by auto
  then have "http_parser_execute p1 b = Inr (q, hs, length b)" by (auto split: sum.splits prod.splits if_splits)
  moreover have "joined (gs @ hs) = joined (events_of msg)" using join_cong [OF gs(2) hs(2)] a(4) f(3) by simp
  moreover have "list_all (\<lambda>e. \<not> is_complete e) gs"
    using not_yet_complete [OF a(4,5)] none_join(1) [of gs] none_join(1) [of f1] gs(2) f(3) by simp
  ultimately show ?thesis using bs gs(1) by blast
qed

lemma exchange_message:
  assumes "idle_system s" and "ready p" and "reads_last p (concat bs) q (events_of msg)" and "[] \<notin> set bs"
    and plain: "plain_message msg" and "\<not> asks_to_close (request_of msg)"
    and "h (request_of msg) (app s) = Some (Routed (Responds r), st')" and "\<not> completed r"
  shows "\<exists>s'. exchange cf h (p, s) bs = Some (q, s') \<and> idle_system s' \<and> app s' = st' \<and>
    wire s' = wire s @ [answer cf (request_of msg) r]"
proof -
  from assms(1) have s: "idle_conn (conn s)" "with_events [] (conn s) = conn s" by (simp_all add: idle_system_def with_events_def)
  from buffers_of_message [OF assms(2-4)] obtain as b p1 gs hs where
    bs: "bs = as @ [b]" "feed_buffers p as = Inr (p1, gs, True)" "http_parser_execute p1 b = Inr (q, hs, length b)"
      "joined (gs @ hs) = joined (events_of msg)" "list_all (\<lambda>e. \<not> is_complete e) gs" by blast
  from read_all_early [OF plain bs(2), of "[]" hs "conn s" s cf h] bs(4,5) s assms(1) obtain s1 where
    s1: "read_all cf h (p, s) as = Some (p1, s1)" "idle_system s1" "conn s1 = with_events gs (conn s)" "app s1 = app s" "wire s1 = wire s"
    by auto
  have "feed cf h True gs (conn s) (app s) = Inr (with_events gs (conn s), app s, [])"
    using feed_early [OF plain bs(4,5)] by (simp add: with_events_def)
  from feed_more [OF this, of hs] have "feed cf h True hs (conn s1) (app s1) = feed cf h True (events_of msg) (conn s) (app s)"
    using feed_same [OF bs(4)] s1(3,4) by simp
  then have o: "on_read cf h True (Got hs True) (conn s1) (app s1) = on_read cf h True (Got (events_of msg) True) (conn s) (app s)"
    unfolding on_read_def read_result.case by simp
  let ?out = "answer cf (request_of msg) r"
  let ?es = "[Cancel_timer, Write_all ?out, Cancel_timer, Start_timer, Read_some]"
  from read_plain [of msg "conn s" h "app s" r st' cf] assms(5-8) s(1) obtain c c' where
    r: "on_read cf h True (Got hs True) (conn s1) (app s1) = Inr (c, st', ?es)" "on_write True c = (c', [])" "idle_conn c'"
    unfolding o by blast
  let ?t = "fold apply_effect ?es (s1\<lparr>conn := c, app := st', reads_out := reads_out s1 - 1\<rparr>)"
  have t: "read_bytes cf h (p1, s1) b = Some (q, ?t)" by (simp add: read_bytes_def bs(3) r(1))
  let ?u = "?t\<lparr>conn := c', writes_out := tl (writes_out ?t)\<rparr>"
  have "exchange cf h (p, s) bs = Some (q, ?u)"
    using r(2) by (simp add: exchange_def bs(1) read_all_append s1(1) t)
  moreover have "idle_system ?u" "app ?u = st'" "wire ?u = wire s @ [?out]"
    using s1 r(3) by (simp_all add: idle_system_def runs_def)
  ultimately show ?thesis by blast
qed

section \<open>Requests as bytes\<close>

type_synonym request_parts = "parser_method \<times> bytes \<times> (bytes \<times> bytes) list \<times> bytes"

definition text_of :: "request_parts \<Rightarrow> bytes" where
  "text_of rq = (case rq of (m, url, hs, body) \<Rightarrow> request_text m url hs body)"

definition message_of_parts :: "request_parts \<Rightarrow> message" where
  "message_of_parts rq = (case rq of (m, url, hs, body) \<Rightarrow> message_of m url hs body)"

definition sendable :: "request_parts \<Rightarrow> bool" where
  "sendable rq \<longleftrightarrow>
     (case rq of (m, url, hs, body) \<Rightarrow>
        m \<noteq> HTTP_CONNECT \<and> url_ok url \<and> list_all header_ok hs \<and> \<not> list_ex connection_header hs \<and> length body < 2 ^ 60 \<and>
        length (request_head m url hs body) \<le> HTTP_MAX_HEADER_SIZE) \<and>
     plain_message (message_of_parts rq) \<and> \<not> asks_to_close (request_of (message_of_parts rq))"

lemma exchange_request:
  assumes "idle_system s" and "ready p" and "sendable rq" and "concat bs = text_of rq" "[] \<notin> set bs"
    and "h (request_of (message_of_parts rq)) (app s) = Some (Routed (Responds r), st')" and "\<not> completed r"
  shows "\<exists>q s'. exchange cf h (p, s) bs = Some (q, s') \<and> ready q \<and> idle_system s' \<and> app s' = st' \<and>
    wire s' = wire s @ [answer cf (request_of (message_of_parts rq)) r]"
proof -
  obtain m url hs body where rq: "rq = (m, url, hs, body)" using prod_cases4 by blast
  from assms(3) have w: "m \<noteq> HTTP_CONNECT" "url_ok url" "list_all header_ok hs" "length body < 2 ^ 60"
    "length (request_head m url hs body) \<le> HTTP_MAX_HEADER_SIZE" "\<not> list_ex connection_header hs"
    "plain_message (message_of_parts rq)" "\<not> asks_to_close (request_of (message_of_parts rq))"
    by (simp_all add: sendable_def rq)
  from reads_request [OF assms(2) w(1-5)] w(6) assms(4) obtain q where
    "reads_last p (concat bs) q (events_of (message_of_parts rq))" "ready q"
    by (auto simp: rq text_of_def message_of_parts_def)
  with exchange_message [where cf = cf and h = h, OF assms(1,2) _ assms(5) w(7,8) assms(6,7)] show ?thesis by blast
qed

lemma exchanges_requests:
  "idle_system s \<Longrightarrow> ready p \<Longrightarrow> list_all sendable rqs \<Longrightarrow>
   list_all2 (\<lambda>bs rq. concat bs = text_of rq \<and> [] \<notin> set bs) bss rqs \<Longrightarrow>
   responses h (map (\<lambda>rq. request_of (message_of_parts rq)) rqs) (app s) = Some (rs, st) \<Longrightarrow>
   \<exists>q s'. exchanges cf h (p, s) bss = Some (q, s') \<and> ready q \<and> idle_system s' \<and> app s' = st \<and>
     wire s' = wire s @ map (\<lambda>(req, r). answer cf req r) (zip (map (\<lambda>rq. request_of (message_of_parts rq)) rqs) rs)"
proof (induction rqs arbitrary: bss s p rs)
  case Nil
  then show ?case by auto
next
  case (Cons rq rqs)
  from Cons.prems(4) obtain bs bss' where bss: "bss = bs # bss'" "concat bs = text_of rq" "[] \<notin> set bs"
    "list_all2 (\<lambda>bs rq. concat bs = text_of rq \<and> [] \<notin> set bs) bss' rqs" by (auto simp: list_all2_Cons2)
  from Cons.prems(5) obtain r st1 rs' where r: "h (request_of (message_of_parts rq)) (app s) = Some (Routed (Responds r), st1)" "\<not> completed r"
    "responses h (map (\<lambda>rq. request_of (message_of_parts rq)) rqs) st1 = Some (rs', st)" "rs = r # rs'"
    by (auto split: option.splits prod.splits if_splits routed.splits handled.splits)
  from exchange_request [where cf = cf and h = h and s = s and p = p and rq = rq and r = r, OF Cons.prems(1,2) _ bss(2,3) r(1,2)]
    Cons.prems(3) obtain q s1 where
    e: "exchange cf h (p, s) bs = Some (q, s1)" "ready q" "idle_system s1" "app s1 = st1"
      "wire s1 = wire s @ [answer cf (request_of (message_of_parts rq)) r]" by auto
  from Cons.IH [OF e(3,2) _ bss(4)] Cons.prems(3) r(3,4) e show ?case by (auto simp: bss(1))
qed

section \<open>Properties\<close>

text \<open>C4: A client that writes requests of HTTP/1.1 to its connection, each when the answer to the one before has been written,
  gets for each the answer of the handler, in order, however the bytes of a request are cut into the buffers of the reads:
  from the bytes on the socket through the parser, its callbacks and the handler to the bytes of the answers. No read
  before the last one of a request runs the handler or writes, and afterwards parser and connection are ready for the next
  request.\<close>

theorem requests_answered_from_bytes:
  assumes "idle_system s" and "ready p" and "list_all sendable rqs"
    and "list_all2 (\<lambda>bs rq. concat bs = text_of rq \<and> [] \<notin> set bs) bss rqs"
    and "responses h (map (\<lambda>rq. request_of (message_of_parts rq)) rqs) (app s) = Some (rs, st)"
  shows "\<exists>q s'. exchanges cf h (p, s) bss = Some (q, s') \<and> ready q \<and> idle_system s' \<and> app s' = st \<and>
     wire s' = wire s @ map (\<lambda>(req, r). answer cf req r) (zip (map (\<lambda>rq. request_of (message_of_parts rq)) rqs) rs)"
  using assms by (rule exchanges_requests)

definition sample_rq :: request_parts where
  "sample_rq = (HTTP_POST, ''/a?b'', [(''Host'', ''h'')], ''body'')"

lemma url_ok_sample_rq: "url_ok ''/a?b''"
  by (simp add: url_ok_def ends_url_def parse_url_char.simps is_url_char_def is_alpha_def lower_def char_of_def bit_Suc_0_iff)

lemma header_ok_sample_rq: "header_ok (''Host'', ''h'')" "\<not> connection_header (''Host'', ''h'')"
  by (simp_all add: header_ok_def connection_header_def token_name_def value_ok_def plain_value_def lower_name_def token_def is_alpha_def lower_def is_digit_def
      char_of_def bit_Suc_0_iff)

lemma dec_of_4: "dec_of_nat (Suc (Suc (Suc (Suc 0)))) = ''4''"
  by (simp add: dec_of_nat.simps digit_char_def char_of_def bit_Suc_0_iff)

lemma message_sample_rq: "message_of_parts sample_rq =
   ([''/a?b''], [([''Host''], [''h'']), ([''Content-Length''], [''4''])], [''body''], M_POST)"
  by (simp add: message_of_parts_def sample_rq_def message_of_def all_headers_def length_header_def dec_of_4)

lemma text_sample_rq: "length (request_head HTTP_POST ''/a?b'' [(''Host'', ''h'')] ''body'') \<le> 60" "9 < length (text_of sample_rq)"
  by (simp_all add: text_of_def sample_rq_def request_text_def request_head_def request_line_def version_line_def all_headers_def
      header_text_def length_header_def dec_of_4)

lemma sample_rq_sendable: "sendable sample_rq"
proof -
  have "plain_message (message_of_parts sample_rq)" "\<not> asks_to_close (request_of (message_of_parts sample_rq))"
    unfolding message_sample_rq by code_simp+
  moreover have "length (request_head HTTP_POST ''/a?b'' [(''Host'', ''h'')] ''body'') \<le> HTTP_MAX_HEADER_SIZE"
    using text_sample_rq(1) by (simp add: HTTP_MAX_HEADER_SIZE_def)
  moreover have "length ''body'' < 2 ^ 60" by simp
  ultimately show ?thesis using url_ok_sample_rq header_ok_sample_rq
    by (simp add: sendable_def sample_rq_def del: list.size power_numeral)
qed

theorem requests_answered_from_bytes_witness:
  "\<exists>q s'. exchanges sample_server hello (http_parser_init HTTP_REQUEST, started () :: (nat, unit) conn_system)
       [[take 9 (text_of sample_rq), drop 9 (text_of sample_rq)], [text_of sample_rq]] = Some (q, s') \<and>
     ready q \<and> idle_system s' \<and> app s' = () \<and>
     wire s' = wire (started () :: (nat, unit) conn_system) @ map (\<lambda>(req, r). answer sample_server req r)
       (zip (map (\<lambda>rq. request_of (message_of_parts rq)) [sample_rq, sample_rq]) [response_body ''hello'', response_body ''hello''])"
proof -
  have "list_all sendable [sample_rq, sample_rq]" by (simp add: sample_rq_sendable)
  moreover have "list_all2 (\<lambda>bs rq. concat bs = text_of rq \<and> [] \<notin> set bs)
      [[take 9 (text_of sample_rq), drop 9 (text_of sample_rq)], [text_of sample_rq]] [sample_rq, sample_rq]"
    using text_sample_rq(2) by auto
  moreover have "responses hello (map (\<lambda>rq. request_of (message_of_parts rq)) [sample_rq, sample_rq])
      (app (started () :: (nat, unit) conn_system)) = Some ([response_body ''hello'', response_body ''hello''], ())"
    by (simp add: hello_def response_body_def new_response_def)
  ultimately show ?thesis by (rule requests_answered_from_bytes [OF started_idle ready_init])
qed

end
