(* ===== verification/Crow_Routing_Search.thy ===== *)
theory Crow_Routing_Search
  imports Crow_Routing "HOL-Library.Sublist"
begin

text \<open>
  What the router promises: rules as sequences of tokens, the routes a trie holds, and the search
  as the choice of the matching rule that was added first.
\<close>

section \<open>Rules as tokens\<close>

datatype tok = Lit char | Par param_type

fun tok_match ::
  "(bytes \<Rightarrow> 'd \<times> nat \<times> bool) \<Rightarrow> tok list \<Rightarrow> bytes \<Rightarrow> nat \<Rightarrow> 'd routing_params \<Rightarrow>
   'd routing_params option"
where
  "tok_match dbl [] url pos ps = (if pos = length url then Some ps else None)"
| "tok_match dbl (Lit c # ts) url pos ps =
     (if pos < length url \<and> url ! pos = c then tok_match dbl ts url (Suc pos) ps else None)"
| "tok_match dbl (Par ty # ts) url pos ps =
     (if pos < length url then
        (case read_param dbl ty url pos ps of
           None \<Rightarrow> None
         | Some (pos', ps') \<Rightarrow> tok_match dbl ts url pos' ps')
      else None)"

text \<open>The routes from a node to the rules below it.\<close>

inductive route :: "trie \<Rightarrow> nat \<Rightarrow> tok list \<Rightarrow> nat \<Rightarrow> bool" for t where
  route_here: "rule_index (t ! i) = r \<Longrightarrow> r \<noteq> 0 \<Longrightarrow> route t i [] r"
| route_param: "param_childrens (t ! i) ty = x \<Longrightarrow> x \<noteq> 0 \<Longrightarrow> route t x ts r \<Longrightarrow> route t i (Par ty # ts) r"
| route_child: "(k, x) \<in> set (node_children (t ! i)) \<Longrightarrow> route t x ts r \<Longrightarrow> route t i (map Lit k @ ts) r"

lemma route_cases [consumes 1, case_names here param child]:
  assumes "route t i ts r"
  obtains "ts = []" "rule_index (t ! i) = r" "r \<noteq> 0"
  | ty ts' where "ts = Par ty # ts'" "param_childrens (t ! i) ty \<noteq> 0" "route t (param_childrens (t ! i) ty) ts' r"
  | k x ts' where "ts = map Lit k @ ts'" "(k, x) \<in> set (node_children (t ! i))" "route t x ts' r"
  using assms by (cases rule: route.cases) blast+

lemma route_rule: "route t i ts r \<Longrightarrow> r \<noteq> 0"
  by (induction rule: route.induct)

text \<open>Edges go to later nodes, and no key of a table is a prefix of another.\<close>

definition prefix_free :: "(bytes \<times> nat) list \<Rightarrow> bool" where
  "prefix_free kvs \<longleftrightarrow> distinct (map fst kvs) \<and>
     (\<forall>k \<in> fst ` set kvs. \<forall>k' \<in> fst ` set kvs. prefix k k' \<longrightarrow> k = k')"

definition node_ok :: "nat \<Rightarrow> nat \<Rightarrow> node \<Rightarrow> bool" where
  "node_ok n i nd \<longleftrightarrow>
     (\<forall>ty. param_childrens nd ty \<noteq> 0 \<longrightarrow> i < param_childrens nd ty \<and> param_childrens nd ty < n) \<and>
     (\<forall>(k, y) \<in> set (node_children nd). k \<noteq> [] \<and> i < y \<and> y < n) \<and>
     prefix_free (node_children nd)"

definition trie_ok :: "trie \<Rightarrow> bool" where
  "trie_ok t \<longleftrightarrow> t \<noteq> [] \<and> (\<forall>i < length t. node_ok (length t) i (t ! i))"

section \<open>Reading parameters\<close>

definition strtod_ok :: "(bytes \<Rightarrow> 'd \<times> nat \<times> bool) \<Rightarrow> bool" where
  "strtod_ok dbl \<longleftrightarrow> (\<forall>s. fst (snd (dbl s)) \<le> length s)"

lemma signed_digits_length: "signed_digits s = (neg, ds, n) \<Longrightarrow> n \<le> length s"
  using length_takeWhile_le [of is_digit] by (auto simp: signed_digits_def Let_def split: list.splits if_splits)

lemma strtoll_at_length: "strtoll_at s = (v, n, e) \<Longrightarrow> n \<le> length s"
  by (auto simp: strtoll_at_def Let_def split: prod.splits dest: signed_digits_length)

lemma strtoull_at_length: "strtoull_at s = (v, n, e) \<Longrightarrow> n \<le> length s"
  by (auto simp: strtoull_at_def Let_def split: prod.splits if_splits dest: signed_digits_length)

lemma read_param_moves:
  assumes "strtod_ok dbl" and "pos < length url" and "read_param dbl ty url pos ps = Some (pos', ps')"
  shows "pos < pos' \<and> pos' \<le> length url"
proof -
  have d: "n \<le> length url - pos" if "dbl (drop pos url) = (v, n, e)" for v n e
    using assms(1) that by (metis fst_conv length_drop strtod_ok_def snd_conv)
  have s: "length (takeWhile P (drop pos url)) \<le> length url - pos" for P
    using length_takeWhile_le [of P "drop pos url"] by simp
  show ?thesis
    using assms(2,3) d s [of "\<lambda>c. c \<noteq> CHR ''/''"]
    by (auto simp: read_param_def read_int_def read_uint_def read_double_def read_string_def read_path_def
        Let_def split: param_type.splits if_splits prod.splits
        dest!: strtoll_at_length strtoull_at_length)
qed

lemma piece_is_iff: "pos \<le> length url \<Longrightarrow> piece_is url pos k \<longleftrightarrow> (\<exists>r. drop pos url = k @ r)"
  by (auto simp: piece_is_def) (metis append_take_drop_id)

lemma tok_match_literals:
  "pos \<le> length url \<Longrightarrow> tok_match dbl (map Lit k @ ts) url pos ps =
    (if piece_is url pos k then tok_match dbl ts url (pos + length k) ps else None)"
proof (induction k arbitrary: pos)
  case Nil
  then show ?case by (simp add: piece_is_def)
next
  case (Cons c k)
  show ?case
  proof (cases "pos < length url")
    case True
    then have "drop pos url = url ! pos # drop (Suc pos) url" by (simp add: Cons_nth_drop_Suc)
    then have "piece_is url pos (c # k) \<longleftrightarrow> url ! pos = c \<and> piece_is url (Suc pos) k"
      by (auto simp: piece_is_def)
    with True Cons.IH [of "Suc pos"] show ?thesis by simp
  next
    case False
    then show ?thesis by (simp add: piece_is_def)
  qed
qed

section \<open>The search\<close>

definition candidate ::
  "(bytes \<Rightarrow> 'd \<times> nat \<times> bool) \<Rightarrow> trie \<Rightarrow> bytes \<Rightarrow> nat \<Rightarrow> nat \<Rightarrow> 'd routing_params \<Rightarrow>
   nat \<Rightarrow> 'd routing_params \<Rightarrow> bool"
where
  "candidate dbl t url i pos ps r q \<longleftrightarrow> (\<exists>ts. route t i ts r \<and> tok_match dbl ts url pos ps = Some q)"

text \<open>The least of the rules that are candidates, or 0.\<close>

definition least_rule :: "(nat \<Rightarrow> 'p \<Rightarrow> bool) \<Rightarrow> nat \<times> 'p \<Rightarrow> bool" where
  "least_rule C res \<longleftrightarrow>
     fst res = 0 \<and> (\<forall>r q. \<not> C r q) \<or>
     C (fst res) (snd res) \<and> (\<forall>r q. C r q \<longrightarrow> fst res \<le> r)"

lemma least_rule_update:
  assumes "least_rule C res" and "least_rule D res'" and "\<And>r q. C r q \<or> D r q \<Longrightarrow> r \<noteq> 0"
  shows "least_rule (\<lambda>r q. C r q \<or> D r q) (update_found res res')"
proof (cases "fst res' \<noteq> 0 \<and> (fst res = 0 \<or> fst res' < fst res)")
  case True
  then have "D (fst res') (snd res') \<and> (\<forall>r q. D r q \<longrightarrow> fst res' \<le> r)"
    using assms(2) by (auto simp: least_rule_def)
  moreover have "C r q \<longrightarrow> fst res' \<le> r" for r q
    using True assms(1) assms(3) [of "fst res" "snd res"] by (fastforce simp: least_rule_def)
  ultimately show ?thesis using True by (auto simp: least_rule_def update_found_def)
next
  case False
  then show ?thesis
    using assms(1,2) assms(3) [of "fst res" "snd res"] assms(3) [of "fst res'" "snd res'"]
    by (fastforce simp: least_rule_def update_found_def)
qed

lemma least_rule_foldl:
  assumes "\<And>x. x \<in> set xs \<Longrightarrow> least_rule (D x) (f x)" and "least_rule C res"
    and "\<And>r q x. C r q \<or> D x r q \<Longrightarrow> r \<noteq> 0"
  shows "least_rule (\<lambda>r q. C r q \<or> (\<exists>x \<in> set xs. D x r q)) (foldl update_found res (map f xs))"
  using assms
proof (induction xs arbitrary: C res)
  case (Cons x xs)
  have "least_rule (\<lambda>r q. C r q \<or> D x r q) (update_found res (f x))"
    using Cons.prems by (intro least_rule_update) auto
  from Cons.IH [OF _ this] Cons.prems
  have "least_rule (\<lambda>r q. (C r q \<or> D x r q) \<or> (\<exists>x \<in> set xs. D x r q)) (foldl update_found res (map f (x # xs)))"
    by (simp, blast)
  moreover have "(\<lambda>r q. (C r q \<or> D x r q) \<or> (\<exists>x \<in> set xs. D x r q)) = (\<lambda>r q. C r q \<or> (\<exists>y \<in> set (x # xs). D y r q))"
    by (intro ext) auto
  ultimately show ?case by simp
qed simp

lemma param_types_all: "set param_types = UNIV"
  using param_type.exhaust by (auto simp: param_types_def)

lemma find_moves_iff:
  "mv \<in> set (find_moves dbl nd url pos ps) \<longleftrightarrow>
    (\<exists>ty pos' ps'. param_childrens nd ty \<noteq> 0 \<and> read_param dbl ty url pos ps = Some (pos', ps') \<and>
       mv = (param_childrens nd ty, pos', ps')) \<or>
    (\<exists>k x. (k, x) \<in> set (node_children nd) \<and> piece_is url pos k \<and> mv = (x, pos + length k, ps))"
  unfolding find_moves_def set_append set_concat set_map param_types_all
  by (auto split: option.splits if_splits) force+

lemma candidate_moves:
  assumes "pos < length url"
  shows "candidate dbl t url i pos ps r q \<longleftrightarrow>
    (\<exists>mv \<in> set (find_moves dbl (t ! i) url pos ps). candidate dbl t url (fst mv) (fst (snd mv)) (snd (snd mv)) r q)"
    (is "?L \<longleftrightarrow> ?R")
proof
  assume ?L
  then obtain ts where ts: "route t i ts r" "tok_match dbl ts url pos ps = Some q"
    by (auto simp: candidate_def)
  from ts(1) show ?R
  proof (cases rule: route_cases)
    case here
    with ts(2) assms show ?thesis by simp
  next
    case (param ty ts')
    then obtain pos' ps' where "read_param dbl ty url pos ps = Some (pos', ps')"
      "tok_match dbl ts' url pos' ps' = Some q"
      using ts(2) assms by (auto split: option.splits)
    then show ?thesis
      using param by (intro bexI [of _ "(param_childrens (t ! i) ty, pos', ps')"])
        (auto simp: candidate_def find_moves_iff)
  next
    case (child k x ts')
    with ts(2) assms have "piece_is url pos k" "tok_match dbl ts' url (pos + length k) ps = Some q"
      by (simp_all add: tok_match_literals split: if_splits)
    with child show ?thesis
      by (intro bexI [of _ "(x, pos + length k, ps)"]) (auto simp: candidate_def find_moves_iff)
  qed
next
  assume ?R
  then obtain x pos' ps' ts where mv: "(x, pos', ps') \<in> set (find_moves dbl (t ! i) url pos ps)"
    "route t x ts r" "tok_match dbl ts url pos' ps' = Some q"
    by (auto simp: candidate_def)
  from mv(1) consider (par) ty where "param_childrens (t ! i) ty = x" "x \<noteq> 0" "read_param dbl ty url pos ps = Some (pos', ps')"
    | (child) k where "(k, x) \<in> set (node_children (t ! i))" "piece_is url pos k" "pos' = pos + length k" "ps' = ps"
    by (auto simp: find_moves_iff)
  then show ?L
  proof cases
    case par
    with mv route_param [of t i ty x ts r] assms show ?thesis
      unfolding candidate_def by (intro exI [of _ "Par ty # ts"]) simp
  next
    case child
    with mv route_child [of k x t i ts r] assms show ?thesis
      unfolding candidate_def by (intro exI [of _ "map Lit k @ ts"]) (simp add: tok_match_literals)
  qed
qed

lemma route_Nil_iff:
  assumes "trie_ok t" and "i < length t"
  shows "route t i [] r \<longleftrightarrow> rule_index (t ! i) = r \<and> r \<noteq> 0"
proof
  assume "route t i [] r"
  then show "rule_index (t ! i) = r \<and> r \<noteq> 0"
    using assms by (cases rule: route_cases) (auto simp: trie_ok_def node_ok_def)
qed (auto intro: route_here)

lemma tok_match_end: "tok_match dbl ts url (length url) ps = Some q \<longleftrightarrow> ts = [] \<and> q = ps"
proof (cases ts)
  case (Cons a list)
  then show ?thesis by (cases a) auto
qed auto

lemma find_moves_ok:
  assumes "trie_ok t" and "i < length t" and "strtod_ok dbl" and "pos < length url"
    and "mv \<in> set (find_moves dbl (t ! i) url pos ps)"
  shows "fst mv < length t \<and> pos < fst (snd mv) \<and> fst (snd mv) \<le> length url"
proof -
  have n: "node_ok (length t) i (t ! i)" using assms(1,2) by (simp add: trie_ok_def)
  from assms(5) consider (par) ty ps' pos' where "mv = (param_childrens (t ! i) ty, pos', ps')"
      "param_childrens (t ! i) ty \<noteq> 0" "read_param dbl ty url pos ps = Some (pos', ps')"
    | (child) k x where "(k, x) \<in> set (node_children (t ! i))" "piece_is url pos k" "mv = (x, pos + length k, ps)"
    by (auto simp: find_moves_iff)
  then show ?thesis
  proof cases
    case par
    with n read_param_moves [OF assms(3,4) par(3)] show ?thesis by (simp add: node_ok_def)
  next
    case child
    with piece_is_iff [of pos url k] assms(4) obtain r where "drop pos url = k @ r" by auto
    from arg_cong [OF this, of length] assms(4) have "pos + length k \<le> length url" by simp
    with child n show ?thesis by (auto simp: node_ok_def)
  qed
qed

lemma those_map_Some: "(\<And>x. x \<in> set xs \<Longrightarrow> f x = Some (g x)) \<Longrightarrow> those (map f xs) = Some (map g xs)"
  by (induction xs) auto

lemma trie_find_least:
  assumes "trie_ok t" and "strtod_ok dbl"
  shows "i < length t \<Longrightarrow> pos \<le> length url \<Longrightarrow> length url - pos < n \<Longrightarrow>
    \<exists>res. trie_find n dbl t url i pos ps = Some res \<and> least_rule (candidate dbl t url i pos ps) res"
proof (induction n arbitrary: i pos ps)
  case (Suc n)
  show ?case
  proof (cases "pos = length url")
    case True
    have "candidate dbl t url i pos ps r q \<longleftrightarrow> rule_index (t ! i) = r \<and> r \<noteq> 0 \<and> q = ps" for r q
      using route_Nil_iff [OF assms(1) Suc.prems(1)] True by (auto simp: candidate_def tok_match_end)
    with True show ?thesis by (auto simp: least_rule_def)
  next
    case False
    with Suc.prems have pos: "pos < length url" by simp
    let ?mvs = "find_moves dbl (t ! i) url pos ps"
    let ?f = "\<lambda>mv. trie_find n dbl t url (fst mv) (fst (snd mv)) (snd (snd mv))"
    let ?D = "\<lambda>mv. candidate dbl t url (fst mv) (fst (snd mv)) (snd (snd mv))"
    have "\<exists>res. ?f mv = Some res \<and> least_rule (?D mv) res" if "mv \<in> set ?mvs" for mv
      using find_moves_ok [OF assms(1) Suc.prems(1) assms(2) pos that] Suc.prems(3) by (intro Suc.IH) auto
    then obtain g where g: "\<And>mv. mv \<in> set ?mvs \<Longrightarrow> ?f mv = Some (g mv) \<and> least_rule (?D mv) (g mv)"
      by metis
    then have "trie_find (Suc n) dbl t url i pos ps = Some (foldl update_found (0, no_params) (map g ?mvs))"
      using False those_map_Some [of ?mvs ?f g] by simp
    moreover have "least_rule (\<lambda>r q. False \<or> (\<exists>mv \<in> set ?mvs. ?D mv r q)) (foldl update_found (0, no_params) (map g ?mvs))"
      using g by (intro least_rule_foldl) (auto simp: least_rule_def candidate_def dest: route_rule)
    moreover have "(\<lambda>r q. False \<or> (\<exists>mv \<in> set ?mvs. ?D mv r q)) = candidate dbl t url i pos ps"
      by (intro ext) (simp add: candidate_moves [OF pos])
    ultimately show ?thesis by auto
  qed
qed simp

end
