(* ===== verification/Crow_Routing_Build.thy ===== *)
theory Crow_Routing_Build
  imports Crow_Routing_Search
begin

text \<open>
  Building a trie: what adding a rule does to the routes, that the optimisation keeps them and
  ends, and the rules a router has.
\<close>

section \<open>The tokens of a rule\<close>

lemma param_traits_length: "(ty, nm) \<in> set param_traits \<Longrightarrow> 5 \<le> length nm"
  by (auto simp: param_traits_def)

lemma match_param_drop: "match_param url i = match_param (drop i url) 0"
  by (simp add: match_param_def piece_is_def)

lemma match_param_SomeD:
  assumes "match_param url i = Some (ty, n)"
  obtains nm where "(ty, nm) \<in> set param_traits" "piece_is url i nm" "n = length nm"
proof -
  from assms obtain nm where nm: "find (\<lambda>x. piece_is url i (snd x)) param_traits = Some (ty, nm)" "n = length nm"
    by (auto simp: match_param_def)
  then have "(ty, nm) \<in> set param_traits" "piece_is url i nm"
    unfolding find_Some_iff by (metis nth_mem snd_conv)+
  with nm(2) show ?thesis by (rule that [rotated 2])
qed

lemma match_param_length: "match_param url i = Some (ty, n) \<Longrightarrow> 5 \<le> n \<and> i + n \<le> length url"
proof (erule match_param_SomeD)
  fix nm assume nm: "(ty, nm) \<in> set param_traits" "piece_is url i nm" "n = length nm"
  with param_traits_length have "5 \<le> n" "take n (drop i url) = nm" by (auto simp: piece_is_def)
  from arg_cong [OF this(2), of length] this(1) nm(3) show ?thesis by (auto simp: min_def split: if_splits)
qed

function rule_toks :: "bytes \<Rightarrow> tok list option" where
  "rule_toks [] = Some []"
| "rule_toks (c # cs) =
     (if c = CHR ''<'' then
        (case match_param (c # cs) 0 of
           None \<Rightarrow> None
         | Some (ty, n) \<Rightarrow> map_option ((#) (Par ty)) (rule_toks (drop n (c # cs))))
      else map_option ((#) (Lit c)) (rule_toks cs))"
  by pat_completeness auto

termination by (relation "measure length") (auto dest: match_param_length)

section \<open>Edges and walks\<close>

definition edge :: "trie \<Rightarrow> nat \<Rightarrow> tok list \<Rightarrow> nat \<Rightarrow> bool" where
  "edge t i l j \<longleftrightarrow>
     (\<exists>ty. l = [Par ty] \<and> param_childrens (t ! i) ty = j \<and> j \<noteq> 0) \<or>
     (\<exists>k. l = map Lit k \<and> (k, j) \<in> set (node_children (t ! i)))"

inductive walk :: "trie \<Rightarrow> nat \<Rightarrow> tok list \<Rightarrow> nat \<Rightarrow> bool" for t where
  walk_here: "walk t i [] i"
| walk_edge: "edge t i l j \<Longrightarrow> walk t j ts m \<Longrightarrow> walk t i (l @ ts) m"

lemma walk_trans: "walk t i ts j \<Longrightarrow> walk t j us m \<Longrightarrow> walk t i (ts @ us) m"
  by (induction rule: walk.induct) (auto intro: walk_edge)

lemma walk_snoc: "walk t i ts j \<Longrightarrow> edge t j l m \<Longrightarrow> walk t i (ts @ l) m"
  using walk_trans walk_edge [OF _ walk_here] by fastforce

lemma route_walk: "route t i ts r \<longleftrightarrow> (\<exists>j. walk t i ts j \<and> rule_index (t ! j) = r \<and> r \<noteq> 0)"
proof
  assume "route t i ts r"
  then show "\<exists>j. walk t i ts j \<and> rule_index (t ! j) = r \<and> r \<noteq> 0"
  proof (induction rule: route.induct)
    case (route_param i ty x ts r)
    then show ?case using walk_edge [of t i "[Par ty]" x ts] by (auto simp: edge_def)
  next
    case (route_child k x i ts r)
    then show ?case using walk_edge [of t i "map Lit k" x ts] by (auto simp: edge_def)
  qed (auto intro: walk_here)
next
  assume "\<exists>j. walk t i ts j \<and> rule_index (t ! j) = r \<and> r \<noteq> 0"
  then obtain j where "walk t i ts j" "rule_index (t ! j) = r" "r \<noteq> 0" by blast
  then show "route t i ts r"
    by (induction rule: walk.induct) (auto simp: edge_def intro: route_here route_param route_child)
qed

lemma edge_bounds: "trie_ok t \<Longrightarrow> i < length t \<Longrightarrow> edge t i l j \<Longrightarrow> i < j \<and> j < length t \<and> l \<noteq> []"
  by (auto simp: edge_def trie_ok_def node_ok_def)

lemma walk_bounds: "walk t i ts j \<Longrightarrow> trie_ok t \<Longrightarrow> i < length t \<Longrightarrow> j < length t"
  by (induction rule: walk.induct) (auto dest: edge_bounds)

text \<open>The tokens determine the node: no key of a table is a prefix of another.\<close>

lemma edge_det:
  assumes "node_ok n i (t ! i)" and "edge t i l j" and "edge t i l' j'" and "l @ ts = l' @ ts'"
  shows "l = l' \<and> j = j'"
proof -
  have lits: "map Lit k @ ts = map Lit k' @ ts' \<Longrightarrow> prefix k k' \<or> prefix k' k" for k k' and ts ts' :: "tok list"
    by (induction k k' rule: list_induct2') auto
  consider (par) ty where "l = [Par ty]" "param_childrens (t ! i) ty = j"
    | (lit) k where "l = map Lit k" "(k, j) \<in> set (node_children (t ! i))"
    using assms(2) by (auto simp: edge_def)
  then show ?thesis
  proof cases
    case par
    with assms(1,3,4) show ?thesis by (auto simp: edge_def node_ok_def Cons_eq_append_conv)
  next
    case lit
    with assms(1) have "k \<noteq> []" by (auto simp: node_ok_def)
    with assms(3,4) lit obtain k' where k': "l' = map Lit k'" "(k', j') \<in> set (node_children (t ! i))"
      by (auto simp: edge_def) (metis append_Cons hd_append2 hd_map list.map_disc_iff list.sel(1) tok.distinct(1))
    then have "prefix k k' \<or> prefix k' k" using lits [of k ts k' ts'] assms(4) lit(1) by simp
    moreover have "k \<in> fst ` set (node_children (t ! i))" "k' \<in> fst ` set (node_children (t ! i))"
      using lit(2) k'(2) by (auto intro: rev_image_eqI)
    ultimately have "k = k'" using assms(1) unfolding node_ok_def prefix_free_def by metis
    moreover have "distinct (map fst (node_children (t ! i)))"
      using assms(1) by (simp add: node_ok_def prefix_free_def)
    ultimately show ?thesis using lit k' by (auto dest: eq_key_imp_eq_value)
  qed
qed

lemma walk_det:
  assumes "trie_ok t"
  shows "walk t i ts j \<Longrightarrow> i < length t \<Longrightarrow> walk t i ts j' \<Longrightarrow> j = j'"
proof (induction arbitrary: j' rule: walk.induct)
  case (walk_here i)
  from walk_here(2) show ?case
    using edge_bounds [OF assms walk_here(1)] by (cases rule: walk.cases) auto
next
  case (walk_edge i l j ts m)
  have l: "l \<noteq> []" "j < length t" using edge_bounds [OF assms walk_edge.prems(1) walk_edge.hyps(1)] by simp_all
  from walk_edge.prems(2) show ?case
  proof (cases rule: walk.cases)
    case walk_here
    with l show ?thesis by simp
  next
    case (walk_edge l' x ts')
    from edge_det [OF _ \<open>edge t i l j\<close> walk_edge(2), of "length t" ts ts'] assms walk_edge.prems(1) walk_edge(1)
    have "l = l'" "j = x" by (simp_all add: trie_ok_def)
    with walk_edge walk_edge.IH l show ?thesis by simp
  qed
qed

section \<open>Tries that are being built\<close>

definition unique_walks :: "trie \<Rightarrow> bool" where
  "unique_walks t \<longleftrightarrow> (\<forall>ts us j. walk t 0 ts j \<longrightarrow> walk t 0 us j \<longrightarrow> ts = us)"

definition built :: "trie \<Rightarrow> bool" where
  "built t \<longleftrightarrow> trie_ok t \<and> unique_walks t \<and>
     (\<forall>i < length t. \<forall>(k, y) \<in> set (node_children (t ! i)). length k = 1)"

text \<open>A node more, hung below the node \<open>idx\<close> by one token.\<close>

definition attached :: "trie \<Rightarrow> nat \<Rightarrow> tok \<Rightarrow> trie \<Rightarrow> bool" where
  "attached t idx x t' \<longleftrightarrow>
     length t' = Suc (length t) \<and> rule_index (t' ! length t) = 0 \<and>
     (\<forall>i < length t. rule_index (t' ! i) = rule_index (t ! i)) \<and>
     (\<forall>i l j. i \<le> length t \<longrightarrow>
        (edge t' i l j \<longleftrightarrow> i < length t \<and> edge t i l j \<or> i = idx \<and> l = [x] \<and> j = length t))"

lemma attached_walk:
  assumes "attached t idx x t'" and "trie_ok t" and "idx < length t"
  shows "walk t' i ts j \<Longrightarrow> i \<le> length t \<Longrightarrow>
    (if i < length t
     then j < length t \<and> walk t i ts j \<or> j = length t \<and> (\<exists>us. ts = us @ [x] \<and> walk t i us idx)
     else ts = [] \<and> j = length t)"
proof (induction rule: walk.induct)
  case (walk_here i)
  then show ?case by (auto intro: walk.walk_here)
next
  case (walk_edge i l j ts m)
  from assms(1) walk_edge.hyps(1) walk_edge.prems
  have e: "i < length t \<and> edge t i l j \<or> i = idx \<and> l = [x] \<and> j = length t"
    by (auto simp: attached_def)
  show ?case
  proof (cases "i < length t \<and> edge t i l j")
    case True
    with edge_bounds [OF assms(2)] have "j < length t" by blast
    with walk_edge.IH consider "m < length t" "walk t j ts m"
      | us where "m = length t" "ts = us @ [x]" "walk t j us idx" by auto
    then show ?thesis
    proof cases
      case 1
      with True show ?thesis by (auto intro: walk.walk_edge)
    next
      case 2
      with True walk.walk_edge [of t i l j us idx] have "l @ ts = (l @ us) @ [x]" "walk t i (l @ us) idx" by auto
      with True 2(1) show ?thesis by metis
    qed
  next
    case False
    with e walk_edge.IH assms(3) show ?thesis
      by (auto intro: walk.walk_here)
  qed
qed

lemma attached_keeps:
  assumes "attached t idx x t'" and "trie_ok t"
  shows "walk t i ts j \<Longrightarrow> i < length t \<Longrightarrow> walk t' i ts j"
proof (induction rule: walk.induct)
  case (walk_edge i l j ts m)
  with edge_bounds [OF assms(2)] have "j < length t" by blast
  with walk_edge assms(1) show ?case by (auto simp: attached_def intro: walk.walk_edge)
qed (rule walk.walk_here)

text \<open>How a trie may grow: the routes stay, and there are no new ones yet.\<close>

definition grows :: "trie \<Rightarrow> trie \<Rightarrow> bool" where
  "grows t t' \<longleftrightarrow> built t' \<and> length t \<le> length t' \<and>
     (\<forall>j < length t. rule_index (t' ! j) = rule_index (t ! j) \<and> (\<forall>ts. walk t' 0 ts j \<longleftrightarrow> walk t 0 ts j)) \<and>
     (\<forall>j. length t \<le> j \<and> j < length t' \<longrightarrow> rule_index (t' ! j) = 0)"

lemma grows_refl: "built t \<Longrightarrow> grows t t"
  by (simp add: grows_def)

lemma grows_trans:
  assumes "grows t u" and "grows u v"
  shows "grows t v"
proof -
  have "rule_index (v ! j) = 0" if "length t \<le> j" "j < length v" for j
    using assms that by (cases "j < length u") (auto simp: grows_def)
  with assms show ?thesis by (auto simp: grows_def)
qed

lemma grows_route:
  assumes "grows t t'" and "trie_ok t"
  shows "route t' 0 ts r \<longleftrightarrow> route t 0 ts r"
proof -
  have t': "trie_ok t'" "0 < length t'" "0 < length t"
    using assms by (auto simp: grows_def built_def trie_ok_def)
  have "j < length t" if "walk t' 0 ts j" "rule_index (t' ! j) \<noteq> 0" for j
    using walk_bounds [OF that(1) t'(1,2)] that(2) assms(1) by (metis grows_def not_le)
  with assms(1) walk_bounds [OF _ assms(2) t'(3)] show ?thesis
    unfolding route_walk grows_def by metis
qed

lemma attached_grows:
  assumes a: "attached t idx x t'" and b: "built t" and idx: "idx < length t" and b': "trie_ok t'"
    "\<forall>i < length t'. \<forall>(k, y) \<in> set (node_children (t' ! i)). length k = 1"
  shows "grows t t'" and "walk t 0 ts idx \<Longrightarrow> walk t' 0 (ts @ [x]) (length t)"
proof -
  have t: "trie_ok t" "0 < length t" "unique_walks t" using b by (auto simp: built_def trie_ok_def)
  have w: "walk t' 0 ts j \<longleftrightarrow>
      j < length t \<and> walk t 0 ts j \<or> j = length t \<and> (\<exists>us. ts = us @ [x] \<and> walk t 0 us idx)" for ts j
  proof
    assume "walk t' 0 ts j"
    from attached_walk [OF a t(1) idx this] t(2)
    show "j < length t \<and> walk t 0 ts j \<or> j = length t \<and> (\<exists>us. ts = us @ [x] \<and> walk t 0 us idx)" by simp
  next
    assume "j < length t \<and> walk t 0 ts j \<or> j = length t \<and> (\<exists>us. ts = us @ [x] \<and> walk t 0 us idx)"
    moreover have "edge t' idx [x] (length t)" using a idx by (auto simp: attached_def)
    ultimately show "walk t' 0 ts j"
      using attached_keeps [OF a t(1) _ t(2)] walk_snoc by blast
  qed
  have "unique_walks t'" using t(3) unfolding unique_walks_def w by (metis less_irrefl)
  with b' have "built t'" by (simp add: built_def)
  with a w show "grows t t'" by (auto simp: grows_def attached_def less_Suc_eq)
  show "walk t 0 ts idx \<Longrightarrow> walk t' 0 (ts @ [x]) (length t)" using w by blast
qed

lemma empty_node_edge: "t ! i = empty_node \<Longrightarrow> \<not> edge t i l j"
  by (auto simp: edge_def empty_node_def)

lemma built_node: "built t \<Longrightarrow> i < length t \<Longrightarrow> node_ok (length t) i (t ! i)"
  by (simp add: built_def trie_ok_def)

text \<open>Hanging a new node below \<open>idx\<close>, whose node becomes \<open>nd\<close>.\<close>

lemma hang_node:
  assumes b: "built t" and idx: "idx < length t" and t': "t' = (t @ [empty_node])[idx := nd]"
    and r: "rule_index nd = rule_index (t ! idx)"
    and e: "\<And>l j. edge t' idx l j \<longleftrightarrow> edge t idx l j \<or> l = [x] \<and> j = length t"
    and ok: "node_ok (Suc (length t)) idx nd" "\<forall>(k, y) \<in> set (node_children nd). length k = 1"
  shows "grows t t'" and "walk t 0 ts idx \<Longrightarrow> walk t' 0 (ts @ [x]) (length t)" and "length t < length t'"
proof -
  have nth: "t' ! i = (if i = idx then nd else if i = length t then empty_node else t ! i)" if "i \<le> length t" for i
    using that idx by (auto simp: t' nth_list_update nth_append)
  have same: "edge t' i l j \<longleftrightarrow> edge t i l j" if "i < length t" "i \<noteq> idx" for i l j
    using nth [of i] that by (simp add: edge_def)
  have "edge t' i l j \<longleftrightarrow> i < length t \<and> edge t i l j \<or> i = idx \<and> l = [x] \<and> j = length t"
    if "i \<le> length t" for i l j
    using that nth [of "length t"] e same [of i l j] idx empty_node_edge [of t' "length t"] by (cases "i = length t") auto
  moreover have lt: "length t' = Suc (length t)" by (simp add: t')
  moreover have "rule_index (t' ! length t) = 0" "\<forall>i < length t. rule_index (t' ! i) = rule_index (t ! i)"
    using nth r idx by (auto simp: empty_node_def)
  ultimately have a: "attached t idx x t'" by (simp add: attached_def)
  have "node_ok (length t') i (t' ! i)" if "i < length t'" for i
  proof -
    have "i \<le> length t" using that by (simp add: lt)
    then consider "i = idx" | "i = length t" "i \<noteq> idx" | "i < length t" "i \<noteq> idx"
      by (metis le_neq_implies_less)
    then show ?thesis
    proof cases
      case 3
      with built_node [OF b, of i] nth [of i] show ?thesis by (auto simp: lt node_ok_def less_Suc_eq)
    qed (use nth [of i] ok idx in \<open>auto simp: lt empty_node_def node_ok_def prefix_free_def\<close>)
  qed
  then have 1: "trie_ok t'" using lt by (auto simp: trie_ok_def)
  have 2: "\<forall>i < length t'. \<forall>(k, y) \<in> set (node_children (t' ! i)). length k = 1"
  proof (intro allI impI)
    fix i assume "i < length t'"
    then show "\<forall>(k, y) \<in> set (node_children (t' ! i)). length k = 1"
      using nth [of i] ok(2) b idx lt
      by (cases "i = length t") (auto simp: built_def empty_node_def less_Suc_eq split: if_splits)
  qed
  from attached_grows [OF a b idx 1 2] show "grows t t'" "walk t 0 ts idx \<Longrightarrow> walk t' 0 (ts @ [x]) (length t)" .
  show "length t < length t'" by (simp add: lt)
qed

lemma param_step_grows:
  assumes b: "built t" and idx: "idx < length t" and w: "walk t 0 ts idx"
    and step: "param_step ty idx t = (idx', t')"
  shows "grows t t' \<and> idx' < length t' \<and> walk t' 0 (ts @ [Par ty]) idx' \<and>
    0 < idx' \<and> (0 < idx \<longrightarrow> t' ! 0 = t ! 0)"
proof (cases "param_childrens (t ! idx) ty = 0")
  case False
  with step have t': "t' = t" "idx' = param_childrens (t ! idx) ty" by (auto simp: param_step_def)
  with False have e: "edge t idx [Par ty] idx'" by (simp add: edge_def)
  with edge_bounds [OF _ idx e] b walk_snoc [OF w e] grows_refl [OF b] show ?thesis
    by (auto simp: t' built_def)
next
  case True
  let ?nd = "(t ! idx)\<lparr>param_childrens := (param_childrens (t ! idx))(ty := length t)\<rparr>"
  have t': "t' = (t @ [empty_node])[idx := ?nd]" "idx' = length t"
    using step True idx by (auto simp: param_step_def)
  have "edge t' idx l j \<longleftrightarrow> edge t idx l j \<or> l = [Par ty] \<and> j = length t" for l j
    using True idx by (auto simp: edge_def t')
  moreover have "node_ok (Suc (length t)) idx ?nd"
    using built_node [OF b idx] idx by (auto simp: node_ok_def less_Suc_eq)
  moreover have "\<forall>(k, y) \<in> set (node_children ?nd). length k = 1" using b idx by (simp add: built_def)
  ultimately show ?thesis
    using hang_node [OF b idx t'(1), of "Par ty"] w t' idx by (auto simp: nth_append)
qed

lemma piece_step_grows:
  assumes b: "built t" and idx: "idx < length t" and w: "walk t 0 ts idx"
    and step: "piece_step c idx t = (idx', t')"
  shows "grows t t' \<and> idx' < length t' \<and> walk t' 0 (ts @ [Lit c]) idx' \<and>
    0 < idx' \<and> (0 < idx \<longrightarrow> t' ! 0 = t ! 0) \<and> param_childrens (t' ! 0) = param_childrens (t ! 0) \<and>
    rule_index (t' ! 0) = rule_index (t ! 0)"
proof (cases "map_of (node_children (t ! idx)) [c]")
  case (Some y)
  with step have t': "t' = t" "idx' = y" by (auto simp: piece_step_def)
  from map_of_SomeD [OF Some] have e: "edge t idx [Lit c] y"
    unfolding edge_def by (intro disjI2 exI [of _ "[c]"]) simp
  with edge_bounds [OF _ idx e] b walk_snoc [OF w e] grows_refl [OF b] show ?thesis
    by (auto simp: t' built_def)
next
  case None
  let ?kvs = "node_children (t ! idx)"
  let ?nd = "(t ! idx)\<lparr>node_children := ?kvs @ [([c], length t)]\<rparr>"
  have t': "t' = (t @ [empty_node])[idx := ?nd]" "idx' = length t"
    using step None idx by (auto simp: piece_step_def map_add_def)
  have e: "edge t' idx l j \<longleftrightarrow> edge t idx l j \<or> l = [Lit c] \<and> j = length t" for l j
    using idx by (auto simp: edge_def t') (metis list.simps(8,9))
  have one: "\<forall>(k, y) \<in> set ?kvs. length k = 1" using b idx by (simp add: built_def)
  have "prefix_free (?kvs @ [([c], length t)])"
  proof -
    have new: "[c] \<notin> fst ` set ?kvs" using None by (simp add: map_of_eq_None_iff)
    have k1: "length k = 1" if "k \<in> fst ` set (?kvs @ [([c], length t)])" for k using one that by auto
    have "prefix k k' \<longrightarrow> k = k'" if "k \<in> fst ` set (?kvs @ [([c], length t)])"
      "k' \<in> fst ` set (?kvs @ [([c], length t)])" for k k'
      using k1 [OF that(1)] k1 [OF that(2)] by (auto simp: prefix_def)
    moreover have "prefix_free ?kvs" using built_node [OF b idx] by (simp add: node_ok_def)
    then have "distinct (map fst (?kvs @ [([c], length t)]))" using new by (simp add: prefix_free_def)
    ultimately show ?thesis unfolding prefix_free_def by blast
  qed
  then have "node_ok (Suc (length t)) idx ?nd"
    using built_node [OF b idx] idx by (auto simp: node_ok_def less_Suc_eq)
  moreover have "\<forall>(k, y) \<in> set (node_children ?nd). length k = 1" using one by simp
  ultimately show ?thesis
    using hang_node [OF b idx t'(1) _ e] w t' idx
    by (cases "idx = 0") (auto simp: nth_append)
qed

section \<open>Adding a rule\<close>

lemma add_loop_grows:
  "rule_toks (drop i url) = Some toks \<Longrightarrow> i \<le> length url \<Longrightarrow> built t \<Longrightarrow> idx < length t \<Longrightarrow> walk t 0 ts idx \<Longrightarrow>
   \<exists>idx' t'. add_loop url i idx t = Some (idx', t') \<and> grows t t' \<and> idx' < length t' \<and>
     walk t' 0 (ts @ toks) idx' \<and> (0 < idx \<longrightarrow> 0 < idx' \<and> t' ! 0 = t ! 0)"
proof (induction "length url - i" arbitrary: i idx t ts toks rule: less_induct)
  case less
  show ?case
  proof (cases "i < length url")
    case False
    with less.prems show ?thesis by (subst add_loop.simps) (simp add: grows_refl)
  next
    case True
    let ?c = "url ! i"
    have d: "drop i url = ?c # drop (Suc i) url" using True by (simp add: Cons_nth_drop_Suc)
    show ?thesis
    proof (cases "?c = CHR ''<''")
      case False
      with less.prems(1) d obtain toks' where toks: "rule_toks (drop (Suc i) url) = Some toks'" "toks = Lit ?c # toks'"
        by auto
      obtain idx' t' where step: "piece_step ?c idx t = (idx', t')" by fastforce
      from piece_step_grows [OF less.prems(3-5) step]
      have g: "grows t t'" "idx' < length t'" "walk t' 0 (ts @ [Lit ?c]) idx'" "0 < idx'"
        "0 < idx \<longrightarrow> t' ! 0 = t ! 0" by simp_all
      then have "built t'" by (simp add: grows_def)
      with less.hyps [OF _ toks(1) _ _ g(2,3)] True obtain idx'' t'' where
        "add_loop url (Suc i) idx' t' = Some (idx'', t'')" "grows t' t''" "idx'' < length t''"
        "walk t'' 0 ((ts @ [Lit ?c]) @ toks') idx''" "0 < idx''" "t'' ! 0 = t' ! 0" using g(4) by fastforce
      with grows_trans [OF g(1)] g(5) toks(2) step False True show ?thesis
        by (subst add_loop.simps) simp
    next
      case lt: True
      with less.prems(1) d obtain ty n toks' where m: "match_param (drop i url) 0 = Some (ty, n)"
        and toks: "rule_toks (drop n (drop i url)) = Some toks'" "toks = Par ty # toks'"
        by (auto split: option.splits)
      from m have m': "match_param url i = Some (ty, n)" using match_param_drop [of url i] by simp
      from match_param_length [OF this] have n: "5 \<le> n" "i + n \<le> length url" by simp_all
      obtain idx' t' where step: "param_step ty idx t = (idx', t')" by fastforce
      from param_step_grows [OF less.prems(3-5) step]
      have g: "grows t t'" "idx' < length t'" "walk t' 0 (ts @ [Par ty]) idx'" "0 < idx'"
        "0 < idx \<longrightarrow> t' ! 0 = t ! 0" by simp_all
      then have "built t'" by (simp add: grows_def)
      moreover have "length url - (i + n) < length url - i" using n by linarith
      moreover have "rule_toks (drop (i + n) url) = Some toks'" using toks(1) by (simp add: add.commute)
      ultimately obtain idx'' t'' where
        "add_loop url (i + n) idx' t' = Some (idx'', t'')" "grows t' t''" "idx'' < length t''"
        "walk t'' 0 ((ts @ [Par ty]) @ toks') idx''" "0 < idx''" "t'' ! 0 = t' ! 0"
        using less.hyps [of "i + n" toks' t' idx' "ts @ [Par ty]"] g n by blast
      with grows_trans [OF g(1)] g(5) toks(2) step lt m' True show ?thesis
        by (subst add_loop.simps) simp
    qed
  qed
qed

lemma add_loop_returns:
  "add_loop url i idx t = Some y \<Longrightarrow> rule_toks (drop i url) \<noteq> None"
proof (induction rule: add_loop.raw_induct [rotated 1, consumes 1])
  case (1 f url i idx t y)
  show ?case
  proof (cases "i < length url")
    case True
    then have d: "drop i url = url ! i # drop (Suc i) url" by (simp add: Cons_nth_drop_Suc)
    show ?thesis
    proof (cases "url ! i = CHR ''<''")
      case False
      with 1(2) True have "\<exists>idx' t'. f url (Suc i) idx' t' = Some y" by (auto split: prod.splits)
      with 1(1) have "rule_toks (drop (Suc i) url) \<noteq> None" by blast
      with d False show ?thesis by simp
    next
      case lt: True
      show ?thesis
      proof (cases "match_param url i")
        case None
        with 1(2) True lt have "f url i idx t = Some y" by simp
        with 1(1) show ?thesis by blast
      next
        case (Some p)
        obtain ty n where p: "p = (ty, n)" by fastforce
        with 1(2) True lt Some have "\<exists>idx' t'. f url (i + n) idx' t' = Some y" by (auto split: prod.splits)
        with 1(1) have "rule_toks (drop (i + n) url) \<noteq> None" by blast
        moreover have "match_param (drop i url) 0 = Some (ty, n)" using Some p match_param_drop [of url i] by simp
        moreover have "drop (i + n) url = drop n (drop i url)" by (simp add: add.commute)
        ultimately show ?thesis using d lt by auto
      qed
    qed
  qed simp
qed

lemma new_trie_built: "built new_trie"
proof -
  have "walk new_trie 0 ts j \<Longrightarrow> ts = []" for ts j
    by (cases rule: walk.cases) (auto simp: empty_node_edge new_trie_def)
  then show ?thesis
    by (auto simp: built_def unique_walks_def trie_ok_def node_ok_def new_trie_def empty_node_def prefix_free_def)
qed

text \<open>Setting the rule of a node.\<close>

lemma set_rule:
  assumes b: "built t" and w: "walk t 0 toks idx" and idx: "idx < length t" "rule_index (t ! idx) = 0" and r: "r \<noteq> 0"
  defines "t' \<equiv> t[idx := (t ! idx)\<lparr>rule_index := r\<rparr>]"
  shows "built t'" and "route t' 0 ts r' \<longleftrightarrow> route t 0 ts r' \<or> ts = toks \<and> r' = r" and "length t' = length t"
proof -
  have nth: "t' ! i = (if i = idx then (t ! idx)\<lparr>rule_index := r\<rparr> else t ! i)" for i
    using idx by (simp add: t'_def)
  have e: "edge t' i l j \<longleftrightarrow> edge t i l j" for i l j
    by (simp add: edge_def nth)
  have "walk t' i us j" if "walk t i us j" for i us j
    using that by (induction rule: walk.induct) (auto intro: walk.intros simp: e)
  moreover have "walk t i us j" if "walk t' i us j" for i us j
    using that by (induction rule: walk.induct) (auto intro: walk.intros simp: e)
  ultimately have ww: "walk t' i us j \<longleftrightarrow> walk t i us j" for i us j by blast
  have n: "node_ok (length t) i (t ! i)" if "i < length t" for i by (rule built_node [OF b that])
  have len: "length t' = length t" by (simp add: t'_def)
  have "node_ok (length t') i (t' ! i)" if "i < length t'" for i
    using that n [of i] nth [of i] len by (cases "i = idx") (simp_all add: node_ok_def)
  moreover have "\<forall>i < length t'. \<forall>(k, y) \<in> set (node_children (t' ! i)). length k = 1"
    using b by (simp add: built_def nth len)
  moreover have "t' \<noteq> []" using len idx by auto
  ultimately show "built t'" using b by (simp add: built_def trie_ok_def unique_walks_def ww)
  have t: "trie_ok t" "0 < length t" "unique_walks t" using b by (auto simp: built_def trie_ok_def)
  show "route t' 0 ts r' \<longleftrightarrow> route t 0 ts r' \<or> ts = toks \<and> r' = r"
  proof -
    have "rule_index (t' ! j) = (if j = idx then r else rule_index (t ! j))" if "walk t 0 ts j" for j
      by (simp add: nth)
    moreover have "walk t 0 ts idx \<longleftrightarrow> ts = toks" using w t(3) by (auto simp: unique_walks_def)
    ultimately show ?thesis unfolding route_walk ww using idx(2) r by (metis (no_types, lifting))
  qed
  show "length t' = length t" by (simp add: t'_def)
qed

text \<open>A rule that parses is added to the routes, or refused when they hold it already; a rule with
  an unknown parameter never ends.\<close>

lemma trie_add_result:
  assumes "built t" and "r \<noteq> 0"
  shows "case rule_toks url of
      None \<Rightarrow> trie_add url r t = None
    | Some toks \<Rightarrow>
        if \<exists>r'. route t 0 toks r' then \<exists>t'. trie_add url r t = Some (Rule_exists (''handler already exists for '' @ url) t')
        else \<exists>t'. trie_add url r t = Some (Added t') \<and> built t' \<and>
          (\<forall>ts r'. route t' 0 ts r' \<longleftrightarrow> route t 0 ts r' \<or> ts = toks \<and> r' = r)"
proof (cases "rule_toks url")
  case None
  then have "add_loop url 0 0 t = None" using add_loop_returns [of url 0 0 t] by (cases "add_loop url 0 0 t") auto
  with None show ?thesis by (simp add: trie_add_def)
next
  case (Some toks)
  have t: "trie_ok t" "0 < length t" using assms by (auto simp: built_def trie_ok_def)
  obtain idx t' where l: "add_loop url 0 0 t = Some (idx, t')" "grows t t'" "idx < length t'" "walk t' 0 toks idx"
    using add_loop_grows [of 0 url toks t 0 "[]"] Some assms(1) t(2) walk_here by fastforce
  have b': "built t'" using l(2) by (simp add: grows_def)
  have "j = idx" if "walk t' 0 toks j" for j
    using walk_det [OF _ l(4) _ that] b' by (auto simp: built_def trie_ok_def)
  then have "(\<exists>r'. route t' 0 toks r') \<longleftrightarrow> rule_index (t' ! idx) \<noteq> 0"
    using l(4) unfolding route_walk by metis
  then have "(\<exists>r'. route t 0 toks r') \<longleftrightarrow> rule_index (t' ! idx) \<noteq> 0"
    using grows_route [OF l(2) t(1)] by simp
  then show ?thesis
    using Some l(1) set_rule [OF b' l(4,3) _ assms(2)] grows_route [OF l(2) t(1)]
    by (auto simp: trie_add_def)
qed

text \<open>A rule that begins with a character leaves the head of the trie simple.\<close>

lemma trie_add_head:
  assumes b: "built t" and toks: "rule_toks url = Some (Lit c # toks)" and added: "trie_add url r t = Some (Added t')"
    and simple: "IsSimpleNode (t ! 0)"
  shows "IsSimpleNode (t' ! 0)"
proof -
  have t: "0 < length t" using b by (auto simp: built_def trie_ok_def)
  obtain d cs where url: "url = d # cs" using toks by (cases url) auto
  with toks have d: "d \<noteq> CHR ''<''" "d = c" and cs: "rule_toks cs = Some toks"
    by (auto split: if_splits option.splits)
  obtain idx u where step: "piece_step c 0 t = (idx, u)" by fastforce
  from piece_step_grows [OF b t walk_here step]
  have g: "grows t u" "idx < length u" "walk u 0 ([] @ [Lit c]) idx" "0 < idx"
    "param_childrens (u ! 0) = param_childrens (t ! 0)" "rule_index (u ! 0) = rule_index (t ! 0)" by simp_all
  then have "built u" by (simp add: grows_def)
  from add_loop_grows [of 1 url toks u idx "[] @ [Lit c]", OF _ _ this g(2,3)] cs url g(4)
  obtain idx' v where v: "add_loop url 1 idx u = Some (idx', v)" "0 < idx'" "v ! 0 = u ! 0" by auto
  have "add_loop url 0 0 t = add_loop url 1 idx u"
    using url d step by (subst add_loop.simps) simp
  with added v have "t' ! 0 = v ! 0" by (auto simp: trie_add_def split: if_splits)
  with v(3) g(5,6) simple show ?thesis by (simp add: IsSimpleNode_def)
qed

end
