(* ===== verification/Crow_Routing_Optimise.thy ===== *)
theory Crow_Routing_Optimise
  imports Crow_Routing_Build
begin

text \<open>
  \<^verbatim>\<open>Trie::optimize\<close>: merging tables of children keeps the routes, and the recursion ends
  within the fuel it is given.
\<close>

section \<open>The merged table\<close>

definition joined :: "trie \<Rightarrow> (bytes \<times> nat) list \<Rightarrow> (bytes \<times> nat) list" where
  "joined t kvs = concat (map (\<lambda>(k, x). map (\<lambda>(k', y). (k @ k', y)) (node_children (t ! x))) kvs)"

lemma update_new: "k \<notin> fst ` set al \<Longrightarrow> AList.update k v al = al @ [(k, v)]"
  by (induction al) auto

lemma fold_update_new:
  "distinct (map fst (acc @ kvs)) \<Longrightarrow> fold (\<lambda>(k, v) acc. AList.update k v acc) kvs acc = acc @ kvs"
  by (induction kvs arbitrary: acc) (auto simp: update_new)

lemma merged_children_fold:
  "merged_children t kvs acc = fold (\<lambda>(k, v) acc. AList.update k v acc) (joined t kvs) acc"
proof (induction t kvs acc rule: merged_children.induct)
  case (2 t k x kvs acc)
  have "fold (\<lambda>(k', y) acc. AList.update (k @ k') y acc) cs acc =
      fold (\<lambda>(k, v) acc. AList.update k v acc) (map (\<lambda>(k', y). (k @ k', y)) cs) acc" for cs
    by (induction cs arbitrary: acc) auto
  with 2 show ?case by (simp add: joined_def)
qed (simp add: joined_def)

lemma prefix_append_cases: "prefix (k @ l) (k' @ l') \<Longrightarrow> prefix k k' \<or> prefix k' k"
  by (metis prefix_def prefix_same_cases append_prefixD)

lemma joined_mem: "(m, y) \<in> set (joined t kvs) \<longleftrightarrow>
    (\<exists>k x k'. (k, x) \<in> set kvs \<and> (k', y) \<in> set (node_children (t ! x)) \<and> m = k @ k')"
  by (force simp: joined_def)

lemma prefix_free_Cons:
  "prefix_free ((k, x) # kvs) \<longleftrightarrow>
    (\<forall>k' \<in> fst ` set kvs. \<not> prefix k k' \<and> \<not> prefix k' k) \<and> prefix_free kvs"
  by (auto simp: prefix_free_def)

lemma prefix_free_append:
  "prefix_free xs \<Longrightarrow> prefix_free ys \<Longrightarrow>
   (\<And>k k'. k \<in> fst ` set xs \<Longrightarrow> k' \<in> fst ` set ys \<Longrightarrow> \<not> prefix k k' \<and> \<not> prefix k' k) \<Longrightarrow> prefix_free (xs @ ys)"
proof (induction xs)
  case (Cons x xs)
  obtain k y where x: "x = (k, y)" by fastforce
  have "prefix_free (xs @ ys)" using Cons x by (simp add: prefix_free_Cons)
  moreover have "\<forall>k' \<in> fst ` set (xs @ ys). \<not> prefix k k' \<and> \<not> prefix k' k"
    using Cons.prems(1,3) x by (simp add: prefix_free_Cons ball_Un)
  ultimately show ?case by (simp add: x prefix_free_Cons)
qed simp

lemma prefix_free_prepend: "prefix_free kvs \<Longrightarrow> prefix_free (map (\<lambda>(k', y). (k @ k', y)) kvs)"
  by (induction kvs) (auto simp: prefix_free_Cons, auto simp: prefix_free_def)

lemma prefix_free_joined:
  "prefix_free kvs \<Longrightarrow> (\<And>k x. (k, x) \<in> set kvs \<Longrightarrow> prefix_free (node_children (t ! x))) \<Longrightarrow>
   prefix_free (joined t kvs)"
proof (induction kvs)
  case (Cons kv kvs)
  obtain k x where kv: "kv = (k, x)" by fastforce
  let ?here = "map (\<lambda>(k', y). (k @ k', y)) (node_children (t ! x))"
  have "\<not> prefix m m' \<and> \<not> prefix m' m" if "m \<in> fst ` set ?here" "m' \<in> fst ` set (joined t kvs)" for m m'
  proof -
    from that obtain l k' l' where m: "m = k @ l" "m' = k' @ l'" "k' \<in> fst ` set kvs"
      by (auto simp: joined_mem) (metis fst_conv image_eqI)
    with Cons.prems(1) kv have "\<not> prefix k k' \<and> \<not> prefix k' k" by (auto simp: prefix_free_Cons)
    with m prefix_append_cases show ?thesis by blast
  qed
  moreover have "prefix_free ?here" using Cons.prems kv by (intro prefix_free_prepend) auto
  moreover have "prefix_free (joined t kvs)" using Cons kv by (auto simp: prefix_free_Cons)
  ultimately show ?case using prefix_free_append [of ?here "joined t kvs"] by (simp add: joined_def kv)
qed (simp add: joined_def prefix_free_def)

lemma merged_children_joined:
  "prefix_free (joined t kvs) \<Longrightarrow> merged_children t kvs [] = joined t kvs"
  by (simp add: merged_children_fold fold_update_new prefix_free_def)

section \<open>One merge\<close>

definition merge_node :: "nat \<Rightarrow> trie \<Rightarrow> trie" where
  "merge_node i t = t[i := (t ! i)\<lparr>node_children := merged_children t (node_children (t ! i)) []\<rparr>]"

lemma IsSimpleNode_iff: "IsSimpleNode nd \<longleftrightarrow> rule_index nd = 0 \<and> (\<forall>ty. param_childrens nd ty = 0)"
  by (auto simp: IsSimpleNode_def list_all_iff param_types_all)

lemma trie_ok_node: "trie_ok t \<Longrightarrow> i < length t \<Longrightarrow> node_ok (length t) i (t ! i)"
  by (simp add: trie_ok_def)

lemma trie_ok_child:
  "trie_ok t \<Longrightarrow> i < length t \<Longrightarrow> (k, x) \<in> set (node_children (t ! i)) \<Longrightarrow> k \<noteq> [] \<and> i < x \<and> x < length t"
  using trie_ok_node [of t i] by (auto simp: node_ok_def)

lemma trie_ok_prefix_free: "trie_ok t \<Longrightarrow> i < length t \<Longrightarrow> prefix_free (node_children (t ! i))"
  using trie_ok_node [of t i] by (simp add: node_ok_def)

lemma merge_node_eq:
  assumes ok: "trie_ok t" and i: "i < length t"
  defines "kvs \<equiv> joined t (node_children (t ! i))"
  shows "merge_node i t = t[i := (t ! i)\<lparr>node_children := kvs\<rparr>]" and "prefix_free kvs"
    and "\<And>m y. (m, y) \<in> set kvs \<Longrightarrow> m \<noteq> [] \<and> y < length t \<and> (\<exists>k x. (k, x) \<in> set (node_children (t ! i)) \<and> x < y)"
proof -
  have pf: "prefix_free kvs"
    unfolding kvs_def using trie_ok_prefix_free [OF ok] trie_ok_child [OF ok i] i by (intro prefix_free_joined) auto
  then show "prefix_free kvs" .
  from merged_children_joined [OF pf [unfolded kvs_def]]
  show "merge_node i t = t[i := (t ! i)\<lparr>node_children := kvs\<rparr>]" by (simp add: merge_node_def kvs_def)
  show "m \<noteq> [] \<and> y < length t \<and> (\<exists>k x. (k, x) \<in> set (node_children (t ! i)) \<and> x < y)"
    if my: "(m, y) \<in> set kvs" for m y
  proof -
    from my obtain k x k' where k: "(k, x) \<in> set (node_children (t ! i))" "(k', y) \<in> set (node_children (t ! x))" "m = k @ k'"
      by (auto simp: kvs_def joined_mem)
    with trie_ok_child [OF ok i k(1)] trie_ok_child [OF ok _ k(2)] show ?thesis by auto
  qed
qed

lemma merge_node_ok:
  assumes ok: "trie_ok t" and i: "i < length t"
  shows "trie_ok (merge_node i t)"
proof -
  note m = merge_node_eq [OF ok i]
  let ?nd = "(t ! i)\<lparr>node_children := joined t (node_children (t ! i))\<rparr>"
  have "i < y" if "(k, y) \<in> set (joined t (node_children (t ! i)))" for k y
    using m(3) [OF that] trie_ok_child [OF ok i] by fastforce
  then have "node_ok (length t) i ?nd"
    using trie_ok_node [OF ok i] m(2,3) by (auto simp: node_ok_def)
  moreover have "merge_node i t ! j = (if j = i then ?nd else t ! j)" for j using i by (simp add: m(1))
  moreover have "length (merge_node i t) = length t" "merge_node i t \<noteq> []" using i by (auto simp: m(1))
  ultimately show ?thesis using ok by (simp add: trie_ok_def)
qed

text \<open>Merging a node with children that are nothing but their own children keeps the routes.\<close>

lemma merge_node_route:
  assumes ok: "trie_ok t" and i: "i < length t"
    and simple: "\<And>k x. (k, x) \<in> set (node_children (t ! i)) \<Longrightarrow> IsSimpleNode (t ! x)"
  shows "route (merge_node i t) j ts r \<longleftrightarrow> route t j ts r"
proof -
  let ?t' = "merge_node i t" and ?kvs = "joined t (node_children (t ! i))"
  have nth: "?t' ! j = (if j = i then (t ! i)\<lparr>node_children := ?kvs\<rparr> else t ! j)" for j
    using i by (simp add: merge_node_eq(1) [OF ok i])
  show ?thesis
  proof
    assume "route t j ts r"
    then show "route ?t' j ts r"
    proof (induction rule: route.induct)
      case (route_here j r)
      then show ?case using nth [of j] by (intro route.route_here) auto
    next
      case (route_param j ty x ts r)
      then show ?case using nth [of j] by (intro route.route_param [of ?t' j ty x]) auto
    next
      case (route_child k x j ts r)
      show ?case
      proof (cases "j = i")
        case False
        with route_child show ?thesis using nth [of j] by (intro route.route_child) auto
      next
        case True
        with route_child.hyps(1) have kx: "(k, x) \<in> set (node_children (t ! i))" by simp
        with trie_ok_child [OF ok i] have "x \<noteq> i" by blast
        then have x: "?t' ! x = t ! x" by (simp add: nth)
        from route_child.IH show ?thesis
        proof (cases rule: route_cases)
          case (child k' y ts')
          with x kx have "(k @ k', y) \<in> set (node_children (?t' ! i))" by (auto simp: nth joined_mem)
          from route.route_child [OF this child(3)] show ?thesis by (simp add: child(1) True)
        qed (use simple [OF kx] x in \<open>auto simp: IsSimpleNode_iff\<close>)
      qed
    qed
  next
    assume "route ?t' j ts r"
    then show "route t j ts r"
    proof (induction rule: route.induct)
      case (route_here j r)
      then show ?case using nth [of j] by (intro route.route_here) (auto split: if_splits)
    next
      case (route_param j ty x ts r)
      then show ?case using nth [of j] by (intro route.route_param [of t j ty x]) (auto split: if_splits)
    next
      case (route_child k x j ts r)
      show ?case
      proof (cases "j = i")
        case False
        with route_child show ?thesis using nth [of j] by (intro route.route_child) auto
      next
        case True
        with route_child.hyps(1) obtain l y l' where
          "(l, y) \<in> set (node_children (t ! i))" "(l', x) \<in> set (node_children (t ! y))" "k = l @ l'"
          by (auto simp: nth joined_mem)
        with route.route_child [OF this(1) route.route_child [OF this(2) route_child.IH]] True show ?thesis by simp
      qed
    qed
  qed
qed

section \<open>The whole optimisation\<close>

text \<open>What \<^verbatim>\<open>optimizeNode\<close> leaves: the same routes, and the nodes before its own.\<close>

definition optimised :: "nat \<Rightarrow> trie \<Rightarrow> trie \<Rightarrow> bool" where
  "optimised i t t' \<longleftrightarrow> trie_ok t' \<and> length t' = length t \<and> (\<forall>j < i. t' ! j = t ! j) \<and>
     (\<forall>j ts r. route t' j ts r \<longleftrightarrow> route t j ts r)"

lemma optimised_trans: "optimised i t u \<Longrightarrow> optimised j u v \<Longrightarrow> i \<le> j \<Longrightarrow> optimised i t v"
  by (simp add: optimised_def)

definition fuel_for :: "nat \<Rightarrow> nat \<Rightarrow> nat \<Rightarrow> nat" where
  "fuel_for len i c = (len - i) * (len + 1) + (len - c)"

lemma fuel_child: "i < x \<Longrightarrow> x < len \<Longrightarrow> fuel_for len i c < Suc n \<Longrightarrow> fuel_for len x (Suc x) < n"
proof -
  assume a: "i < x" "x < len" "fuel_for len i c < Suc n"
  then have "Suc (len - x) * (len + 1) \<le> (len - i) * (len + 1)" by (intro mult_le_mono1) simp
  then have "(len - x) * (len + 1) + len + 1 \<le> (len - i) * (len + 1)" by simp
  with a show ?thesis by (simp add: fuel_for_def)
qed

lemma optimizeAll_ok:
  assumes one: "\<And>x t. trie_ok t \<Longrightarrow> length t = len \<Longrightarrow> i < x \<Longrightarrow> x < len \<Longrightarrow>
      \<exists>t'. optimizeNode n x t = Some t' \<and> optimised x t t'"
  shows "trie_ok t \<Longrightarrow> length t = len \<Longrightarrow> \<forall>x \<in> set xs. i < x \<and> x < len \<Longrightarrow>
    \<exists>t'. optimizeAll n xs t = Some t' \<and> optimised (Suc i) t t'"
proof (induction xs arbitrary: t)
  case Nil
  then show ?case by (simp add: optimised_def)
next
  case (Cons x xs)
  from one [OF Cons.prems(1,2)] Cons.prems(3) obtain u where u: "optimizeNode n x t = Some u" "optimised x t u" by auto
  then have "trie_ok u" "length u = len" using Cons.prems(2) by (auto simp: optimised_def)
  with Cons.IH Cons.prems(3) obtain v where v: "optimizeAll n xs u = Some v" "optimised (Suc i) u v" by fastforce
  have "optimised (Suc i) t u" using u(2) Cons.prems(3) by (auto simp: optimised_def)
  with u(1) v show ?case by (auto intro: optimised_trans)
qed

lemma optimizeNode_ok:
  "trie_ok t \<Longrightarrow> length t = len \<Longrightarrow> i < len \<Longrightarrow> (\<forall>(k, x) \<in> set (node_children (t ! i)). c \<le> x) \<Longrightarrow> c \<le> len \<Longrightarrow>
   fuel_for len i c < n \<Longrightarrow> \<exists>t'. optimizeNode n i t = Some t' \<and> optimised i t t'"
proof (induction n arbitrary: i c t)
  case (Suc n)
  have one: "\<exists>t'. optimizeNode n x u = Some t' \<and> optimised x u t'"
    if "trie_ok u" "length u = len" "i < x" "x < len" for x u
    using that trie_ok_child [OF that(1), of x] fuel_child [OF that(3,4) Suc.prems(6)]
    by (intro Suc.IH [of u x "Suc x"]) (auto simp: Suc_le_eq)
  let ?ps = "filter (\<lambda>x. x \<noteq> 0) (map (param_childrens (t ! i)) param_types)"
  have "\<forall>x \<in> set ?ps. i < x \<and> x < len"
    using trie_ok_node [of t i] Suc.prems(1-3) by (auto simp: node_ok_def)
  from optimizeAll_ok [OF one Suc.prems(1,2) this] obtain u where
    u: "optimizeAll n ?ps t = Some u" "optimised (Suc i) t u" by blast
  have ui: "u ! i = t ! i" and uok: "trie_ok u" and ulen: "length u = len"
    using u(2) Suc.prems(2) by (auto simp: optimised_def)
  let ?kids = "node_children (u ! i)"
  have "i < length u" using ulen Suc.prems(3) by simp
  note kid = trie_ok_child [OF uok this] and merge = merge_node_eq [OF uok this] merge_node_ok [OF uok this]
  consider (none) "?kids = []" | (merge) "?kids \<noteq> []" "list_all (\<lambda>kv. IsSimpleNode (u ! snd kv)) ?kids"
    | (kids) "?kids \<noteq> []" "\<not> list_all (\<lambda>kv. IsSimpleNode (u ! snd kv)) ?kids" by blast
  then show ?case
  proof cases
    case none
    with u show ?thesis by (auto simp: optimised_def)
  next
    case kids
    have "\<forall>x \<in> set (map snd ?kids). i < x \<and> x < len" using kid ulen by auto
    from optimizeAll_ok [OF one uok ulen this] obtain v where
      v: "optimizeAll n (map snd ?kids) u = Some v" "optimised (Suc i) u v" by blast
    with u optimised_trans [OF u(2) v(2)] kids show ?thesis by (auto simp: optimised_def Let_def)
  next
    case merge
    let ?m = "merge_node i u"
    have ml: "length ?m = len" using ulen by (simp add: merge_node_def)
    have kids: "node_children (?m ! i) = joined u ?kids" using \<open>i < length u\<close> by (simp add: merge_node_eq [OF uok])
    have "Suc c \<le> x" if "(k, x) \<in> set (node_children (?m ! i))" for k x
      using merge_node_eq(3) [OF uok \<open>i < length u\<close>, of k x] that kids Suc.prems(4) ui by fastforce
    then have c: "\<forall>(k, x) \<in> set (node_children (?m ! i)). Suc c \<le> x" by blast
    obtain k x where "(k, x) \<in> set ?kids" using merge(1) by (cases ?kids) auto
    with kid Suc.prems(4) ui ulen have "c < len" by fastforce
    then have "Suc c \<le> len" "fuel_for len i (Suc c) < n" using Suc.prems(6) by (simp_all add: fuel_for_def)
    from Suc.IH [OF merge_node_ok [OF uok \<open>i < length u\<close>] ml Suc.prems(3) c this]
    obtain v where v: "optimizeNode n i ?m = Some v" "optimised i ?m v" by blast
    have "IsSimpleNode (u ! x)" if "(k, x) \<in> set ?kids" for k x
      using merge(2) that by (force simp: list_all_iff)
    then have "route ?m j ts r \<longleftrightarrow> route u j ts r" for j ts r
      by (rule merge_node_route [OF uok \<open>i < length u\<close>])
    moreover have "\<forall>j < i. ?m ! j = u ! j" by (simp add: merge_node_def)
    ultimately have "optimised i u ?m"
      using merge_node_ok [OF uok \<open>i < length u\<close>] ml ulen by (simp add: optimised_def)
    moreover have "optimised i t u" using u(2) by (simp add: optimised_def)
    ultimately have "optimised i t v" using v(2) optimised_trans by blast
    with u(1) v(1) merge show ?thesis by (simp add: merge_node_def)
  qed
qed simp

lemma trie_validate_ok:
  assumes "trie_ok t" and "IsSimpleNode (t ! 0)"
  shows "\<exists>t'. trie_validate t = Some (Valid_trie t') \<and> trie_ok t' \<and> (\<forall>ts r. route t' 0 ts r \<longleftrightarrow> route t 0 ts r)"
proof -
  have "0 < length t" using assms(1) by (simp add: trie_ok_def)
  moreover have "fuel_for (length t) 0 0 < Suc ((length t + 1) * (length t + 1))" by (simp add: fuel_for_def)
  ultimately obtain t' where "optimizeNode (Suc ((length t + 1) * (length t + 1))) 0 t = Some t'" "optimised 0 t t'"
    using optimizeNode_ok [OF assms(1) refl, of 0 0] by (simp del: optimizeNode.simps, blast)
  with assms(2) show ?thesis by (auto simp: trie_validate_def optimised_def)
qed

section \<open>The rules of a router\<close>

text \<open>Rules added one after the other to a new router: \<open>None\<close> does not return, an exception ends
  the program's setup.\<close>

fun add_rules :: "('d, 's) rule list \<Rightarrow> ('d, 's) router \<Rightarrow> (bytes option \<times> ('d, 's) router) option" where
  "add_rules [] rt = Some (None, rt)"
| "add_rules (r # rs) rt =
     (case internal_add_rule_object (rule_text r) r rt of
        None \<Rightarrow> None
      | Some (Some e, rt') \<Rightarrow> Some (Some e, rt')
      | Some (None, rt') \<Rightarrow> add_rules rs rt')"

text \<open>The routes the \<open>n\<close>-th rule stands for: its own, and without a final slash a redirection.\<close>

definition rule_routes :: "nat \<Rightarrow> bytes \<Rightarrow> (tok list \<times> nat) list" where
  "rule_routes n url =
     (the (rule_toks url), n) #
     (if 1 < length url \<and> last url = CHR ''/''
      then [(the (rule_toks (butlast url)), RULE_SPECIAL_REDIRECT_SLASH)] else [])"

fun rule_table :: "nat \<Rightarrow> ('d, 's) rule list \<Rightarrow> (tok list \<times> nat) list" where
  "rule_table n [] = []"
| "rule_table n (r # rs) = rule_routes n (rule_text r) @ rule_table (Suc n) rs"

definition routes_are :: "(tok list \<times> nat) set \<Rightarrow> trie \<Rightarrow> bool" where
  "routes_are R t \<longleftrightarrow> built t \<and> (\<forall>ts r. route t 0 ts r \<longleftrightarrow> (ts, r) \<in> R)"

lemma trie_add_routes:
  assumes "routes_are R t" and "r \<noteq> 0" and "trie_add url r t = Some (Added t')"
  shows "routes_are (insert (the (rule_toks url), r) R) t'"
proof -
  have b: "built t" using assms(1) by (simp add: routes_are_def)
  from trie_add_result [OF b assms(2), of url] assms(3) obtain toks where
    toks: "rule_toks url = Some toks" by (auto split: option.splits)
  with trie_add_result [OF b assms(2), of url] assms(3) have
    "built t' \<and> (\<forall>ts r'. route t' 0 ts r' \<longleftrightarrow> route t 0 ts r' \<or> ts = toks \<and> r' = r)"
    by (auto split: if_splits)
  with assms(1) toks show ?thesis by (auto simp: routes_are_def)
qed

lemma internal_add_routes:
  assumes "routes_are R (router_trie rt)" and "internal_add_rule_object url r rt = Some (None, rt')"
    and "router_rules rt \<noteq> []"
  shows "routes_are (R \<union> set (rule_routes (length (router_rules rt)) url)) (router_trie rt') \<and>
    router_rules rt' = router_rules rt @ [Some r]"
proof -
  let ?n = "length (router_rules rt)"
  from assms(2) obtain t where t: "trie_add url ?n (router_trie rt) = Some (Added t)"
    by (auto simp: internal_add_rule_object_def Let_def split: option.splits add_result.splits)
  have R: "routes_are (insert (the (rule_toks url), ?n) R) t"
    using trie_add_routes [OF assms(1) _ t] assms(3) by simp
  show ?thesis
  proof (cases "1 < length url \<and> last url = CHR ''/''")
    case False
    with assms(2) t R show ?thesis
      by (auto simp: internal_add_rule_object_def Let_def rule_routes_def)
  next
    case True
    with assms(2) t obtain t' where t': "trie_add (butlast url) RULE_SPECIAL_REDIRECT_SLASH t = Some (Added t')"
      "router_trie rt' = t'" "router_rules rt' = router_rules rt @ [Some r]"
      by (auto simp: internal_add_rule_object_def Let_def split: option.splits add_result.splits)
    from trie_add_routes [OF R _ t'(1)] True t'(2,3) show ?thesis
      by (simp add: rule_routes_def RULE_SPECIAL_REDIRECT_SLASH_def insert_commute)
  qed
qed

lemma add_rules_routes:
  "routes_are R (router_trie rt) \<Longrightarrow> router_rules rt \<noteq> [] \<Longrightarrow> add_rules rs rt = Some (None, rt') \<Longrightarrow>
   routes_are (R \<union> set (rule_table (length (router_rules rt)) rs)) (router_trie rt') \<and>
   router_rules rt' = router_rules rt @ map Some rs"
proof (induction rs arbitrary: R rt)
  case (Cons r rs)
  from Cons.prems(3) obtain rt1 where rt1: "internal_add_rule_object (rule_text r) r rt = Some (None, rt1)"
    "add_rules rs rt1 = Some (None, rt')"
    by (auto split: option.splits)
  from internal_add_routes [OF Cons.prems(1) rt1(1) Cons.prems(2)]
  have "routes_are (R \<union> set (rule_routes (length (router_rules rt)) (rule_text r))) (router_trie rt1)"
    "router_rules rt1 = router_rules rt @ [Some r]" by simp_all
  with Cons.IH [OF this(1) _ rt1(2)] show ?case by (simp add: Un_assoc)
qed simp

lemma new_router_routes: "routes_are {} (router_trie new_router)"
proof -
  have "\<not> route new_trie 0 ts r" for ts r
    by (auto simp: route.simps [of new_trie] new_trie_def empty_node_def elim: route.cases)
  then show ?thesis by (simp add: routes_are_def new_router_def new_trie_built)
qed

text \<open>What validation does to a router whose rules all have handlers.\<close>

lemma router_validate_routes:
  assumes "routes_are R (router_trie rt)" and "router_validate rt = Some (None, rt')"
  shows "router_rules rt' = router_rules rt \<and> trie_ok (router_trie rt') \<and>
    (\<forall>ts r. route (router_trie rt') 0 ts r \<longleftrightarrow> (ts, r) \<in> R)"
proof -
  have ok: "trie_ok (router_trie rt)" using assms(1) by (simp add: routes_are_def built_def)
  have simple: "IsSimpleNode (router_trie rt ! 0)"
    using assms(2) by (auto simp: router_validate_def trie_validate_def split: if_splits)
  with trie_validate_ok [OF ok simple] assms show ?thesis
    by (auto simp: router_validate_def routes_are_def)
qed

end
