(* ===== verification/Crow_Router.thy ===== *)
theory Crow_Router
  imports Crow_Routing_Optimise
begin

text \<open>
  The router as a whole: which rules it accepts, that the parameters of a match fit the types of
  the rule's handler, and where a request ends.
\<close>

section \<open>Rules that are accepted\<close>

definition literal_first :: "tok list \<Rightarrow> bool" where
  "literal_first ts = (case ts of Lit c # _ \<Rightarrow> True | _ \<Rightarrow> False)"

definition rule_parses :: "bytes \<Rightarrow> bool" where
  "rule_parses url \<longleftrightarrow>
     rule_toks url \<noteq> None \<and> literal_first (the (rule_toks url)) \<and>
     (if 1 < length url \<and> last url = CHR ''/''
      then rule_toks (butlast url) \<noteq> None \<and> literal_first (the (rule_toks (butlast url))) else True)"

lemma trie_add_accepts:
  assumes "routes_are R t" and "r \<noteq> 0" and "rule_toks url = Some toks" and "toks \<notin> fst ` R"
    and "literal_first toks" and "IsSimpleNode (t ! 0)"
  shows "\<exists>t'. trie_add url r t = Some (Added t') \<and> IsSimpleNode (t' ! 0)"
proof -
  have b: "built t" using assms(1) by (simp add: routes_are_def)
  have "\<nexists>r'. route t 0 toks r'" using assms(1,4) by (force simp: routes_are_def)
  with trie_add_result [OF b assms(2), of url] assms(3) obtain t' where t': "trie_add url r t = Some (Added t')"
    by auto
  from assms(5) obtain c ts where "toks = Lit c # ts"
    by (auto simp: literal_first_def split: list.splits tok.splits)
  with trie_add_head [OF b _ t' assms(6)] assms(3) t' show ?thesis by blast
qed

lemma internal_add_accepts:
  assumes R: "routes_are R (router_trie rt)" and ne: "router_rules rt \<noteq> []" and p: "rule_parses url"
    and new: "distinct (map fst (rule_routes (length (router_rules rt)) url))"
      "fst ` set (rule_routes (length (router_rules rt)) url) \<inter> fst ` R = {}"
    and simple: "IsSimpleNode (router_trie rt ! 0)"
  shows "\<exists>rt'. internal_add_rule_object url r rt = Some (None, rt') \<and> IsSimpleNode (router_trie rt' ! 0)"
proof -
  let ?n = "length (router_rules rt)"
  from p obtain toks where toks: "rule_toks url = Some toks" "literal_first toks" by (auto simp: rule_parses_def)
  with new(2) have "toks \<notin> fst ` R" by (auto simp: rule_routes_def)
  from trie_add_accepts [OF R _ toks(1) this toks(2) simple, of ?n] ne
  obtain t where t: "trie_add url ?n (router_trie rt) = Some (Added t)" "IsSimpleNode (t ! 0)" by auto
  show ?thesis
  proof (cases "1 < length url \<and> last url = CHR ''/''")
    case False
    with t show ?thesis by (auto simp: internal_add_rule_object_def Let_def)
  next
    case True
    with p obtain toks' where toks': "rule_toks (butlast url) = Some toks'" "literal_first toks'"
      by (auto simp: rule_parses_def)
    have R': "routes_are (insert (toks, ?n) R) t" using trie_add_routes [OF R _ t(1)] ne toks by simp
    have "toks' \<notin> fst ` insert (toks, ?n) R"
      using new True toks toks' by (auto simp: rule_routes_def)
    from trie_add_accepts [OF R' _ toks'(1) this toks'(2) t(2), of RULE_SPECIAL_REDIRECT_SLASH]
    obtain t' where "trie_add (butlast url) RULE_SPECIAL_REDIRECT_SLASH t = Some (Added t')" "IsSimpleNode (t' ! 0)"
      by (auto simp: RULE_SPECIAL_REDIRECT_SLASH_def)
    with True t show ?thesis by (auto simp: internal_add_rule_object_def Let_def)
  qed
qed

lemma add_rules_accepts:
  "routes_are R (router_trie rt) \<Longrightarrow> router_rules rt \<noteq> [] \<Longrightarrow> list_all (\<lambda>r. rule_parses (rule_text r)) rs \<Longrightarrow>
   distinct (map fst (rule_table (length (router_rules rt)) rs)) \<Longrightarrow>
   fst ` set (rule_table (length (router_rules rt)) rs) \<inter> fst ` R = {} \<Longrightarrow> IsSimpleNode (router_trie rt ! 0) \<Longrightarrow>
   \<exists>rt'. add_rules rs rt = Some (None, rt') \<and> IsSimpleNode (router_trie rt' ! 0)"
proof (induction rs arbitrary: R rt)
  case (Cons r rs)
  let ?n = "length (router_rules rt)"
  have "\<exists>rt1. internal_add_rule_object (rule_text r) r rt = Some (None, rt1) \<and> IsSimpleNode (router_trie rt1 ! 0)"
    using Cons.prems by (intro internal_add_accepts [OF Cons.prems(1,2)]) auto
  then obtain rt1 where rt1: "internal_add_rule_object (rule_text r) r rt = Some (None, rt1)"
    "IsSimpleNode (router_trie rt1 ! 0)" by blast
  from internal_add_routes [OF Cons.prems(1) rt1(1) Cons.prems(2)]
  have R: "routes_are (R \<union> set (rule_routes ?n (rule_text r))) (router_trie rt1)"
    "router_rules rt1 = router_rules rt @ [Some r]" by simp_all
  have "\<exists>rt'. add_rules rs rt1 = Some (None, rt') \<and> IsSimpleNode (router_trie rt' ! 0)"
    using Cons.prems R rt1(2) by (intro Cons.IH [OF R(1)]) (auto simp: R(2) image_Un)
  with rt1(1) show ?case by simp
qed simp

lemma first_invalid_None: "list_all (\<lambda>r. rule_handler r \<noteq> None) rs \<Longrightarrow> first_invalid (map Some rs) = None"
  by (induction rs) (simp_all add: rule_validate_def)

text \<open>Parsed, different and complete rules make a router that validates and holds their routes.\<close>

lemma router_of_rules:
  fixes rs :: "('d, 's) rule list"
  assumes "list_all (\<lambda>r. rule_parses (rule_text r)) rs" and "distinct (map fst (rule_table 2 rs))"
    and "list_all (\<lambda>r. rule_handler r \<noteq> None) rs"
  shows "\<exists>rt rt'. add_rules rs new_router = Some (None, rt) \<and> router_validate rt = Some (None, rt') \<and>
    router_rules rt' = [None, None] @ map Some rs \<and> trie_ok (router_trie rt') \<and>
    (\<forall>ts r. route (router_trie rt') 0 ts r \<longleftrightarrow> (ts, r) \<in> set (rule_table 2 rs))"
proof -
  let ?new = "new_router :: ('d, 's) router"
  have n: "router_rules ?new = [None, None]" "router_trie ?new = new_trie" by (simp_all add: new_router_def)
  have new: "routes_are {} (router_trie ?new)" by (rule new_router_routes)
  obtain rt where rt: "add_rules rs ?new = Some (None, rt)" "IsSimpleNode (router_trie rt ! 0)"
    using add_rules_accepts [OF new, of rs] assms(1,2) n
    by (auto simp: numeral_2_eq_2 new_trie_def empty_node_def IsSimpleNode_iff)
  from add_rules_routes [OF new _ rt(1)] n
  have R: "routes_are (set (rule_table 2 rs)) (router_trie rt)" "router_rules rt = [None, None] @ map Some rs"
    by (simp_all add: numeral_2_eq_2)
  then have "trie_ok (router_trie rt)" by (simp add: routes_are_def built_def)
  from trie_validate_ok [OF this rt(2)] R(2) first_invalid_None [OF assms(3)] obtain rt' where
    "router_validate rt = Some (None, rt')" by (auto simp: router_validate_def)
  with rt(1) router_validate_routes [OF R(1) this] R(2) show ?thesis by auto
qed

section \<open>Parameters and tags\<close>

fun type_num :: "param_type \<Rightarrow> nat" where
  "type_num P_INT = 1"
| "type_num P_UINT = 2"
| "type_num P_DOUBLE = 3"
| "type_num P_STRING = 4"
| "type_num P_PATH = 5"

fun tok_types :: "tok list \<Rightarrow> param_type list" where
  "tok_types [] = []"
| "tok_types (Lit c # ts) = tok_types ts"
| "tok_types (Par ty # ts) = ty # tok_types ts"

definition tag_of :: "param_type list \<Rightarrow> nat" where
  "tag_of tys = foldr (\<lambda>ty n. n * 6 + type_num ty) tys 0"

lemma type_num_bounds: "0 < type_num ty \<and> type_num ty < 6"
  by (cases ty) simp_all

lemma tag_of_bound: "tag_of tys < 6 ^ length tys"
proof (induction tys)
  case (Cons ty tys)
  with type_num_bounds [of ty] show ?case by (simp add: tag_of_def)
qed (simp add: tag_of_def)

lemma tag_arguments_tag_of: "tag_arguments (tag_of tys) = map (single_tag_to_type \<circ> type_num) tys"
proof (induction tys)
  case Nil
  show ?case by (subst tag_arguments.simps) (simp add: tag_of_def)
next
  case (Cons ty tys)
  have "tag_of (ty # tys) \<noteq> 0" "tag_of (ty # tys) mod 6 = type_num ty" "tag_of (ty # tys) div 6 = tag_of tys"
    using type_num_bounds [of ty] by (simp_all add: tag_of_def)
  with Cons show ?case by (subst tag_arguments.simps) simp
qed

lemma get_parameter_tag_gt: "get_parameter_tag (CHR ''>'' # cs) = get_parameter_tag cs"
  by simp

lemma tag_at_param:
  "(ty, nm) \<in> set param_traits \<Longrightarrow>
   get_parameter_tag (nm @ u) = map_option (\<lambda>r. (r * 6 + type_num ty) mod 2 ^ 64) (get_parameter_tag u)"
  by (auto simp: param_traits_def Let_def)

lemma param_at:
  assumes "match_param cs 0 = Some (ty, n)"
  shows "get_parameter_tag cs =
    map_option (\<lambda>r. (r * 6 + type_num ty) mod 2 ^ 64) (get_parameter_tag (drop n cs))"
proof -
  from assms obtain nm where nm: "(ty, nm) \<in> set param_traits" "piece_is cs 0 nm" "n = length nm"
    by (rule match_param_SomeD)
  then have "cs = nm @ drop n cs" by (metis append_take_drop_id drop_0 piece_is_def)
  with tag_at_param [OF nm(1), of "drop n cs"] show ?thesis by simp
qed

lemma tag_of_toks: "rule_toks url = Some ts \<Longrightarrow> get_parameter_tag url = Some (tag_of (tok_types ts) mod 2 ^ 64)"
proof (induction url arbitrary: ts rule: rule_toks.induct)
  case 1
  then show ?case by (simp add: tag_of_def)
next
  case (2 c cs)
  show ?case
  proof (cases "c = CHR ''<''")
    case False
    with 2 show ?thesis by auto
  next
    case True
    with "2.prems" obtain ty n us where m: "match_param (c # cs) 0 = Some (ty, n)"
      "rule_toks (drop n (c # cs)) = Some us" "ts = Par ty # us"
      by (auto split: option.splits)
    from "2.IH"(1) [OF True m(1) refl m(2)]
    have "get_parameter_tag (drop n (c # cs)) = Some (tag_of (tok_types us) mod 2 ^ 64)" .
    then have "get_parameter_tag (c # cs) = Some ((tag_of (tok_types us) mod 2 ^ 64 * 6 + type_num ty) mod 2 ^ 64)"
      using param_at [OF m(1)] by simp
    moreover have "(a mod m * 6 + b) mod m = (a * 6 + b) mod m" for a b m :: nat by (metis mod_add_left_eq mod_mult_left_eq)
    ultimately show ?thesis by (simp add: m(3) tag_of_def)
  qed
qed

text \<open>The arguments a match gives, and their types.\<close>

fun arg_is :: "arg_type \<Rightarrow> 'd arg \<Rightarrow> bool" where
  "arg_is A_int64 (Arg_int i) = True"
| "arg_is A_uint64 (Arg_uint i) = True"
| "arg_is A_double (Arg_double d) = True"
| "arg_is A_string (Arg_string s) = True"
| "arg_is _ _ = False"

abbreviation arg_of :: "param_type \<Rightarrow> arg_type" where
  "arg_of ty \<equiv> single_tag_to_type (type_num ty)"

text \<open>\<open>q\<close> extends \<open>ps\<close> by the parameters of a list of types.\<close>

definition extends :: "param_type list \<Rightarrow> 'd routing_params \<Rightarrow> 'd routing_params \<Rightarrow> bool" where
  "extends tys ps q \<longleftrightarrow>
     length (int_params q) = length (int_params ps) + length (filter (\<lambda>ty. arg_of ty = A_int64) tys) \<and>
     length (uint_params q) = length (uint_params ps) + length (filter (\<lambda>ty. arg_of ty = A_uint64) tys) \<and>
     length (double_params q) = length (double_params ps) + length (filter (\<lambda>ty. arg_of ty = A_double) tys) \<and>
     length (string_params q) = length (string_params ps) + length (filter (\<lambda>ty. arg_of ty = A_string) tys)"

lemma read_param_extends: "read_param dbl ty url pos ps = Some (pos', ps') \<Longrightarrow> extends [ty] ps ps'"
  by (cases ty) (auto simp: read_param_def read_int_def read_uint_def read_double_def read_string_def
      read_path_def Let_def extends_def single_tag_to_type_def split: if_splits prod.splits)

lemma tok_match_extends: "tok_match dbl ts url pos ps = Some q \<Longrightarrow> extends (tok_types ts) ps q"
proof (induction dbl ts url pos ps rule: tok_match.induct)
  case (3 dbl ty ts url pos ps)
  then obtain pos' ps' where r: "read_param dbl ty url pos ps = Some (pos', ps')"
    "tok_match dbl ts url pos' ps' = Some q" "pos < length url"
    by (auto split: if_splits option.splits)
  with "3.IH" [OF r(3,1) refl] read_param_extends [OF r(1)] show ?case by (simp add: extends_def)
qed (auto simp: extends_def split: if_splits)

lemma call_args_fit:
  "i + length (filter (\<lambda>a. a = A_int64) as) \<le> length (int_params q) \<Longrightarrow>
   u + length (filter (\<lambda>a. a = A_uint64) as) \<le> length (uint_params q) \<Longrightarrow>
   d + length (filter (\<lambda>a. a = A_double) as) \<le> length (double_params q) \<Longrightarrow>
   s + length (filter (\<lambda>a. a = A_string) as) \<le> length (string_params q) \<Longrightarrow>
   \<exists>vs. call_args as i u d s q = Some vs \<and> list_all2 arg_is as vs"
proof (induction as arbitrary: i u d s)
  case (Cons a as)
  show ?case
  proof (cases a)
    case A_int64
    with Cons.prems Cons.IH [of "Suc i" u d s] show ?thesis by (auto simp: nth_opt_def)
  next
    case A_uint64
    with Cons.prems Cons.IH [of i "Suc u" d s] show ?thesis by (auto simp: nth_opt_def)
  next
    case A_double
    with Cons.prems Cons.IH [of i u "Suc d" s] show ?thesis by (auto simp: nth_opt_def)
  next
    case A_string
    with Cons.prems Cons.IH [of i u d "Suc s"] show ?thesis by (auto simp: nth_opt_def)
  qed
qed simp

lemma match_arguments:
  assumes "tok_match dbl ts url 0 no_params = Some q"
  shows "\<exists>vs. call_args (map arg_of (tok_types ts)) 0 0 0 0 q = Some vs \<and> list_all2 arg_is (map arg_of (tok_types ts)) vs"
  using tok_match_extends [OF assms]
  by (intro call_args_fit) (simp_all add: extends_def no_params_def filter_map o_def)

section \<open>Properties\<close>

text \<open>A rule of the program: its types are those of its tag, it has a handler, and no more than 24
  parameters (a tag has 64 bits).\<close>

definition rule_complete :: "('d, 's) rule \<Rightarrow> bool" where
  "rule_complete r \<longleftrightarrow> rule_parses (rule_text r) \<and> rule_handler r \<noteq> None \<and>
     map_option tag_arguments (get_parameter_tag (rule_text r)) = Some (rule_args r) \<and>
     length (tok_types (the (rule_toks (rule_text r)))) \<le> 24"

lemma rule_table_nth: "(ts, i) \<in> set (rule_table n rs) \<Longrightarrow> 2 \<le> n \<Longrightarrow> i \<noteq> RULE_SPECIAL_REDIRECT_SLASH \<Longrightarrow>
    n \<le> i \<and> i - n < length rs \<and> ts = the (rule_toks (rule_text (rs ! (i - n))))"
proof (induction rs arbitrary: n)
  case (Cons r rs)
  then consider "ts = the (rule_toks (rule_text r))" "i = n" | "(ts, i) \<in> set (rule_table (Suc n) rs)"
    by (auto simp: rule_routes_def split: if_splits)
  then show ?case
  proof cases
    case 2
    with Cons.IH [of "Suc n"] Cons.prems show ?thesis by (auto simp: nth_Cons')
  qed simp
qed simp

lemma tag_arguments_of_rule:
  assumes "rule_toks url = Some ts" and "length (tok_types ts) \<le> 24"
  shows "map_option tag_arguments (get_parameter_tag url) = Some (map arg_of (tok_types ts))"
proof -
  have "(6::nat) ^ length (tok_types ts) \<le> 6 ^ 24" using assms(2) by (intro power_increasing) simp_all
  moreover have "(6::nat) ^ 24 < 2 ^ 64" by simp
  ultimately have "tag_of (tok_types ts) < 2 ^ 64" using tag_of_bound [of "tok_types ts"] by linarith
  with tag_of_toks [OF assms(1)] show ?thesis by (simp add: tag_arguments_tag_of o_def)
qed

lemma rule_complete_arguments:
  "rule_complete r \<Longrightarrow> rule_args r = map arg_of (tok_types (the (rule_toks (rule_text r))))"
  using tag_arguments_of_rule [of "rule_text r"] by (auto simp: rule_complete_def rule_parses_def)

text \<open>Where a request ends for which the search found the rule \<open>i\<close> and the parameters \<open>q\<close>.\<close>

definition ends_at ::
  "(bytes \<Rightarrow> 'd \<times> nat \<times> bool) \<Rightarrow> ('d, 's) rule list \<Rightarrow> http_request \<Rightarrow> 's \<Rightarrow> ('d, 's) router \<Rightarrow>
   nat \<times> 'd routing_params \<Rightarrow> bool"
where
  "ends_at dbl rs req st rt found \<longleftrightarrow>
     (let (i, q) = found in
      if i = 0 then router_handle dbl req rt st = Some (Routed (Responds (response_code 404)), st)
      else if i = RULE_SPECIAL_REDIRECT_SLASH
      then router_handle dbl req rt st = Some (Routed (Responds (redirect_response req)), st)
      else if and (rule_methods (rs ! (i - 2))) (method_bit (rq_method req)) = 0
      then router_handle dbl req rt st = Some (Routed (Responds (response_code 404)), st)
      else \<exists>vs. call_args (rule_args (rs ! (i - 2))) 0 0 0 0 q = Some vs \<and>
        list_all2 arg_is (rule_args (rs ! (i - 2))) vs \<and>
        (case the (rule_handler (rs ! (i - 2))) req vs st of
           (Throws, st') \<Rightarrow> router_handle dbl req rt st = Some (Routed (Responds (response_code 500)), st')
         | (res, st') \<Rightarrow> router_handle dbl req rt st = Some (Routed res, st')))"

lemma router_serves:
  fixes rs :: "('d, 's) rule list"
  assumes "list_all rule_complete rs" and "distinct (map fst (rule_table 2 rs))" and "strtod_ok dbl"
  shows "\<exists>rt rt' i q. add_rules rs new_router = Some (None, rt) \<and> router_validate rt = Some (None, rt') \<and>
    least_rule (\<lambda>r p. \<exists>ts. (ts, r) \<in> set (rule_table 2 rs) \<and> tok_match dbl ts (rq_url req) 0 no_params = Some p) (i, q) \<and>
    ends_at dbl rs req st rt' (i, q)"
proof -
  have p: "list_all (\<lambda>r. rule_parses (rule_text r)) rs" "list_all (\<lambda>r. rule_handler r \<noteq> None) rs"
    using assms(1) by (auto simp: list_all_iff rule_complete_def)
  from router_of_rules [OF p(1) assms(2) p(2)] obtain rt rt' where
    rt: "add_rules rs new_router = Some (None, rt)" "router_validate rt = Some (None, rt')"
      "router_rules rt' = [None, None] @ map Some rs" "trie_ok (router_trie rt')"
      "\<And>ts r. route (router_trie rt') 0 ts r \<longleftrightarrow> (ts, r) \<in> set (rule_table 2 rs)" by blast
  let ?C = "\<lambda>r p. \<exists>ts. (ts, r) \<in> set (rule_table 2 rs) \<and> tok_match dbl ts (rq_url req) 0 no_params = Some p"
  have "0 < length (router_trie rt')" using rt(4) by (simp add: trie_ok_def)
  from trie_find_least [OF rt(4) assms(3) this, of 0 "rq_url req" "Suc (length (rq_url req))" no_params]
  obtain i q where f: "trie_find (Suc (length (rq_url req))) dbl (router_trie rt') (rq_url req) 0 0 no_params = Some (i, q)"
    "least_rule ?C (i, q)"
    by (auto simp: candidate_def [abs_def] rt(5))
  show ?thesis
  proof (cases "i = 0 \<or> i = 1")
    case True
    with rt(1,2) f show ?thesis
      by (intro exI [of _ rt] exI [of _ rt'] exI [of _ i] exI [of _ q])
        (auto simp: ends_at_def router_handle_def rt(3) RULE_SPECIAL_REDIRECT_SLASH_def)
  next
    case False
    with f(2) obtain ts where ts: "(ts, i) \<in> set (rule_table 2 rs)" "tok_match dbl ts (rq_url req) 0 no_params = Some q"
      by (auto simp: least_rule_def)
    let ?r = "rs ! (i - 2)"
    have i: "2 \<le> i" "i - 2 < length rs" "ts = the (rule_toks (rule_text ?r))"
      using rule_table_nth [OF ts(1)] False by (auto simp: RULE_SPECIAL_REDIRECT_SLASH_def)
    then have "rule_complete ?r" using assms(1) by (simp add: list_all_length)
    from match_arguments [OF ts(2)] rule_complete_arguments [OF this] i(3) obtain vs where
      vs: "call_args (rule_args ?r) 0 0 0 0 q = Some vs" "list_all2 arg_is (rule_args ?r) vs" by auto
    from \<open>rule_complete ?r\<close> obtain h where h: "rule_handler ?r = Some h" by (auto simp: rule_complete_def)
    have "router_rules rt' ! i = Some ?r" using i by (auto simp: rt(3) nth_append nth_Cons' numeral_2_eq_2)
    moreover have "i < length (router_rules rt')" using i by (simp add: rt(3))
    ultimately have handle: "router_handle dbl req rt' st = Some
        (if and (rule_methods ?r) (method_bit (rq_method req)) = 0 then (Routed (Responds (response_code 404)), st)
         else case h req vs st of (Throws, st') \<Rightarrow> (Routed (Responds (response_code 500)), st') | (o', st') \<Rightarrow> (Routed o', st'))"
      using False f(1) vs(1) h by (simp add: router_handle_def rule_handle_def RULE_SPECIAL_REDIRECT_SLASH_def)
    have "\<exists>vs. call_args (rule_args ?r) 0 0 0 0 q = Some vs \<and> list_all2 arg_is (rule_args ?r) vs \<and>
       (case h req vs st of
          (Throws, st') \<Rightarrow> router_handle dbl req rt' st = Some (Routed (Responds (response_code 500)), st')
        | (res, st') \<Rightarrow> router_handle dbl req rt' st = Some (Routed res, st'))"
      if "and (rule_methods ?r) (method_bit (rq_method req)) \<noteq> 0"
      using that vs by (intro exI [of _ vs]) (auto simp: handle split: prod.split handled.split)
    with False rt(1,2) f(2) h show ?thesis
      by (intro exI [of _ rt] exI [of _ rt'] exI [of _ i] exI [of _ q])
        (simp add: ends_at_def handle RULE_SPECIAL_REDIRECT_SLASH_def)
  qed
qed

text \<open>C8: a router is set up from any list of different rules whose parameters are known, and
  then a request ends at the matching rule that was added first: with 404 when none matches or the
  rule does not take the method, with a redirection for the bare form of a rule with a final slash,
  else with the rule's handler, called with what the match read, one argument of the right type for each parameter; an
  exception of the handler becomes 500. The search always ends, and no parameter is read that the
  match did not produce.\<close>

theorem request_reaches_first_matching_rule:
  fixes rs :: "('d, 's) rule list"
  assumes "list_all rule_complete rs" and "distinct (map fst (rule_table 2 rs))" and "strtod_ok dbl"
  shows "\<exists>rt rt' i q. add_rules rs new_router = Some (None, rt) \<and> router_validate rt = Some (None, rt') \<and>
    least_rule (\<lambda>r p. \<exists>ts. (ts, r) \<in> set (rule_table 2 rs) \<and> tok_match dbl ts (rq_url req) 0 no_params = Some p) (i, q) \<and>
    ends_at dbl rs req st rt' (i, q)"
  using assms by (rule router_serves)

definition sample_rule :: "bytes \<Rightarrow> arg_type list \<Rightarrow> (nat, unit) rule" where
  "sample_rule url as = \<lparr>rule_text = url, rule_name = [], rule_methods = method_bit M_GET, rule_args = as,
     rule_handler = Some (\<lambda>req vs st. (Responds (response_body url), st))\<rparr>"

lemma sample_rules_complete:
  "list_all rule_complete [sample_rule ''/'' [], sample_rule ''/a/<string>'' [A_string], sample_rule ''/b/'' []]"
  "distinct (map fst (rule_table 2 [sample_rule ''/'' [], sample_rule ''/a/<string>'' [A_string], sample_rule ''/b/'' []]))"
proof -
  have t: "rule_toks ''/'' = Some [Lit CHR ''/'']" "rule_toks ''/b/'' = Some [Lit CHR ''/'', Lit CHR ''b'', Lit CHR ''/'']"
    "rule_toks ''/b'' = Some [Lit CHR ''/'', Lit CHR ''b'']"
    "rule_toks ''/a/<string>'' = Some [Lit CHR ''/'', Lit CHR ''a'', Lit CHR ''/'', Par P_STRING]"
    by code_simp+
  from t [THEN tag_arguments_of_rule] t show "list_all rule_complete [sample_rule ''/'' [], sample_rule ''/a/<string>'' [A_string], sample_rule ''/b/'' []]"
    by (simp add: rule_complete_def rule_parses_def sample_rule_def literal_first_def single_tag_to_type_def)
  from t show "distinct (map fst (rule_table 2 [sample_rule ''/'' [], sample_rule ''/a/<string>'' [A_string], sample_rule ''/b/'' []]))"
    by (simp add: rule_routes_def sample_rule_def)
qed

theorem request_reaches_first_matching_rule_witness:
  "\<exists>rt rt' i q. add_rules [sample_rule ''/'' [], sample_rule ''/a/<string>'' [A_string], sample_rule ''/b/'' []] new_router
      = Some (None, rt) \<and> router_validate rt = Some (None, rt') \<and>
    least_rule (\<lambda>r p. \<exists>ts. (ts, r) \<in> set (rule_table 2 [sample_rule ''/'' [], sample_rule ''/a/<string>'' [A_string], sample_rule ''/b/'' []]) \<and>
      tok_match (\<lambda>s. (0 :: nat, 0, False)) ts (rq_url \<lparr>rq_method = M_GET, raw_url = ''/a/x'', rq_url = ''/a/x'', rq_headers = [], rq_body = []\<rparr>)
        0 no_params = Some p) (i, q) \<and>
    ends_at (\<lambda>s. (0 :: nat, 0, False)) [sample_rule ''/'' [], sample_rule ''/a/<string>'' [A_string], sample_rule ''/b/'' []]
      \<lparr>rq_method = M_GET, raw_url = ''/a/x'', rq_url = ''/a/x'', rq_headers = [], rq_body = []\<rparr> () rt' (i, q)"
  by (rule request_reaches_first_matching_rule [OF sample_rules_complete]) (simp add: strtod_ok_def)

lemma is_parameter_tag_compatible_0:
  "is_parameter_tag_compatible 0 b \<longleftrightarrow> b = 0" "is_parameter_tag_compatible a 0 \<longleftrightarrow> a = 0"
  by (subst is_parameter_tag_compatible.simps, simp) (cases "a = 0"; subst is_parameter_tag_compatible.simps; simp)

lemma is_parameter_tag_compatible_digits:
  assumes "0 < x" "x < 6" "0 < y" "y < 6"
  shows "is_parameter_tag_compatible (a * 6 + x) (b * 6 + y) \<longleftrightarrow> is_parameter_tag_compatible a b"
proof -
  have "(a * 6 + x) div 6 = a" "(b * 6 + y) div 6 = b" using assms by simp_all
  with assms show ?thesis by (subst is_parameter_tag_compatible.simps) simp
qed

lemma parameter_tag_bounds: "0 < parameter_tag a \<and> parameter_tag a < 6"
  by (cases a) simp_all

text \<open>C33: adding a rule to a trie that rules have built. When a parameter its URL names is
  unknown the loop that looks for its kind never ends. A rule whose route is there already is
  refused. Else the trie holds the routes it had and the new one, and no other.\<close>

theorem rule_is_added_to_the_trie:
  assumes "built t" and "r \<noteq> 0"
  shows "case rule_toks url of
      None \<Rightarrow> trie_add url r t = None
    | Some toks \<Rightarrow>
        if \<exists>r'. route t 0 toks r' then \<exists>t'. trie_add url r t = Some (Rule_exists (''handler already exists for '' @ url) t')
        else \<exists>t'. trie_add url r t = Some (Added t') \<and> built t' \<and>
          (\<forall>ts r'. route t' 0 ts r' \<longleftrightarrow> route t 0 ts r' \<or> ts = toks \<and> r' = r)"
  using assms by (rule trie_add_result)

theorem rule_is_added_to_the_trie_witness:
  "trie_add ''/<foo>'' 1 new_trie = None"
proof -
  have "rule_toks ''/<foo>'' = None" by code_simp
  with rule_is_added_to_the_trie [OF new_trie_built, of 1 "''/<foo>''"] show ?thesis by simp
qed

text \<open>The check of a dynamic rule's handler compares the number of its parameters only: both
  digits it compares come from the tag of the rule, so a handler with the right number of
  parameters of wrong types is taken.\<close>

lemma dynamic_rule_check_ignores_types:
  "is_parameter_tag_compatible (compute_parameter_tag_from_args_list as) (compute_parameter_tag_from_args_list bs)
    \<longleftrightarrow> length as = length bs"
proof (induction as bs rule: list_induct2')
  case (4 a as b bs)
  then show ?case
    using parameter_tag_bounds [of a] parameter_tag_bounds [of b] by (simp add: is_parameter_tag_compatible_digits)
qed (use parameter_tag_bounds in \<open>auto simp: is_parameter_tag_compatible_0\<close>)

end
