(* ===== verification/Pinocchio_App.thy ===== *)
theory Pinocchio_App
  imports Crow_Router Mailbox
begin

text \<open>
  \<^verbatim>\<open>src/pinocchio.cpp\<close>: the five handlers of the program, their routes, and what a request
  to them does. What the world gives to one request is an argument: whether \<^verbatim>\<open>NDEBUG\<close> is
  defined, the error of the write to the Redis server, if any, and the reads of its reply; and the
  conversions of \<^verbatim>\<open>double\<close>s and the order of hash tables, as for the values of JSON.
\<close>

record 'd app_env =
  env_ndebug :: bool
  env_write_ec :: "bytes option"
  env_reads :: "read_event list"
  env_dbl :: "bytes \<Rightarrow> 'd option"
  env_fmt :: "'d \<Rightarrow> bytes"
  env_order :: "bytes list \<Rightarrow> bytes list"

text \<open>The state a handler works on: the manager, and what has been sent and posted through it.\<close>

record app_state =
  app_db :: db_manager
  app_sent :: "bytes list"
  app_effects :: "(db_handler, unit) effect list"

fun db_handled :: "('r \<Rightarrow> 'a handled) \<Rightarrow> 'r db_result \<Rightarrow> 'a handled" where
  "db_handled f (Db_value v) = f v"
| "db_handled f (Db_exception e) = Throws"
| "db_handled f Db_abort = Aborts"
| "db_handled f Db_blocked = Blocks"

section \<open>The handlers\<close>

definition root_handler :: "app_state \<Rightarrow> 'd response handled \<times> app_state" where
  "root_handler st = (Responds (response_body ''This is pinocchio!''), st)"

definition regist_handler :: "'d app_env \<Rightarrow> bytes \<Rightarrow> app_state \<Rightarrow> 'd response handled \<times> app_state" where
  "regist_handler env token st =
     (if length token < 40 \<or> 128 < length token then (Responds (response_code 400), st)
      else
        (case AddMember (env_ndebug env) token (env_write_ec env) (env_reads env) (app_db st) of
           (out, r, db) \<Rightarrow>
             (db_handled (\<lambda>ok. if \<not> ok then Responds (response_code 404) else Responds (response_code 200)) r,
              st\<lparr>app_db := db, app_sent := app_sent st @ [out]\<rparr>)))"

text \<open>\<^verbatim>\<open>boost::split\<close> at each \<^verbatim>\<open>=\<close> and \<^verbatim>\<open>boost::trim\<close>.\<close>

fun split_at :: "char \<Rightarrow> bytes \<Rightarrow> bytes list" where
  "split_at x [] = [[]]"
| "split_at x (c # cs) =
     (if c = x then [] # split_at x cs
      else (case split_at x cs of [] \<Rightarrow> [[c]] | f # fs \<Rightarrow> (c # f) # fs))"

definition trim :: "bytes \<Rightarrow> bytes" where
  "trim s = rev (dropWhile is_space (rev (dropWhile is_space s)))"

text \<open>Quotes around the token are cut off: \<^verbatim>\<open>erase(size() - 1)\<close> of an empty string throws.
  The first character of an empty token is not there to be read.\<close>

definition strip_quotes :: "bytes \<Rightarrow> bytes handled" where
  "strip_quotes token =
     (case token of
        [] \<Rightarrow> Undefined
      | c # cs \<Rightarrow>
          if c = QUOTE then (if cs = [] then Throws else Responds (butlast cs))
          else Responds token)"

definition json_member :: "bytes \<Rightarrow> rvalue \<Rightarrow> (rvalue \<Rightarrow> json_exn + 'a) \<Rightarrow> 'a handled" where
  "json_member k x f =
     (case r_key k x of
        Inl e \<Rightarrow> Throws
      | Inr v \<Rightarrow>
          (case f v of
             Inl (Json_fault e) \<Rightarrow> Undefined
           | Inl e \<Rightarrow> Throws
           | Inr a \<Rightarrow> Responds a))"

fun handled_bind :: "'a handled \<Rightarrow> ('a \<Rightarrow> 'b handled) \<Rightarrow> 'b handled" where
  "handled_bind (Responds a) f = f a"
| "handled_bind Throws f = Throws"
| "handled_bind Undefined f = Undefined"
| "handled_bind Aborts f = Aborts"
| "handled_bind Blocks f = Blocks"

text \<open>The part of a request to send that reads the body: the token and the message it asks for.\<close>

definition send_fields :: "'d app_env \<Rightarrow> rvalue \<Rightarrow> (bytes \<times> bytes) handled" where
  "send_fields env x =
     handled_bind (handled_bind (json_member ''to'' x r_s) strip_quotes) (\<lambda>token.
     handled_bind (json_member ''data'' x (wvalue_of (env_dbl env) (env_order env))) (\<lambda>w.
       Responds (token, dump_json (env_fmt env) w)))"

definition send_handler :: "'d app_env \<Rightarrow> bytes \<Rightarrow> http_request \<Rightarrow> app_state \<Rightarrow> 'd response handled \<times> app_state" where
  "send_handler env auth req st =
     (let fields = split_at CHR ''='' (get_header_value (rq_headers req) ''Authorization'')
      in if length fields < 2 then (Undefined, st)
         else if auth \<noteq> trim (fields ! 1) then (Responds (response_code 405), st)
         else
           (case load_json (rq_body req) of
              Inl f \<Rightarrow> (Undefined, st)
            | Inr None \<Rightarrow> (Responds (response_code 406), st)
            | Inr (Some x) \<Rightarrow>
                (case send_fields env x of
                   Responds (token, msg) \<Rightarrow>
                     (case AddMsg (env_ndebug env) token msg (app_db st) of
                        (r, db, es) \<Rightarrow>
                          (db_handled (\<lambda>ok. if \<not> ok then Responds (response_code 408) else Responds (response_code 200)) r,
                           st\<lparr>app_db := db, app_effects := app_effects st @ es\<rparr>))
                 | Throws \<Rightarrow> (Throws, st)
                 | Undefined \<Rightarrow> (Undefined, st)
                 | Aborts \<Rightarrow> (Aborts, st)
                 | Blocks \<Rightarrow> (Blocks, st))))"

definition recv_body :: "redis_value list \<Rightarrow> bytes" where
  "recv_body arr =
     ''['' @ concat (map (\<lambda>v. ''{data:'' @ toString v @ ''},'') (if 1 < length arr then rev arr else arr)) @
     ''{data:'' @ [QUOTE, QUOTE] @ ''}]''"

definition recv_handler :: "'d app_env \<Rightarrow> bytes \<Rightarrow> app_state \<Rightarrow> 'd response handled \<times> app_state" where
  "recv_handler env token st =
     (if 128 < length token then (Responds (response_code 400), st)
      else
        (case GetMsg (env_ndebug env) token (env_write_ec env) (env_reads env) (app_db st) of
           (out, r, db, es) \<Rightarrow>
             (db_handled (\<lambda>res. case res of
                  None \<Rightarrow> Responds (response_code 408)
                | Some arr \<Rightarrow> Responds (response_body (recv_body arr))) r,
              st\<lparr>app_db := db, app_sent := app_sent st @ [out], app_effects := app_effects st @ es\<rparr>)))"

definition publish_handler :: "bytes \<Rightarrow> app_state \<Rightarrow> 'd response handled \<times> app_state" where
  "publish_handler base_key st =
     (if length base_key < 10 \<or> 128 < length base_key then (Responds (response_code 400), st)
      else (Responds (response_code 200), st))"

section \<open>The routes\<close>

text \<open>The one string argument of a handler; the router gives it.\<close>

definition with_string ::
  "(bytes \<Rightarrow> app_state \<Rightarrow> 'd response handled \<times> app_state) \<Rightarrow>
   http_request \<Rightarrow> 'd arg list \<Rightarrow> app_state \<Rightarrow> 'd response handled \<times> app_state"
where
  "with_string f req as st = (case as of [Arg_string s] \<Rightarrow> f s st | _ \<Rightarrow> (Undefined, st))"

type_synonym 'd app_rule = "('d, app_state) rule"

definition app_route ::
  "bytes \<Rightarrow> (http_request \<Rightarrow> 'd arg list \<Rightarrow> app_state \<Rightarrow> 'd response handled \<times> app_state) \<Rightarrow> 'd app_rule"
where
  "app_route url f = (the (new_rule url))\<lparr>rule_handler := Some f\<rparr>"

definition AddRoute :: "'d app_rule" where
  "AddRoute = set_name ''pinocchio'' (app_route ''/'' (\<lambda>req as. root_handler))"

definition AddRouteRegist :: "'d app_env \<Rightarrow> 'd app_rule" where
  "AddRouteRegist env = app_route ''/regist/<string>'' (with_string (regist_handler env))"

definition AddRouteSend :: "'d app_env \<Rightarrow> bytes \<Rightarrow> 'd app_rule" where
  "AddRouteSend env auth = set_methods M_POST [] (app_route ''/gcm/send'' (\<lambda>req as. send_handler env auth req))"

definition AddRouteRecv :: "'d app_env \<Rightarrow> 'd app_rule" where
  "AddRouteRecv env = app_route ''/gcm/recv/<string>'' (with_string (recv_handler env))"

definition AddRoutePublishApiKey :: "'d app_rule" where
  "AddRoutePublishApiKey = app_route ''/gcm/publish/ServerApiKey/<string>'' (with_string publish_handler)"

definition app_rules :: "'d app_env \<Rightarrow> bytes \<Rightarrow> 'd app_rule list" where
  "app_rules env auth =
     [AddRoute, AddRouteRegist env, AddRouteSend env auth, AddRouteRecv env, AddRoutePublishApiKey]"

text \<open>The program set up and given one request: \<open>None\<close> when the setup fails or does not end.\<close>

definition app_handle ::
  "(bytes \<Rightarrow> 'd \<times> nat \<times> bool) \<Rightarrow> 'd app_env \<Rightarrow> bytes \<Rightarrow> http_request \<Rightarrow> app_state \<Rightarrow>
   ('d routed \<times> app_state) option"
where
  "app_handle strtod env auth req st =
     (case add_rules (app_rules env auth) new_router of
        Some (None, rt) \<Rightarrow>
          (case router_validate rt of
             Some (None, rt') \<Rightarrow> router_handle strtod req rt' st
           | _ \<Rightarrow> None)
      | _ \<Rightarrow> None)"

section \<open>The routing table\<close>

lemma app_toks:
  "rule_toks ''/'' = Some (map Lit ''/'')"
  "rule_toks ''/regist/<string>'' = Some (map Lit ''/regist/'' @ [Par P_STRING])"
  "rule_toks ''/gcm/send'' = Some (map Lit ''/gcm/send'')"
  "rule_toks ''/gcm/recv/<string>'' = Some (map Lit ''/gcm/recv/'' @ [Par P_STRING])"
  "rule_toks ''/gcm/publish/ServerApiKey/<string>'' = Some (map Lit ''/gcm/publish/ServerApiKey/'' @ [Par P_STRING])"
  by code_simp+

lemma app_route_fields:
  assumes "rule_toks url = Some ts" and "length (tok_types ts) \<le> 24"
  shows "app_route url f = \<lparr>rule_text = url, rule_name = [], rule_methods = method_bit M_GET,
    rule_args = map arg_of (tok_types ts), rule_handler = Some f\<rparr>"
  using tag_arguments_of_rule [OF assms] by (auto simp: app_route_def new_rule_def)

lemmas app_routes = app_toks [THEN app_route_fields]

lemmas app_rule_defs = AddRoute_def AddRouteRegist_def AddRouteSend_def AddRouteRecv_def
  AddRoutePublishApiKey_def set_name_def

lemma app_parse:
  "rule_parses ''/''" "rule_parses ''/regist/<string>''" "rule_parses ''/gcm/send''"
  "rule_parses ''/gcm/recv/<string>''" "rule_parses ''/gcm/publish/ServerApiKey/<string>''"
  unfolding rule_parses_def app_toks by (simp_all add: literal_first_def)

lemma app_tags: "rule_toks url = Some ts \<Longrightarrow> length (tok_types ts) \<le> 24 \<Longrightarrow> rule_parses url \<Longrightarrow>
    rule_complete (app_route url f)"
  using tag_arguments_of_rule [of url ts] by (simp add: rule_complete_def app_route_fields)

lemma app_rules_complete: "list_all rule_complete (app_rules env auth)"
proof -
  have "rule_complete (set_methods m [] r) = rule_complete r" "rule_complete (set_name nm r) = rule_complete r"
    for m nm and r :: "'a app_rule"
    by (simp_all add: rule_complete_def set_name_def)
  then show ?thesis
    by (simp add: app_rules_def AddRoute_def AddRouteRegist_def AddRouteSend_def AddRouteRecv_def
      AddRoutePublishApiKey_def app_toks [THEN app_tags] app_parse del: rule_toks.simps)
qed

lemma app_texts: "map rule_text (app_rules env auth) =
    [''/'', ''/regist/<string>'', ''/gcm/send'', ''/gcm/recv/<string>'', ''/gcm/publish/ServerApiKey/<string>'']"
proof -
  have "rule_text (set_methods m [] r) = rule_text r" "rule_text (set_name nm r) = rule_text r"
    for m nm and r :: "'a app_rule"
    by (simp_all add: set_name_def)
  then show ?thesis
    by (simp add: app_rules_def AddRoute_def AddRouteRegist_def AddRouteSend_def AddRouteRecv_def
      AddRoutePublishApiKey_def app_routes del: rule_toks.simps)
qed

lemma rule_table_texts: "rule_table n rs = concat (map (\<lambda>(i, u). rule_routes i u) (enumerate n (map rule_text rs)))"
  by (induction rs arbitrary: n) simp_all

lemma app_table:
  "rule_table 2 (app_rules env auth) =
    [(map Lit ''/'', 2), (map Lit ''/regist/'' @ [Par P_STRING], 3), (map Lit ''/gcm/send'', 4),
     (map Lit ''/gcm/recv/'' @ [Par P_STRING], 5), (map Lit ''/gcm/publish/ServerApiKey/'' @ [Par P_STRING], 6)]"
proof -
  have "rule_routes n ''/'' = [(map Lit ''/'', n)]"
    "rule_routes n ''/regist/<string>'' = [(map Lit ''/regist/'' @ [Par P_STRING], n)]"
    "rule_routes n ''/gcm/send'' = [(map Lit ''/gcm/send'', n)]"
    "rule_routes n ''/gcm/recv/<string>'' = [(map Lit ''/gcm/recv/'' @ [Par P_STRING], n)]"
    "rule_routes n ''/gcm/publish/ServerApiKey/<string>'' = [(map Lit ''/gcm/publish/ServerApiKey/'' @ [Par P_STRING], n)]" for n
    unfolding rule_routes_def app_toks by simp_all
  moreover have enum: "enumerate 2 [a, b, c, d, e] = [(2, a), (3, b), (4, c), (5, d), (6, e)]" for a b c d e :: bytes
    by simp
  ultimately show ?thesis
    unfolding rule_table_texts app_texts enum
    by (simp only: list.map prod.case concat.simps append.simps)
qed

lemma app_table_distinct: "distinct (map fst (rule_table 2 (app_rules env auth)))"
  by (simp add: app_table)

text \<open>What a URL asks for.\<close>

datatype endpoint = Root | Regist bytes | Send | Recv bytes | Publish bytes

definition token_behind :: "bytes \<Rightarrow> bytes \<Rightarrow> bytes option" where
  "token_behind pre url =
     (let t = drop (length pre) url
      in if take (length pre) url = pre \<and> t \<noteq> [] \<and> CHR ''/'' \<notin> set t then Some t else None)"

definition endpoint_of :: "bytes \<Rightarrow> endpoint option" where
  "endpoint_of url =
     (if url = ''/'' then Some Root
      else if url = ''/gcm/send'' then Some Send
      else case token_behind ''/regist/'' url of Some t \<Rightarrow> Some (Regist t)
      | None \<Rightarrow> (case token_behind ''/gcm/recv/'' url of Some t \<Rightarrow> Some (Recv t)
      | None \<Rightarrow> map_option Publish (token_behind ''/gcm/publish/ServerApiKey/'' url)))"

definition endpoint_method :: "endpoint \<Rightarrow> http_method" where
  "endpoint_method e = (if e = Send then M_POST else M_GET)"

fun endpoint_run ::
  "'d app_env \<Rightarrow> bytes \<Rightarrow> http_request \<Rightarrow> endpoint \<Rightarrow> app_state \<Rightarrow> 'd response handled \<times> app_state"
where
  "endpoint_run env auth req Root st = root_handler st"
| "endpoint_run env auth req (Regist t) st = regist_handler env t st"
| "endpoint_run env auth req Send st = send_handler env auth req st"
| "endpoint_run env auth req (Recv t) st = recv_handler env t st"
| "endpoint_run env auth req (Publish t) st = publish_handler t st"

text \<open>An exception becomes 500.\<close>

fun uncaught :: "'d response handled \<times> 's \<Rightarrow> 'd routed \<times> 's" where
  "uncaught (Throws, st) = (Routed (Responds (response_code 500)), st)"
| "uncaught (r, st) = (Routed r, st)"

lemma match_literals_only:
  "tok_match strtod (map Lit k) url 0 ps = Some q \<longleftrightarrow> url = k \<and> q = ps"
proof -
  have "tok_match strtod (map Lit k @ []) url 0 ps =
      (if piece_is url 0 k then tok_match strtod [] url (0 + length k) ps else None)"
    by (rule tok_match_literals) simp
  then show ?thesis by (auto simp: piece_is_def)
qed

lemma match_segment:
  assumes "n < length url"
  shows "tok_match strtod [Par P_STRING] url n ps =
    (if CHR ''/'' \<notin> set (drop n url) then Some (ps\<lparr>string_params := string_params ps @ [drop n url]\<rparr>) else None)"
proof -
  let ?t = "drop n url" and ?w = "takeWhile (\<lambda>c. c \<noteq> CHR ''/'') (drop n url)"
  have m: "tok_match strtod [Par P_STRING] url n ps =
      (if ?w \<noteq> [] \<and> n + length ?w = length url then Some (ps\<lparr>string_params := string_params ps @ [?w]\<rparr>) else None)"
    using assms by (auto simp: read_param_def read_string_def Let_def)
  show ?thesis
  proof (cases "CHR ''/'' \<in> set ?t")
    case True
    then have "?w \<noteq> ?t" by (metis set_takeWhileD)
    then have "length ?w < length ?t"
      by (metis length_takeWhile_le nat_less_le takeWhile_eq_take take_all order_refl)
    with True assms show ?thesis unfolding m by auto
  next
    case False
    then have "?w = ?t" by (simp add: takeWhile_eq_all_conv) blast
    then show ?thesis unfolding m \<open>?w = ?t\<close> using False assms by simp
  qed
qed

lemma match_token:
  "tok_match strtod (map Lit k @ [Par P_STRING]) url 0 ps = Some q \<longleftrightarrow>
    (\<exists>t. token_behind k url = Some t \<and> q = ps\<lparr>string_params := string_params ps @ [t]\<rparr>)"
proof -
  have m: "tok_match strtod (map Lit k @ [Par P_STRING]) url 0 ps =
      (if piece_is url 0 k then tok_match strtod [Par P_STRING] url (0 + length k) ps else None)"
    by (rule tok_match_literals) simp
  show ?thesis
  proof (cases "length k < length url")
    case False
    then show ?thesis unfolding m by (auto simp: token_behind_def Let_def piece_is_def)
  next
    case True
    then show ?thesis
      unfolding m by (auto simp: token_behind_def Let_def piece_is_def match_segment simp del: tok_match.simps)
  qed
qed

lemma token_behind_iff: "token_behind k url = Some t \<longleftrightarrow> url = k @ t \<and> t \<noteq> [] \<and> CHR ''/'' \<notin> set t"
  by (auto simp: token_behind_def Let_def) (metis append_take_drop_id)

lemma method_bits: "a < 32 \<Longrightarrow> and (push_bit a (1 :: 32 word)) (push_bit b 1) = 0 \<longleftrightarrow> a \<noteq> b"
  by (auto simp: bit_eq_iff bit_simps)

lemma method_num_inj: "method_num m = method_num m' \<longleftrightarrow> m = m'"
  by (cases m; cases m') simp_all

lemma method_disjoint: "method_num m < 32 \<Longrightarrow> and (method_bit m) (method_bit m') = 0 \<longleftrightarrow> m \<noteq> m'"
  by (simp only: method_bit_def method_bits method_num_inj)

lemma method_taken:
  "and (method_bit M_GET) (method_bit m) = 0 \<longleftrightarrow> m \<noteq> M_GET" "and (method_bit M_POST) (method_bit m) = 0 \<longleftrightarrow> m \<noteq> M_POST"
  using method_disjoint [of M_GET m] method_disjoint [of M_POST m] by auto

text \<open>The number of the rule of an endpoint, and what its handler is given.\<close>

fun endpoint_rule :: "endpoint \<Rightarrow> nat" where
  "endpoint_rule Root = 2"
| "endpoint_rule (Regist t) = 3"
| "endpoint_rule Send = 4"
| "endpoint_rule (Recv t) = 5"
| "endpoint_rule (Publish t) = 6"

fun endpoint_strings :: "endpoint \<Rightarrow> bytes list" where
  "endpoint_strings (Regist t) = [t]"
| "endpoint_strings (Recv t) = [t]"
| "endpoint_strings (Publish t) = [t]"
| "endpoint_strings _ = []"

lemma endpoint_of_token:
  assumes "t \<noteq> []" and "CHR ''/'' \<notin> set t"
  shows "endpoint_of (''/regist/'' @ t) = Some (Regist t)" "endpoint_of (''/gcm/recv/'' @ t) = Some (Recv t)"
    "endpoint_of (''/gcm/publish/ServerApiKey/'' @ t) = Some (Publish t)"
  using assms by (simp_all add: endpoint_of_def token_behind_def)

lemma endpoint_of_simps:
  "endpoint_of ''/'' = Some Root"
  "endpoint_of ''/gcm/send'' = Some Send"
  "token_behind ''/regist/'' url = Some t \<Longrightarrow> endpoint_of url = Some (Regist t)"
  "token_behind ''/gcm/recv/'' url = Some t \<Longrightarrow> endpoint_of url = Some (Recv t)"
  "token_behind ''/gcm/publish/ServerApiKey/'' url = Some t \<Longrightarrow> endpoint_of url = Some (Publish t)"
  using endpoint_of_token [of t] by (simp_all only: token_behind_iff) (simp_all add: endpoint_of_def)

lemma app_candidates:
  "(\<exists>ts. (ts, r) \<in> set (rule_table 2 (app_rules env auth)) \<and> tok_match strtod ts url 0 no_params = Some q) \<longleftrightarrow>
   (\<exists>e. endpoint_of url = Some e \<and> r = endpoint_rule e \<and> q = no_params\<lparr>string_params := endpoint_strings e\<rparr>)"
  (is "?L \<longleftrightarrow> ?R")
proof -
  have nil: "string_params no_params = []" "no_params\<lparr>string_params := []\<rparr> = no_params" by (simp_all add: no_params_def)
  have "?L \<longleftrightarrow> (r = 2 \<and> url = ''/'' \<and> q = no_params) \<or>
     (r = 3 \<and> (\<exists>t. token_behind ''/regist/'' url = Some t \<and> q = no_params\<lparr>string_params := [t]\<rparr>)) \<or>
     (r = 4 \<and> url = ''/gcm/send'' \<and> q = no_params) \<or>
     (r = 5 \<and> (\<exists>t. token_behind ''/gcm/recv/'' url = Some t \<and> q = no_params\<lparr>string_params := [t]\<rparr>)) \<or>
     (r = 6 \<and> (\<exists>t. token_behind ''/gcm/publish/ServerApiKey/'' url = Some t \<and> q = no_params\<lparr>string_params := [t]\<rparr>))"
    (is "_ \<longleftrightarrow> ?M")
    unfolding app_table ex_disj_distrib [symmetric]
    by (simp only: list.set insert_iff prod.inject empty_iff conj_disj_distribR ex_disj_distrib
        conj_assoc simp_thms ex_simps match_literals_only match_token nil append_Nil)
  also have "?M \<longleftrightarrow> ?R"
  proof
    show "?M \<Longrightarrow> ?R" by (elim disjE conjE exE) (simp_all add: endpoint_of_simps nil)
    assume ?R
    then obtain e where e: "endpoint_of url = Some e" "r = endpoint_rule e" "q = no_params\<lparr>string_params := endpoint_strings e\<rparr>"
      by blast
    from e(1) show ?M
      unfolding endpoint_of_def e(2,3) by (auto simp only: nil endpoint_rule.simps endpoint_strings.simps
          split: if_splits option.splits)
  qed
  finally show ?thesis .
qed

text \<open>What is served at each endpoint.\<close>

lemma least_rule_unique:
  assumes "least_rule C (i, q)" and "\<And>r p. C r p \<longleftrightarrow> (\<exists>e. ep = Some e \<and> r = f e \<and> p = g e)" and "\<And>e. f e \<noteq> 0"
  shows "case ep of None \<Rightarrow> i = 0 | Some e \<Rightarrow> i = f e \<and> q = g e"
  using assms by (auto simp: least_rule_def split: option.splits)

lemma app_rule_nth:
  "app_rules env auth ! (endpoint_rule e - 2) =
    (case e of Root \<Rightarrow> AddRoute | Regist t \<Rightarrow> AddRouteRegist env | Send \<Rightarrow> AddRouteSend env auth
     | Recv t \<Rightarrow> AddRouteRecv env | Publish t \<Rightarrow> AddRoutePublishApiKey)"
  by (cases e) (simp_all add: app_rules_def)

lemma app_rule_fields:
  fixes env :: "'d app_env" and e :: endpoint and auth :: bytes
  defines "r \<equiv> app_rules env auth ! (endpoint_rule e - 2)"
  shows "rule_methods r = method_bit (endpoint_method e)"
    and "rule_args r = map (\<lambda>s. A_string) (endpoint_strings e)"
    and "the (rule_handler r) req (map Arg_string (endpoint_strings e)) st = endpoint_run env auth req e st"
proof -
  have "rule_methods r = method_bit (endpoint_method e) \<and> rule_args r = map (\<lambda>s. A_string) (endpoint_strings e) \<and>
      the (rule_handler r) req (map Arg_string (endpoint_strings e)) st = endpoint_run env auth req e st"
    by (cases e) (simp_all add: r_def app_rules_def AddRoute_def AddRouteRegist_def AddRouteSend_def AddRouteRecv_def
        AddRoutePublishApiKey_def app_routes set_name_def endpoint_method_def with_string_def
        single_tag_to_type_def del: rule_toks.simps)
  then show "rule_methods r = method_bit (endpoint_method e)" "rule_args r = map (\<lambda>s. A_string) (endpoint_strings e)"
    "the (rule_handler r) req (map Arg_string (endpoint_strings e)) st = endpoint_run env auth req e st" by simp_all
qed

lemma uncaught_iff:
  "(case hr of (Throws, st) \<Rightarrow> x = Some (Routed (Responds (response_code 500)), st)
    | (res, st) \<Rightarrow> x = Some (Routed res, st)) \<longleftrightarrow> x = Some (uncaught hr)"
  by (cases hr; cases "fst hr") auto

lemma app_serves:
  assumes "strtod_ok strtod"
  shows "app_handle strtod env auth req st = Some
    (case endpoint_of (rq_url req) of
       None \<Rightarrow> (Routed (Responds (response_code 404)), st)
     | Some e \<Rightarrow>
         if rq_method req = endpoint_method e then uncaught (endpoint_run env auth req e st)
         else (Routed (Responds (response_code 404)), st))"
proof -
  from router_serves [OF app_rules_complete app_table_distinct assms, where req = req and st = st]
  obtain rt rt' i q where rt: "add_rules (app_rules env auth) new_router = Some (None, rt)"
      "router_validate rt = Some (None, rt')"
    and least: "least_rule (\<lambda>r p. \<exists>ts. (ts, r) \<in> set (rule_table 2 (app_rules env auth)) \<and>
      tok_match strtod ts (rq_url req) 0 no_params = Some p) (i, q)"
    and ends: "ends_at strtod (app_rules env auth) req st rt' (i, q)" by blast
  have i: "case endpoint_of (rq_url req) of None \<Rightarrow> i = 0
      | Some e \<Rightarrow> i = endpoint_rule e \<and> q = no_params\<lparr>string_params := endpoint_strings e\<rparr>"
    by (rule least_rule_unique [OF least app_candidates]) (case_tac e; simp)
  have h: "app_handle strtod env auth req st = router_handle strtod req rt' st"
    using rt by (simp add: app_handle_def)
  show ?thesis
  proof (cases "endpoint_of (rq_url req)")
    case None
    with i ends show ?thesis by (simp add: h ends_at_def)
  next
    case (Some e)
    with i have iq: "i = endpoint_rule e" "q = no_params\<lparr>string_params := endpoint_strings e\<rparr>" by simp_all
    have n: "i \<noteq> 0" "i \<noteq> RULE_SPECIAL_REDIRECT_SLASH"
      by (cases e; simp add: iq(1) RULE_SPECIAL_REDIRECT_SLASH_def)+
    have args: "call_args (map (\<lambda>s. A_string) (endpoint_strings e)) 0 0 0 0 q = Some (map Arg_string (endpoint_strings e))"
      by (cases e) (simp_all add: iq(2) nth_opt_def)
    have m: "and (method_bit (endpoint_method e)) (method_bit (rq_method req)) = 0 \<longleftrightarrow> rq_method req \<noteq> endpoint_method e"
      by (auto simp: endpoint_method_def method_taken)
    note rule = app_rule_fields [of env auth e, folded iq(1)]
    show ?thesis
    proof (cases "rq_method req = endpoint_method e")
      case False
      with ends n show ?thesis by (simp add: ends_at_def rule m h Some)
    next
      case True
      then have "method_bit (endpoint_method e) \<noteq> 0" using m by simp
      with True ends n args obtain vs where "vs = map Arg_string (endpoint_strings e)"
        "case the (rule_handler (app_rules env auth ! (i - 2))) req vs st of
           (Throws, st') \<Rightarrow> router_handle strtod req rt' st = Some (Routed (Responds (response_code 500)), st')
         | (res, st') \<Rightarrow> router_handle strtod req rt' st = Some (Routed res, st')"
        by (auto simp: ends_at_def rule m)
      then show ?thesis using True by (simp add: rule(3) uncaught_iff h Some)
    qed
  qed
qed

text \<open>What the handlers do when nothing fails.\<close>

lemma send_accepts:
  assumes "split_at CHR ''='' (get_header_value (rq_headers req) ''Authorization'') = f # auth' # fs" and "trim auth' = auth"
    and "load_json (rq_body req) = Inr (Some x)" and "send_fields env x = Responds (token, msg)"
    and "cl_state (async_client (app_db st)) = Connected"
  shows "send_handler env auth req st = (Responds (response_code 200),
    st\<lparr>app_effects := app_effects st @ [Post_command (makeCommand (push_items token msg)) (On_lpush token msg)]\<rparr>)"
  using assms async_command_connected [OF assms(5)] by (simp add: send_handler_def AddMsg_def push_items_def)

lemma recv_gives:
  assumes "db_ready (app_db st)" and "encodable v" and "concat chunks = enc v @ tail"
    and "env_write_ec env = None" and "env_reads env = map Received chunks" and "length token \<le> 128"
  shows "\<exists>db. db_ready db \<and> recv_handler env token st =
    (if isOk v
     then (Responds (response_body (recv_body (toArray v))),
       st\<lparr>app_db := db, app_sent := app_sent st @ [makeCommand (range_items token)],
         app_effects := app_effects st @ [Post_command (makeCommand (drop_items token)) On_ltrim]\<rparr>)
     else (Responds (response_code 408),
       st\<lparr>app_db := db, app_sent := app_sent st @ [makeCommand (range_items token)]\<rparr>))"
proof -
  obtain q where q: "db_ready ((app_db st)\<lparr>sync_client := (sync_client (app_db st))\<lparr>redisParser := q\<rparr>\<rparr>)" (is "db_ready ?db")
    "sync_call (env_ndebug env) ''LRANGE'' [token, ''0'', ''-1''] None (map Received chunks) (app_db st) =
      (makeCommand (range_items token), Db_value v, (app_db st)\<lparr>sync_client := (sync_client (app_db st))\<lparr>redisParser := q\<rparr>\<rparr>)"
    using sync_call_reply [OF assms(1-3), of "env_ndebug env" "''LRANGE''" "[token, ''0'', ''-1'']"]
    by (auto simp: range_items_def)
  have c: "cl_state (async_client ?db) = Connected" using q(1) by (simp add: db_ready_def)
  show ?thesis
    using q async_command_connected [OF c] assms(4-6)
    by (intro exI [of _ ?db]) (simp add: recv_handler_def GetMsg_def drop_items_def)
qed

lemma recv_body_strings:
  "recv_body (map rv_bytes ms) =
    ''['' @ concat (map (\<lambda>m. ''{data:'' @ m @ ''},'') (rev ms)) @ ''{data:'' @ [QUOTE, QUOTE] @ ''}]''"
proof -
  have "rev ms = ms" if "\<not> 1 < length ms" using that by (cases ms rule: rev_cases) auto
  then have "(if 1 < length (map rv_bytes ms) then rev (map rv_bytes ms) else map rv_bytes ms) = map rv_bytes (rev ms)"
    by (simp add: rev_map)
  moreover have "map (\<lambda>v. ''{data:'' @ toString v @ ''},'') (map rv_bytes xs) = map (\<lambda>m. ''{data:'' @ m @ ''},'') xs" for xs
    by (simp add: rv_read_defs rv_bytes_def)
  ultimately show ?thesis by (simp only: recv_body_def)
qed

lemma refused_member: "decode_value (Suc (Suc (Suc (Suc n)))) (''[{d'' @ u) = Inr None"
proof -
  have "object_loop (Suc n) [] (CHR ''d'' # u) = Inr None"
    by (simp add: decode_string_def and_then_def consume_def)
  then have "decode_value (Suc (Suc n)) (''{d'' @ u) = Inr None"
    by (simp add: decode_object_with_def consume_def and_then_def is_ws_def del: object_loop.simps)
  then have "list_loop (Suc (Suc (Suc n))) [] (''{d'' @ u) = Inr None"
    by (simp add: and_then_def del: decode_value.simps)
  then show ?thesis
    by (simp add: decode_list_with_def consume_def and_then_def is_ws_def del: list_loop.simps)
qed

lemma refused_text: "load_json (''[{d'' @ u) = Inr None"
proof -
  let ?xs = "''[{d'' @ u @ [NUL]"
  have "ws_skip ?xs = Inr (Some ?xs)" by (simp add: is_ws_def)
  moreover have "decode_value (2 * length ?xs) ?xs = Inr None"
  proof -
    have "2 * length ?xs = Suc (Suc (Suc (Suc (2 * length u + 4))))" by simp
    then show ?thesis by (simp only: refused_member)
  qed
  ultimately show ?thesis
    by (simp only: load_json_def parse_json_def append_assoc and_then_def sum.case option.case)
qed

lemma recv_body_refused: "load_json (recv_body arr) = Inr None"
proof -
  obtain u where "recv_body arr = ''[{d'' @ u"
    by (cases "if 1 < length arr then rev arr else arr") (auto simp: recv_body_def)
  then show ?thesis by (simp only: refused_text)
qed

section \<open>Properties\<close>

text \<open>C9: the program, given one request, answers by the endpoint of its URL: 404 when there is
  none or it is asked with another method, else what its handler does, called with the token of the
  URL, an exception of the handler becoming 500. The setup of the routes never fails, and the search
  of the route always ends.\<close>

theorem request_runs_endpoint:
  assumes "strtod_ok strtod"
  shows "app_handle strtod env auth req st = Some
    (case endpoint_of (rq_url req) of
       None \<Rightarrow> (Routed (Responds (response_code 404)), st)
     | Some e \<Rightarrow>
         if rq_method req = endpoint_method e then uncaught (endpoint_run env auth req e st)
         else (Routed (Responds (response_code 404)), st))"
  using assms by (rule app_serves)

definition sample_env :: "read_event list \<Rightarrow> nat app_env" where
  "sample_env evs = \<lparr>env_ndebug = True, env_write_ec = None, env_reads = evs, env_dbl = (\<lambda>t. Some 0),
     env_fmt = (\<lambda>d. ''0''), env_order = (\<lambda>ks. ks)\<rparr>"

definition sample_state :: app_state where
  "sample_state = \<lparr>app_db = new_db\<lparr>async_client := new_client\<lparr>cl_state := Connected\<rparr>,
     sync_client := new_client\<lparr>cl_state := Connected\<rparr>\<rparr>, app_sent = [], app_effects = []\<rparr>"

definition sample_post :: http_request where
  "sample_post = \<lparr>rq_method = M_POST, raw_url = ''/gcm/send'', rq_url = ''/gcm/send'',
     rq_headers = [(''Authorization'', ''key= k'')],
     rq_body = CHR ''{'' # quoted ''to'' @ '':'' @ quoted ''u'' @ '','' @ quoted ''data'' @ '':'' @ quoted ''m'' @ ''}''\<rparr>"

theorem request_runs_endpoint_witness:
  "app_handle (\<lambda>s. (0, 0, False)) (sample_env []) ''k''
      \<lparr>rq_method = M_GET, raw_url = ''/'', rq_url = ''/'', rq_headers = [], rq_body = []\<rparr> sample_state =
    Some (Routed (Responds (response_body ''This is pinocchio!'')), sample_state)"
  by (subst request_runs_endpoint) (simp_all add: strtod_ok_def endpoint_of_def endpoint_method_def root_handler_def)

text \<open>A message that is posted with the right key while the Redis server is connected.\<close>

lemma send_posts_message:
  assumes "strtod_ok strtod" and "rq_url req = ''/gcm/send''" and "rq_method req = M_POST"
    and "split_at CHR ''='' (get_header_value (rq_headers req) ''Authorization'') = f # auth' # fs" and "trim auth' = auth"
    and "load_json (rq_body req) = Inr (Some x)" and "send_fields env x = Responds (token, msg)"
    and "cl_state (async_client (app_db st)) = Connected"
  shows "app_handle strtod env auth req st = Some (Routed (Responds (response_code 200)),
    st\<lparr>app_effects := app_effects st @ [Post_command (makeCommand [''LPUSH'', token, msg]) (On_lpush token msg)]\<rparr>)"
  using app_serves [OF assms(1), of env auth req st] send_accepts [OF assms(4-8)] assms(2,3)
  by (simp add: endpoint_of_def endpoint_method_def push_items_def)

lemma sample_post_parts:
  "split_at CHR ''='' (get_header_value (rq_headers sample_post) ''Authorization'') = [''key'', '' k'']"
  "trim '' k'' = ''k''"
  "load_json (rq_body sample_post) = Inr (Some (RObject [(''to'', RString ''u'' False), (''data'', RString ''m'' False)]))"
  "send_fields (sample_env evs) (RObject [(''to'', RString ''u'' False), (''data'', RString ''m'' False)]) = Responds (''u'', quoted ''m'')"
  by code_simp+

text \<open>Commands that push to a list.\<close>

fun posts_push :: "(db_handler, unit) effect \<Rightarrow> bool" where
  "posts_push (Post_command cmd (On_lpush token msg)) = True"
| "posts_push _ = False"

definition pushes_of :: "app_state \<Rightarrow> (db_handler, unit) effect list" where
  "pushes_of st = filter posts_push (app_effects st)"

lemma recv_posts_no_push: "GetMsg nd token wec evs db = (out, r, db', es) \<Longrightarrow> filter posts_push es = []"
  by (auto simp: GetMsg_def async_command_def guarded_post_def
      split: prod.splits db_result.splits if_splits validity.splits)

lemma endpoint_run_pushes:
  assumes "endpoint_run env auth req e st = (r, st')" and "pushes_of st' \<noteq> pushes_of st"
  shows "e = Send \<and> (\<exists>f auth' fs. split_at CHR ''='' (get_header_value (rq_headers req) ''Authorization'') = f # auth' # fs \<and>
    trim auth' = auth) \<and> (\<exists>x. load_json (rq_body req) = Inr (Some x))"
proof (cases e)
  case Send
  let ?fs = "split_at CHR ''='' (get_header_value (rq_headers req) ''Authorization'')"
  from assms Send have "2 \<le> length ?fs" "trim (?fs ! 1) = auth" "\<exists>x. load_json (rq_body req) = Inr (Some x)"
    by (auto simp: send_handler_def Let_def split: if_splits sum.splits option.splits)
  moreover from this(1) have "?fs = ?fs ! 0 # ?fs ! 1 # drop 2 ?fs"
    by (cases ?fs; cases "tl ?fs") auto
  ultimately show ?thesis using Send by blast
next
  case (Recv t)
  with assms show ?thesis
    by (auto simp: recv_handler_def pushes_of_def dest: recv_posts_no_push split: if_splits prod.splits)
qed (use assms in \<open>auto simp: root_handler_def regist_handler_def publish_handler_def pushes_of_def split: if_splits prod.splits\<close>)

lemma endpoint_of_Send: "endpoint_of url = Some Send \<Longrightarrow> url = ''/gcm/send''"
  by (auto simp: endpoint_of_def split: if_splits option.splits)

lemma uncaught_state: "snd (uncaught hr) = snd hr"
  by (cases hr rule: uncaught.cases) auto

text \<open>C11: no request makes the program post a message unless it carries the key: whenever a
  request posted a command that pushes to a list, it was a \<^verbatim>\<open>POST\<close> to
  \<^verbatim>\<open>/gcm/send\<close> whose \<^verbatim>\<open>Authorization\<close> header has the key between its first and second
  \<^verbatim>\<open>=\<close>, and whose body is JSON.\<close>

theorem messages_need_the_key:
  assumes "strtod_ok strtod" and "app_handle strtod env auth req st = Some (r, st')"
    and "pushes_of st' \<noteq> pushes_of st"
  shows "rq_url req = ''/gcm/send'' \<and> rq_method req = M_POST \<and>
    (\<exists>f auth' fs. split_at CHR ''='' (get_header_value (rq_headers req) ''Authorization'') = f # auth' # fs \<and> trim auth' = auth) \<and>
    (\<exists>x. load_json (rq_body req) = Inr (Some x))"
proof -
  from app_serves [OF assms(1), of env auth req st] assms(2,3) obtain e where
    e: "endpoint_of (rq_url req) = Some e" "rq_method req = endpoint_method e"
      "uncaught (endpoint_run env auth req e st) = (r, st')"
    by (auto split: option.splits if_splits)
  obtain r' where "endpoint_run env auth req e st = (r', st')"
    using uncaught_state [of "endpoint_run env auth req e st"] e(3) by (metis prod.collapse snd_conv)
  from endpoint_run_pushes [OF this assms(3)] e(1,2) show ?thesis
    by (auto simp: endpoint_method_def dest: endpoint_of_Send)
qed

theorem messages_need_the_key_witness:
  "rq_url sample_post = ''/gcm/send'' \<and> rq_method sample_post = M_POST \<and>
    (\<exists>f auth' fs. split_at CHR ''='' (get_header_value (rq_headers sample_post) ''Authorization'') = f # auth' # fs \<and> trim auth' = ''k'') \<and>
    (\<exists>x. load_json (rq_body sample_post) = Inr (Some x))"
proof -
  have ok: "strtod_ok (\<lambda>s. (0 :: nat, 0, False))" by (simp add: strtod_ok_def)
  have c: "cl_state (async_client (app_db sample_state)) = Connected" by (simp add: sample_state_def new_db_def)
  have p: "rq_url sample_post = ''/gcm/send''" "rq_method sample_post = M_POST" by (simp_all add: sample_post_def)
  have "app_handle (\<lambda>s. (0 :: nat, 0, False)) (sample_env []) ''k'' sample_post sample_state =
    Some (uncaught (send_handler (sample_env []) ''k'' sample_post sample_state))"
    using app_serves [OF ok] p by (simp add: endpoint_of_def endpoint_method_def)
  moreover note send_accepts [OF sample_post_parts c, of "[]"]
  ultimately have "\<exists>r st'. app_handle (\<lambda>s. (0 :: nat, 0, False)) (sample_env []) ''k'' sample_post sample_state = Some (r, st') \<and>
    pushes_of st' \<noteq> pushes_of sample_state" by (simp add: pushes_of_def)
  then show ?thesis using messages_need_the_key [OF ok, of "sample_env []" "''k''" sample_post sample_state] by blast
qed

text \<open>C30: a receive on a connected, empty connection answers with the messages the server gave,
  oldest first, each as it is, and then an empty one, however the reply is cut on its way; it sends
  one \<^verbatim>\<open>LRANGE\<close> and posts one \<^verbatim>\<open>LTRIM\<close> that drops a hundred messages.\<close>

theorem receive_lists_oldest_first:
  assumes "db_ready (app_db st)" and "list_all (\<lambda>m. int (length m) \<le> LONG_MAX) ms" and "int (length ms) \<le> LONG_MAX"
    and "concat chunks = enc (rv_array (map rv_bytes ms)) @ tail"
    and "env_write_ec env = None" and "env_reads env = map Received chunks" and "length token \<le> 128"
  shows "\<exists>db. db_ready db \<and> recv_handler env token st =
    (Responds (response_body
       (''['' @ concat (map (\<lambda>m. ''{data:'' @ m @ ''},'') (rev ms)) @ ''{data:'' @ [QUOTE, QUOTE] @ ''}]'')),
     st\<lparr>app_db := db, app_sent := app_sent st @ [makeCommand [''LRANGE'', token, ''0'', ''-1'']],
       app_effects := app_effects st @ [Post_command (makeCommand [''LTRIM'', token, ''100'', ''-1'']) On_ltrim]\<rparr>)"
proof -
  have "encodable (rv_array (map rv_bytes ms))" using assms(2,3) by (simp add: rv_array_def rv_bytes_def list_all_iff)
  from recv_gives [OF assms(1) this assms(4-7)] show ?thesis
    by (simp add: rv_array_def isOk_def isError_def toArray_def recv_body_strings range_items_def drop_items_def)
qed

theorem receive_lists_oldest_first_witness:
  "\<exists>db. db_ready db \<and> recv_handler (sample_env (map Received [''*2'' @ crlf @ ''$1'', crlf @ ''b'' @ crlf @ ''$1'' @ crlf @ ''a'' @ crlf])) ''u'' sample_state =
    (Responds (response_body
       (''['' @ concat (map (\<lambda>m. ''{data:'' @ m @ ''},'') (rev [''b'', ''a''])) @ ''{data:'' @ [QUOTE, QUOTE] @ ''}]'')),
     sample_state\<lparr>app_db := db, app_sent := app_sent sample_state @ [makeCommand [''LRANGE'', ''u'', ''0'', ''-1'']],
       app_effects := app_effects sample_state @ [Post_command (makeCommand [''LTRIM'', ''u'', ''100'', ''-1'']) On_ltrim]\<rparr>)"
proof (rule receive_lists_oldest_first [where tail = "[]"])
  show "concat [''*2'' @ crlf @ ''$1'', crlf @ ''b'' @ crlf @ ''$1'' @ crlf @ ''a'' @ crlf] = enc (rv_array (map rv_bytes [''b'', ''a''])) @ []"
    by code_simp
qed (simp_all add: db_ready_def sample_state_def sample_env_def new_db_def new_client_def LONG_MAX_def)

text \<open>The answer of a receive is never JSON: the program's own reader refuses it, whatever the
  messages are, since the name \<^verbatim>\<open>data\<close> is not quoted.\<close>

lemma receive_answer_is_not_json: "load_json (recv_body arr) = Inr None"
  by (rule recv_body_refused)

lemma split_at_absent: "x \<notin> set s \<Longrightarrow> split_at x s = [s]"
  by (induction s) auto

text \<open>A request to send whose \<^verbatim>\<open>Authorization\<close> header has no \<^verbatim>\<open>=\<close>, or which has no such
  header, makes the program read past the end of the vector of parts: its behaviour is undefined,
  where 405 is meant.\<close>

lemma send_without_equals_sign:
  assumes "CHR ''='' \<notin> set (get_header_value (rq_headers req) ''Authorization'')"
  shows "send_handler env auth req st = (Undefined, st)"
  using split_at_absent [OF assms] by (simp add: send_handler_def)

lemma send_without_equals_sign_witness:
  "send_handler (sample_env []) ''k'' (sample_post\<lparr>rq_headers := []\<rparr>) sample_state = (Undefined, sample_state)"
  by (rule send_without_equals_sign) (simp add: get_header_value_find)

end
