(* ===== verification/Pinocchio_Server.thy ===== *)
theory Pinocchio_Server
  imports Pinocchio_App Crow_Connection_Service
begin

text \<open>
  The program behind a connection: what \<^verbatim>\<open>Connection\<close> relies on of its \<^verbatim>\<open>Handler\<close>, that the
  program's routes provide it, and requests from the client's bytes to the commands for Redis.
\<close>

section \<open>What a connection relies on\<close>

text \<open>A handler that always ends, whose search does not leave its rules, and that lets no exception out.\<close>

locale request_handler =
  fixes h :: "('d, 's) handler"
  assumes returns: "h req st \<noteq> None"
    and uncorrupted: "h req st \<noteq> Some (Corrupted_trie, st')"
    and caught: "h req st \<noteq> Some (Routed Throws, st')"
begin

lemma conn_handle_stuck:
  assumes "conn_handle cf h True req c st = Inl x" and "c_open c"
  shows "x \<in> {Undefined_access, Handler_aborts, Handler_blocks}"
  using assms returns [of req st] uncorrupted [of req st] caught [of req st]
  by (auto simp: conn_handle_def Let_def split: if_splits option.splits prod.splits routed.splits handled.splits)

lemma conn_event_stuck:
  assumes "conn_event cf h True e c st = Inl x" and "c_open c"
  shows "x \<in> {Undefined_access, Handler_aborts, Handler_blocks}"
proof (cases e)
  case (Message_complete m)
  with assms conn_handle_stuck show ?thesis by (fastforce split: sum.splits)
qed (use assms in \<open>auto split: prod.splits\<close>)

lemma feed_stuck:
  "feed cf h True evs c st = Inl x \<Longrightarrow> c_open c \<Longrightarrow> \<not> c_read_later c \<Longrightarrow>
   x \<in> {Undefined_access, Handler_aborts, Handler_blocks}"
proof (induction evs arbitrary: c st)
  case (Cons e evs)
  show ?case
  proof (cases "conn_event cf h True e c st")
    case (Inl y)
    with Cons.prems conn_event_stuck [OF Inl Cons.prems(2)] show ?thesis by simp
  next
    case (Inr r)
    obtain c1 st1 es1 where r: "r = (c1, st1, es1)" by (cases r)
    from conn_event_within [OF Cons.prems(3) Inr [unfolded r]] Cons.prems(2) have "c_open c1" "\<not> c_read_later c1"
      by (simp_all add: within_read_def)
    with Cons Inr r show ?thesis by (auto split: sum.splits)
  qed
qed simp

lemma on_read_stuck:
  assumes "on_read cf h True res c st = Inl x" and "c_open c" and "\<not> c_read_later c"
  shows "x \<in> {Undefined_access, Handler_aborts, Handler_blocks}"
  using assms feed_stuck by (fastforce simp: on_read_def Let_def split: sum.splits read_result.splits if_splits prod.splits)

end

text \<open>The reader of \<^verbatim>\<open>double\<close>s, cut to the bytes it is given.\<close>

definition clipped :: "(bytes \<Rightarrow> 'd \<times> nat \<times> bool) \<Rightarrow> bytes \<Rightarrow> 'd \<times> nat \<times> bool" where
  "clipped strtod s = (case strtod s of (d, n, e) \<Rightarrow> (d, min n (length s), e))"

lemma clipped_ok: "strtod_ok (clipped strtod)"
  by (auto simp: strtod_ok_def clipped_def split: prod.split)

lemma clipped_id: "strtod_ok strtod \<Longrightarrow> clipped strtod = strtod"
  by (auto simp: strtod_ok_def clipped_def fun_eq_iff min_def split: prod.split) (metis fst_conv snd_conv)

lemma uncaught_fst: "fst (uncaught hr) \<noteq> Routed Throws" "fst (uncaught hr) \<noteq> Corrupted_trie"
  by (cases hr rule: uncaught.cases; simp)+

lemma uncaught_no_throw: "uncaught hr \<noteq> (Routed Throws, st)" "uncaught hr \<noteq> (Corrupted_trie, st)"
  using uncaught_fst [of hr] by auto

interpretation program: request_handler "app_handle (clipped strtod) env auth"
  for strtod :: "bytes \<Rightarrow> 'd \<times> nat \<times> bool" and env :: "'d app_env" and auth
proof
  fix req st st'
  note s = app_serves [OF clipped_ok, of strtod env auth req st]
  show "app_handle (clipped strtod) env auth req st \<noteq> None" by (simp add: s)
  show "app_handle (clipped strtod) env auth req st \<noteq> Some (Corrupted_trie, st')"
    by (simp add: s uncaught_no_throw del: uncaught.simps split: option.split)
  show "app_handle (clipped strtod) env auth req st \<noteq> Some (Routed Throws, st')"
    by (simp add: s uncaught_no_throw del: uncaught.simps split: option.split)
qed

section \<open>The events of a message before its end\<close>

definition ends_message :: "parser_event \<Rightarrow> bool" where
  "ends_message e = (case e of Message_complete m \<Rightarrow> True | _ \<Rightarrow> False)"

lemma feed_front:
  "list_all (\<lambda>e. \<not> ends_message e) es \<Longrightarrow>
   \<exists>c' es'. feed cf h peer es c st = Inr (c', st, es') \<and> c_parser c' = fold gather es (c_parser c)"
proof (induction es arbitrary: c)
  case (Cons e es)
  have "\<exists>c' es'. conn_event cf h peer e c st = Inr (c', st, es') \<and> c_parser c' = gather e (c_parser c)"
    using Cons.prems by (cases e) (auto simp: ends_message_def handle_header_def do_write_def simp del: gather.simps)
  then obtain c1 es1 where "conn_event cf h peer e c st = Inr (c1, st, es1)" "c_parser c1 = gather e (c_parser c)" by blast
  moreover from Cons.IH [of c1] Cons.prems obtain c2 es2 where
    "feed cf h peer es c1 st = Inr (c2, st, es2)" "c_parser c2 = fold gather es (c_parser c1)" by auto
  ultimately show ?case by (simp del: gather.simps)
qed simp

lemma message_front: "list_all (\<lambda>e. \<not> ends_message e) (message_events us hs v bs)"
  by (auto simp: message_events_def header_events_def list_all_iff ends_message_def)

lemma feed_long_query:
  assumes "list_all pieces_ok hs" and "256 < query_pairs (concat us)"
  shows "feed cf h peer (events_of (us, hs, bs, m) @ later) c st = Inl Undefined_access"
proof -
  obtain c' es' where f: "feed cf h peer (message_events us hs (1, 1) bs) c st = Inr (c', st, es')"
    "c_parser c' = fold gather (message_events us hs (1, 1) bs) (c_parser c)"
    using feed_front [OF message_front [of us hs "(1, 1)" bs], of cf h peer c st] by blast
  then have "ps_raw_url (c_parser c') = concat us" by (simp add: message_gathered [OF assms(1)])
  moreover have "query_string_of (concat us) = Inl Bad_range" using query_table_bounds assms(2) by blast
  ultimately have "on_message_complete (c_parser c') = Inl Bad_range" by (simp add: on_message_complete_def)
  with f(1) show ?thesis by (simp add: events_of_def feed_append)
qed

section \<open>Properties\<close>


definition sample_cf :: "nat server_config" where
  "sample_cf = \<lparr>cf_fmt = (\<lambda>d. ''0''), cf_name = ''PINOCCHIO'', cf_date = ''d''\<rparr>"

definition sample_start :: "(nat, app_state) conn_system" where
  "sample_start = started sample_state"

lemma sample_start_idle: "idle_system sample_start" "idle_conn (conn sample_start)" "app sample_start = sample_state"
  by (simp_all add: sample_start_def started_idle started_idle_conn)
    (simp add: started_def conn_start_def do_read_def start_deadline_def)

definition keyless_send :: message where
  "keyless_send = ([''/gcm/send''], [([''Host''], [''h''])], [], M_POST)"

lemma keyless_send_plain: "plain_message keyless_send" "rq_url (request_of keyless_send) = ''/gcm/send''"
  "rq_method (request_of keyless_send) = M_POST" "get_header_value (rq_headers (request_of keyless_send)) ''Authorization'' = []"
  by code_simp+

lemma no_strtod_ok: "strtod_ok (\<lambda>s. (0, 0, False))"
  by (simp add: strtod_ok_def)

lemma keyless_send_read:
  "on_read sample_cf (app_handle (\<lambda>s. (0, 0, False)) (sample_env []) ''k'') True (Got (events_of keyless_send) True)
     (conn sample_start) sample_state = Inl Undefined_access"
proof -
  let ?h = "app_handle (\<lambda>s. (0, 0, False)) (sample_env []) ''k''" and ?c = "conn sample_start"
  have "send_handler (sample_env []) ''k'' (request_of keyless_send) sample_state = (Undefined, sample_state)"
    by (simp add: send_handler_def keyless_send_plain)
  then have h: "?h (request_of keyless_send) sample_state = Some (Routed Undefined, sample_state)"
    using app_serves [OF no_strtod_ok, of "sample_env []" "''k''" "request_of keyless_send" sample_state]
    by (simp add: endpoint_of_def endpoint_method_def keyless_send_plain)
  have c: "idle_conn ?c" by (rule sample_start_idle)
  from feed_message [OF keyless_send_plain(1), of sample_cf ?h True ?c sample_state] obtain p where
    p: "http_version p = (1, 1)" "feed sample_cf ?h True (events_of keyless_send) ?c sample_state =
      conn_handle sample_cf ?h True (request_of keyless_send) (?c\<lparr>c_parser := p\<rparr>) sample_state" by blast
  have "conn_handle sample_cf ?h True (request_of keyless_send) (?c\<lparr>c_parser := p\<rparr>) sample_state = Inl Undefined_access"
    using h c p(1) by (simp add: conn_handle_def flags_of [OF keyless_send_plain(1)] idle_conn_def Let_def del: One_nat_def)
  with p(2) show ?thesis by (simp add: on_read_def)
qed


text \<open>A client that posts a message with the right key over an idle connection, while the Redis
  server is connected, gets the answer 200 on the wire; the program has then posted exactly one
  command more, the \<^verbatim>\<open>LPUSH\<close> of the message to the list of its token, and the connection is idle
  again. It does not matter how the URL, the headers and the body were cut into pieces.\<close>

lemma message_sent_over_connection:
  assumes "strtod_ok strtod" and "idle_system s" and "plain_message msg" and "\<not> asks_to_close (request_of msg)"
    and "rq_url (request_of msg) = ''/gcm/send''" and "rq_method (request_of msg) = M_POST"
    and "split_at CHR ''='' (get_header_value (rq_headers (request_of msg)) ''Authorization'') = f # key # fs"
    and "trim key = auth" and "load_json (rq_body (request_of msg)) = Inr (Some x)"
    and "send_fields env x = Responds (token, text)" and "cl_state (async_client (app_db (app s))) = Connected"
  shows "\<exists>s'. conn_steps cf (app_handle strtod env auth) s s' \<and> idle_system s' \<and>
    wire s' = wire s @ [answer cf (request_of msg) (response_code 200)] \<and>
    app s' = (app s)\<lparr>app_effects := app_effects (app s) @
      [Post_command (makeCommand [''LPUSH'', token, text]) (On_lpush token text)]\<rparr>"
  using serve_message [OF assms(2-4), where h = "app_handle strtod env auth" and r = "response_code 200" and cf = cf]
    send_posts_message [OF assms(1) assms(5-11)]
  by (auto simp: response_code_def new_response_def)

text \<open>A request whose URL has more than 256 parameters makes the read's callback write behind the
  table of parameters, whatever else is in the request, in the state of the connection and in the
  program.\<close>

lemma long_query_undefined:
  assumes "list_all pieces_ok hs" and "256 < query_pairs (concat us)"
  shows "on_read cf h peer (Got (events_of (us, hs, bs, m) @ later) ok) c st = Inl Undefined_access"
  by (simp add: on_read_def feed_long_query [OF assms])

lemma long_query_undefined_witness:
  "on_read sample_cf hello True (Got (events_of ([''/?'', replicate 256 CHR ''&''], [], [], M_GET) @ []) True)
     new_connection () = Inl Undefined_access"
  by (rule long_query_undefined) (simp, code_simp)

end
