(* ===== verification/Pinocchio_Wire.thy ===== *)
theory Pinocchio_Wire
  imports Http_Service Pinocchio_Server
begin

text \<open>
  The program from the bytes that a client sends to the command for the server of Redis and the bytes
  of the answer.
\<close>

text \<open>C16: A client that posts a message with the right key gets the answer 200, and the program has then posted exactly one
  command more, the \<^verbatim>\<open>LPUSH\<close> of the message to the list of its token: from the bytes of the request, however they are cut
  into buffers, through the parser, the connection, the router and the handler, to the bytes of the command and of the answer.\<close>

theorem posted_bytes_reach_redis:
  assumes "strtod_ok strtod" and "idle_system s" and "ready p" and "sendable rq" and "concat bs = text_of rq" "[] \<notin> set bs"
    and "rq_url (request_of (message_of_parts rq)) = ''/gcm/send''" and "rq_method (request_of (message_of_parts rq)) = M_POST"
    and "split_at CHR ''='' (get_header_value (rq_headers (request_of (message_of_parts rq))) ''Authorization'') = f # key # fs"
    and "trim key = auth" and "load_json (rq_body (request_of (message_of_parts rq))) = Inr (Some x)"
    and "send_fields env x = Responds (tok, msg)" and "cl_state (async_client (app_db (app s))) = Connected"
  shows "\<exists>q s'. exchange cf (app_handle strtod env auth) (p, s) bs = Some (q, s') \<and> ready q \<and> idle_system s' \<and>
    wire s' = wire s @ [answer cf (request_of (message_of_parts rq)) (response_code 200)] \<and>
    app s' = (app s)\<lparr>app_effects := app_effects (app s) @
      [Post_command (makeCommand [''LPUSH'', tok, msg]) (On_lpush tok msg)]\<rparr>"
  using exchange_request [where cf = cf and h = "app_handle strtod env auth" and r = "response_code 200" and s = s and p = p and rq = rq and bs = bs,
      OF assms(2-6)] send_posts_message [OF assms(1) assms(7-13)]
  by (auto simp: response_code_def new_response_def)

definition posted_rq :: request_parts where
  "posted_rq = (HTTP_POST, ''/gcm/send'', [(''Host'', ''h''), (''Authorization'', ''key= k'')], rq_body sample_post)"

lemma dec_of_21: "dec_of_nat 21 = ''21''"
  by (simp add: dec_of_nat.simps digit_char_def char_of_def bit_Suc_0_iff)

lemma posted_body: "length (rq_body sample_post) = 21" "rq_body sample_post \<noteq> []"
  by code_simp+

lemma message_posted: "message_of_parts posted_rq =
   ([''/gcm/send''], [([''Host''], [''h'']), ([''Authorization''], [''key= k'']), ([''Content-Length''], [''21''])],
    [rq_body sample_post], M_POST)"
  by (simp add: message_of_parts_def posted_rq_def message_of_def all_headers_def length_header_def posted_body dec_of_21)

lemma posted_url: "url_ok ''/gcm/send''"
  by (simp add: url_ok_def ends_url_def parse_url_char.simps is_url_char_def is_alpha_def lower_def char_of_def bit_Suc_0_iff)

lemma posted_headers: "list_all header_ok [(''Host'', ''h''), (''Authorization'', ''key= k'')]"
  "\<not> list_ex connection_header [(''Host'', ''h''), (''Authorization'', ''key= k'')]"
  by (simp_all add: header_ok_def connection_header_def token_name_def value_ok_def plain_value_def lower_name_def token_def
      is_alpha_def lower_def is_digit_def char_of_def bit_Suc_0_iff)

lemma posted_length:
  "length (request_head HTTP_POST ''/gcm/send'' [(''Host'', ''h''), (''Authorization'', ''key= k'')] (rq_body sample_post)) \<le> HTTP_MAX_HEADER_SIZE"
  by (simp add: request_head_def request_line_def version_line_def all_headers_def header_text_def length_header_def posted_body
      dec_of_21 HTTP_MAX_HEADER_SIZE_def)

lemma posted_rq_parts:
  "plain_message (message_of_parts posted_rq)" "\<not> asks_to_close (request_of (message_of_parts posted_rq))"
  "rq_url (request_of (message_of_parts posted_rq)) = ''/gcm/send''" "rq_method (request_of (message_of_parts posted_rq)) = M_POST"
  "split_at CHR ''='' (get_header_value (rq_headers (request_of (message_of_parts posted_rq))) ''Authorization'') = ''key'' # '' k'' # []"
  "rq_body (request_of (message_of_parts posted_rq)) = rq_body sample_post"
  unfolding message_posted by code_simp+

lemma posted_rq_sendable: "sendable posted_rq"
  using posted_url posted_headers posted_length posted_rq_parts(1,2) posted_body(1)
  by (simp add: sendable_def posted_rq_def)

theorem posted_bytes_reach_redis_witness:
  "\<exists>q s'. exchange sample_cf (app_handle (\<lambda>s. (0, 0, False)) (sample_env []) ''k'') (http_parser_init HTTP_REQUEST, sample_start)
       [take 7 (text_of posted_rq), drop 7 (text_of posted_rq)] = Some (q, s') \<and> ready q \<and> idle_system s' \<and>
     wire s' = wire sample_start @ [answer sample_cf (request_of (message_of_parts posted_rq)) (response_code 200)] \<and>
     app s' = (app sample_start)\<lparr>app_effects := app_effects (app sample_start) @
       [Post_command (makeCommand [''LPUSH'', ''u'', quoted ''m'']) (On_lpush ''u'' (quoted ''m''))]\<rparr>"
proof -
  have t: "7 < length (text_of posted_rq)"
    by (simp add: text_of_def posted_rq_def request_text_def request_head_def request_line_def version_line_def)
  show ?thesis
    by (rule posted_bytes_reach_redis [OF no_strtod_ok sample_start_idle(1) ready_init posted_rq_sendable _ _ posted_rq_parts(3-5)
          sample_post_parts(2) _ sample_post_parts(4)])
      (use t in \<open>auto simp: posted_rq_parts(6) sample_post_parts(3) sample_start_idle sample_state_def new_db_def\<close>)
qed

end
