(* ===== verification/Spec2Isabelle.thy ===== *)
theory Spec2Isabelle
  imports Redis_Sync Redis_System Crow_Json_Roundtrip Mailbox Crow_Server Mustache_Meaning Pinocchio_Wire
begin

text \<open>
  Pinocchio is a push server: clients register a token, post messages for a token with the key of
  the server, and fetch the messages of a token; the messages lie in lists of a Redis server. The
  program is three layers, each of which is modelled from its sources and composed with the next.

  \<^bold>\<open>The client of Redis\<close> (\<^verbatim>\<open>src/redis_*.cpp\<close>, \<^verbatim>\<open>include/redis\<close>).
  \<^item> \<^verbatim>\<open>Redis_Value\<close>: \<^verbatim>\<open>RedisValue\<close>. \<^verbatim>\<open>Redis_Parser\<close>: \<^verbatim>\<open>RedisParser\<close> with its states, its stack of values and
    its methods; an accepted byte, a refused one and a failed assertion are results of a step.
  \<^item> \<^verbatim>\<open>Resp_Automaton\<close> states what the parser should do, a byte at a time; \<^verbatim>\<open>Resp_Refinement\<close> shows that
    \<^verbatim>\<open>parse\<close> on any buffer is a run of that automaton, that it always returns without a failed assertion,
    and that cutting a buffer makes no difference. \<^verbatim>\<open>Resp_Codec\<close> is the format of replies as an encoder,
    and the round trip through the parser. The fuel of the mutual recursion of \<^verbatim>\<open>parse\<close> is one more than the
    bytes of the buffer and the arrays that are open, and the refinement shows that it never runs out.
  \<^item> \<^verbatim>\<open>Redis_Client\<close>: the state that \<^verbatim>\<open>RedisClientImpl\<close> keeps, \<^verbatim>\<open>makeCommand\<close>. \<^verbatim>\<open>Redis_Sync\<close>: one command and
    its reply, read by read. \<^verbatim>\<open>Redis_Async\<close>: the queue of writes, the queue of handlers, the subscriptions,
    the handlers of reads and writes; what they start is returned as effects. \<^verbatim>\<open>Redis_System\<close>: these
    operations and their completions as a step relation; the invariants say that commands are sent in
    order, one at a time, and that replies meet the handlers of their commands.

  \<^bold>\<open>The web server\<close> (\<^verbatim>\<open>include/crow\<close>).
  \<^item> \<^verbatim>\<open>Crow_Json\<close>: the reader of \<^verbatim>\<open>json.h\<close> over a buffer that ends with a NUL, byte by byte, reads behind it
    being an error of the model, and the writer. \<^verbatim>\<open>Crow_Json_Safety\<close>: the reader ends and stays in the buffer,
    with the grammar of numbers. \<^verbatim>\<open>Crow_Json_Value\<close>: \<^verbatim>\<open>rvalue\<close> and \<^verbatim>\<open>wvalue\<close>, conversions and lookups.
    \<^verbatim>\<open>Crow_Json_Roundtrip\<close>: what is written is read back. The fuel of the reader is twice the bytes.
  \<^item> \<^verbatim>\<open>Crow_Query\<close>: \<^verbatim>\<open>query_string.h\<close> over a memory of bytes that is changed in place.
  \<^item> \<^verbatim>\<open>Crow_Http\<close>: headers, requests, responses, and the bytes of an answer. \<^verbatim>\<open>Crow_Parser\<close>: \<^verbatim>\<open>parser.h\<close>, the
    callbacks that gather a request.
  \<^item> \<^verbatim>\<open>Crow_Routing\<close>: \<^verbatim>\<open>routing.h\<close> and \<^verbatim>\<open>utility.h\<close>, the trie of routes as a vector of nodes with indices.
    \<^verbatim>\<open>Crow_Routing_Search\<close>, \<^verbatim>\<open>Crow_Routing_Build\<close>, \<^verbatim>\<open>Crow_Routing_Optimise\<close>: searching, adding and optimising
    against the set of token paths that a trie holds. \<^verbatim>\<open>Crow_Router\<close>: the whole router is a table of
    rules searched for the first match. The fuel of the search is the length of the URL and one, that of
    the optimisation the square of the number of nodes; both are shown to be enough.
  \<^item> \<^verbatim>\<open>Crow_Timer\<close>: \<^verbatim>\<open>dumb_timer_queue.h\<close> against a schedule of numbered timers, with the wrap-around of keys.
  \<^item> \<^verbatim>\<open>Crow_Connection\<close>: \<^verbatim>\<open>http_connection.h\<close>: the callbacks of socket, parser and timer as operations that
    return effects, and the connection with its environment as a step relation.
    \<^verbatim>\<open>Crow_Connection_Safety\<close>: the flags of reading and writing, and when the object frees itself.
    \<^verbatim>\<open>Crow_Connection_Service\<close>: what a client gets for its requests, in turn, in one read, and at the end.

  \<^bold>\<open>The program\<close> (\<^verbatim>\<open>src\<close>).
  \<^item> \<^verbatim>\<open>Pinocchio_Config\<close>: \<^verbatim>\<open>config.cpp\<close> and the settings of \<^verbatim>\<open>main.cpp\<close>. \<^verbatim>\<open>Database_Manager\<close>: \<^verbatim>\<open>database_manager.cpp\<close>
    over both clients. \<^verbatim>\<open>Mailbox\<close>: its commands over the lists of a server of Redis, whose
    commands are a specification of their documented behaviour.
  \<^item> \<^verbatim>\<open>Pinocchio_App\<close>: the five routes and handlers of \<^verbatim>\<open>pinocchio.cpp\<close> over the router.
    \<^verbatim>\<open>Pinocchio_Server\<close>: the program behind a connection, from a client's message to the command for
    Redis. The locale there is what a connection relies on of its handler; the program provides it.

  What the sources call and this library does not define is an argument: the reader of doubles
  (with the law that it stays in its bytes), the format of doubles, the order of a hash map, what a read
  of a socket gives, the files of the configuration, the clock.

  Not modelled: the log (\<^verbatim>\<open>crow/logging.h\<close>, \<^verbatim>\<open>src/logger.cpp\<close>, the vendored \<^verbatim>\<open>spdlog\<close>), which is
  output only; the threads and acceptors of \<^verbatim>\<open>http_server.h\<close>, the sockets of \<^verbatim>\<open>socket_adaptors.h\<close> and the
  facade \<^verbatim>\<open>crow.h\<close>; middlewares, of which the program has none; \<^verbatim>\<open>mustache.h\<close>, which nothing includes;
  dynamic rules except for the check of their handler's arguments.
\<close>

end
